(* ===== verification/Dime_Prelude.thy ===== *)
theory Dime_Prelude
  imports Main "HOL-Library.Word"
begin

text \<open>
  Shared vocabulary of the development: the machine types of the C sources (64-bit
  \<^verbatim>\<open>size_t\<close> arithmetic with its wrap-around written out, bytes as 8-bit words), the memory
  blocks that \<^verbatim>\<open>malloc\<close>, \<^verbatim>\<open>realloc\<close>, \<^verbatim>\<open>memcpy\<close> and \<^verbatim>\<open>memmove\<close> work on, and the
  view of a circular array as a list.  The two ring structures of the server, the deque of
  message pointers and the byte ring buffer, are verified with the lemmas proved here.
\<close>

unbundle bit_operations_syntax

section \<open>Machine types\<close>

type_synonym byte = "8 word"
type_synonym size_t = nat

named_theorems size_arith \<open>size_t arithmetic that does not wrap\<close>
named_theorems ring_simps \<open>rewriting circular arrays as lists\<close>

text \<open>\<^verbatim>\<open>size_t\<close> is 64 bits wide; sums, differences and products wrap.\<close>

definition sz_add :: "size_t \<Rightarrow> size_t \<Rightarrow> size_t" where
  "sz_add a b = (a + b) mod 2 ^ 64"

definition sz_sub :: "size_t \<Rightarrow> size_t \<Rightarrow> size_t" where
  "sz_sub a b = (2 ^ 64 + a - b) mod 2 ^ 64"

definition sz_mul :: "size_t \<Rightarrow> size_t \<Rightarrow> size_t" where
  "sz_mul a b = (a * b) mod 2 ^ 64"

definition SIZE_MAX :: size_t where
  "SIZE_MAX = 2 ^ 64 - 1"

text \<open>
  The conversion the usual arithmetic conversions of C apply when a signed 64-bit value meets
  an unsigned one: \<^verbatim>\<open>(size_t)x\<close>.
\<close>

definition ssize_to_size :: "int \<Rightarrow> size_t" where
  "ssize_to_size x = nat (x mod 2 ^ 64)"

text \<open>
  An allocation either succeeds or returns \<^verbatim>\<open>NULL\<close>; which of the two is decided by the
  environment, here the Boolean \<open>ok\<close>.  No block can be larger than the user address space
  of the platform the server is built for (47 bits on x86-64), so a larger request fails
  whatever the environment says.
\<close>

definition ALLOC_MAX :: size_t where
  "ALLOC_MAX = 2 ^ 47"

definition alloc_ok :: "bool \<Rightarrow> size_t \<Rightarrow> bool" where
  "alloc_ok ok n \<longleftrightarrow> ok \<and> n \<le> ALLOC_MAX"

section \<open>Memory blocks\<close>

text \<open>
  A block of memory is a list of cells; \<open>None\<close> is a cell whose contents are indeterminate.
  \<^verbatim>\<open>malloc\<close> gives indeterminate cells, \<^verbatim>\<open>realloc\<close> keeps the common prefix, \<^verbatim>\<open>memcpy\<close> and
  \<^verbatim>\<open>memmove\<close> overwrite a segment.  A write past the end of the block would make the list
  longer, which the invariants of the ring structures exclude.
\<close>

definition malloc_arr :: "size_t \<Rightarrow> 'a option list" where
  "malloc_arr n = replicate n None"

definition realloc_arr :: "size_t \<Rightarrow> 'a option list \<Rightarrow> 'a option list" where
  "realloc_arr n xs = take n xs @ replicate (n - length xs) None"

definition memcpy_at :: "size_t \<Rightarrow> 'a list \<Rightarrow> 'a list \<Rightarrow> 'a list" where
  "memcpy_at off src dst = take off dst @ src @ drop (off + length src) dst"

definition memmove_in :: "size_t \<Rightarrow> size_t \<Rightarrow> size_t \<Rightarrow> 'a list \<Rightarrow> 'a list" where
  "memmove_in to from n xs = memcpy_at to (take n (drop from xs)) xs"

section \<open>Circular arrays\<close>

text \<open>The \<open>n\<close> cells of the circular array \<open>xs\<close> that start at index \<open>b\<close>.\<close>

definition ring_list :: "'a list \<Rightarrow> nat \<Rightarrow> nat \<Rightarrow> 'a list" where
  "ring_list xs b n = map (\<lambda>i. xs ! ((b + i) mod length xs)) [0..<n]"

section \<open>Callback loops\<close>

text \<open>
  The specification of the two \<open>apply\<close> functions: call \<open>f\<close> on each element in turn, threading
  its state, until it returns false.
\<close>

fun fold_until :: "('a \<Rightarrow> 's \<Rightarrow> bool \<times> 's) \<Rightarrow> 'a list \<Rightarrow> 's \<Rightarrow> 's" where
  "fold_until f [] s = s"
| "fold_until f (x # xs) s = (case f x s of (False, s') \<Rightarrow> s' | (True, s') \<Rightarrow> fold_until f xs s')"

section \<open>Lemmas\<close>

lemma map_Some_the [simp]: "None \<notin> set xs \<Longrightarrow> map Some (map the xs) = xs"
  by (induction xs) auto

lemma sz_add_small [size_arith]: "a + b < 2 ^ 64 \<Longrightarrow> sz_add a b = a + b"
  by (simp add: sz_add_def)

lemma sz_mul_small [size_arith]: "a * b < 2 ^ 64 \<Longrightarrow> sz_mul a b = a * b"
  by (simp add: sz_mul_def)

lemma sz_sub_small [size_arith]: "b \<le> a \<Longrightarrow> a < 2 ^ 64 \<Longrightarrow> sz_sub a b = a - b"
  unfolding sz_sub_def by (metis Nat.add_diff_assoc diff_less less_imp_diff_less mod_add_self1 mod_less)

lemma sz_sub_zero_one: "sz_sub 0 1 = SIZE_MAX"
  by (simp add: sz_sub_def SIZE_MAX_def)

lemma sz_add_SIZE_MAX_one: "sz_add SIZE_MAX 1 = 0"
  by (simp add: sz_add_def SIZE_MAX_def)

lemma ssize_to_size_nonneg: "0 \<le> x \<Longrightarrow> x < 2 ^ 64 \<Longrightarrow> ssize_to_size x = nat x"
  by (simp add: ssize_to_size_def)

lemma ssize_to_size_minus_one: "ssize_to_size (-1) = SIZE_MAX"
  by (simp add: ssize_to_size_def SIZE_MAX_def)

lemma alloc_okD: "alloc_ok ok n \<Longrightarrow> ok \<and> n \<le> ALLOC_MAX"
  by (simp add: alloc_ok_def)

lemma length_malloc_arr [simp]: "length (malloc_arr n) = n"
  by (simp add: malloc_arr_def)

lemma length_realloc_arr [simp]: "length (realloc_arr n xs) = n"
  by (simp add: realloc_arr_def)

lemma nth_realloc_arr: "i < n \<Longrightarrow> i < length xs \<Longrightarrow> realloc_arr n xs ! i = xs ! i"
  by (simp add: realloc_arr_def nth_append)

lemma length_memcpy_at:
  "off + length src \<le> length dst \<Longrightarrow> length (memcpy_at off src dst) = length dst"
  by (simp add: memcpy_at_def)

lemma nth_memcpy_at:
  assumes "off + length src \<le> length dst" and "i < length dst"
  shows "memcpy_at off src dst ! i =
    (if off \<le> i \<and> i < off + length src then src ! (i - off) else dst ! i)"
  using assms by (auto simp: memcpy_at_def nth_append min_def)

lemma length_memmove_in:
  assumes "to + n \<le> length xs" and "from + n \<le> length xs"
  shows "length (memmove_in to from n xs) = length xs"
proof -
  have "length (take n (drop from xs)) = n" using assms by simp
  then show ?thesis using assms by (simp add: memmove_in_def length_memcpy_at)
qed

lemma nth_memmove_in:
  assumes "to + n \<le> length xs" and "from + n \<le> length xs" and "i < length xs"
  shows "memmove_in to from n xs ! i =
    (if to \<le> i \<and> i < to + n then xs ! (from + (i - to)) else xs ! i)"
proof -
  have "length (take n (drop from xs)) = n" using assms by simp
  then show ?thesis using assms by (auto simp: memmove_in_def nth_memcpy_at)
qed

lemma length_ring_list [simp]: "length (ring_list xs b n) = n"
  by (simp add: ring_list_def)

lemma nth_ring_list [simp]: "i < n \<Longrightarrow> ring_list xs b n ! i = xs ! ((b + i) mod length xs)"
  by (simp add: ring_list_def)

lemma ring_list_0 [simp]: "ring_list xs b 0 = []"
  by (simp add: ring_list_def)

lemma ring_list_append [ring_simps]:
  "ring_list xs b (m + n) = ring_list xs b m @ ring_list xs ((b + m) mod length xs) n"
proof (rule nth_equalityI)
  fix i assume i: "i < length (ring_list xs b (m + n))"
  have "((b + m) mod length xs + (i - m)) mod length xs = (b + i) mod length xs" if "\<not> i < m"
  proof -
    have "((b + m) mod length xs + (i - m)) mod length xs = (b + m + (i - m)) mod length xs"
      by (rule mod_add_left_eq)
    then show ?thesis using that by simp
  qed
  with i show "ring_list xs b (m + n) ! i =
      (ring_list xs b m @ ring_list xs ((b + m) mod length xs) n) ! i"
    by (simp add: nth_append)
qed simp

lemma ring_list_Suc_right:
  "ring_list xs b (Suc n) = ring_list xs b n @ [xs ! ((b + n) mod length xs)]"
  by (simp add: ring_list_def)

lemma ring_list_Suc_left:
  assumes "b < length xs"
  shows "ring_list xs b (Suc n) = xs ! b # ring_list xs ((b + 1) mod length xs) n"
  using ring_list_append [of xs b 1 n] assms by (simp add: ring_list_def)

lemma ring_list_flat:
  assumes "b + n \<le> length xs"
  shows "ring_list xs b n = take n (drop b xs)"
proof (cases "n = 0")
  case False
  then show ?thesis using assms by (auto intro!: nth_equalityI)
qed simp

lemma ring_list_wrapped:
  assumes "b < length xs" and "length xs - b \<le> n" and "n \<le> length xs"
  shows "ring_list xs b n = drop b xs @ take (n - (length xs - b)) xs"
proof -
  have n: "n = (length xs - b) + (n - (length xs - b))" using assms by simp
  have "ring_list xs b n = ring_list xs b (length xs - b) @
      ring_list xs ((b + (length xs - b)) mod length xs) (n - (length xs - b))"
    by (subst n) (rule ring_list_append)
  then show ?thesis using assms by (simp add: ring_list_flat)
qed

text \<open>
  Growing a circular array.  When its used part does not wrap, \<^verbatim>\<open>realloc\<close> alone keeps it;
  when it does, the part from the start index to the old end of the block is moved to the new
  end of the block, as the two ring structures of the server do.
\<close>

lemma ring_list_realloc_flat:
  assumes "b + n \<le> length xs" and "length xs \<le> c"
  shows "ring_list (realloc_arr c xs) b n = ring_list xs b n"
proof -
  have "take n (drop b (realloc_arr c xs)) = take n (drop b xs)"
    using assms by (simp add: realloc_arr_def)
  then show ?thesis using assms by (simp add: ring_list_flat)
qed

lemma ring_list_realloc_wrapped:
  assumes "b < length xs" and "length xs \<le> c" and "length xs - b \<le> n" and "n \<le> length xs"
  shows "ring_list (memmove_in (b + (c - length xs)) b (length xs - b) (realloc_arr c xs))
    (b + (c - length xs)) n = ring_list xs b n"
proof -
  obtain d where c: "c = length xs + d" using assms(2) by (metis le_iff_add)
  let ?ys = "memmove_in (b + d) b (length xs - b) (realloc_arr c xs)"
  have len: "length ?ys = c" using assms(1) c by (simp add: length_memmove_in)
  have "ring_list ?ys (b + d) n = ring_list xs b n"
  proof (rule nth_equalityI)
    fix i assume "i < length (ring_list ?ys (b + d) n)"
    then have i: "i < n" by simp
    show "ring_list ?ys (b + d) n ! i = ring_list xs b n ! i"
    proof (cases "i < length xs - b")
      case True
      then have lt: "b + i < length xs" by linarith
      then have "(b + d + i) mod c = b + d + i" and "(b + i) mod length xs = b + i"
        using c by auto
      moreover have "?ys ! (b + d + i) = realloc_arr c xs ! (b + i)"
        using lt assms(1) c by (simp add: nth_memmove_in)
      ultimately show ?thesis using i len True c by (simp add: nth_realloc_arr)
    next
      case False
      then have "(b + d + i) mod c = b + i - length xs" and "(b + i) mod length xs = b + i - length xs"
        using assms i c by (auto simp: mod_if)
      moreover have lt: "b + i - length xs < b" using False assms i by linarith
      moreover have "?ys ! (b + i - length xs) = realloc_arr c xs ! (b + i - length xs)"
        using lt assms(1) c by (subst nth_memmove_in) auto
      moreover have "b + i - length xs < length xs" using lt assms(1) by linarith
      ultimately show ?thesis using i len c by (simp add: nth_realloc_arr)
    qed
  qed simp
  then show ?thesis using c by simp
qed

text \<open>Two indices at different distances from \<open>b\<close> below the length are different cells.\<close>

lemma mod_add_inj:
  fixes b i j c :: nat
  assumes "i < c" and "j < c" and "(b + i) mod c = (b + j) mod c"
  shows "i = j"
proof -
  have "i' = j'" if "i' \<le> j'" "j' < c" "(b + i') mod c = (b + j') mod c" for i' j' :: nat
  proof -
    have "c dvd (b + j') - (b + i')" using that by (metis mod_eq_dvd_iff_nat add_left_mono)
    then have "c dvd j' - i'" by simp
    then show ?thesis using that by (metis dvd_imp_le diff_is_0_eq diff_less_mono2 le_antisym
      less_imp_diff_less linorder_not_less neq0_conv)
  qed
  then show ?thesis using assms by (metis nat_le_linear)
qed

text \<open>Writing outside the used part of a circular array does not change that part.\<close>

lemma ring_list_update_outside:
  assumes "n \<le> j" and "j < length xs"
  shows "ring_list (xs[(b + j) mod length xs := v]) b n = ring_list xs b n"
proof (rule nth_equalityI)
  fix i assume i: "i < length (ring_list (xs[(b + j) mod length xs := v]) b n)"
  then have "(b + i) mod length xs \<noteq> (b + j) mod length xs"
    using assms mod_add_inj [of i "length xs" j b] by auto
  with i show "ring_list (xs[(b + j) mod length xs := v]) b n ! i = ring_list xs b n ! i"
    by simp
qed simp

text \<open>
  Writing a buffer into a circular array: one \<^verbatim>\<open>memcpy\<close>, or two when it passes the end.
\<close>

definition ring_write :: "nat \<Rightarrow> 'a list \<Rightarrow> 'a list \<Rightarrow> 'a list" where
  "ring_write e buf xs =
     (let spaceleft = length xs - e
      in if spaceleft < length buf
         then memcpy_at 0 (drop spaceleft buf) (memcpy_at e (take spaceleft buf) xs)
         else memcpy_at e buf xs)"

lemma length_ring_write:
  assumes "e < length xs" and "length buf \<le> length xs"
  shows "length (ring_write e buf xs) = length xs"
  using assms by (simp add: ring_write_def Let_def length_memcpy_at)

lemma nth_ring_write:
  assumes "e < length xs" and "length buf \<le> length xs" and "i < length xs"
  shows "ring_write e buf xs ! ((e + i) mod length xs) =
    (if i < length buf then buf ! i else xs ! ((e + i) mod length xs))"
proof (cases "e + i < length xs")
  case True
  then show ?thesis using assms
    by (auto simp: ring_write_def Let_def nth_memcpy_at length_memcpy_at)
next
  case False
  then have "(e + i) mod length xs = e + i - length xs" and "e + i - length xs < e"
    using assms by (auto simp: mod_if)
  then show ?thesis using assms False
    by (auto simp: ring_write_def Let_def nth_memcpy_at length_memcpy_at)
qed

lemma ring_list_ring_write:
  assumes "0 < length xs" and "n + length buf \<le> length xs"
  shows "ring_list (ring_write ((b + n) mod length xs) buf xs) b (n + length buf) =
    ring_list xs b n @ buf"
proof (rule nth_equalityI)
  let ?e = "(b + n) mod length xs" and ?L = "length xs"
  have e: "?e < ?L" using assms by simp
  have len: "length (ring_write ?e buf xs) = ?L" using assms e by (simp add: length_ring_write)
  fix i assume "i < length (ring_list (ring_write ?e buf xs) b (n + length buf))"
  then have i: "i < n + length buf" by simp
  define j where "j = (i + (?L - n)) mod ?L"
  have j: "j < ?L" "(?e + j) mod ?L = (b + i) mod ?L"
  proof -
    show "j < ?L" using assms by (simp add: j_def)
    have "(?e + j) mod ?L = (b + n + (i + (?L - n))) mod ?L" by (simp add: j_def mod_simps)
    also have "b + n + (i + (?L - n)) = b + i + ?L" using assms by simp
    finally show "(?e + j) mod ?L = (b + i) mod ?L" by simp
  qed
  have jcase: "j = (if i < n then i + (?L - n) else i - n)"
  proof -
    have "j = i - n" if "\<not> i < n"
    proof -
      have "i + (?L - n) = ?L + (i - n)" "i - n < ?L" using that assms i by auto
      then show ?thesis unfolding j_def by (metis mod_add_self1 mod_less)
    qed
    then show ?thesis using assms i by (auto simp: j_def)
  qed
  have "ring_write ?e buf xs ! ((b + i) mod ?L) =
      (if j < length buf then buf ! j else xs ! ((b + i) mod ?L))"
    using nth_ring_write [OF e _ j(1), of buf] j(2) assms by simp
  then show "ring_list (ring_write ?e buf xs) b (n + length buf) ! i = (ring_list xs b n @ buf) ! i"
    using i len jcase assms by (auto simp: nth_append)
qed simp

text \<open>Reading a prefix of the used part: one \<^verbatim>\<open>memcpy\<close>, or two when it passes the end.\<close>

definition ring_read :: "nat \<Rightarrow> nat \<Rightarrow> 'a list \<Rightarrow> 'a list" where
  "ring_read b n xs =
     (let spaceleft = length xs - b
      in if spaceleft < n then take spaceleft (drop b xs) @ take (n - spaceleft) xs
         else take n (drop b xs))"

lemma ring_read_eq:
  assumes "b < length xs" and "n \<le> length xs"
  shows "ring_read b n xs = ring_list xs b n"
  using assms by (auto simp: ring_read_def Let_def ring_list_flat ring_list_wrapped)

lemma take_ring_list: "take n (ring_list xs b m) = ring_list xs b (min n m)"
  by (rule nth_equalityI) auto

lemma drop_ring_list: "n \<le> m \<Longrightarrow> drop n (ring_list xs b m) = ring_list xs ((b + n) mod length xs) (m - n)"
  using ring_list_append [of xs b n "m - n"] by simp

end
