(* ===== verification/Interfaces.thy ===== *)
theory Interfaces
  imports Dime_Prelude
begin

text \<open>
  The contracts between the components of the server, each as a locale: the operations a
  client calls are its parameters, the laws the provider owes are its assumptions, and what
  clients need beyond the laws is proved once inside it.  The theories of the providers
  interpret the locales on the models of the code.
\<close>

section \<open>Message queues\<close>

text \<open>Popping up to \<open>n\<close> elements, as the loop of \<^verbatim>\<open>dime_client_sync\<close> does.\<close>

fun pop_n :: "('q \<Rightarrow> 'a option \<times> 'q) \<Rightarrow> nat \<Rightarrow> 'q \<Rightarrow> 'a list \<times> 'q" where
  "pop_n popl 0 q = ([], q)"
| "pop_n popl (Suc n) q =
     (case popl q of
        (None, q') \<Rightarrow> ([], q')
      | (Some x, q') \<Rightarrow> apfst ((#) x) (pop_n popl n q'))"

text \<open>Pushing a list of elements in turn; the result says whether every push succeeded.\<close>

fun push_all :: "(bool \<Rightarrow> 'q \<Rightarrow> 'a \<Rightarrow> int \<times> 'q) \<Rightarrow> (bool \<times> 'a) list \<Rightarrow> 'q \<Rightarrow> bool \<times> 'q" where
  "push_all pushr [] q = (True, q)"
| "push_all pushr ((ok, x) # xs) q =
     (let (rc, q') = pushr ok q x; (good, q'') = push_all pushr xs q' in (0 \<le> rc \<and> good, q''))"

locale message_queue =
  fixes inv :: "'q \<Rightarrow> bool"
    and items :: "'q \<Rightarrow> 'a list"
    and pushl :: "bool \<Rightarrow> 'q \<Rightarrow> 'a \<Rightarrow> int \<times> 'q"
    and pushr :: "bool \<Rightarrow> 'q \<Rightarrow> 'a \<Rightarrow> int \<times> 'q"
    and popl :: "'q \<Rightarrow> 'a option \<times> 'q"
    and size :: "'q \<Rightarrow> nat"
  assumes pushl_inv: "inv q \<Longrightarrow> inv (snd (pushl ok q x))"
    and pushl_items: "inv q \<Longrightarrow>
      items (snd (pushl ok q x)) = (if fst (pushl ok q x) < 0 then items q else x # items q)"
    and pushr_inv: "inv q \<Longrightarrow> inv (snd (pushr ok q x))"
    and pushr_items: "inv q \<Longrightarrow>
      items (snd (pushr ok q x)) = (if fst (pushr ok q x) < 0 then items q else items q @ [x])"
    and popl_inv: "inv q \<Longrightarrow> inv (snd (popl q))"
    and popl_empty: "inv q \<Longrightarrow> items q = [] \<Longrightarrow> popl q = (None, q)"
    and popl_cons: "inv q \<Longrightarrow> items q = x # xs \<Longrightarrow>
      fst (popl q) = Some x \<and> items (snd (popl q)) = xs"
    and size_items: "inv q \<Longrightarrow> size q = length (items q)"
begin

lemma pop_n_items:
  "inv q \<Longrightarrow> fst (pop_n popl n q) = take n (items q) \<and>
     items (snd (pop_n popl n q)) = drop n (items q) \<and> inv (snd (pop_n popl n q))"
proof (induction n arbitrary: q)
  case 0
  then show ?case by simp
next
  case (Suc n)
  show ?case
  proof (cases "items q")
    case Nil
    then show ?thesis using Suc.prems by (simp add: popl_empty)
  next
    case (Cons x xs)
    obtain r q' where popl: "popl q = (r, q')" by (cases "popl q")
    then have "r = Some x" "items q' = xs" "inv q'"
      using popl_cons [OF Suc.prems Cons] popl_inv [OF Suc.prems] by simp_all
    then show ?thesis using Suc.IH [of q'] Cons popl by simp
  qed
qed

lemma push_all_items:
  "inv q \<Longrightarrow> inv (snd (push_all pushr xs q)) \<and>
     (fst (push_all pushr xs q) \<longrightarrow> items (snd (push_all pushr xs q)) = items q @ map snd xs)"
proof (induction xs arbitrary: q)
  case Nil
  then show ?case by simp
next
  case (Cons a xs)
  obtain ok x where a: "a = (ok, x)" by (cases a)
  show ?case
    using Cons.IH [OF pushr_inv [OF Cons.prems, of ok x]] pushr_items [OF Cons.prems, of ok x]
    by (auto simp: a Let_def split: prod.split if_splits)
qed

text \<open>First in, first out: what was pushed on the right is popped on the left in order.\<close>

lemma fifo:
  assumes "inv q" and "fst (push_all pushr xs q)"
  shows "fst (pop_n popl (length (items q) + length xs) (snd (push_all pushr xs q))) =
    items q @ map snd xs"
proof -
  have "inv (snd (push_all pushr xs q))" "items (snd (push_all pushr xs q)) = items q @ map snd xs"
    using push_all_items [OF assms(1)] assms(2) by blast+
  then show ?thesis using pop_n_items by simp
qed

text \<open>A successful push on the left undoes a pop.\<close>

lemma popl_pushl_undo:
  assumes "inv q" and "popl q = (Some x, q')" and "0 \<le> fst (pushl ok q' x)"
  shows "items (snd (pushl ok q' x)) = items q"
proof (cases "items q")
  case Nil
  then show ?thesis using assms popl_empty by simp
next
  case (Cons y ys)
  then show ?thesis using assms popl_cons [OF assms(1) Cons] popl_inv [OF assms(1)]
    by (simp add: pushl_items)
qed

end

section \<open>Byte streams\<close>

text \<open>Reading chunks of the given sizes off the front, one after the other.\<close>

fun read_chunks ::
  "('r \<Rightarrow> size_t \<Rightarrow> byte list) \<Rightarrow> ('r \<Rightarrow> size_t \<Rightarrow> size_t \<times> 'r) \<Rightarrow> size_t list \<Rightarrow> 'r \<Rightarrow> byte list \<times> 'r"
where
  "read_chunks peek discard [] r = ([], r)"
| "read_chunks peek discard (n # ns) r =
     apfst ((@) (peek r n)) (read_chunks peek discard ns (snd (discard r n)))"

text \<open>Writing a list of buffers in turn, as \<^verbatim>\<open>dime_socket_push_str\<close> does.\<close>

fun write_all :: "(bool \<Rightarrow> 'r \<Rightarrow> byte list \<Rightarrow> int \<times> 'r) \<Rightarrow> (bool \<times> byte list) list \<Rightarrow> 'r \<Rightarrow> bool \<times> 'r" where
  "write_all put [] r = (True, r)"
| "write_all put ((ok, bs) # bss) r =
     (let (rc, r') = put ok r bs; (good, r'') = write_all put bss r' in (0 \<le> rc \<and> good, r''))"

locale byte_stream =
  fixes inv :: "'r \<Rightarrow> bool"
    and bytes :: "'r \<Rightarrow> byte list"
    and put :: "bool \<Rightarrow> 'r \<Rightarrow> byte list \<Rightarrow> int \<times> 'r"
    and peek :: "'r \<Rightarrow> size_t \<Rightarrow> byte list"
    and discard :: "'r \<Rightarrow> size_t \<Rightarrow> size_t \<times> 'r"
    and size :: "'r \<Rightarrow> size_t"
  assumes write_inv: "inv r \<Longrightarrow> length bs \<le> ALLOC_MAX \<Longrightarrow> inv (snd (put ok r bs))"
    and write_bytes: "inv r \<Longrightarrow> length bs \<le> ALLOC_MAX \<Longrightarrow>
      bytes (snd (put ok r bs)) = (if fst (put ok r bs) < 0 then bytes r else bytes r @ bs)"
    and write_rc: "inv r \<Longrightarrow> length bs \<le> ALLOC_MAX \<Longrightarrow>
      fst (put ok r bs) = -1 \<or> fst (put ok r bs) = int (length bs)"
    and peek_bytes: "inv r \<Longrightarrow> peek r n = take n (bytes r)"
    and discard_inv: "inv r \<Longrightarrow> inv (snd (discard r n))"
    and discard_bytes: "inv r \<Longrightarrow> bytes (snd (discard r n)) = drop n (bytes r)"
    and discard_count: "inv r \<Longrightarrow> fst (discard r n) = min n (length (bytes r))"
    and size_bytes: "inv r \<Longrightarrow> size r = length (bytes r)"
begin

lemma write_nonneg:
  "inv r \<Longrightarrow> length bs \<le> ALLOC_MAX \<Longrightarrow> \<not> fst (put ok r bs) < 0 \<Longrightarrow>
     fst (put ok r bs) = int (length bs)"
  using write_rc [of r bs ok] by auto

lemma write_all_bytes:
  "inv r \<Longrightarrow> \<forall>(ok, bs) \<in> set bss. length bs \<le> ALLOC_MAX \<Longrightarrow>
     inv (snd (write_all put bss r)) \<and>
     (fst (write_all put bss r) \<longrightarrow>
        bytes (snd (write_all put bss r)) = bytes r @ concat (map snd bss))"
proof (induction bss arbitrary: r)
  case Nil
  then show ?case by simp
next
  case (Cons a bss)
  obtain ok bs where a: "a = (ok, bs)" by (cases a)
  then have len: "length bs \<le> ALLOC_MAX" using Cons.prems by simp
  show ?case
    using Cons.IH [OF write_inv [OF Cons.prems(1) len, of ok]] write_bytes [OF Cons.prems(1) len, of ok]
      Cons.prems(2)
    by (auto simp: a Let_def split: prod.split if_splits)
qed

text \<open>
  Whatever is cut off the front of the stream in two reads is what one read would have cut
  off: reading does not depend on how the stream is chunked.
\<close>

lemma discard_discard_bytes:
  "inv r \<Longrightarrow> bytes (snd (discard (snd (discard r m)) n)) = drop (m + n) (bytes r)"
  by (simp add: discard_inv discard_bytes add.commute)

lemma read_chunks_bytes:
  "inv r \<Longrightarrow> fst (read_chunks peek discard ns r) = take (sum_list ns) (bytes r) \<and>
     inv (snd (read_chunks peek discard ns r)) \<and>
     bytes (snd (read_chunks peek discard ns r)) = drop (sum_list ns) (bytes r)"
proof (induction ns arbitrary: r)
  case Nil
  then show ?case by simp
next
  case (Cons n ns)
  show ?case
    using Cons.IH [OF discard_inv [OF Cons.prems, of n]] discard_bytes [OF Cons.prems, of n]
      peek_bytes [OF Cons.prems, of n]
    by (simp add: take_add add.commute)
qed

lemma write_read_chunks:
  assumes "inv r" and "\<forall>(ok, bs) \<in> set bss. length bs \<le> ALLOC_MAX" and "fst (write_all put bss r)"
    and "sum_list ns = length (bytes r) + length (concat (map snd bss))"
  shows "fst (read_chunks peek discard ns (snd (write_all put bss r))) =
      bytes r @ concat (map snd bss) \<and>
    size (snd (read_chunks peek discard ns (snd (write_all put bss r)))) = 0"
  using write_all_bytes [OF assms(1,2)] assms(3,4)
    read_chunks_bytes [of "snd (write_all put bss r)" ns]
  by (simp add: size_bytes)

lemma peek_discard_split:
  "inv r \<Longrightarrow> peek r n @ bytes (snd (discard r n)) = bytes r"
  by (simp add: peek_bytes discard_bytes)

end

section \<open>Finite tables\<close>

text \<open>
  What the server expects of a hash table.  Operations return \<open>None\<close> when they do not end;
  a search for an absent key owes a result only on a live table.  \<open>roomy\<close> says that the next
  insertion can grow the table if it needs to.
\<close>

locale finite_table =
  fixes inv :: "'t \<Rightarrow> bool"
    and live :: "'t \<Rightarrow> bool"
    and roomy :: "'t \<Rightarrow> bool"
    and content :: "'t \<Rightarrow> 'k \<Rightarrow> 'v option"
    and insert :: "(nat \<Rightarrow> bool) \<Rightarrow> 't \<Rightarrow> 'k \<Rightarrow> 'v \<Rightarrow> (int \<times> 't) option"
    and search :: "'t \<Rightarrow> 'k \<Rightarrow> ('v option \<times> 't) option"
    and remove :: "'t \<Rightarrow> 'k \<Rightarrow> ('v option \<times> 't) option"
  assumes insert_law: "inv t \<Longrightarrow> content t k = None \<Longrightarrow>
      \<exists>rc t'. insert ok t k v = Some (rc, t') \<and> inv t' \<and>
        (rc = 0 \<and> content t' = (content t)(k \<mapsto> v) \<or> rc = -1 \<and> t' = t)"
    and insert_roomy: "inv t \<Longrightarrow> content t k = None \<Longrightarrow> live t \<Longrightarrow> roomy t \<Longrightarrow> ok 0 \<Longrightarrow>
      insert ok t k v = Some (rc, t') \<Longrightarrow> rc = 0 \<and> live t'"
    and search_law: "inv t \<Longrightarrow> content t k \<noteq> None \<or> live t \<Longrightarrow>
      \<exists>t'. search t k = Some (content t k, t') \<and> inv t' \<and> content t' = content t \<and> live t' = live t"
    and remove_law: "inv t \<Longrightarrow> content t k \<noteq> None \<or> live t \<Longrightarrow>
      \<exists>t'. remove t k = Some (content t k, t') \<and> inv t' \<and> content t' = (content t)(k := None) \<and>
        live t' = live t"
begin

lemma searchE:
  assumes "inv t" and "content t k \<noteq> None \<or> live t"
  obtains t' where "search t k = Some (content t k, t')" and "inv t'" and "content t' = content t"
    and "live t' = live t"
  using search_law [OF assms] by blast

lemma removeE:
  assumes "inv t" and "content t k \<noteq> None \<or> live t"
  obtains t' where "remove t k = Some (content t k, t')" and "inv t'"
    and "content t' = (content t)(k := None)" and "live t' = live t"
  using remove_law [OF assms] by blast

text \<open>What was inserted is found, under its key and no other.\<close>

lemma search_after_insert:
  assumes "inv t" and "content t k = None" and "insert ok t k v = Some (0, t')"
  shows "\<exists>t''. search t' k = Some (Some v, t'') \<and> content t'' = (content t)(k \<mapsto> v)"
    and "k' \<noteq> k \<Longrightarrow> content t' k' = content t k'"
proof -
  have t': "inv t'" "content t' = (content t)(k \<mapsto> v)"
    using insert_law [OF assms(1,2), of ok v] assms(3) by auto
  then show "\<exists>t''. search t' k = Some (Some v, t'') \<and> content t'' = (content t)(k \<mapsto> v)"
    using search_law [of t' k] by auto
  show "k' \<noteq> k \<Longrightarrow> content t' k' = content t k'" using t'(2) by simp
qed

lemma remove_after_insert:
  assumes "inv t" and "content t k = None" and "insert ok t k v = Some (0, t')"
  shows "\<exists>t''. remove t' k = Some (Some v, t'') \<and> inv t'' \<and> content t'' = content t"
proof -
  have t': "inv t'" "content t' = (content t)(k \<mapsto> v)"
    using insert_law [OF assms(1,2), of ok v] assms(3) by auto
  have "(content t)(k := None) = content t" using assms(2) by (simp add: fun_upd_idem)
  then show ?thesis using remove_law [OF t'(1), of k] t'(2) by auto
qed

lemma removed_is_gone:
  assumes "inv t" and "live t" and "remove t k = Some (r, t')"
  shows "\<exists>t''. search t' k = Some (None, t'')"
proof -
  have "inv t'" "content t' k = None" "live t'" using remove_law [OF assms(1), of k] assms(2,3) by auto
  then show ?thesis using search_law [of t' k] by auto
qed

end

end
