(* ===== verification/Deque.thy ===== *)
theory Deque
  imports Interfaces
begin

text \<open>
  The double-ended queue of \<^verbatim>\<open>server/deque.c\<close>: a growing circular array of pointers.  A
  cell of the array is \<open>Some p\<close> for a pointer that was stored and \<open>None\<close> for an
  indeterminate cell.  Every operation that may call \<^verbatim>\<open>malloc\<close> or \<^verbatim>\<open>realloc\<close> takes the
  Boolean that says whether the environment grants the request.
\<close>

section \<open>State and operations\<close>

record 'a dime_deque =
  d_len :: size_t
  d_arr :: "'a option list"
  d_cap :: size_t
  d_begin :: size_t
  d_end :: size_t

definition PTR_SIZE :: size_t where
  "PTR_SIZE = 8"

definition dime_deque_init :: "bool \<Rightarrow> 'a dime_deque option" where
  "dime_deque_init ok =
     (let cap = 16 in
      if alloc_ok ok (sz_mul cap PTR_SIZE)
      then Some \<lparr>d_len = 0, d_arr = malloc_arr cap, d_cap = cap, d_begin = 0, d_end = 0\<rparr>
      else None)"

text \<open>The idiom \<^verbatim>\<open>i++; if (i == cap) { i = 0; }\<close> that advances an index.\<close>

definition wrap_inc :: "size_t \<Rightarrow> size_t \<Rightarrow> size_t" where
  "wrap_inc cap i = (if sz_add i 1 = cap then 0 else sz_add i 1)"

text \<open>
  The growth step that \<^verbatim>\<open>dime_deque_pushl\<close> and \<^verbatim>\<open>dime_deque_pushr\<close> both start with;
  \<open>None\<close> is the failure of \<^verbatim>\<open>realloc\<close>, after which both return \<open>-1\<close> with the deque
  unchanged.
\<close>

definition dime_deque_reserve :: "bool \<Rightarrow> 'a dime_deque \<Rightarrow> 'a dime_deque option" where
  "dime_deque_reserve ok deck =
     (if d_len deck \<ge> d_cap deck then
        (let ncap = sz_mul 3 (d_cap deck) div 2;
             bytes = sz_mul ncap PTR_SIZE
         in if \<not> alloc_ok ok bytes then None
            else
              (let narr = realloc_arr (bytes div PTR_SIZE) (d_arr deck)
               in if d_end deck \<le> d_begin deck then
                    (let nbegin = sz_add (d_begin deck) (sz_sub ncap (d_cap deck))
                     in Some (deck\<lparr>d_arr := memmove_in nbegin (d_begin deck) (sz_sub ncap nbegin) narr,
                                   d_begin := nbegin, d_cap := ncap\<rparr>))
                  else Some (deck\<lparr>d_arr := narr, d_cap := ncap\<rparr>)))
      else Some deck)"

definition dime_deque_pushl :: "bool \<Rightarrow> 'a dime_deque \<Rightarrow> 'a \<Rightarrow> int \<times> 'a dime_deque" where
  "dime_deque_pushl ok deck p =
     (case dime_deque_reserve ok deck of
        None \<Rightarrow> (-1, deck)
      | Some deck \<Rightarrow>
          (let b = (if d_begin deck = 0 then d_cap deck else d_begin deck);
               b = sz_sub b 1
           in (0, deck\<lparr>d_begin := b, d_arr := (d_arr deck)[b := Some p],
                       d_len := sz_add (d_len deck) 1\<rparr>)))"

definition dime_deque_pushr :: "bool \<Rightarrow> 'a dime_deque \<Rightarrow> 'a \<Rightarrow> int \<times> 'a dime_deque" where
  "dime_deque_pushr ok deck p =
     (case dime_deque_reserve ok deck of
        None \<Rightarrow> (-1, deck)
      | Some deck \<Rightarrow>
          (0, deck\<lparr>d_arr := (d_arr deck)[d_end deck := Some p],
                   d_end := wrap_inc (d_cap deck) (d_end deck),
                   d_len := sz_add (d_len deck) 1\<rparr>))"

definition dime_deque_popl :: "'a dime_deque \<Rightarrow> 'a option \<times> 'a dime_deque" where
  "dime_deque_popl deck =
     (if d_len deck = 0 then (None, deck)
      else
        (d_arr deck ! d_begin deck,
         deck\<lparr>d_begin := wrap_inc (d_cap deck) (d_begin deck), d_len := sz_sub (d_len deck) 1\<rparr>))"

text \<open>
  \<^verbatim>\<open>dime_deque_popr\<close> resets \<^verbatim>\<open>begin\<close> where it should reset \<^verbatim>\<open>end\<close>, so its array access
  can be out of bounds; \<open>Inl\<close> gives the index of such an access.
\<close>

definition dime_deque_popr :: "'a dime_deque \<Rightarrow> size_t + ('a option \<times> 'a dime_deque)" where
  "dime_deque_popr deck =
     (if d_len deck = 0 then Inr (None, deck)
      else
        (let b = (if d_end deck = 0 then d_cap deck else d_begin deck);
             e = sz_sub (d_end deck) 1
         in if e < length (d_arr deck)
            then Inr (d_arr deck ! e,
                      deck\<lparr>d_begin := b, d_end := e, d_len := sz_sub (d_len deck) 1\<rparr>)
            else Inl e))"

definition dime_deque_len :: "'a dime_deque \<Rightarrow> size_t" where
  "dime_deque_len deck = d_len deck"

subsection \<open>Iterators\<close>

record 'a dime_deque_iter =
  di_val :: "'a option"
  di_i :: size_t

definition dime_deque_iter_init :: "'a dime_deque \<Rightarrow> 'a dime_deque_iter" where
  "dime_deque_iter_init deck = \<lparr>di_val = None, di_i = sz_sub (d_begin deck) 1\<rparr>"

definition dime_deque_iter_next ::
  "'a dime_deque \<Rightarrow> 'a dime_deque_iter \<Rightarrow> bool \<times> 'a dime_deque_iter" where
  "dime_deque_iter_next deck it =
     (let i = wrap_inc (d_cap deck) (di_i it)
      in if i = d_end deck then (False, it\<lparr>di_i := i\<rparr>)
         else (True, it\<lparr>di_i := i, di_val := d_arr deck ! i\<rparr>))"

text \<open>
  The values that the loop \<^verbatim>\<open>while (dime_deque_iter_next(&it))\<close> sees, with at most \<open>n\<close>
  calls of the iterator; \<open>None\<close> when the loop has not ended by then.
\<close>

fun dime_deque_iter_run ::
  "nat \<Rightarrow> 'a dime_deque \<Rightarrow> 'a dime_deque_iter \<Rightarrow> 'a option list option" where
  "dime_deque_iter_run 0 deck it = None"
| "dime_deque_iter_run (Suc n) deck it =
     (case dime_deque_iter_next deck it of
        (False, it') \<Rightarrow> Some []
      | (True, it') \<Rightarrow> map_option ((#) (di_val it')) (dime_deque_iter_run n deck it'))"

text \<open>\<^verbatim>\<open>dime_deque_apply\<close> with the state of the callback threaded through, with fuel.\<close>

fun dime_deque_apply_loop ::
  "nat \<Rightarrow> 'a dime_deque \<Rightarrow> ('a option \<Rightarrow> 's \<Rightarrow> bool \<times> 's) \<Rightarrow> size_t \<Rightarrow> 's \<Rightarrow> 's option" where
  "dime_deque_apply_loop 0 deck f i s = None"
| "dime_deque_apply_loop (Suc n) deck f i s =
     (if i = d_end deck then Some s
      else (case f (d_arr deck ! i) s of
              (False, s') \<Rightarrow> Some s'
            | (True, s') \<Rightarrow> dime_deque_apply_loop n deck f (wrap_inc (d_cap deck) i) s'))"

definition dime_deque_apply ::
  "'a dime_deque \<Rightarrow> ('a option \<Rightarrow> 's \<Rightarrow> bool \<times> 's) \<Rightarrow> 's \<Rightarrow> 's option" where
  "dime_deque_apply deck f s = dime_deque_apply_loop (Suc (d_cap deck)) deck f (d_begin deck) s"

section \<open>Representation\<close>

text \<open>
  The cells in use, from head to tail, and the invariant: the indices are in range, the end
  index is determined by the other fields, and every cell in use holds a stored pointer.
\<close>

definition dq_cells :: "'a dime_deque \<Rightarrow> 'a option list" where
  "dq_cells d = ring_list (d_arr d) (d_begin d) (d_len d)"

definition dq_list :: "'a dime_deque \<Rightarrow> 'a list" where
  "dq_list d = map the (dq_cells d)"

definition dq_inv :: "'a dime_deque \<Rightarrow> bool" where
  "dq_inv d \<longleftrightarrow>
     length (d_arr d) = d_cap d \<and> 16 \<le> d_cap d \<and> d_cap d * 8 \<le> ALLOC_MAX \<and>
     d_begin d < d_cap d \<and> d_len d \<le> d_cap d \<and>
     d_end d = (d_begin d + d_len d) mod d_cap d \<and> None \<notin> set (dq_cells d)"

definition dq_full :: "'a dime_deque \<Rightarrow> bool" where
  "dq_full d \<longleftrightarrow> d_len d = d_cap d"

lemma dq_cells_list: "dq_inv d \<Longrightarrow> dq_cells d = map Some (dq_list d)"
  by (simp add: dq_inv_def dq_list_def del: map_map)

lemma length_dq_cells [simp]: "length (dq_cells d) = d_len d"
  by (simp add: dq_cells_def)

lemma length_dq_list [simp]: "length (dq_list d) = d_len d"
  by (simp add: dq_list_def)

lemma dq_list_empty_iff: "dq_list d = [] \<longleftrightarrow> d_len d = 0"
  using length_dq_list [of d] by (metis length_0_conv)

lemma dq_inv_cap_bound: "dq_inv d \<Longrightarrow> d_cap d * 24 < 2 ^ 64"
  by (simp add: dq_inv_def ALLOC_MAX_def)

lemma dq_inv_bounds:
  assumes "dq_inv d"
  shows "length (d_arr d) = d_cap d" and "16 \<le> d_cap d" and "d_cap d < 2 ^ 63"
    and "d_begin d < d_cap d" and "d_len d \<le> d_cap d" and "d_end d < d_cap d"
    and "d_end d = (d_begin d + d_len d) mod d_cap d"
  using assms dq_inv_cap_bound [OF assms] by (auto simp: dq_inv_def)

lemma dq_invI:
  assumes "length (d_arr d) = d_cap d" and "16 \<le> d_cap d" and "d_cap d * 8 \<le> ALLOC_MAX"
    and "d_begin d < d_cap d" and "d_len d \<le> d_cap d"
    and "d_end d = (d_begin d + d_len d) mod d_cap d" and "dq_cells d = map Some xs"
  shows "dq_inv d" and "dq_list d = xs"
  using assms by (auto simp: dq_inv_def dq_list_def comp_def)

section \<open>Correctness of the operations\<close>

lemma dime_deque_init_ok:
  assumes "dime_deque_init ok = Some d"
  shows "dq_inv d" and "dq_list d = []" and "d_cap d = 16"
  using assms by (auto simp: dime_deque_init_def Let_def dq_inv_def dq_list_def dq_cells_def
    ALLOC_MAX_def split: if_splits)

lemma dime_deque_init_Some: "ok \<Longrightarrow> \<exists>d. dime_deque_init ok = Some d"
  by (simp add: dime_deque_init_def alloc_ok_def ALLOC_MAX_def PTR_SIZE_def sz_mul_def)

text \<open>The growth step keeps the contents and leaves room for one more element.\<close>

lemma dime_deque_reserve_grow:
  assumes "dq_inv d" and "d_len d = d_cap d" and "dime_deque_reserve ok d = Some d'"
  shows "d' = d\<lparr>d_arr := memmove_in (d_begin d + (3 * d_cap d div 2 - d_cap d)) (d_begin d)
        (d_cap d - d_begin d) (realloc_arr (3 * d_cap d div 2) (d_arr d)),
      d_begin := d_begin d + (3 * d_cap d div 2 - d_cap d), d_cap := 3 * d_cap d div 2\<rparr>"
    and "3 * d_cap d div 2 * 8 \<le> ALLOC_MAX"
proof -
  have inv: "d_begin d < d_cap d" "d_end d = d_begin d" "16 \<le> d_cap d" and
    bound: "d_cap d * 24 < 2 ^ 64"
    using assms(1,2) dq_inv_cap_bound [OF assms(1)] by (auto simp: dq_inv_def)
  have sizes: "sz_mul 3 (d_cap d) = 3 * d_cap d"
    "sz_mul (3 * d_cap d div 2) PTR_SIZE = 3 * d_cap d div 2 * 8"
    "sz_sub (3 * d_cap d div 2) (d_cap d) = 3 * d_cap d div 2 - d_cap d"
    "sz_add (d_begin d) (3 * d_cap d div 2 - d_cap d) = d_begin d + (3 * d_cap d div 2 - d_cap d)"
    "sz_sub (3 * d_cap d div 2) (d_begin d + (3 * d_cap d div 2 - d_cap d)) = d_cap d - d_begin d"
    using inv bound by (auto simp: size_arith PTR_SIZE_def)
  show "d' = d\<lparr>d_arr := memmove_in (d_begin d + (3 * d_cap d div 2 - d_cap d)) (d_begin d)
        (d_cap d - d_begin d) (realloc_arr (3 * d_cap d div 2) (d_arr d)),
      d_begin := d_begin d + (3 * d_cap d div 2 - d_cap d), d_cap := 3 * d_cap d div 2\<rparr>"
    and "3 * d_cap d div 2 * 8 \<le> ALLOC_MAX"
    using assms inv sizes
    by (auto simp: dime_deque_reserve_def Let_def alloc_ok_def PTR_SIZE_def split: if_splits)
qed

lemma dime_deque_reserve_ok:
  assumes inv: "dq_inv d" and res: "dime_deque_reserve ok d = Some d'"
  shows "dq_inv d'" and "dq_cells d' = dq_cells d" and "d_len d' = d_len d"
    and "d_len d' < d_cap d'"
proof -
  have "dq_inv d' \<and> dq_cells d' = dq_cells d \<and> d_len d' = d_len d \<and> d_len d' < d_cap d'"
  proof (cases "d_len d = d_cap d")
    case False
    then have "d' = d" "d_len d < d_cap d"
      using inv res by (auto simp: dime_deque_reserve_def dq_inv_def)
    then show ?thesis using inv by simp
  next
    case True
    let ?n = "3 * d_cap d div 2" and ?b = "d_begin d + (3 * d_cap d div 2 - d_cap d)"
    note d' = dime_deque_reserve_grow [OF inv True res]
    have facts: "length (d_arr d) = d_cap d" "d_begin d < d_cap d" "16 \<le> d_cap d"
      "d_end d = d_begin d"
      using inv True by (auto simp: dq_inv_def)
    have lt: "d_cap d < ?n" using facts(3) by linarith
    have cells: "dq_cells d' = dq_cells d"
      using facts lt True ring_list_realloc_wrapped [of "d_begin d" "d_arr d" ?n "d_len d"]
      by (simp add: dq_cells_def d'(1))
    have "?b + d_cap d = d_begin d + ?n" "?b < ?n" using facts lt by linarith+
    then have "length (d_arr d') = ?n" "d_end d' = (?b + d_cap d) mod ?n" "?b < ?n"
      using facts by (auto simp: d'(1) length_memmove_in)
    then show ?thesis using facts lt d'(2) cells inv True
      by (auto simp: dq_inv_def d'(1))
  qed
  then show "dq_inv d'" and "dq_cells d' = dq_cells d" and "d_len d' = d_len d"
    and "d_len d' < d_cap d'" by auto
qed

lemma dime_deque_reserve_None:
  assumes "dq_inv d"
  shows "dime_deque_reserve ok d = None \<longleftrightarrow>
    d_len d = d_cap d \<and> \<not> alloc_ok ok (3 * d_cap d div 2 * 8)"
  using assms dq_inv_cap_bound [OF assms]
  by (auto simp: dime_deque_reserve_def Let_def dq_inv_def PTR_SIZE_def size_arith)

text \<open>Adding one cell at either end of a deque that has room.\<close>

lemma dq_add_right:
  fixes p :: 'a
  assumes inv: "dq_inv d" and room: "d_len d < d_cap d"
  defines "d' \<equiv> d\<lparr>d_arr := (d_arr d)[d_end d := Some p],
    d_end := (if d_end d + 1 = d_cap d then 0 else d_end d + 1), d_len := d_len d + 1\<rparr>"
  shows "dq_inv d'" and "dq_list d' = dq_list d @ [p]"
proof -
  have facts: "length (d_arr d) = d_cap d" "d_end d = (d_begin d + d_len d) mod d_cap d"
    "d_end d < d_cap d" "d_begin d < d_cap d"
    using inv room by (auto simp: dq_inv_def)
  have cells: "dq_cells d' = map Some (dq_list d @ [p])"
    using facts room dq_cells_list [OF inv]
      ring_list_update_outside [of "d_len d" "d_len d" "d_arr d" "d_begin d" "Some p"]
    by (simp add: dq_cells_def d'_def ring_list_Suc_right)
  have "d_end d' = (d_begin d' + d_len d') mod d_cap d'"
    using facts room by (auto simp: d'_def mod_if split: if_splits)
  then show "dq_inv d'" and "dq_list d' = dq_list d @ [p]"
    using inv room facts cells
    by (auto intro!: dq_invI simp: d'_def dq_inv_def)
qed

lemma dq_add_left:
  fixes p :: 'a
  assumes inv: "dq_inv d" and room: "d_len d < d_cap d"
  defines "b \<equiv> (if d_begin d = 0 then d_cap d else d_begin d) - 1"
  defines "d' \<equiv> d\<lparr>d_begin := b, d_arr := (d_arr d)[b := Some p], d_len := d_len d + 1\<rparr>"
  shows "dq_inv d'" and "dq_list d' = p # dq_list d"
proof -
  have facts: "length (d_arr d) = d_cap d" "d_begin d < d_cap d" "16 \<le> d_cap d"
    "d_end d = (d_begin d + d_len d) mod d_cap d"
    using inv by (auto simp: dq_inv_def)
  have b: "b < d_cap d" "(b + 1) mod d_cap d = d_begin d"
    using facts by (auto simp: b_def)
  have upd: "(d_begin d + (d_cap d - 1)) mod d_cap d = b"
    using facts by (auto simp: b_def mod_if)
  have "dq_cells d' = Some p # dq_cells d"
    using facts b room upd
      ring_list_update_outside [of "d_len d" "d_cap d - 1" "d_arr d" "d_begin d" "Some p"]
    by (simp add: dq_cells_def d'_def ring_list_Suc_left)
  then have cells: "dq_cells d' = map Some (p # dq_list d)"
    using dq_cells_list [OF inv] by simp
  have "(b + (d_len d + 1)) mod d_cap d = ((b + 1) mod d_cap d + d_len d) mod d_cap d"
    by (simp add: mod_add_left_eq)
  then have "d_end d' = (d_begin d' + d_len d') mod d_cap d'"
    using facts b by (simp add: d'_def)
  then show "dq_inv d'" and "dq_list d' = p # dq_list d"
    using inv room facts cells b
    by (auto intro!: dq_invI simp: d'_def dq_inv_def)
qed

text \<open>The pushes, on every branch: the return code, the invariant and the contents.\<close>

lemma dime_deque_pushr_rc:
  assumes "dq_inv d"
  shows "fst (dime_deque_pushr ok d p) =
    (if d_len d < d_cap d \<or> alloc_ok ok (3 * d_cap d div 2 * 8) then 0 else -1)"
  using dime_deque_reserve_None [OF assms, of ok] assms
  by (auto simp: dime_deque_pushr_def Let_def dq_inv_def split: option.splits)

lemma dime_deque_pushl_rc:
  assumes "dq_inv d"
  shows "fst (dime_deque_pushl ok d p) =
    (if d_len d < d_cap d \<or> alloc_ok ok (3 * d_cap d div 2 * 8) then 0 else -1)"
  using dime_deque_reserve_None [OF assms, of ok] assms
  by (auto simp: dime_deque_pushl_def Let_def dq_inv_def split: option.splits)

lemma dime_deque_pushr_step:
  assumes "dq_inv d"
  shows "dq_inv (snd (dime_deque_pushr ok d p)) \<and>
    dq_list (snd (dime_deque_pushr ok d p)) =
      (if fst (dime_deque_pushr ok d p) < 0 then dq_list d else dq_list d @ [p])"
proof (cases "dime_deque_reserve ok d")
  case None
  then show ?thesis using assms by (simp add: dime_deque_pushr_def)
next
  case (Some d')
  note r = dime_deque_reserve_ok [OF assms Some]
  have "d_end d' < 2 ^ 63" "d_len d' < 2 ^ 63"
    using dq_inv_bounds [OF r(1)] by linarith+
  then have "snd (dime_deque_pushr ok d p) = d'\<lparr>d_arr := (d_arr d')[d_end d' := Some p],
      d_end := (if d_end d' + 1 = d_cap d' then 0 else d_end d' + 1), d_len := d_len d' + 1\<rparr>"
    and "fst (dime_deque_pushr ok d p) = 0"
    using Some by (auto simp: dime_deque_pushr_def wrap_inc_def size_arith)
  then show ?thesis using dq_add_right [OF r(1,4), of p] r(2) by (simp add: dq_list_def)
qed

lemma dime_deque_pushl_step:
  assumes "dq_inv d"
  shows "dq_inv (snd (dime_deque_pushl ok d p)) \<and>
    dq_list (snd (dime_deque_pushl ok d p)) =
      (if fst (dime_deque_pushl ok d p) < 0 then dq_list d else p # dq_list d)"
proof (cases "dime_deque_reserve ok d")
  case None
  then show ?thesis using assms by (simp add: dime_deque_pushl_def)
next
  case (Some d')
  note r = dime_deque_reserve_ok [OF assms Some]
  define b where "b = (if d_begin d' = 0 then d_cap d' else d_begin d') - 1"
  have "d_cap d' < 2 ^ 63" "d_len d' < 2 ^ 63" "d_begin d' < d_cap d'" "16 \<le> d_cap d'"
    using dq_inv_bounds [OF r(1)] by linarith+
  then have "snd (dime_deque_pushl ok d p) = d'\<lparr>d_begin := b,
      d_arr := (d_arr d')[b := Some p], d_len := d_len d' + 1\<rparr>"
    and "fst (dime_deque_pushl ok d p) = 0"
    using Some by (auto simp: dime_deque_pushl_def Let_def size_arith b_def)
  then show ?thesis using dq_add_left [OF r(1,4), of p] r(2) by (simp add: dq_list_def b_def)
qed

text \<open>The pops.\<close>

lemma dime_deque_popl_step:
  assumes inv: "dq_inv d"
  shows "dq_inv (snd (dime_deque_popl d)) \<and>
    (case dq_list d of
       [] \<Rightarrow> dime_deque_popl d = (None, d)
     | x # xs \<Rightarrow> fst (dime_deque_popl d) = Some x \<and> dq_list (snd (dime_deque_popl d)) = xs)"
proof (cases "d_len d")
  case 0
  then show ?thesis using inv by (simp add: dime_deque_popl_def dq_list_def dq_cells_def)
next
  case (Suc n)
  let ?d = "d\<lparr>d_begin := (d_begin d + 1) mod d_cap d, d_len := n\<rparr>"
  have facts: "length (d_arr d) = d_cap d" "d_begin d < d_cap d" "d_len d \<le> d_cap d"
    "d_end d = (d_begin d + d_len d) mod d_cap d" "d_cap d < 2 ^ 63"
    using inv dq_inv_cap_bound [OF inv] by (auto simp: dq_inv_def)
  have cells: "dq_cells d = d_arr d ! d_begin d # dq_cells ?d"
    using facts Suc by (simp add: dq_cells_def ring_list_Suc_left)
  obtain x xs where xs: "dq_list d = x # xs" using Suc dq_list_empty_iff [of d] by (cases "dq_list d") auto
  then have split: "d_arr d ! d_begin d = Some x" "dq_cells ?d = map Some xs"
    using cells dq_cells_list [OF inv] by auto
  have pop: "dime_deque_popl d = (d_arr d ! d_begin d, ?d)"
    using facts Suc by (simp add: dime_deque_popl_def wrap_inc_def size_arith mod_if)
  have "((d_begin d + 1) mod d_cap d + n) mod d_cap d = d_end d"
    using facts Suc by (simp add: mod_add_left_eq)
  then have "dq_inv ?d" and "dq_list ?d = xs"
    using inv facts Suc split(2) by (auto intro!: dq_invI simp: dq_inv_def)
  then show ?thesis using pop xs split by simp
qed

text \<open>
  \<^verbatim>\<open>dime_deque_popr\<close> removes the tail when the end index is not 0; when it is 0 the code
  reads the array at \<^verbatim>\<open>SIZE_MAX\<close>.
\<close>

lemma dime_deque_popr_in_bounds:
  assumes inv: "dq_inv d" and xs: "dq_list d = xs @ [x]" and "d_end d \<noteq> 0"
  shows "\<exists>d'. dime_deque_popr d = Inr (Some x, d') \<and> dq_inv d' \<and> dq_list d' = xs"
proof -
  let ?d = "d\<lparr>d_end := d_end d - 1, d_len := d_len d - 1\<rparr>"
  have len: "d_len d = Suc (length xs)" using xs length_dq_list [of d] by simp
  have facts: "length (d_arr d) = d_cap d" "d_begin d < d_cap d" "d_len d \<le> d_cap d"
    "d_end d = (d_begin d + d_len d) mod d_cap d" "d_cap d < 2 ^ 63" "16 \<le> d_cap d"
    using inv dq_inv_cap_bound [OF inv] by (auto simp: dq_inv_def)
  have e: "(d_begin d + length xs) mod d_cap d = d_end d - 1"
    using facts len assms(3) by (simp add: mod_if split: if_splits)
  have cells: "dq_cells d = dq_cells ?d @ [d_arr d ! (d_end d - 1)]"
    using facts len e by (simp add: dq_cells_def ring_list_Suc_right)
  then have split: "d_arr d ! (d_end d - 1) = Some x" "dq_cells ?d = map Some xs"
    using xs dq_cells_list [OF inv] by auto
  have "sz_sub (d_end d) 1 = d_end d - 1" "sz_sub (d_len d) 1 = d_len d - 1"
    "d_end d - 1 < length (d_arr d)"
    using dq_inv_bounds(1-6) [OF inv] len assms(3) by (auto simp: sz_sub_small)
  then have "dime_deque_popr d = Inr (Some x, ?d)"
    using len assms(3) split(1) by (simp add: dime_deque_popr_def)
  moreover have "dq_inv ?d" and "dq_list ?d = xs"
    using inv facts len e split(2) by (auto intro!: dq_invI simp: dq_inv_def)
  ultimately show ?thesis by blast
qed

lemma dime_deque_popr_wrap:
  assumes "dq_inv d" and "d_len d \<noteq> 0" and "d_end d = 0"
  shows "dime_deque_popr d = Inl SIZE_MAX"
  using assms by (simp add: dime_deque_popr_def Let_def sz_sub_def SIZE_MAX_def dq_inv_def ALLOC_MAX_def)

interpretation dq: message_queue dq_inv dq_list dime_deque_pushl dime_deque_pushr dime_deque_popl
  dime_deque_len
proof unfold_locales
  fix d :: "'a dime_deque" and x xs
  assume "dq_inv d" and "dq_list d = x # xs"
  then show "fst (dime_deque_popl d) = Some x \<and> dq_list (snd (dime_deque_popl d)) = xs"
    using dime_deque_popl_step [of d] by simp
next
  fix d :: "'a dime_deque"
  assume "dq_inv d" and "dq_list d = []"
  then show "dime_deque_popl d = (None, d)"
    using dime_deque_popl_step [of d] by simp
qed (simp_all add: dime_deque_pushl_step dime_deque_pushr_step dime_deque_popl_step
  dime_deque_len_def)

section \<open>Iteration\<close>

text \<open>
  The loops over a deque stop when the running index meets the end index, so they see every
  cell exactly when the deque is not full; on a full deque the two indices agree at once.
\<close>

lemma dq_position_end:
  assumes "dq_inv d" and "d_len d < d_cap d" and "j \<le> d_len d"
  shows "(d_begin d + j) mod d_cap d = d_end d \<longleftrightarrow> j = d_len d"
  using assms mod_add_inj [of j "d_cap d" "d_len d" "d_begin d"] dq_inv_bounds(7) [OF assms(1)]
  by auto

lemma dq_position_step:
  assumes "dq_inv d"
  shows "wrap_inc (d_cap d) ((d_begin d + j) mod d_cap d) = (d_begin d + (j + 1)) mod d_cap d"
proof -
  let ?p = "(d_begin d + j) mod d_cap d"
  have "?p < d_cap d" "d_cap d < 2 ^ 63" using dq_inv_bounds [OF assms] by auto
  then have "?p + 1 < 2 ^ 64" by simp
  then have "sz_add ?p 1 = ?p + 1" by (rule sz_add_small)
  moreover have "(d_begin d + (j + 1)) mod d_cap d = (if ?p + 1 = d_cap d then 0 else ?p + 1)"
    using mod_Suc [of "d_begin d + j" "d_cap d"] by simp
  ultimately show ?thesis by (simp add: wrap_inc_def)
qed

lemma ring_list_dq_step:
  assumes "dq_inv d" and "j < d_len d"
  shows "ring_list (d_arr d) ((d_begin d + j) mod d_cap d) (d_len d - j) =
    d_arr d ! ((d_begin d + j) mod d_cap d) #
      ring_list (d_arr d) ((d_begin d + (j + 1)) mod d_cap d) (d_len d - (j + 1))"
proof -
  have "d_len d - j = Suc (d_len d - (j + 1))" using assms(2) by simp
  moreover have "((d_begin d + j) mod d_cap d + 1) mod d_cap d = (d_begin d + (j + 1)) mod d_cap d"
    by (simp add: mod_simps)
  ultimately show ?thesis using dq_inv_bounds [OF assms(1)] by (simp add: ring_list_Suc_left)
qed

lemma dime_deque_iter_run_from:
  assumes inv: "dq_inv d" and room: "d_len d < d_cap d"
  shows "j \<le> d_len d \<Longrightarrow> d_len d - j < n \<Longrightarrow>
    wrap_inc (d_cap d) (di_i it) = (d_begin d + j) mod d_cap d \<Longrightarrow>
    dime_deque_iter_run n d it =
      Some (ring_list (d_arr d) ((d_begin d + j) mod d_cap d) (d_len d - j))"
proof (induction n arbitrary: j it)
  case 0
  then show ?case by simp
next
  case (Suc n)
  note pos = Suc.prems(3)
  show ?case
  proof (cases "j = d_len d")
    case True
    then show ?thesis using pos dq_position_end [OF inv room Suc.prems(1)]
      by (simp add: dime_deque_iter_next_def Let_def)
  next
    case False
    then have j: "j < d_len d" using Suc.prems(1) by simp
    define p where "p = (d_begin d + j) mod d_cap d"
    have nxt: "dime_deque_iter_next d it = (True, it\<lparr>di_i := p, di_val := d_arr d ! p\<rparr>)"
      using pos False dq_position_end [OF inv room Suc.prems(1)]
      by (simp add: dime_deque_iter_next_def Let_def p_def)
    have "dime_deque_iter_run n d (it\<lparr>di_i := p, di_val := d_arr d ! p\<rparr>) =
        Some (ring_list (d_arr d) ((d_begin d + (j + 1)) mod d_cap d) (d_len d - (j + 1)))"
      using j Suc.prems(2) dq_position_step [OF inv, of j]
      by (intro Suc.IH) (simp_all add: p_def)
    then show ?thesis using nxt ring_list_dq_step [OF inv j] by (simp add: p_def)
  qed
qed

lemma sz_add_sub_one: "b < 2 ^ 64 \<Longrightarrow> sz_add (sz_sub b 1) 1 = b"
  by (cases b) (auto simp: sz_add_def sz_sub_def)

lemma dime_deque_iter_complete:
  assumes inv: "dq_inv d" and "\<not> dq_full d"
  shows "dime_deque_iter_run (Suc (d_len d)) d (dime_deque_iter_init d) = Some (dq_cells d)"
proof -
  have "d_begin d < d_cap d" "d_cap d < 2 ^ 63" "d_len d < d_cap d"
    using dq_inv_bounds [OF inv] assms(2) by (auto simp: dq_full_def)
  then show ?thesis
    using dime_deque_iter_run_from [OF inv, of 0 "Suc (d_len d)" "dime_deque_iter_init d"]
    by (simp add: dime_deque_iter_init_def wrap_inc_def sz_add_sub_one [simplified] dq_cells_def)
qed

lemma dime_deque_iter_full:
  assumes inv: "dq_inv d" and "dq_full d"
  shows "dime_deque_iter_run (Suc n) d (dime_deque_iter_init d) = Some []"
proof -
  have "d_begin d < d_cap d" "d_cap d < 2 ^ 63" "d_end d = d_begin d"
    using dq_inv_bounds [OF inv] assms(2) by (auto simp: dq_full_def)
  then show ?thesis
    by (simp add: dime_deque_iter_init_def dime_deque_iter_next_def wrap_inc_def
      sz_add_sub_one [simplified] Let_def)
qed

text \<open>The callback loop, against its specification on the list of cells.\<close>

lemma dime_deque_apply_loop_from:
  assumes inv: "dq_inv d" and room: "d_len d < d_cap d"
  shows "j \<le> d_len d \<Longrightarrow> d_len d - j < n \<Longrightarrow>
    dime_deque_apply_loop n d f ((d_begin d + j) mod d_cap d) s =
      Some (fold_until f (ring_list (d_arr d) ((d_begin d + j) mod d_cap d) (d_len d - j)) s)"
proof (induction n arbitrary: j s)
  case 0
  then show ?case by simp
next
  case (Suc n)
  show ?case
  proof (cases "j = d_len d")
    case True
    then show ?thesis using dq_position_end [OF inv room Suc.prems(1)] by simp
  next
    case False
    then have j: "j < d_len d" using Suc.prems(1) by simp
    have "dime_deque_apply_loop n d f ((d_begin d + (j + 1)) mod d_cap d) s' =
        Some (fold_until f (ring_list (d_arr d) ((d_begin d + (j + 1)) mod d_cap d)
          (d_len d - (j + 1))) s')" for s'
      using j Suc.prems(2) by (intro Suc.IH) simp_all
    then show ?thesis
      using False dq_position_end [OF inv room Suc.prems(1)] dq_position_step [OF inv, of j]
        ring_list_dq_step [OF inv j]
      by (auto split: prod.split bool.split)
  qed
qed

lemma dime_deque_apply_complete:
  assumes inv: "dq_inv d" and "\<not> dq_full d"
  shows "dime_deque_apply d f s = Some (fold_until f (dq_cells d) s)"
proof -
  have "d_begin d < d_cap d" "d_len d < d_cap d" "length (d_arr d) = d_cap d"
    using dq_inv_bounds [OF inv] assms(2) by (auto simp: dq_full_def)
  then show ?thesis
    using dime_deque_apply_loop_from [OF inv, of 0 "Suc (d_cap d)" f s]
    by (simp add: dime_deque_apply_def dq_cells_def)
qed

section \<open>Properties\<close>

text \<open>
  C38. The three operations that the server calls refine a list: from every representation that
  satisfies the invariant, whatever the allocator answers, \<^verbatim>\<open>dime_deque_pushl\<close> and
  \<^verbatim>\<open>dime_deque_pushr\<close> return 0 and add the pointer at their end, or return -1 and change
  nothing; \<^verbatim>\<open>dime_deque_popl\<close> takes the head off or returns NULL on the empty deque; and the
  invariant holds again.
\<close>

theorem deque_refines_list:
  assumes "dq_inv d"
  shows "dime_deque_pushl ok d p =
      (if d_len d < d_cap d \<or> alloc_ok ok (3 * d_cap d div 2 * 8)
       then (0, snd (dime_deque_pushl ok d p)) else (-1, d)) \<and>
    dime_deque_pushr ok d p =
      (if d_len d < d_cap d \<or> alloc_ok ok (3 * d_cap d div 2 * 8)
       then (0, snd (dime_deque_pushr ok d p)) else (-1, d)) \<and>
    (\<forall>d'. dime_deque_pushl ok d p = (0, d') \<longrightarrow> dq_inv d' \<and> dq_list d' = p # dq_list d) \<and>
    (\<forall>d'. dime_deque_pushr ok d p = (0, d') \<longrightarrow> dq_inv d' \<and> dq_list d' = dq_list d @ [p]) \<and>
    dq_inv (snd (dime_deque_popl d)) \<and>
    fst (dime_deque_popl d) = (if dq_list d = [] then None else Some (hd (dq_list d))) \<and>
    dq_list (snd (dime_deque_popl d)) = tl (dq_list d) \<and>
    dime_deque_len d = length (dq_list d)"
proof -
  have fail: "dime_deque_reserve ok d = None \<Longrightarrow>
      dime_deque_pushl ok d p = (-1, d) \<and> dime_deque_pushr ok d p = (-1, d)"
    by (simp add: dime_deque_pushl_def dime_deque_pushr_def)
  note none = dime_deque_reserve_None [OF assms, of ok]
  have room: "d_len d < d_cap d \<or> d_len d = d_cap d" using dq_inv_bounds(5) [OF assms] by linarith
  have popl: "fst (dime_deque_popl d) = (if dq_list d = [] then None else Some (hd (dq_list d))) \<and>
      dq_list (snd (dime_deque_popl d)) = tl (dq_list d)"
    using dime_deque_popl_step [OF assms] by (cases "dq_list d") auto
  show ?thesis
    using dime_deque_pushl_step [OF assms, of ok p] dime_deque_pushr_step [OF assms, of ok p]
      dime_deque_pushl_rc [OF assms, of ok p] dime_deque_pushr_rc [OF assms, of ok p]
      dime_deque_popl_step [OF assms] popl fail none room
    by (auto simp: dime_deque_len_def prod_eq_iff)
qed

text \<open>A deque of two pointers, built by the code's own operations.\<close>

definition deque_of :: "'a list \<Rightarrow> 'a dime_deque" where
  "deque_of xs = foldl (\<lambda>d x. snd (dime_deque_pushr True d x)) (the (dime_deque_init True)) xs"

lemma deque_of_Nil: "dq_inv (deque_of []) \<and> dq_list (deque_of []) = [] \<and>
    d_cap (deque_of []) = 16 \<and> d_begin (deque_of []) = 0"
  by (simp add: deque_of_def dime_deque_init_def Let_def alloc_ok_def ALLOC_MAX_def PTR_SIZE_def
    sz_mul_def dq_inv_def dq_list_def dq_cells_def)

lemma deque_of_snoc: "deque_of (xs @ [x]) = snd (dime_deque_pushr True (deque_of xs) x)"
  by (simp add: deque_of_def)

lemma deque_of_inv: "dq_inv (deque_of xs)"
  by (induction xs rule: rev_induct) (simp_all add: deque_of_Nil deque_of_snoc dime_deque_pushr_step)

lemma deque_of_small:
  "length xs \<le> 16 \<Longrightarrow>
   dq_list (deque_of xs) = xs \<and> d_cap (deque_of xs) = 16 \<and> d_begin (deque_of xs) = 0"
proof (induction xs rule: rev_induct)
  case Nil
  then show ?case by (simp add: deque_of_Nil)
next
  case (snoc x xs)
  then have IH: "dq_list (deque_of xs) = xs" "d_cap (deque_of xs) = 16" "d_begin (deque_of xs) = 0"
    by simp_all
  then have "d_len (deque_of xs) = length xs" using length_dq_list [of "deque_of xs"] by simp
  then have room: "d_len (deque_of xs) < d_cap (deque_of xs)" using snoc.prems IH by simp
  then have "fst (dime_deque_pushr True (deque_of xs) x) = 0"
    by (simp add: dime_deque_pushr_rc [OF deque_of_inv])
  then have "dq_list (deque_of (xs @ [x])) = xs @ [x]"
    using dime_deque_pushr_step [OF deque_of_inv, of True xs x] IH by (simp add: deque_of_snoc)
  moreover have "dime_deque_reserve True (deque_of xs) = Some (deque_of xs)"
    using room by (simp add: dime_deque_reserve_def)
  ultimately show ?case using IH by (simp add: deque_of_snoc dime_deque_pushr_def)
qed

lemma deque_of_len: "length xs \<le> 16 \<Longrightarrow> d_len (deque_of xs) = length xs"
  using deque_of_small [of xs] length_dq_list [of "deque_of xs"] by simp

lemma deque_of_end: "length xs \<le> 16 \<Longrightarrow> d_end (deque_of xs) = length xs mod 16"
  using dq_inv_bounds(7) [OF deque_of_inv, of xs] deque_of_small [of xs] deque_of_len [of xs] by simp

theorem deque_refines_list_witness:
  "dq_inv (deque_of [1, 2 :: nat]) \<and>
   fst (dime_deque_popl (deque_of [1, 2 :: nat])) =
     (if dq_list (deque_of [1, 2 :: nat]) = [] then None else Some (hd (dq_list (deque_of [1, 2]))))"
  using deque_refines_list [OF deque_of_inv [of "[1, 2 :: nat]"], of True 3]
    deque_of_inv [of "[1, 2 :: nat]"] by blast

text \<open>
  First in, first out: whatever is pushed on the right, if every push reports success, is
  popped on the left after the pointers that were there before, in the order of the pushes.
\<close>

theorem deque_fifo:
  assumes "dq_inv d" and "fst (push_all dime_deque_pushr xs d)"
  shows "fst (pop_n dime_deque_popl (dime_deque_len d + length xs) (snd (push_all dime_deque_pushr xs d))) =
    dq_list d @ map snd xs"
  using dq.fifo [OF assms] by (simp add: dime_deque_len_def)

theorem deque_fifo_witness:
  "fst (push_all dime_deque_pushr [(True, 7)] (deque_of [5 :: nat])) \<and>
   fst (pop_n dime_deque_popl (dime_deque_len (deque_of [5 :: nat]) + 1)
     (snd (push_all dime_deque_pushr [(True, 7)] (deque_of [5 :: nat])))) =
   dq_list (deque_of [5 :: nat]) @ [7]"
proof -
  have "fst (push_all dime_deque_pushr [(True, 7)] (deque_of [5 :: nat]))"
    using dime_deque_pushr_rc [of "deque_of [5 :: nat]" True 7, OF deque_of_inv] deque_of_len [of "[5 :: nat]"]
      deque_of_small [of "[5 :: nat]"]
    by (simp add: split_beta Let_def)
  then show ?thesis using deque_fifo [of "deque_of [5 :: nat]" "[(True, 7)]", OF deque_of_inv] deque_of_len [of "[5 :: nat]"]
    by simp
qed

text \<open>
  \<^verbatim>\<open>dime_deque_popr\<close> returns the tail and removes it, except when the end index is 0, where
  it accesses the array at index \<^verbatim>\<open>SIZE_MAX\<close>: the function resets \<^verbatim>\<open>begin\<close> to the capacity where
  it means to reset \<^verbatim>\<open>end\<close>.
\<close>

theorem deque_popr_spec:
  assumes "dq_inv d" and "dq_list d = xs @ [x]"
  shows "if d_end d = 0 then dime_deque_popr d = Inl SIZE_MAX
    else \<exists>d'. dime_deque_popr d = Inr (Some x, d') \<and> dq_inv d' \<and> dq_list d' = xs"
proof -
  have "d_len d \<noteq> 0" using assms(2) dq_list_empty_iff [of d] by auto
  then show ?thesis using assms dime_deque_popr_in_bounds dime_deque_popr_wrap by auto
qed

theorem deque_popr_spec_witness:
  "dq_list (deque_of [0 ..< 16]) = [0 ..< 15] @ [15] \<and> dime_deque_popr (deque_of [0 ..< 16]) = Inl SIZE_MAX"
proof -
  have "dq_list (deque_of [0 ..< 16]) = [0 ..< 15] @ [15]" and "d_end (deque_of [0 ..< 16]) = 0"
    using deque_of_small [of "[0 ..< 16]"] deque_of_end [of "[0 ..< 16]"] by (simp_all add: upt_rec)
  then show ?thesis using deque_popr_spec [OF deque_of_inv, of "[0 ..< 16]" "[0 ..< 15]" 15] by simp
qed

text \<open>
  The iterator (and so \<^verbatim>\<open>while (dime_deque_iter_next(&it))\<close>) yields every stored pointer from
  head to tail and then ends, unless the deque is full: on a full deque the end index equals
  the start index and the loop ends before the first pointer.
\<close>

theorem deque_iter_spec:
  assumes "dq_inv d"
  shows "dime_deque_iter_run (Suc (d_len d)) d (dime_deque_iter_init d) =
    Some (if dq_full d then [] else map Some (dq_list d))"
  using dime_deque_iter_full [OF assms] dime_deque_iter_complete [OF assms] dq_cells_list [OF assms]
  by auto

theorem deque_iter_spec_witness:
  "dime_deque_iter_run 17 (deque_of [0 ..< 16]) (dime_deque_iter_init (deque_of [0 ..< 16])) = Some []"
proof -
  have "dq_full (deque_of [0 ..< 16])" and "d_len (deque_of [0 ..< 16]) = 16"
    using deque_of_small [of "[0 ..< 16]"] deque_of_len [of "[0 ..< 16]"] by (simp_all add: dq_full_def)
  then show ?thesis using deque_iter_spec [OF deque_of_inv, of "[0 ..< 16]"] by simp
qed

text \<open>
  \<^verbatim>\<open>dime_deque_apply\<close> always ends, and on a deque that is not full it calls its argument on
  every stored pointer from head to tail until a call returns 0, threading its state.
\<close>

theorem deque_apply_spec:
  assumes "dq_inv d"
  shows "dime_deque_apply d f s =
    Some (if dq_full d then s else fold_until f (map Some (dq_list d)) s)"
proof (cases "dq_full d")
  case True
  then have "d_begin d = d_end d" using dq_inv_bounds [OF assms] by (simp add: dq_full_def)
  then show ?thesis using True by (simp add: dime_deque_apply_def)
next
  case False
  then show ?thesis using dime_deque_apply_complete [OF assms] dq_cells_list [OF assms] by simp
qed

theorem deque_apply_spec_witness:
  "dime_deque_apply (deque_of [4, 5, 6]) (\<lambda>p s. (p \<noteq> Some (5 :: nat), p # s)) [] = Some [Some 5, Some 4]"
proof -
  have "dq_list (deque_of [4, 5, 6 :: nat]) = [4, 5, 6]" and "\<not> dq_full (deque_of [4, 5, 6 :: nat])"
    using deque_of_small [of "[4, 5, 6 :: nat]"] deque_of_len [of "[4, 5, 6 :: nat]"]
    by (simp_all add: dq_full_def)
  then show ?thesis
    using deque_apply_spec [OF deque_of_inv, of "[4, 5, 6 :: nat]" "\<lambda>p s. (p \<noteq> Some 5, p # s)" "[]"]
    by simp
qed

end
