(* ===== verification/Ringbuffer.thy ===== *)
theory Ringbuffer
  imports Interfaces
begin

text \<open>
  The byte ring buffer of \<^verbatim>\<open>server/ringbuffer.c\<close>, the first-in-first-out store between
  the socket calls and the message parser.  \<open>None\<close> is an indeterminate byte of the block.
\<close>

section \<open>State and operations\<close>

record dime_ringbuffer =
  r_len :: size_t
  r_arr :: "byte option list"
  r_cap :: size_t
  r_begin :: size_t
  r_end :: size_t

definition dime_ringbuffer_init :: "bool \<Rightarrow> dime_ringbuffer option" where
  "dime_ringbuffer_init ok =
     (let cap = 1024 in
      if alloc_ok ok cap
      then Some \<lparr>r_len = 0, r_arr = malloc_arr cap, r_cap = cap, r_begin = 0, r_end = 0\<rparr>
      else None)"

text \<open>The growth step of \<^verbatim>\<open>dime_ringbuffer_write\<close> for a write of \<open>siz\<close> bytes.\<close>

definition dime_ringbuffer_grow :: "bool \<Rightarrow> dime_ringbuffer \<Rightarrow> size_t \<Rightarrow> dime_ringbuffer option" where
  "dime_ringbuffer_grow ok ring siz =
     (if sz_add (r_len ring) siz \<ge> r_cap ring then
        (let ncap = sz_mul 3 (sz_add (r_len ring) siz) div 2
         in if \<not> alloc_ok ok ncap then None
            else
              (let narr = realloc_arr ncap (r_arr ring)
               in if r_end ring < r_begin ring then
                    (let nbegin = sz_add (r_begin ring) (sz_sub ncap (r_cap ring))
                     in Some (ring\<lparr>r_arr := memmove_in nbegin (r_begin ring) (sz_sub ncap nbegin) narr,
                                   r_begin := nbegin, r_cap := ncap\<rparr>))
                  else Some (ring\<lparr>r_arr := narr, r_cap := ncap\<rparr>)))
      else Some ring)"

definition dime_ringbuffer_write :: "bool \<Rightarrow> dime_ringbuffer \<Rightarrow> byte list \<Rightarrow> int \<times> dime_ringbuffer" where
  "dime_ringbuffer_write ok ring buf =
     (let siz = length buf
      in if siz = 0 then (0, ring)
         else
           (case dime_ringbuffer_grow ok ring siz of
              None \<Rightarrow> (-1, ring)
            | Some ring \<Rightarrow>
                (let spaceleft = sz_sub (r_cap ring) (r_end ring);
                     cells = map Some buf;
                     narr = (if spaceleft < siz
                             then memcpy_at 0 (drop spaceleft cells)
                                    (memcpy_at (r_end ring) (take spaceleft cells) (r_arr ring))
                             else memcpy_at (r_end ring) cells (r_arr ring));
                     e = sz_add (r_end ring) siz;
                     e' = (if e \<ge> r_cap ring then sz_sub e (r_cap ring) else e)
                 in (int siz, ring\<lparr>r_arr := narr, r_len := sz_add (r_len ring) siz, r_end := e'\<rparr>))))"

text \<open>\<^verbatim>\<open>dime_ringbuffer_peek\<close> gives the bytes it copied; their number is its return value.\<close>

definition dime_ringbuffer_peek :: "dime_ringbuffer \<Rightarrow> size_t \<Rightarrow> byte list" where
  "dime_ringbuffer_peek ring siz =
     (let siz = (if siz > r_len ring then r_len ring else siz)
      in if siz = 0 then []
         else
           (let spaceleft = sz_sub (r_cap ring) (r_begin ring)
            in map the
                 (if spaceleft < siz
                  then take spaceleft (drop (r_begin ring) (r_arr ring)) @ take (sz_sub siz spaceleft) (r_arr ring)
                  else take siz (drop (r_begin ring) (r_arr ring)))))"

definition dime_ringbuffer_discard :: "dime_ringbuffer \<Rightarrow> size_t \<Rightarrow> size_t \<times> dime_ringbuffer" where
  "dime_ringbuffer_discard ring siz =
     (let siz = (if siz > r_len ring then r_len ring else siz);
          b = sz_add (r_begin ring) siz;
          b' = (if b \<ge> r_cap ring then sz_sub b (r_cap ring) else b)
      in (siz, ring\<lparr>r_len := sz_sub (r_len ring) siz, r_begin := b'\<rparr>))"

definition dime_ringbuffer_read :: "dime_ringbuffer \<Rightarrow> size_t \<Rightarrow> byte list \<times> dime_ringbuffer" where
  "dime_ringbuffer_read ring siz =
     (let buf = dime_ringbuffer_peek ring siz
      in (buf, snd (dime_ringbuffer_discard ring (length buf))))"

definition dime_ringbuffer_len :: "dime_ringbuffer \<Rightarrow> size_t" where
  "dime_ringbuffer_len ring = r_len ring"

section \<open>Representation\<close>

definition rb_bytes :: "dime_ringbuffer \<Rightarrow> byte list" where
  "rb_bytes r = map the (ring_list (r_arr r) (r_begin r) (r_len r))"

definition rb_inv :: "dime_ringbuffer \<Rightarrow> bool" where
  "rb_inv r \<longleftrightarrow>
     length (r_arr r) = r_cap r \<and> 1024 \<le> r_cap r \<and> r_cap r \<le> ALLOC_MAX \<and>
     r_begin r < r_cap r \<and> r_len r < r_cap r \<and> r_end r = (r_begin r + r_len r) mod r_cap r"

lemma length_rb_bytes [simp]: "length (rb_bytes r) = r_len r"
  by (simp add: rb_bytes_def)

lemma rb_inv_bounds:
  assumes "rb_inv r"
  shows "length (r_arr r) = r_cap r" and "1024 \<le> r_cap r" and "r_cap r \<le> 2 ^ 47"
    and "r_begin r < r_cap r" and "r_len r < r_cap r" and "r_end r < r_cap r"
    and "r_end r = (r_begin r + r_len r) mod r_cap r"
  using assms by (auto simp: rb_inv_def ALLOC_MAX_def)

text \<open>The subtraction that brings an advanced index back into range is reduction modulo the capacity.\<close>

lemma wrap_index:
  assumes "i < c" and "n \<le> c" and "c \<le> 2 ^ 62"
  shows "(if sz_add i n \<ge> c then sz_sub (sz_add i n) c else sz_add i n) = (i + n) mod c"
proof -
  have "sz_add i n = i + n" using assms by (intro sz_add_small) simp
  moreover have "sz_sub (i + n) c = i + n - c" if "c \<le> i + n" using that assms by (intro sz_sub_small) auto
  ultimately show ?thesis using assms by (auto simp: mod_if)
qed

section \<open>Correctness of the operations\<close>

lemma dime_ringbuffer_init_ok:
  assumes "dime_ringbuffer_init ok = Some r"
  shows "rb_inv r" and "rb_bytes r = []"
  using assms by (auto simp: dime_ringbuffer_init_def Let_def rb_inv_def rb_bytes_def ALLOC_MAX_def
    split: if_splits)

lemma dime_ringbuffer_init_Some: "ok \<Longrightarrow> \<exists>r. dime_ringbuffer_init ok = Some r"
  by (simp add: dime_ringbuffer_init_def alloc_ok_def ALLOC_MAX_def)

lemma dime_ringbuffer_grow_eq:
  assumes inv: "rb_inv r" and siz: "siz \<le> ALLOC_MAX"
  defines "n \<equiv> 3 * (r_len r + siz) div 2"
  shows "dime_ringbuffer_grow ok r siz =
    (if r_len r + siz < r_cap r then Some r
     else if \<not> alloc_ok ok n then None
     else if r_end r < r_begin r then
       Some (r\<lparr>r_arr := memmove_in (r_begin r + (n - r_cap r)) (r_begin r) (r_cap r - r_begin r)
                (realloc_arr n (r_arr r)), r_begin := r_begin r + (n - r_cap r), r_cap := n\<rparr>)
     else Some (r\<lparr>r_arr := realloc_arr n (r_arr r), r_cap := n\<rparr>))"
proof -
  note b = rb_inv_bounds [OF inv]
  have s: "siz \<le> 2 ^ 47" using siz by (simp add: ALLOC_MAX_def)
  have add: "sz_add (r_len r) siz = r_len r + siz" using b s by (intro sz_add_small) simp
  have mul: "sz_mul 3 (r_len r + siz) div 2 = n"
    unfolding n_def using b s by (subst sz_mul_small) simp_all
  show ?thesis
  proof (cases "r_len r + siz < r_cap r")
    case True
    then show ?thesis using add by (simp add: dime_ringbuffer_grow_def)
  next
    case False
    have n: "r_cap r \<le> n" "n < 2 ^ 50" using False b s by (auto simp: n_def)
    have sub: "sz_sub n (r_cap r) = n - r_cap r" using n by (intro sz_sub_small) auto
    have nb: "sz_add (r_begin r) (n - r_cap r) = r_begin r + (n - r_cap r)"
      using b n by (intro sz_add_small) simp
    have cnt: "sz_sub n (r_begin r + (n - r_cap r)) = r_cap r - r_begin r"
      using b n by (subst sz_sub_small) auto
    show ?thesis using False
      by (simp add: dime_ringbuffer_grow_def Let_def add mul sub nb cnt)
  qed
qed

lemma dime_ringbuffer_grow_ok:
  assumes inv: "rb_inv r" and siz: "siz \<le> ALLOC_MAX" and grow: "dime_ringbuffer_grow ok r siz = Some r'"
  shows "rb_inv r'" and "ring_list (r_arr r') (r_begin r') (r_len r') = ring_list (r_arr r) (r_begin r) (r_len r)"
    and "r_len r' = r_len r" and "r_len r' + siz < r_cap r'"
proof -
  note b = rb_inv_bounds [OF inv]
  define n where "n = 3 * (r_len r + siz) div 2"
  note eq = dime_ringbuffer_grow_eq [OF inv siz, of ok, folded n_def]
  have "rb_inv r' \<and> ring_list (r_arr r') (r_begin r') (r_len r') = ring_list (r_arr r) (r_begin r) (r_len r) \<and>
    r_len r' = r_len r \<and> r_len r' + siz < r_cap r'"
  proof (cases "r_len r + siz < r_cap r")
    case True
    then show ?thesis using eq grow inv by simp
  next
    case False
    then have ok: "alloc_ok ok n" using eq grow by (auto split: if_splits)
    have n: "r_cap r \<le> n" "r_len r + siz < n" "n \<le> ALLOC_MAX" "1024 \<le> n"
      using False b(2) ok by (auto simp: n_def alloc_ok_def)
    show ?thesis
    proof (cases "r_end r < r_begin r")
      case True
      have wrapped: "r_cap r - r_begin r \<le> r_len r"
      proof (rule ccontr)
        assume "\<not> ?thesis"
        then have "r_end r = r_begin r + r_len r" using b(4,7) by simp
        then show False using True by simp
      qed
      have r': "r' = r\<lparr>r_arr := memmove_in (r_begin r + (n - r_cap r)) (r_begin r) (r_cap r - r_begin r)
                (realloc_arr n (r_arr r)), r_begin := r_begin r + (n - r_cap r), r_cap := n\<rparr>"
        using eq grow False True ok by simp
      have lt: "r_begin r + (n - r_cap r) < n" using b(4) n(1) by linarith
      have "r_begin r + (n - r_cap r) + r_len r = (r_begin r + r_len r - r_cap r) + n"
        using n(1) wrapped b(4) by linarith
      moreover have "r_end r = r_begin r + r_len r - r_cap r"
      proof -
        have "r_cap r \<le> r_begin r + r_len r" "r_begin r + r_len r - r_cap r < r_cap r"
          using b(4,5) wrapped by linarith+
        then show ?thesis using b(7) by (simp add: le_mod_geq)
      qed
      ultimately have "(r_begin r + (n - r_cap r) + r_len r) mod n = r_end r"
        using b(6) n(1) by (metis mod_add_self2 mod_less order_less_le_trans)
      then have "rb_inv r'"
        using b n lt by (auto simp: r' rb_inv_def length_memmove_in)
      moreover have "ring_list (r_arr r') (r_begin r') (r_len r') = ring_list (r_arr r) (r_begin r) (r_len r)"
        using ring_list_realloc_wrapped [of "r_begin r" "r_arr r" n "r_len r"] b n wrapped by (simp add: r')
      ultimately show ?thesis using n by (simp add: r')
    next
      case ge: False
      have flat: "r_begin r + r_len r < r_cap r"
      proof (rule ccontr)
        assume "\<not> ?thesis"
        then have "r_end r = r_begin r + r_len r - r_cap r" using b(4,5,7) by (simp add: mod_if)
        then show False using ge b(5) b(4) \<open>\<not> r_begin r + r_len r < r_cap r\<close> by linarith
      qed
      have r': "r' = r\<lparr>r_arr := realloc_arr n (r_arr r), r_cap := n\<rparr>"
        using eq grow False ge ok by simp
      have "rb_inv r'" using b n flat by (auto simp: r' rb_inv_def)
      then show ?thesis using ring_list_realloc_flat [of "r_begin r" "r_len r" "r_arr r" n] b n flat
        by (simp add: r')
    qed
  qed
  then show "rb_inv r'" and "ring_list (r_arr r') (r_begin r') (r_len r') = ring_list (r_arr r) (r_begin r) (r_len r)"
    and "r_len r' = r_len r" and "r_len r' + siz < r_cap r'" by auto
qed

lemma dime_ringbuffer_write_rc:
  assumes "rb_inv r" and "length bs \<le> ALLOC_MAX"
  shows "fst (dime_ringbuffer_write ok r bs) =
    (if bs = [] \<or> r_len r + length bs < r_cap r \<or> alloc_ok ok (3 * (r_len r + length bs) div 2)
     then int (length bs) else -1)"
  by (auto simp: dime_ringbuffer_write_def Let_def dime_ringbuffer_grow_eq [OF assms])

lemma dime_ringbuffer_write_step:
  assumes inv: "rb_inv r" and len: "length bs \<le> ALLOC_MAX"
  shows "rb_inv (snd (dime_ringbuffer_write ok r bs)) \<and>
    rb_bytes (snd (dime_ringbuffer_write ok r bs)) =
      (if fst (dime_ringbuffer_write ok r bs) < 0 then rb_bytes r else rb_bytes r @ bs)"
proof (cases "bs = [] \<or> dime_ringbuffer_grow ok r (length bs) = None")
  case True
  then show ?thesis using inv by (auto simp: dime_ringbuffer_write_def Let_def)
next
  case False
  then obtain r' where grow: "dime_ringbuffer_grow ok r (length bs) = Some r'" by auto
  note g = dime_ringbuffer_grow_ok [OF inv len grow]
  note b = rb_inv_bounds [OF g(1)]
  have sub: "sz_sub (r_cap r') (r_end r') = r_cap r' - r_end r'"
    using b by (intro sz_sub_small) auto
  have add: "sz_add (r_len r') (length bs) = r_len r' + length bs"
    using b g(4) by (intro sz_add_small) simp
  let ?w = "r'\<lparr>r_arr := ring_write (r_end r') (map Some bs) (r_arr r'), r_len := r_len r' + length bs,
      r_end := (r_end r' + length bs) mod r_cap r'\<rparr>"
  have w: "dime_ringbuffer_write ok r bs = (int (length bs), ?w)"
    using False grow wrap_index [of "r_end r'" "r_cap r'" "length bs"] b(1,3,6) g(4)
    by (simp add: dime_ringbuffer_write_def Let_def sub add ring_write_def)
  have "ring_list (r_arr ?w) (r_begin ?w) (r_len ?w) = ring_list (r_arr r') (r_begin r') (r_len r') @ map Some bs"
    using ring_list_ring_write [of "r_arr r'" "r_len r'" "map Some bs" "r_begin r'"] b(1,2,7) g(4)
    by simp
  moreover have "rb_inv ?w"
  proof -
    have "(r_end r' + length bs) mod r_cap r' = (r_begin r' + (r_len r' + length bs)) mod r_cap r'"
      using b(7) by (simp add: mod_simps add.assoc)
    moreover have "length (ring_write (r_end r') (map Some bs) (r_arr r')) = r_cap r'"
      using b g(4) by (subst length_ring_write) auto
    ultimately show ?thesis using g b by (simp add: rb_inv_def ALLOC_MAX_def)
  qed
  ultimately show ?thesis using w g(2) by (simp add: rb_bytes_def comp_def)
qed

lemma dime_ringbuffer_peek_eq:
  assumes inv: "rb_inv r"
  shows "dime_ringbuffer_peek r n = take n (rb_bytes r)"
proof -
  note b = rb_inv_bounds [OF inv]
  define k where "k = (if n > r_len r then r_len r else n)"
  have k: "k = min n (r_len r)" "k \<le> r_len r" by (auto simp: k_def)
  have sub: "sz_sub (r_cap r) (r_begin r) = r_cap r - r_begin r" using b by (intro sz_sub_small) auto
  have sub': "sz_sub k (r_cap r - r_begin r) = k - (r_cap r - r_begin r)" if "r_cap r - r_begin r < k"
    using that b k(2) by (intro sz_sub_small) auto
  have "dime_ringbuffer_peek r n = map the (ring_read (r_begin r) k (r_arr r))"
    by (simp add: dime_ringbuffer_peek_def k_def [symmetric] Let_def sub sub' ring_read_def b(1))
  then show ?thesis
    using ring_read_eq [of "r_begin r" "r_arr r" k] b k
    by (simp add: rb_bytes_def take_map take_ring_list)
qed

lemma dime_ringbuffer_discard_step:
  assumes inv: "rb_inv r"
  shows "rb_inv (snd (dime_ringbuffer_discard r n)) \<and>
    rb_bytes (snd (dime_ringbuffer_discard r n)) = drop n (rb_bytes r) \<and>
    fst (dime_ringbuffer_discard r n) = min n (r_len r)"
proof -
  note b = rb_inv_bounds [OF inv]
  define k where "k = (if n > r_len r then r_len r else n)"
  have k: "k = min n (r_len r)" "k \<le> r_len r" by (auto simp: k_def)
  have sub: "sz_sub (r_len r) k = r_len r - k" using b k by (intro sz_sub_small) auto
  let ?r = "r\<lparr>r_len := r_len r - k, r_begin := (r_begin r + k) mod r_cap r\<rparr>"
  have eq: "dime_ringbuffer_discard r n = (k, ?r)"
  proof -
    have "(if sz_add (r_begin r) k \<ge> r_cap r then sz_sub (sz_add (r_begin r) k) (r_cap r)
        else sz_add (r_begin r) k) = (r_begin r + k) mod r_cap r"
      using b k(2) by (intro wrap_index) auto
    then show ?thesis
      by (simp only: dime_ringbuffer_discard_def k_def [symmetric] Let_def sub)
  qed
  have "((r_begin r + k) mod r_cap r + (r_len r - k)) mod r_cap r = r_end r"
  proof -
    have "((r_begin r + k) mod r_cap r + (r_len r - k)) mod r_cap r =
        (r_begin r + k + (r_len r - k)) mod r_cap r" by (rule mod_add_left_eq)
    then show ?thesis using b(7) k(2) by simp
  qed
  then have "rb_inv ?r" using inv b by (auto simp: rb_inv_def)
  moreover have "rb_bytes ?r = drop n (rb_bytes r)"
    using drop_ring_list [of k "r_len r" "r_arr r" "r_begin r"] k b(1)
    by (cases "n \<le> r_len r") (auto simp: rb_bytes_def drop_map)
  ultimately show ?thesis using eq k by simp
qed

interpretation rb: byte_stream rb_inv rb_bytes dime_ringbuffer_write dime_ringbuffer_peek
  dime_ringbuffer_discard dime_ringbuffer_len
proof unfold_locales
  fix r :: dime_ringbuffer and bs :: "byte list" and ok :: bool
  assume "rb_inv r" and "length bs \<le> ALLOC_MAX"
  then show "fst (dime_ringbuffer_write ok r bs) = -1 \<or> fst (dime_ringbuffer_write ok r bs) = int (length bs)"
    by (simp add: dime_ringbuffer_write_rc)
qed (use dime_ringbuffer_write_step dime_ringbuffer_discard_step in
  \<open>auto simp: dime_ringbuffer_peek_eq dime_ringbuffer_len_def\<close>)

section \<open>Properties\<close>

text \<open>
  C37. The ring buffer refines a byte string: \<^verbatim>\<open>dime_ringbuffer_write\<close> appends the whole buffer and
  returns its length, or fails with -1 and changes nothing, and it fails only when the block has
  to grow and the allocator refuses; \<^verbatim>\<open>dime_ringbuffer_peek\<close> gives a prefix and \<^verbatim>\<open>discard\<close> and
  \<^verbatim>\<open>read\<close> remove one, cut to what is there; the invariant holds again after each.
\<close>

theorem ringbuffer_refines_stream:
  assumes "rb_inv r" and "length bs \<le> ALLOC_MAX"
  shows "fst (dime_ringbuffer_write ok r bs) =
      (if bs = [] \<or> r_len r + length bs < r_cap r \<or> alloc_ok ok (3 * (r_len r + length bs) div 2)
       then int (length bs) else -1) \<and>
    rb_inv (snd (dime_ringbuffer_write ok r bs)) \<and>
    rb_bytes (snd (dime_ringbuffer_write ok r bs)) =
      (if fst (dime_ringbuffer_write ok r bs) = -1 then rb_bytes r else rb_bytes r @ bs) \<and>
    dime_ringbuffer_peek r n = take n (rb_bytes r) \<and>
    rb_inv (snd (dime_ringbuffer_discard r n)) \<and>
    fst (dime_ringbuffer_discard r n) = min n (length (rb_bytes r)) \<and>
    rb_bytes (snd (dime_ringbuffer_discard r n)) = drop n (rb_bytes r) \<and>
    fst (dime_ringbuffer_read r n) = take n (rb_bytes r) \<and>
    rb_bytes (snd (dime_ringbuffer_read r n)) = drop n (rb_bytes r) \<and>
    dime_ringbuffer_len r = length (rb_bytes r)"
  using dime_ringbuffer_write_rc [OF assms, of ok] dime_ringbuffer_write_step [OF assms, of ok]
    dime_ringbuffer_discard_step [OF assms(1)] dime_ringbuffer_peek_eq [OF assms(1)]
  by (auto simp: dime_ringbuffer_read_def dime_ringbuffer_len_def Let_def min_def)

lemma ringbuffer_init_True:
  "rb_inv (the (dime_ringbuffer_init True)) \<and> rb_bytes (the (dime_ringbuffer_init True)) = [] \<and>
   r_cap (the (dime_ringbuffer_init True)) = 1024 \<and> r_len (the (dime_ringbuffer_init True)) = 0"
  by (simp add: dime_ringbuffer_init_def Let_def alloc_ok_def ALLOC_MAX_def rb_inv_def rb_bytes_def)

theorem ringbuffer_refines_stream_witness:
  "fst (dime_ringbuffer_write False (the (dime_ringbuffer_init True)) [1, 2]) = 2 \<and>
   rb_bytes (snd (dime_ringbuffer_write False (the (dime_ringbuffer_init True)) [1, 2])) = [1, 2] \<and>
   fst (dime_ringbuffer_write False (the (dime_ringbuffer_init True)) (replicate 1024 0)) = -1"
  using ringbuffer_refines_stream [of "the (dime_ringbuffer_init True)" "[1, 2]" False]
    ringbuffer_refines_stream [of "the (dime_ringbuffer_init True)" "replicate 1024 0" False]
  by (simp add: ringbuffer_init_True ALLOC_MAX_def alloc_ok_def)

text \<open>
  The stream does not depend on how it is cut: after buffers have been written in turn, each
  successfully, reading everything back with peeks and discards of any sizes gives the
  concatenation of the buffers, and leaves the ring buffer empty.
\<close>

theorem ringbuffer_chunking:
  assumes "rb_inv r" and "\<forall>(ok, bs) \<in> set bss. length bs \<le> ALLOC_MAX"
    and "fst (write_all dime_ringbuffer_write bss r)"
    and "sum_list ns = length (rb_bytes r) + length (concat (map snd bss))"
  shows "fst (read_chunks dime_ringbuffer_peek dime_ringbuffer_discard ns
        (snd (write_all dime_ringbuffer_write bss r))) = rb_bytes r @ concat (map snd bss) \<and>
    dime_ringbuffer_len (snd (read_chunks dime_ringbuffer_peek dime_ringbuffer_discard ns
        (snd (write_all dime_ringbuffer_write bss r)))) = 0"
  by (rule rb.write_read_chunks [OF assms])

theorem ringbuffer_chunking_witness:
  "fst (read_chunks dime_ringbuffer_peek dime_ringbuffer_discard [1, 2]
     (snd (write_all dime_ringbuffer_write [(True, [10, 20]), (True, [30])] (the (dime_ringbuffer_init True)))))
   = [10, 20, 30]"
proof -
  let ?r = "the (dime_ringbuffer_init True)"
  let ?w = "snd (dime_ringbuffer_write True ?r [10, 20])"
  have len: "length [10 :: byte, 20] \<le> ALLOC_MAX" "length [30 :: byte] \<le> ALLOC_MAX"
    by (simp_all add: ALLOC_MAX_def)
  have inv: "rb_inv ?r" using ringbuffer_init_True by blast
  have "fst (dime_ringbuffer_write True ?r [10, 20]) = 2"
    using dime_ringbuffer_write_rc [OF inv len(1), of True] ringbuffer_init_True by simp
  moreover have w: "rb_inv ?w" using dime_ringbuffer_write_step [OF inv len(1)] by blast
  moreover have "fst (dime_ringbuffer_write True ?w [30]) = 1 \<or> fst (dime_ringbuffer_write True ?w [30]) = -1"
    using dime_ringbuffer_write_rc [OF w len(2), of True] by simp
  moreover have "length (rb_bytes ?w) = 2"
    using dime_ringbuffer_write_step [OF inv len(1), of True] calculation(1) ringbuffer_init_True by simp
  then have "fst (dime_ringbuffer_write True ?w [30]) = 1"
    using dime_ringbuffer_write_rc [OF w len(2), of True]
    by (simp add: alloc_ok_def ALLOC_MAX_def)
  ultimately have "fst (write_all dime_ringbuffer_write [(True, [10, 20]), (True, [30])] ?r)"
    by (simp add: split_beta Let_def)
  then show ?thesis
    using ringbuffer_chunking [of ?r "[(True, [10, 20]), (True, [30])]" "[1, 2]"] inv len
      ringbuffer_init_True by simp
qed

end
