(* ===== verification/Probing.thy ===== *)
theory Probing
  imports Dime_Prelude "HOL-Library.Multiset"
begin

text \<open>
  The probe sequence of the hash table: the bucket of the hash, then steps of growing length
  1, 2, 3, ..., all modulo a capacity that is a power of two.  The offsets are the triangular
  numbers; \<^verbatim>\<open>server/table.h\<close> says that the sequence "assures that every index is eventually
  visited", which is proved here.
\<close>

definition bucket :: "size_t \<Rightarrow> 64 word \<Rightarrow> size_t" where
  "bucket cap hash = unat (hash AND word_of_nat (cap - 1))"

definition probe_next :: "size_t \<Rightarrow> size_t \<Rightarrow> size_t \<Rightarrow> size_t" where
  "probe_next cap i k = (sz_add i k) AND (cap - 1)"

text \<open>The \<open>j\<close>-th index of the sequence that starts at bucket \<open>h\<close>.\<close>

definition probe :: "size_t \<Rightarrow> size_t \<Rightarrow> nat \<Rightarrow> size_t" where
  "probe cap h j = (h + j * (j + 1) div 2) mod cap"

lemma nat_and_mask: "(n :: nat) AND (2 ^ b - 1) = n mod 2 ^ b"
  by (metis mask_eq_exp_minus_1 take_bit_eq_mask take_bit_eq_mod)

lemma bucket_eq:
  assumes "b < 64"
  shows "bucket (2 ^ b) hash = unat hash mod 2 ^ b"
proof -
  have "word_of_nat (2 ^ b - 1) = (mask b :: 64 word)"
    by (simp add: mask_eq_exp_minus_1 of_nat_diff)
  then have "bucket (2 ^ b) hash = unat (take_bit b hash)"
    by (simp add: bucket_def take_bit_eq_mask)
  also have "\<dots> = take_bit b (unat hash)" by (rule unsigned_take_bit_eq)
  finally show ?thesis by (simp only: take_bit_eq_mod)
qed

lemma bucket_less: "b < 64 \<Longrightarrow> bucket (2 ^ b) hash < 2 ^ b"
  by (simp add: bucket_eq)

lemma triangular_Suc: "Suc j * (Suc j + 1) div 2 = j * (j + 1) div 2 + (j + 1)" for j :: nat
proof -
  have "Suc j * (Suc j + 1) = j * (j + 1) + 2 * (j + 1)" by simp
  then show ?thesis by (simp only: div_mult_self2)
qed

lemma probe_0 [simp]: "h < cap \<Longrightarrow> probe cap h 0 = h"
  by (simp add: probe_def)

lemma probe_less [simp]: "0 < cap \<Longrightarrow> probe cap h j < cap"
  by (simp add: probe_def)

lemma probe_Suc: "probe cap h (Suc j) = (probe cap h j + (j + 1)) mod cap"
  unfolding probe_def triangular_Suc by (simp only: mod_add_left_eq add.assoc)

lemma probe_next_eq:
  assumes "b \<le> 62" and "j < 2 ^ 62"
  shows "probe_next (2 ^ b) (probe (2 ^ b) h j) (j + 1) = probe (2 ^ b) h (Suc j)"
proof -
  have "probe (2 ^ b) h j < 2 ^ b" by simp
  also have "(2 :: nat) ^ b \<le> 2 ^ 62" using assms(1) by (rule power_increasing) simp
  finally have "probe (2 ^ b) h j + (j + 1) < 2 ^ 64" using assms(2) by simp
  then have "sz_add (probe (2 ^ b) h j) (j + 1) = probe (2 ^ b) h j + (j + 1)" by (rule sz_add_small)
  then show ?thesis by (simp only: probe_next_def nat_and_mask probe_Suc)
qed

text \<open>
  The first \<open>2 ^ b\<close> indices are pairwise different: the difference of two triangular
  numbers is a product of two factors of different parity, too small for the power of two.
\<close>

lemma triangular_diff:
  fixes i j :: nat
  assumes "i \<le> j"
  shows "2 * (j * (j + 1) div 2 - i * (i + 1) div 2) = (j - i) * (i + j + 1)"
proof -
  have even: "even (k * (k + 1))" for k :: nat by simp
  have "2 * (j * (j + 1) div 2) = j * (j + 1)" and "2 * (i * (i + 1) div 2) = i * (i + 1)"
    using even by (metis dvd_mult_div_cancel)+
  then have "2 * (j * (j + 1) div 2 - i * (i + 1) div 2) = j * (j + 1) - i * (i + 1)"
    by (simp only: diff_mult_distrib2)
  moreover obtain d where "j = i + d" using assms le_Suc_ex by blast
  ultimately show ?thesis by (simp add: algebra_simps)
qed

lemma probe_inj:
  assumes "i < 2 ^ b" and "j < 2 ^ b" and "probe (2 ^ b) h i = probe (2 ^ b) h j"
  shows "i = j"
proof -
  have False if "i < j" "j < 2 ^ b" "probe (2 ^ b) h i = probe (2 ^ b) h j" for i j
  proof -
    let ?t = "\<lambda>k :: nat. k * (k + 1) div 2"
    have "?t i \<le> ?t j" using that(1) by (intro div_le_mono mult_le_mono) auto
    then have "2 ^ b dvd (h + ?t j) - (h + ?t i)"
      using that(3) by (metis probe_def mod_eq_dvd_iff_nat add_left_mono)
    then have "2 * 2 ^ b dvd 2 * (?t j - ?t i)" by (metis diff_cancel2 add.commute mult_dvd_mono dvd_refl)
    then have dvd: "2 ^ Suc b dvd (j - i) * (i + j + 1)"
      using triangular_diff [of i j] that(1) by (simp only: less_imp_le power_Suc)
    have small: "0 < j - i" "j - i < 2 ^ Suc b" "0 < i + j + 1" "i + j + 1 < 2 ^ Suc b"
      using that(1,2) by auto
    have "odd (j - i) \<or> odd (i + j + 1)" using that(1) by presburger
    then have "coprime (2 ^ Suc b) (j - i) \<or> coprime (2 ^ Suc b) (i + j + 1)"
      by (metis coprime_power_left_iff coprime_left_2_iff_odd)
    then have "2 ^ Suc b dvd j - i \<or> 2 ^ Suc b dvd i + j + 1"
      using dvd coprime_dvd_mult_right_iff coprime_dvd_mult_left_iff by blast
    then show False using small by (auto dest: dvd_imp_le)
  qed
  then show ?thesis using assms by (metis linorder_neqE_nat)
qed

lemma probe_inj_on: "inj_on (probe (2 ^ b) h) {..<2 ^ b}"
  by (rule inj_onI) (auto intro: probe_inj)

lemma probe_surj: "probe (2 ^ b) h ` {..<2 ^ b} = {..<2 ^ b}"
proof (rule card_subset_eq)
  show "probe (2 ^ b) h ` {..<2 ^ b} \<subseteq> {..<2 ^ b}" by auto
  show "card (probe (2 ^ b) h ` {..<2 ^ b}) = card {..<(2 :: nat) ^ b}"
    by (rule card_image [OF probe_inj_on])
qed simp

lemma probe_reaches:
  assumes "s < 2 ^ b"
  obtains j where "j < 2 ^ b" and "probe (2 ^ b) h j = s"
  using assms probe_surj [of b h] by (metis imageE lessThan_iff)

end
