(* ===== verification/Table_Def.thy ===== *)
theory Table_Def
  imports Probing
begin

text \<open>
  The hash table of \<^verbatim>\<open>server/table.c\<close>: open addressing with the probe sequence of
  \<^verbatim>\<open>Probing\<close>, lazy deletion, and an in-place rehash that recursively moves every element to
  the first slot of its probe sequence that is not taken by a settled element.

  A slot is a tagged union: its \<^verbatim>\<open>use\<close> field, with the memoized hash, key and value present
  in an occupied slot only, since the code reads them nowhere else.  The element size is that
  of the C struct on a 64-bit platform.  Loops that probe are functions with fuel: \<open>None\<close>
  says that the loop has not ended within the fuel.  \<^verbatim>\<open>Table\<close> proves which fuel is enough.
\<close>

datatype ('k, 'v) table_elem =
    ELEM_FREE
  | ELEM_OCCUPIED (e_hash: "64 word") (e_key: 'k) (e_val: 'v)
  | ELEM_REMOVED

fun is_occ :: "('k, 'v) table_elem \<Rightarrow> bool" where
  "is_occ (ELEM_OCCUPIED h k v) = True"
| "is_occ _ = False"

fun is_free :: "('k, 'v) table_elem \<Rightarrow> bool" where
  "is_free ELEM_FREE = True"
| "is_free _ = False"

record ('k, 'v) dime_table =
  t_len :: size_t
  t_cmp_f :: "'k \<Rightarrow> 'k \<Rightarrow> int"
  t_hash_f :: "'k \<Rightarrow> 64 word"
  t_arr :: "('k, 'v) table_elem list"
  t_cap :: size_t
  t_ncollisions :: size_t
  t_nfree :: size_t

definition ELEM_SIZE :: size_t where
  "ELEM_SIZE = 32"

text \<open>
  The load tests compare doubles: \<^verbatim>\<open>MAX_LOAD_FACTOR\<close> is 0.5 and \<^verbatim>\<open>MAX_OVERFLOW_FACTOR\<close> is
  0.20225424859373685602.  The comparisons are written over the integers by clearing the
  denominators; they differ from the floating-point ones at most by the rounding of the
  product, which only decides how early the table grows.
\<close>

definition over_load :: "size_t \<Rightarrow> size_t \<Rightarrow> bool" where
  "over_load len cap \<longleftrightarrow> 2 * len > cap"

definition under_free :: "size_t \<Rightarrow> size_t \<Rightarrow> bool" where
  "under_free nfree cap \<longleftrightarrow> 2 * nfree < cap"

definition over_collisions :: "size_t \<Rightarrow> size_t \<Rightarrow> bool" where
  "over_collisions ncollisions len \<longleftrightarrow>
     ncollisions * 100000000000000000000 > 20225424859373685602 * len"

section \<open>Rehashing in place\<close>

fun dime_table_relocate ::
    "nat \<Rightarrow> ('k, 'v) dime_table \<Rightarrow> size_t \<Rightarrow> ('k, 'v) dime_table option"
  and dime_table_relocate_probe ::
    "nat \<Rightarrow> ('k, 'v) dime_table \<Rightarrow> size_t \<Rightarrow> size_t \<Rightarrow> (('k, 'v) dime_table \<times> size_t \<times> size_t) option"
where
  "dime_table_relocate 0 tbl i0 = None"
| "dime_table_relocate (Suc n) tbl i0 =
     (case t_arr tbl ! i0 of
        ELEM_OCCUPIED hash key val \<Rightarrow>
          (let i = bucket (t_cap tbl) hash
           in if i = i0 then Some tbl
              else
                (case dime_table_relocate_probe n (tbl\<lparr>t_arr := (t_arr tbl)[i0 := ELEM_FREE]\<rparr>) i 1 of
                   None \<Rightarrow> None
                 | Some (tbl, i, k) \<Rightarrow>
                     Some (tbl\<lparr>t_arr := (t_arr tbl)[i := ELEM_OCCUPIED hash key val],
                               t_ncollisions := (if k > 1 then sz_add (t_ncollisions tbl) 1
                                                 else t_ncollisions tbl)\<rparr>)))
      | _ \<Rightarrow> Some (tbl\<lparr>t_arr := (t_arr tbl)[i0 := ELEM_FREE]\<rparr>))"
| "dime_table_relocate_probe 0 tbl i k = None"
| "dime_table_relocate_probe (Suc n) tbl i k =
     (case dime_table_relocate n tbl i of
        None \<Rightarrow> None
      | Some tbl \<Rightarrow>
          (if is_occ (t_arr tbl ! i)
           then dime_table_relocate_probe n tbl (probe_next (t_cap tbl) i k) (sz_add k 1)
           else Some (tbl, i, k)))"

definition relocate_fuel :: "size_t \<Rightarrow> nat" where
  "relocate_fuel cap = Suc (cap * (cap + 2))"

fun dime_table_relocate_all ::
  "('k, 'v) dime_table \<Rightarrow> size_t list \<Rightarrow> ('k, 'v) dime_table option" where
  "dime_table_relocate_all tbl [] = Some tbl"
| "dime_table_relocate_all tbl (i # is) =
     (case dime_table_relocate (relocate_fuel (t_cap tbl)) tbl i of
        None \<Rightarrow> None
      | Some tbl \<Rightarrow> dime_table_relocate_all tbl is)"

text \<open>The Boolean of \<^verbatim>\<open>dime_table_grow\<close> is its return value.\<close>

definition dime_table_grow :: "bool \<Rightarrow> ('k, 'v) dime_table \<Rightarrow> (bool \<times> ('k, 'v) dime_table) option" where
  "dime_table_grow ok tbl =
     (let cap = t_cap tbl;
          cap2 = sz_mul cap 2
      in if \<not> alloc_ok ok (sz_mul cap2 ELEM_SIZE) then Some (False, tbl)
         else
           (let tbl = tbl\<lparr>t_arr := t_arr tbl @ replicate (cap2 - cap) ELEM_FREE, t_cap := cap2,
                          t_ncollisions := 0, t_nfree := sz_sub cap2 (t_len tbl)\<rparr>
            in map_option (Pair True) (dime_table_relocate_all tbl (rev [0..<cap]))))"

section \<open>Operations\<close>

definition dime_table_init ::
  "bool \<Rightarrow> ('k \<Rightarrow> 'k \<Rightarrow> int) \<Rightarrow> ('k \<Rightarrow> 64 word) \<Rightarrow> ('k, 'v) dime_table option" where
  "dime_table_init ok cmp_f hash_f =
     (let cap = 32 in
      if alloc_ok ok (sz_mul cap ELEM_SIZE)
      then Some \<lparr>t_len = 0, t_cmp_f = cmp_f, t_hash_f = hash_f, t_arr = replicate cap ELEM_FREE,
                 t_cap = cap, t_ncollisions = 0, t_nfree = cap\<rparr>
      else None)"

text \<open>
  The probing loop of \<^verbatim>\<open>dime_table_insert\<close>: \<open>Inl\<close> when an occupied slot holds the key,
  \<open>Inr (i, k)\<close> when slot \<open>i\<close> is not occupied.
\<close>

fun dime_table_insert_probe ::
  "nat \<Rightarrow> ('k, 'v) dime_table \<Rightarrow> 'k \<Rightarrow> size_t \<Rightarrow> size_t \<Rightarrow> (unit + size_t \<times> size_t) option" where
  "dime_table_insert_probe 0 tbl key i k = None"
| "dime_table_insert_probe (Suc n) tbl key i k =
     (case t_arr tbl ! i of
        ELEM_OCCUPIED h key' v \<Rightarrow>
          (if t_cmp_f tbl key key' = 0 then Some (Inl ())
           else dime_table_insert_probe n tbl key (probe_next (t_cap tbl) i k) (sz_add k 1))
      | _ \<Rightarrow> Some (Inr (i, k)))"

text \<open>The growth tests that open \<^verbatim>\<open>dime_table_insert\<close>; the Boolean is false for \<^verbatim>\<open>return -1\<close>.\<close>

definition dime_table_insert_room ::
  "bool \<Rightarrow> ('k, 'v) dime_table \<Rightarrow> (bool \<times> ('k, 'v) dime_table) option" where
  "dime_table_insert_room ok tbl =
     (if t_len tbl \<ge> t_cap tbl then dime_table_grow ok tbl
      else if over_load (t_len tbl) (t_cap tbl)
      then map_option (\<lambda>(_, tbl). (True, tbl)) (dime_table_grow ok tbl)
      else Some (True, tbl))"

text \<open>
  The bookkeeping that closes \<^verbatim>\<open>dime_table_insert\<close> once the element is in its slot.
\<close>

definition dime_table_insert_collision ::
  "bool \<Rightarrow> ('k, 'v) dime_table \<Rightarrow> size_t \<Rightarrow> ('k, 'v) dime_table option" where
  "dime_table_insert_collision ok tbl k =
     (if k > 1 then
        (let tbl = tbl\<lparr>t_ncollisions := sz_add (t_ncollisions tbl) 1\<rparr>
         in if over_collisions (t_ncollisions tbl) (t_len tbl)
            then map_option snd (dime_table_grow ok tbl)
            else Some tbl)
      else Some tbl)"

definition dime_table_insert_free ::
  "('k, 'v) dime_table \<Rightarrow> bool \<Rightarrow> ('k, 'v) dime_table option" where
  "dime_table_insert_free tbl prev_free =
     (if prev_free then
        (let tbl = tbl\<lparr>t_nfree := sz_sub (t_nfree tbl) 1\<rparr>
         in if under_free (t_nfree tbl) (t_cap tbl)
            then dime_table_relocate_all (tbl\<lparr>t_nfree := sz_sub (t_cap tbl) (t_len tbl)\<rparr>) [0..<t_cap tbl]
            else Some tbl)
      else Some tbl)"

definition dime_table_insert ::
  "(nat \<Rightarrow> bool) \<Rightarrow> ('k, 'v) dime_table \<Rightarrow> 'k \<Rightarrow> 'v \<Rightarrow> (int \<times> ('k, 'v) dime_table) option" where
  "dime_table_insert ok tbl key val =
     (case dime_table_insert_room (ok 0) tbl of
        None \<Rightarrow> None
      | Some (False, tbl) \<Rightarrow> Some (-1, tbl)
      | Some (True, tbl) \<Rightarrow>
          (let hash = t_hash_f tbl key
           in case dime_table_insert_probe (Suc (t_cap tbl)) tbl key (bucket (t_cap tbl) hash) 1 of
                None \<Rightarrow> None
              | Some (Inl ()) \<Rightarrow> Some (-1, tbl)
              | Some (Inr (i, k)) \<Rightarrow>
                  (let prev_free = is_free (t_arr tbl ! i);
                       tbl = tbl\<lparr>t_arr := (t_arr tbl)[i := ELEM_OCCUPIED hash key val],
                                 t_len := sz_add (t_len tbl) 1\<rparr>
                   in case dime_table_insert_collision (ok 1) tbl k of
                        None \<Rightarrow> None
                      | Some tbl \<Rightarrow> map_option (Pair 0) (dime_table_insert_free tbl prev_free))))"

text \<open>
  The probing loop of the searches: \<open>None\<close> inside when a free slot ends the search,
  otherwise the slot of the key with the first removed slot met before it (the C variable
  \<^verbatim>\<open>firstavail\<close>, whose initial value \<^verbatim>\<open>(size_t)-1\<close> is \<open>None\<close> here).  The loops of
  \<^verbatim>\<open>dime_table_search_r\<close> and \<^verbatim>\<open>dime_table_remove\<close> are the same loop without that variable.
\<close>

fun dime_table_search_probe ::
  "nat \<Rightarrow> ('k, 'v) dime_table \<Rightarrow> 'k \<Rightarrow> size_t \<Rightarrow> size_t \<Rightarrow> size_t option \<Rightarrow>
     (size_t \<times> size_t option) option option" where
  "dime_table_search_probe 0 tbl key i k firstavail = None"
| "dime_table_search_probe (Suc n) tbl key i k firstavail =
     (case t_arr tbl ! i of
        ELEM_FREE \<Rightarrow> Some None
      | ELEM_OCCUPIED h key' v \<Rightarrow>
          (if t_cmp_f tbl key key' = 0 then Some (Some (i, firstavail))
           else dime_table_search_probe n tbl key (probe_next (t_cap tbl) i k) (sz_add k 1) firstavail)
      | ELEM_REMOVED \<Rightarrow>
          dime_table_search_probe n tbl key (probe_next (t_cap tbl) i k) (sz_add k 1)
            (if firstavail = None then Some i else firstavail))"

fun elem_val :: "('k, 'v) table_elem \<Rightarrow> 'v option" where
  "elem_val (ELEM_OCCUPIED h k v) = Some v"
| "elem_val _ = None"

definition dime_table_search ::
  "('k, 'v) dime_table \<Rightarrow> 'k \<Rightarrow> ('v option \<times> ('k, 'v) dime_table) option" where
  "dime_table_search tbl key =
     (let first = bucket (t_cap tbl) (t_hash_f tbl key)
      in case dime_table_search_probe (Suc (t_cap tbl)) tbl key first 1 None of
           None \<Rightarrow> None
         | Some None \<Rightarrow> Some (None, tbl)
         | Some (Some (i, None)) \<Rightarrow> Some (elem_val (t_arr tbl ! i), tbl)
         | Some (Some (i, Some fa)) \<Rightarrow>
             Some (elem_val (t_arr tbl ! i),
                   tbl\<lparr>t_arr := (t_arr tbl)[fa := t_arr tbl ! i, i := ELEM_REMOVED],
                       t_ncollisions := (if first = fa then sz_sub (t_ncollisions tbl) 1
                                         else t_ncollisions tbl)\<rparr>))"

definition dime_table_search_r :: "('k, 'v) dime_table \<Rightarrow> 'k \<Rightarrow> 'v option option" where
  "dime_table_search_r tbl key =
     (case dime_table_search_probe (Suc (t_cap tbl)) tbl key (bucket (t_cap tbl) (t_hash_f tbl key)) 1 None of
        None \<Rightarrow> None
      | Some None \<Rightarrow> Some None
      | Some (Some (i, _)) \<Rightarrow> Some (elem_val (t_arr tbl ! i)))"

definition dime_table_remove ::
  "('k, 'v) dime_table \<Rightarrow> 'k \<Rightarrow> ('v option \<times> ('k, 'v) dime_table) option" where
  "dime_table_remove tbl key =
     (case dime_table_search_probe (Suc (t_cap tbl)) tbl key (bucket (t_cap tbl) (t_hash_f tbl key)) 1 None of
        None \<Rightarrow> None
      | Some None \<Rightarrow> Some (None, tbl)
      | Some (Some (i, _)) \<Rightarrow>
          Some (elem_val (t_arr tbl ! i),
                tbl\<lparr>t_arr := (t_arr tbl)[i := ELEM_REMOVED], t_len := sz_sub (t_len tbl) 1\<rparr>))"

definition dime_table_len :: "('k, 'v) dime_table \<Rightarrow> size_t" where
  "dime_table_len tbl = t_len tbl"

section \<open>Iteration\<close>

text \<open>
  An iterator is its index.  \<^verbatim>\<open>dime_table_iter_next\<close> advances it to the next occupied slot;
  the skip loop runs at most once per remaining slot.
\<close>

definition dime_table_iter_init :: size_t where
  "dime_table_iter_init = SIZE_MAX"

fun dime_table_iter_skip :: "nat \<Rightarrow> ('k, 'v) dime_table \<Rightarrow> size_t \<Rightarrow> size_t option" where
  "dime_table_iter_skip 0 tbl i = None"
| "dime_table_iter_skip (Suc n) tbl i =
     (let i = sz_add i 1
      in if i < t_cap tbl \<and> \<not> is_occ (t_arr tbl ! i) then dime_table_iter_skip n tbl i else Some i)"

definition dime_table_iter_next ::
  "('k, 'v) dime_table \<Rightarrow> size_t \<Rightarrow> (size_t \<times> ('k \<times> 'v) option) option" where
  "dime_table_iter_next tbl i =
     (case dime_table_iter_skip (Suc (t_cap tbl)) tbl i of
        None \<Rightarrow> None
      | Some i \<Rightarrow>
          Some (i, if i = t_cap tbl then None
                   else Some (e_key (t_arr tbl ! i), e_val (t_arr tbl ! i))))"

text \<open>The pairs that \<^verbatim>\<open>while (dime_table_iter_next(&it))\<close> yields, in its order.\<close>

fun dime_table_iter_run ::
  "nat \<Rightarrow> ('k, 'v) dime_table \<Rightarrow> size_t \<Rightarrow> ('k \<times> 'v) list option" where
  "dime_table_iter_run 0 tbl i = None"
| "dime_table_iter_run (Suc n) tbl i =
     (case dime_table_iter_next tbl i of
        None \<Rightarrow> None
      | Some (i', None) \<Rightarrow> Some []
      | Some (i', Some kv) \<Rightarrow> map_option ((#) kv) (dime_table_iter_run n tbl i'))"

fun dime_table_apply_from ::
  "('k, 'v) table_elem list \<Rightarrow> ('k \<Rightarrow> 'v \<Rightarrow> 's \<Rightarrow> bool \<times> 's) \<Rightarrow> 's \<Rightarrow> 's" where
  "dime_table_apply_from [] f s = s"
| "dime_table_apply_from (e # es) f s =
     (case e of
        ELEM_OCCUPIED h k v \<Rightarrow>
          (case f k v s of (False, s') \<Rightarrow> s' | (True, s') \<Rightarrow> dime_table_apply_from es f s')
      | _ \<Rightarrow> dime_table_apply_from es f s)"

definition dime_table_apply ::
  "('k, 'v) dime_table \<Rightarrow> ('k \<Rightarrow> 'v \<Rightarrow> 's \<Rightarrow> bool \<times> 's) \<Rightarrow> 's \<Rightarrow> 's" where
  "dime_table_apply tbl f s = dime_table_apply_from (take (t_cap tbl) (t_arr tbl)) f s"

end
