(* ===== verification/Table_Rehash.thy ===== *)
theory Table_Rehash
  imports Table_Def
begin

text \<open>
  Correctness of the in-place rehash.  A slot is \<^emph>\<open>settled\<close> when it is occupied and every slot
  that precedes it in the probe sequence of its element is settled too: no later relocation
  moves such an element.  Relocating a slot leaves it settled or empty, keeps every settled
  slot, and unsettles nothing; so one relocation of each slot leaves only settled elements,
  whose probe chains have no gap.
\<close>

section \<open>Slots\<close>

abbreviation home :: "('k, 'v) table_elem list \<Rightarrow> 64 word \<Rightarrow> size_t" where
  "home a h \<equiv> bucket (length a) h"

definition entries_mset :: "('k, 'v) table_elem list \<Rightarrow> ('k, 'v) table_elem multiset" where
  "entries_mset a = filter_mset is_occ (mset a)"

definition occ_slots :: "('k, 'v) table_elem list \<Rightarrow> size_t set" where
  "occ_slots a = {s. s < length a \<and> is_occ (a ! s)}"

inductive settled :: "('k, 'v) table_elem list \<Rightarrow> size_t \<Rightarrow> bool" for a where
  "s < length a \<Longrightarrow> a ! s = ELEM_OCCUPIED h key val \<Longrightarrow>
   s = probe (length a) (home a h) j \<Longrightarrow>
   (\<And>i. i < j \<Longrightarrow> settled a (probe (length a) (home a h) i)) \<Longrightarrow> settled a s"

definition unsettled :: "('k, 'v) table_elem list \<Rightarrow> size_t set" where
  "unsettled a = {s \<in> occ_slots a. \<not> settled a s}"

definition removed_slots :: "('k, 'v) table_elem list \<Rightarrow> size_t set" where
  "removed_slots a = {s. s < length a \<and> a ! s = ELEM_REMOVED}"

lemma is_occ_iff: "is_occ e \<longleftrightarrow> (\<exists>h k v. e = ELEM_OCCUPIED h k v)"
  by (cases e) auto

lemma settled_occ: "settled a s \<Longrightarrow> s \<in> occ_slots a"
  by (induction rule: settled.induct) (simp add: occ_slots_def)

lemma settled_is_occ: "settled a s \<Longrightarrow> s < length a \<and> is_occ (a ! s)"
  using settled_occ [of a s] by (simp add: occ_slots_def)

lemma finite_occ_slots [simp]: "finite (occ_slots a)"
  by (simp add: occ_slots_def)

lemma finite_unsettled [simp]: "finite (unsettled a)"
  by (simp add: unsettled_def)

lemma card_occ_slots: "card (occ_slots a) = size (entries_mset a)"
proof -
  have "size (entries_mset a) = length (filter is_occ a)"
    by (simp add: entries_mset_def flip: mset_filter)
  then show ?thesis
    by (simp add: length_filter_conv_card occ_slots_def)
qed

lemma entries_mset_update:
  assumes "s < length a"
  shows "entries_mset (a[s := e]) =
    (if is_occ e then {#e#} else {#}) + (entries_mset a - (if is_occ (a ! s) then {#a ! s#} else {#}))"
  using assms by (simp add: entries_mset_def mset_update)

lemma entries_mset_clear:
  assumes "s < length a" and "is_occ (a ! s)" and "\<not> is_occ e"
  shows "add_mset (a ! s) (entries_mset (a[s := e])) = entries_mset a"
proof -
  have "a ! s \<in># entries_mset a" using assms by (simp add: entries_mset_def)
  then show ?thesis using assms by (simp add: entries_mset_update)
qed

lemma entries_mset_set:
  assumes "s < length a" and "\<not> is_occ (a ! s)" and "is_occ e"
  shows "entries_mset (a[s := e]) = add_mset e (entries_mset a)"
  using assms by (simp add: entries_mset_update)

lemma entries_mset_same:
  assumes "s < length a" and "\<not> is_occ (a ! s)" and "\<not> is_occ e"
  shows "entries_mset (a[s := e]) = entries_mset a"
  using assms by (simp add: entries_mset_update)

text \<open>Writing a slot that is not settled keeps every settled slot.\<close>

lemma settled_update:
  assumes "settled a s" and "\<not> settled a i"
  shows "settled (a[i := e]) s \<and> s \<noteq> i"
  using assms(1)
proof (induction rule: settled.induct)
  case (1 s h key val j)
  then have "settled a s" by (blast intro: settled.intros)
  then have "s \<noteq> i" using assms(2) by blast
  moreover have "settled (a[i := e]) s"
  proof (rule settled.intros)
    show "s < length (a[i := e])" and "s = probe (length (a[i := e])) (home (a[i := e]) h) j"
      using "1.hyps" by simp_all
    show "a[i := e] ! s = ELEM_OCCUPIED h key val" using "1.hyps" \<open>s \<noteq> i\<close> by simp
    show "settled (a[i := e]) (probe (length (a[i := e])) (home (a[i := e]) h) m)" if "m < j" for m
      using "1.IH" [OF that] by simp
  qed
  ultimately show ?case by blast
qed

lemma settled_place:
  assumes "j0 < length a" and "\<not> is_occ (a ! j0)" and "j0 = probe (length a) (home a h) j"
    and "\<And>i. i < j \<Longrightarrow> settled a (probe (length a) (home a h) i)"
  shows "settled (a[j0 := ELEM_OCCUPIED h key val]) j0"
proof -
  let ?b = "a[j0 := ELEM_OCCUPIED h key val]"
  have n: "\<not> settled a j0" using assms(2) settled_is_occ by blast
  show ?thesis
  proof (rule settled.intros)
    show "j0 < length ?b" and "?b ! j0 = ELEM_OCCUPIED h key val" using assms(1) by simp_all
    show "j0 = probe (length ?b) (home ?b h) j" using assms(3) by simp
    show "settled ?b (probe (length ?b) (home ?b h) i)" if "i < j" for i
      using settled_update [OF assms(4) [OF that] n] by simp
  qed
qed

lemma settled_home:
  "s < length a \<Longrightarrow> a ! s = ELEM_OCCUPIED h key val \<Longrightarrow> home a h = s \<Longrightarrow> settled a s"
  by (rule settled.intros [of s a h key val 0]) (auto simp: probe_def)

section \<open>What a relocation does\<close>

text \<open>
  The effect of relocations on the array, as a relation between the array before and after:
  the same elements, every settled slot kept, every slot that is occupied afterwards settled
  or unchanged, every other slot free or unchanged.
\<close>

definition relocated :: "('k, 'v) table_elem list \<Rightarrow> ('k, 'v) table_elem list \<Rightarrow> bool" where
  "relocated a a' \<longleftrightarrow>
     length a' = length a \<and> entries_mset a' = entries_mset a \<and>
     (\<forall>s. settled a s \<longrightarrow> settled a' s \<and> a' ! s = a ! s) \<and>
     (\<forall>s < length a. is_occ (a' ! s) \<longrightarrow> settled a' s \<or> a' ! s = a ! s) \<and>
     (\<forall>s < length a. \<not> is_occ (a' ! s) \<longrightarrow> a' ! s = ELEM_FREE \<or> a' ! s = a ! s)"

lemma relocated_refl [simp]: "relocated a a"
  by (simp add: relocated_def)

lemma relocated_length: "relocated a a' \<Longrightarrow> length a' = length a"
  by (simp add: relocated_def)

lemma relocated_entries: "relocated a a' \<Longrightarrow> entries_mset a' = entries_mset a"
  by (simp add: relocated_def)

lemma relocated_settled: "relocated a a' \<Longrightarrow> settled a s \<Longrightarrow> settled a' s \<and> a' ! s = a ! s"
  by (simp add: relocated_def)

lemma relocated_trans:
  assumes "relocated a b" and "relocated b c"
  shows "relocated a c"
  unfolding relocated_def
proof (intro conjI allI impI)
  show "length c = length a" and "entries_mset c = entries_mset a"
    using assms by (simp_all add: relocated_def)
  fix s
  show "settled c s" and "c ! s = a ! s" if "settled a s"
    using that assms relocated_settled by metis+
next
  fix s assume s: "s < length a" "is_occ (c ! s)"
  then have "settled c s \<or> c ! s = b ! s" using assms by (simp add: relocated_def)
  then show "settled c s \<or> c ! s = a ! s"
  proof
    assume "c ! s = b ! s"
    then have "settled b s \<or> b ! s = a ! s" using s assms by (simp add: relocated_def)
    then show ?thesis using \<open>c ! s = b ! s\<close> relocated_settled [OF assms(2)] by auto
  qed simp
next
  fix s assume s: "s < length a" "\<not> is_occ (c ! s)"
  then show "c ! s = ELEM_FREE \<or> c ! s = a ! s"
    using assms unfolding relocated_def by metis
qed

lemma relocated_unsettled:
  assumes "relocated a a'"
  shows "unsettled a' \<subseteq> unsettled a"
proof
  fix s assume "s \<in> unsettled a'"
  then have s: "s < length a" "is_occ (a' ! s)" "\<not> settled a' s"
    using relocated_length [OF assms] by (auto simp: unsettled_def occ_slots_def)
  then have "a' ! s = a ! s" using assms by (auto simp: relocated_def)
  then show "s \<in> unsettled a"
    using s relocated_settled [OF assms, of s] by (auto simp: unsettled_def occ_slots_def)
qed

lemma relocated_removed: "relocated a a' \<Longrightarrow> removed_slots a' \<subseteq> removed_slots a"
  unfolding relocated_def removed_slots_def by (auto; metis is_occ.simps(3) table_elem.distinct(3))

text \<open>Clearing a slot that is not occupied.\<close>

lemma relocated_clear:
  assumes "i < length a" and "\<not> is_occ (a ! i)"
  shows "relocated a (a[i := ELEM_FREE])"
proof -
  have "\<not> settled a i" using assms(2) settled_is_occ by blast
  then show ?thesis using assms settled_update [of a _ i ELEM_FREE]
    by (auto simp: relocated_def entries_mset_same nth_list_update)
qed

text \<open>
  Taking an unsettled element out, relocating others, and placing it where its probe sequence
  finds the first slot that is not settled.
\<close>

lemma relocated_move:
  assumes i0: "i0 < length a" "a ! i0 = ELEM_OCCUPIED h key val" "\<not> settled a i0"
    and rel: "relocated (a[i0 := ELEM_FREE]) b"
    and i: "i = probe (length a) (home a h) j" "i < length a" "\<not> is_occ (b ! i)"
    and chain: "\<And>i'. i' < j \<Longrightarrow> settled b (probe (length a) (home a h) i')"
  defines "c \<equiv> b[i := ELEM_OCCUPIED h key val]"
  shows "relocated a c" and "settled c i" and "i0 \<notin> unsettled c" and "c ! i0 \<noteq> ELEM_REMOVED"
proof -
  have len: "length b = length a" using relocated_length [OF rel] by simp
  have nset: "\<not> settled b i" using i(3) settled_is_occ by blast
  show set_i: "settled c i"
    unfolding c_def using i len chain by (intro settled_place [of i b h j]) auto
  have keep: "settled c s \<and> c ! s = a ! s" if "settled a s" for s
  proof -
    have "settled (a[i0 := ELEM_FREE]) s" "s \<noteq> i0" using settled_update [OF that i0(3)] by auto
    then have b: "settled b s" "b ! s = a ! s" using relocated_settled [OF rel] by auto
    then have "settled c s" "s \<noteq> i" using settled_update [OF b(1) nset] by (auto simp: c_def)
    then show ?thesis using b(2) by (simp add: c_def)
  qed
  have occ: "settled c s \<or> s \<noteq> i0 \<and> c ! s = a ! s" if "s < length a" "is_occ (c ! s)" for s
  proof (cases "s = i")
    case True
    then show ?thesis using set_i by simp
  next
    case False
    then have "is_occ (b ! s)" using that by (simp add: c_def)
    then have "settled b s \<or> b ! s = a[i0 := ELEM_FREE] ! s"
      using rel that by (simp add: relocated_def)
    then show ?thesis
    proof
      assume "settled b s"
      then show ?thesis using settled_update [OF _ nset] by (auto simp: c_def)
    next
      assume "b ! s = a[i0 := ELEM_FREE] ! s"
      then show ?thesis using False \<open>is_occ (b ! s)\<close> i0(1) by (cases "s = i0") (auto simp: c_def)
    qed
  qed
  have "entries_mset c = add_mset (a ! i0) (entries_mset (a[i0 := ELEM_FREE]))"
    using i(2,3) len i0(2) relocated_entries [OF rel] by (simp add: entries_mset_set c_def)
  also have "\<dots> = entries_mset a" using i0 by (intro entries_mset_clear) auto
  finally have ents: "entries_mset c = entries_mset a" .
  have nocc: "c ! s = ELEM_FREE \<or> s \<noteq> i0 \<and> c ! s = a ! s"
    if "s < length a" "\<not> is_occ (c ! s)" for s
  proof -
    have "s \<noteq> i" using that i(2) len by (auto simp: c_def)
    then have "b ! s = ELEM_FREE \<or> b ! s = a[i0 := ELEM_FREE] ! s"
      using that rel by (simp add: relocated_def c_def)
    then show ?thesis using \<open>s \<noteq> i\<close> i0(1) by (cases "s = i0") (auto simp: c_def)
  qed
  show "relocated a c"
    unfolding relocated_def using len ents keep occ nocc by (auto simp: c_def)
  show "i0 \<notin> unsettled c" using occ by (auto simp: unsettled_def occ_slots_def len c_def)
  show "c ! i0 \<noteq> ELEM_REMOVED" using nocc [of i0] i0(1) by (metis is_occ.simps(3) table_elem.distinct(3))
qed

section \<open>The chain of a settled slot does not depend on it\<close>

text \<open>
  Settledness with a bound on the depth of its derivation, to show that the slots that precede
  a settled slot stay settled when that slot is cleared.
\<close>

primrec settled_at :: "nat \<Rightarrow> ('k, 'v) table_elem list \<Rightarrow> size_t \<Rightarrow> bool" where
  "settled_at 0 a s = False"
| "settled_at (Suc n) a s =
     (s < length a \<and> (\<exists>h k v j. a ! s = ELEM_OCCUPIED h k v \<and> s = probe (length a) (home a h) j \<and>
        (\<forall>i<j. settled_at n a (probe (length a) (home a h) i))))"

lemma settled_at_mono: "settled_at n a s \<Longrightarrow> settled_at (Suc n) a s"
proof (induction n arbitrary: s)
  case (Suc n)
  then show ?case by (subst settled_at.simps) (metis settled_at.simps(2))
qed simp

lemma settled_at_le: "settled_at n a s \<Longrightarrow> n \<le> m \<Longrightarrow> settled_at m a s"
  by (induction m) (auto simp: le_Suc_eq simp del: settled_at.simps intro: settled_at_mono)

lemma settled_imp_at: "settled a s \<Longrightarrow> \<exists>n. settled_at n a s"
proof (induction rule: settled.induct)
  case (1 s h key val j)
  then have "\<forall>i<j. \<exists>n. settled_at n a (probe (length a) (home a h) i)" by blast
  then obtain f where f: "\<And>i. i < j \<Longrightarrow> settled_at (f i) a (probe (length a) (home a h) i)"
    by metis
  define n where "n = Max (insert 0 (f ` {..<j}))"
  have "settled_at n a (probe (length a) (home a h) i)" if "i < j" for i
  proof -
    have "f i \<le> n" using that by (simp add: n_def)
    then show ?thesis using settled_at_le [OF f [OF that]] by simp
  qed
  then have "settled_at (Suc n) a s" using "1.hyps" by auto
  then show ?case by blast
qed

lemma settled_at_update:
  "settled_at n a s \<Longrightarrow> \<not> settled_at n a x \<Longrightarrow> settled (a[x := e]) s"
proof (induction n arbitrary: s)
  case (Suc n)
  then obtain h k v j where s: "s < length a" "a ! s = ELEM_OCCUPIED h k v"
    "s = probe (length a) (home a h) j"
    "\<And>i. i < j \<Longrightarrow> settled_at n a (probe (length a) (home a h) i)"
    by auto
  have "s \<noteq> x" using Suc.prems by blast
  have "\<not> settled_at n a x" using Suc.prems(2) settled_at_mono by blast
  show ?case
  proof (rule settled.intros)
    show "s < length (a[x := e])" using s(1) by simp
    show "s = probe (length (a[x := e])) (home (a[x := e]) h) j" using s(3) by simp
    show "a[x := e] ! s = ELEM_OCCUPIED h k v" using s(2) \<open>s \<noteq> x\<close> by simp
    show "settled (a[x := e]) (probe (length (a[x := e])) (home (a[x := e]) h) i)" if "i < j" for i
      using Suc.IH [OF s(4) [OF that] \<open>\<not> settled_at n a x\<close>] by simp
  qed
qed simp

lemma settled_chain_kept:
  assumes "settled a x" and "a ! x = ELEM_OCCUPIED h k v"
  obtains j where "x = probe (length a) (home a h) j"
    and "\<And>i. i < j \<Longrightarrow> settled (a[x := e]) (probe (length a) (home a h) i)"
proof -
  have ex: "\<exists>n. settled_at n a x" using assms(1) by (rule settled_imp_at)
  define n where "n = (LEAST n. settled_at n a x)"
  have n: "settled_at n a x" unfolding n_def by (rule LeastI_ex [OF ex])
  then obtain m where m: "n = Suc m" by (cases n) auto
  have least: "\<not> settled_at m a x" using not_less_Least [of m "\<lambda>n. settled_at n a x"] m n_def by simp
  obtain j where j: "x = probe (length a) (home a h) j"
    "\<And>i. i < j \<Longrightarrow> settled_at m a (probe (length a) (home a h) i)"
    using n m assms(2) by auto
  have "settled (a[x := e]) (probe (length a) (home a h) i)" if "i < j" for i
    using settled_at_update [OF j(2) [OF that] least] .
  then show thesis using j(1) by (rule that [rotated])
qed

section \<open>Relocating one slot\<close>

text \<open>
  What \<^verbatim>\<open>dime_table_relocate\<close> on slot \<open>i0\<close> of array \<open>a\<close> guarantees of the array \<open>a'\<close>
  it leaves.
\<close>

definition relocate_post ::
  "('k, 'v) table_elem list \<Rightarrow> size_t \<Rightarrow> ('k, 'v) table_elem list \<Rightarrow> bool" where
  "relocate_post a i0 a' \<longleftrightarrow>
     relocated a a' \<and> i0 \<notin> unsettled a' \<and> a' ! i0 \<noteq> ELEM_REMOVED \<and>
     (settled a i0 \<or> a ! i0 = ELEM_FREE \<longrightarrow> a' = a)"

lemma relocate_post_settled:
  "relocate_post a i0 a' \<Longrightarrow> i0 < length a \<Longrightarrow> is_occ (a' ! i0) \<Longrightarrow> settled a' i0"
  unfolding relocate_post_def unsettled_def occ_slots_def using relocated_length by fastforce

lemma card_occ_relocated: "relocated a a' \<Longrightarrow> card (occ_slots a') = card (occ_slots a)"
  by (simp add: card_occ_slots relocated_entries)

lemma card_occ_clear:
  assumes "i < length a" and "is_occ (a ! i)"
  shows "Suc (card (occ_slots (a[i := ELEM_FREE]))) = card (occ_slots a)"
  using entries_mset_clear [of i a ELEM_FREE] assms
  by (metis card_occ_slots is_occ.simps(2) size_add_mset)

lemma probe_before_cap:
  assumes "length a = 2 ^ b" and "card (occ_slots a) < 2 ^ b"
    and "\<And>i. i < j \<Longrightarrow> settled a (probe (2 ^ b) h i)"
  shows "j < 2 ^ b"
proof (rule ccontr)
  assume "\<not> j < 2 ^ b"
  then have "settled a (probe (2 ^ b) h i)" if "i < 2 ^ b" for i
    using that by (intro assms(3)) linarith
  then have "probe (2 ^ b) h ` {..<2 ^ b} \<subseteq> occ_slots a"
    by (auto intro: settled_occ)
  then have "card {..<(2::nat) ^ b} \<le> card (occ_slots a)"
    unfolding probe_surj by (rule card_mono [OF finite_occ_slots])
  then show False using assms(2) by simp
qed

end
