(* ===== verification/Table_Reloc.thy ===== *)
theory Table_Reloc
  imports Table_Rehash
begin

text \<open>
  The recursive relocation of \<^verbatim>\<open>server/table.c\<close> terminates within \<open>relocate_fuel\<close> and
  does what \<open>relocate_post\<close> says.  The fuel bound counts the occupied slots: every nested call
  works on an array with one occupied slot less, and a probing loop passes each slot at most
  once, since the slots it passes are settled.
\<close>

definition table_shape :: "nat \<Rightarrow> ('k, 'v) dime_table \<Rightarrow> bool" where
  "table_shape b tbl \<longleftrightarrow> b \<le> 62 \<and> t_cap tbl = 2 ^ b \<and> length (t_arr tbl) = 2 ^ b"

definition reloc_result :: "nat \<Rightarrow> ('k, 'v) dime_table \<Rightarrow> size_t \<Rightarrow> bool" where
  "reloc_result n tbl i0 \<longleftrightarrow>
     (\<exists>a' c'. dime_table_relocate n tbl i0 = Some (tbl\<lparr>t_arr := a', t_ncollisions := c'\<rparr>) \<and>
        relocate_post (t_arr tbl) i0 a')"

definition probe_result :: "nat \<Rightarrow> nat \<Rightarrow> ('k, 'v) dime_table \<Rightarrow> size_t \<Rightarrow> nat \<Rightarrow> bool" where
  "probe_result b n tbl h j \<longleftrightarrow>
     (\<exists>a' c' j'. dime_table_relocate_probe n tbl (probe (2 ^ b) h j) (j + 1) =
          Some (tbl\<lparr>t_arr := a', t_ncollisions := c'\<rparr>, probe (2 ^ b) h j', j' + 1) \<and>
        relocated (t_arr tbl) a' \<and> \<not> is_occ (a' ! probe (2 ^ b) h j') \<and>
        (\<forall>i < j'. settled a' (probe (2 ^ b) h i)) \<and>
        (\<forall>J. (\<forall>i < J. settled (t_arr tbl) (probe (2 ^ b) h i)) \<and>
             t_arr tbl ! probe (2 ^ b) h J = ELEM_FREE \<longrightarrow>
           a' = t_arr tbl \<and> probe (2 ^ b) h j' = probe (2 ^ b) h J))"

lemma reloc_resultI:
  "dime_table_relocate n tbl i0 = Some (tbl\<lparr>t_arr := a', t_ncollisions := c'\<rparr>) \<Longrightarrow>
   relocate_post (t_arr tbl) i0 a' \<Longrightarrow> reloc_result n tbl i0"
  unfolding reloc_result_def by blast

lemma table_shape_update [simp]:
  "table_shape b (tbl\<lparr>t_arr := a, t_ncollisions := c\<rparr>) \<longleftrightarrow> table_shape b tbl \<and> length a = 2 ^ b \<or>
     b \<le> 62 \<and> t_cap tbl = 2 ^ b \<and> length a = 2 ^ b"
  "table_shape b (tbl\<lparr>t_arr := a\<rparr>) \<longleftrightarrow> b \<le> 62 \<and> t_cap tbl = 2 ^ b \<and> length a = 2 ^ b"
  by (auto simp: table_shape_def)

lemma relocate_not_occ:
  assumes "i0 < length (t_arr tbl)" and "\<not> is_occ (t_arr tbl ! i0)"
  shows "reloc_result (Suc n) tbl i0"
proof (rule reloc_resultI)
  let ?a = "(t_arr tbl)[i0 := ELEM_FREE]"
  show "dime_table_relocate (Suc n) tbl i0 = Some (tbl\<lparr>t_arr := ?a, t_ncollisions := t_ncollisions tbl\<rparr>)"
    using assms(2) by (cases "t_arr tbl ! i0") simp_all
  have "\<not> settled (t_arr tbl) i0" using assms(2) settled_is_occ by blast
  moreover have "?a = t_arr tbl" if "t_arr tbl ! i0 = ELEM_FREE" using that by (metis list_update_id)
  ultimately show "relocate_post (t_arr tbl) i0 ?a"
    using relocated_clear [OF assms] assms(1)
    by (auto simp: relocate_post_def unsettled_def occ_slots_def)
qed

lemma relocate_at_home:
  assumes "table_shape b tbl" and "i0 < 2 ^ b" and "t_arr tbl ! i0 = ELEM_OCCUPIED hash key val"
    and "bucket (2 ^ b) hash = i0"
  shows "reloc_result (Suc n) tbl i0"
proof (rule reloc_resultI)
  show "dime_table_relocate (Suc n) tbl i0 = Some (tbl\<lparr>t_arr := t_arr tbl, t_ncollisions := t_ncollisions tbl\<rparr>)"
    using assms by (simp add: table_shape_def)
  have "settled (t_arr tbl) i0"
    using assms by (intro settled_home) (simp_all add: table_shape_def)
  then show "relocate_post (t_arr tbl) i0 (t_arr tbl)"
    using assms(3) by (simp add: relocate_post_def unsettled_def)
qed

lemma relocate_away:
  assumes shape: "table_shape b tbl" and i0: "i0 < 2 ^ b"
    and occ: "t_arr tbl ! i0 = ELEM_OCCUPIED hash key val" and away: "bucket (2 ^ b) hash \<noteq> i0"
    and IH: "probe_result b n (tbl\<lparr>t_arr := (t_arr tbl)[i0 := ELEM_FREE]\<rparr>) (bucket (2 ^ b) hash) 0"
  shows "reloc_result (Suc n) tbl i0"
proof -
  let ?a = "t_arr tbl" and ?h = "bucket (2 ^ b) hash" and ?e = "ELEM_OCCUPIED hash key val"
  let ?a1 = "?a[i0 := ELEM_FREE]"
  have len: "length ?a = 2 ^ b" "t_cap tbl = 2 ^ b" and "b \<le> 62"
    using shape by (simp_all add: table_shape_def)
  have h: "?h < 2 ^ b" using \<open>b \<le> 62\<close> by (intro bucket_less) simp
  obtain a2 c2 j where
    run: "dime_table_relocate_probe n (tbl\<lparr>t_arr := ?a1\<rparr>) ?h 1 =
      Some (tbl\<lparr>t_arr := a2, t_ncollisions := c2\<rparr>, probe (2 ^ b) ?h j, j + 1)"
    and rel: "relocated ?a1 a2" and free: "\<not> is_occ (a2 ! probe (2 ^ b) ?h j)"
    and chain: "\<And>i. i < j \<Longrightarrow> settled a2 (probe (2 ^ b) ?h i)"
    and fix_pt: "\<And>J. \<forall>i<J. settled ?a1 (probe (2 ^ b) ?h i) \<Longrightarrow>
      ?a1 ! probe (2 ^ b) ?h J = ELEM_FREE \<Longrightarrow> a2 = ?a1 \<and> probe (2 ^ b) ?h j = probe (2 ^ b) ?h J"
    using IH h by (auto simp: probe_result_def)
  let ?i = "probe (2 ^ b) ?h j"
  let ?a3 = "a2[?i := ?e]"
  define c where "c = (if j + 1 > 1 then sz_add c2 1 else c2)"
  have step: "dime_table_relocate (Suc n) tbl i0 = Some (tbl\<lparr>t_arr := ?a3, t_ncollisions := c\<rparr>)"
    using occ away run len by (simp add: Let_def c_def)
  have "relocate_post ?a i0 ?a3"
  proof (cases "settled ?a i0")
    case True
    then obtain J where J: "i0 = probe (length ?a) (home ?a hash) J"
      "\<And>i. i < J \<Longrightarrow> settled ?a1 (probe (length ?a) (home ?a hash) i)"
      using settled_chain_kept [OF True occ] by blast
    then have "a2 = ?a1 \<and> ?i = i0" using fix_pt [of J] len i0 by simp
    then have "?a3 = ?a" using occ i0 len by (metis list_update_id list_update_overwrite)
    then show ?thesis using True occ by (simp add: relocate_post_def unsettled_def)
  next
    case False
    have "relocated ?a ?a3" "i0 \<notin> unsettled ?a3" "?a3 ! i0 \<noteq> ELEM_REMOVED"
      using relocated_move [OF _ occ False rel, of ?i j] free chain i0 len by simp_all
    then show ?thesis using False occ by (simp add: relocate_post_def)
  qed
  then show ?thesis by (rule reloc_resultI [OF step])
qed

lemma probe_result_stop:
  assumes "dime_table_relocate n tbl (probe (2 ^ b) h j) = Some (tbl\<lparr>t_arr := a', t_ncollisions := c'\<rparr>)"
    and post: "relocate_post (t_arr tbl) (probe (2 ^ b) h j) a'"
    and chain: "\<And>i. i < j \<Longrightarrow> settled (t_arr tbl) (probe (2 ^ b) h i)"
    and free: "\<not> is_occ (a' ! probe (2 ^ b) h j)"
  shows "probe_result b (Suc n) tbl h j"
proof -
  have rel: "relocated (t_arr tbl) a'" using post by (simp add: relocate_post_def)
  have nset: "\<not> settled (t_arr tbl) (probe (2 ^ b) h j)"
    using relocated_settled [OF rel] settled_is_occ free by metis
  have J: "a' = t_arr tbl \<and> probe (2 ^ b) h j = probe (2 ^ b) h J"
    if "\<forall>i<J. settled (t_arr tbl) (probe (2 ^ b) h i)" "t_arr tbl ! probe (2 ^ b) h J = ELEM_FREE" for J
  proof -
    have "\<not> settled (t_arr tbl) (probe (2 ^ b) h J)" using that(2) settled_is_occ by fastforce
    then have "J = j" using that(1) chain nset by (meson linorder_neqE_nat)
    then show ?thesis using post that(2) by (simp add: relocate_post_def)
  qed
  have step: "dime_table_relocate_probe (Suc n) tbl (probe (2 ^ b) h j) (j + 1) =
      Some (tbl\<lparr>t_arr := a', t_ncollisions := c'\<rparr>, probe (2 ^ b) h j, j + 1)"
    using assms(1) free by simp
  have chain': "\<forall>i < j. settled a' (probe (2 ^ b) h i)" using relocated_settled [OF rel chain] by blast
  show ?thesis
    unfolding probe_result_def
  proof (rule exI [of _ a'], rule exI [of _ c'], rule exI [of _ j])
    show "dime_table_relocate_probe (Suc n) tbl (probe (2 ^ b) h j) (j + 1) =
          Some (tbl\<lparr>t_arr := a', t_ncollisions := c'\<rparr>, probe (2 ^ b) h j, j + 1) \<and>
        relocated (t_arr tbl) a' \<and> \<not> is_occ (a' ! probe (2 ^ b) h j) \<and>
        (\<forall>i < j. settled a' (probe (2 ^ b) h i)) \<and>
        (\<forall>J. (\<forall>i < J. settled (t_arr tbl) (probe (2 ^ b) h i)) \<and>
             t_arr tbl ! probe (2 ^ b) h J = ELEM_FREE \<longrightarrow>
           a' = t_arr tbl \<and> probe (2 ^ b) h j = probe (2 ^ b) h J)"
      using step rel free chain' J by blast
  qed
qed

lemma probe_result_next:
  assumes run: "dime_table_relocate n tbl (probe (2 ^ b) h j) = Some (tbl\<lparr>t_arr := a', t_ncollisions := c'\<rparr>)"
    and post: "relocate_post (t_arr tbl) (probe (2 ^ b) h j) a'"
    and occ: "is_occ (a' ! probe (2 ^ b) h j)"
    and before: "\<And>i. i < j \<Longrightarrow> settled (t_arr tbl) (probe (2 ^ b) h i)"
    and cap: "t_cap tbl = 2 ^ b" and b: "b \<le> 62" "j < 2 ^ b"
    and IH: "probe_result b n (tbl\<lparr>t_arr := a', t_ncollisions := c'\<rparr>) h (Suc j)"
  shows "probe_result b (Suc n) tbl h j"
proof -
  have rel: "relocated (t_arr tbl) a'" using post by (simp add: relocate_post_def)
  obtain a2 c2 j2 where
    run2: "dime_table_relocate_probe n (tbl\<lparr>t_arr := a', t_ncollisions := c'\<rparr>) (probe (2 ^ b) h (Suc j)) (Suc j + 1) =
        Some (tbl\<lparr>t_arr := a2, t_ncollisions := c2\<rparr>, probe (2 ^ b) h j2, j2 + 1)"
    and rel2: "relocated a' a2" and free: "\<not> is_occ (a2 ! probe (2 ^ b) h j2)"
    and chain: "\<forall>i < j2. settled a2 (probe (2 ^ b) h i)"
    and fix_pt: "\<And>J. \<forall>i < J. settled a' (probe (2 ^ b) h i) \<Longrightarrow> a' ! probe (2 ^ b) h J = ELEM_FREE \<Longrightarrow>
      a2 = a' \<and> probe (2 ^ b) h j2 = probe (2 ^ b) h J"
    using IH by (auto simp: probe_result_def)
  have "(2 :: nat) ^ b \<le> 2 ^ 62" using b(1) by (intro power_increasing) simp_all
  then have j: "j < 2 ^ 62" using b(2) by linarith
  then have "sz_add (j + 1) 1 = Suc j + 1" by (simp add: size_arith)
  moreover have "probe_next (2 ^ b) (probe (2 ^ b) h j) (j + 1) = probe (2 ^ b) h (Suc j)"
    using b(1) j by (rule probe_next_eq)
  ultimately have step: "dime_table_relocate_probe (Suc n) tbl (probe (2 ^ b) h j) (j + 1) =
      Some (tbl\<lparr>t_arr := a2, t_ncollisions := c2\<rparr>, probe (2 ^ b) h j2, j2 + 1)"
    using run run2 occ cap by (simp del: One_nat_def)
  have J: "a2 = t_arr tbl \<and> probe (2 ^ b) h j2 = probe (2 ^ b) h J"
    if "\<forall>i<J. settled (t_arr tbl) (probe (2 ^ b) h i)" "t_arr tbl ! probe (2 ^ b) h J = ELEM_FREE" for J
  proof -
    have "a' = t_arr tbl"
    proof (cases "probe (2 ^ b) h j = probe (2 ^ b) h J")
      case True
      then show ?thesis using post that(2) by (simp add: relocate_post_def)
    next
      case False
      show ?thesis
      proof (cases "settled (t_arr tbl) (probe (2 ^ b) h j)")
        case True
        then show ?thesis using post by (simp add: relocate_post_def)
      next
        case F: False
        then have "J \<le> j" using that(1) by (meson not_le_imp_less)
        moreover have "\<not> settled (t_arr tbl) (probe (2 ^ b) h J)" using that(2) settled_is_occ by fastforce
        ultimately have "J = j" using before by (metis le_neq_implies_less)
        then show ?thesis using False by simp
      qed
    qed
    then show ?thesis using fix_pt [of J] that by simp
  qed
  show ?thesis
    unfolding probe_result_def
  proof (rule exI [of _ a2], rule exI [of _ c2], rule exI [of _ j2])
    show "dime_table_relocate_probe (Suc n) tbl (probe (2 ^ b) h j) (j + 1) =
          Some (tbl\<lparr>t_arr := a2, t_ncollisions := c2\<rparr>, probe (2 ^ b) h j2, j2 + 1) \<and>
        relocated (t_arr tbl) a2 \<and> \<not> is_occ (a2 ! probe (2 ^ b) h j2) \<and>
        (\<forall>i < j2. settled a2 (probe (2 ^ b) h i)) \<and>
        (\<forall>J. (\<forall>i < J. settled (t_arr tbl) (probe (2 ^ b) h i)) \<and>
             t_arr tbl ! probe (2 ^ b) h J = ELEM_FREE \<longrightarrow>
           a2 = t_arr tbl \<and> probe (2 ^ b) h j2 = probe (2 ^ b) h J)"
      using step relocated_trans [OF rel rel2] free chain J by blast
  qed
qed

text \<open>The two results, with the fuel bounds, by induction on the fuel.\<close>

lemma relocate_fueled:
  "(\<forall>(tbl :: ('k, 'v) dime_table) i0 m. table_shape b tbl \<longrightarrow> i0 < 2 ^ b \<longrightarrow>
      card (occ_slots (t_arr tbl)) \<le> m \<longrightarrow> m * (2 ^ b + 2) < n \<longrightarrow> reloc_result n tbl i0) \<and>
   (\<forall>(tbl :: ('k, 'v) dime_table) h j m. table_shape b tbl \<longrightarrow> h < 2 ^ b \<longrightarrow>
      (\<forall>i < j. settled (t_arr tbl) (probe (2 ^ b) h i)) \<longrightarrow>
      card (occ_slots (t_arr tbl)) \<le> m \<longrightarrow> card (occ_slots (t_arr tbl)) < 2 ^ b \<longrightarrow>
      m * (2 ^ b + 2) + (2 ^ b - j) < n \<longrightarrow> probe_result b n tbl h j)"
proof (induction n)
  case 0
  then show ?case by simp
next
  case (Suc n)
  note IHr = Suc.IH [THEN conjunct1, rule_format] and IHp = Suc.IH [THEN conjunct2, rule_format]
  have "reloc_result (Suc n) tbl i0"
    if shape: "table_shape b tbl" and i0: "i0 < 2 ^ b" and m: "card (occ_slots (t_arr tbl)) \<le> m"
      and n: "m * (2 ^ b + 2) < Suc n" for tbl :: "('k, 'v) dime_table" and i0 m
  proof (cases "t_arr tbl ! i0")
    case (ELEM_OCCUPIED hash key val)
    show ?thesis
    proof (cases "bucket (2 ^ b) hash = i0")
      case True
      show ?thesis by (rule relocate_at_home [OF shape i0 ELEM_OCCUPIED True])
    next
      case False
      let ?t = "tbl\<lparr>t_arr := (t_arr tbl)[i0 := ELEM_FREE]\<rparr>"
      have len: "length (t_arr tbl) = 2 ^ b" "b \<le> 62" using shape by (simp_all add: table_shape_def)
      have card: "Suc (card (occ_slots (t_arr ?t))) = card (occ_slots (t_arr tbl))"
        using card_occ_clear [of i0 "t_arr tbl"] i0 len(1) ELEM_OCCUPIED by simp
      then obtain m' where m': "m = Suc m'" using m by (cases m) simp_all
      have "card (occ_slots (t_arr tbl)) \<le> card {..<(2 :: nat) ^ b}"
        using len(1) by (intro card_mono) (auto simp: occ_slots_def)
      moreover have "table_shape b ?t" using shape by (simp add: table_shape_def)
      moreover have "m' * (2 ^ b + 2) + 2 ^ b < n" using n m' by simp
      ultimately have "probe_result b n ?t (bucket (2 ^ b) hash) 0"
        using card m m' len(2) by (intro IHp [of ?t _ _ m']) (simp_all add: bucket_less)
      then show ?thesis by (rule relocate_away [OF shape i0 ELEM_OCCUPIED False])
    qed
  next
    case ELEM_FREE
    then show ?thesis using relocate_not_occ [of i0 tbl n] shape i0 by (simp add: table_shape_def)
  next
    case ELEM_REMOVED
    then show ?thesis using relocate_not_occ [of i0 tbl n] shape i0 by (simp add: table_shape_def)
  qed
  moreover have "probe_result b (Suc n) tbl h j"
    if shape: "table_shape b tbl" and h: "h < 2 ^ b"
      and chain: "\<forall>i < j. settled (t_arr tbl) (probe (2 ^ b) h i)"
      and m: "card (occ_slots (t_arr tbl)) \<le> m" and lt: "card (occ_slots (t_arr tbl)) < 2 ^ b"
      and n: "m * (2 ^ b + 2) + (2 ^ b - j) < Suc n" for tbl :: "('k, 'v) dime_table" and h j m
  proof -
    have len: "length (t_arr tbl) = 2 ^ b" "b \<le> 62" "t_cap tbl = 2 ^ b"
      using shape by (simp_all add: table_shape_def)
    have j: "j < 2 ^ b" using probe_before_cap [OF len(1) lt, of j h] chain by blast
    have "reloc_result n tbl (probe (2 ^ b) h j)"
      using shape m n j by (intro IHr [of tbl _ m]) simp_all
    then obtain a' c' where run: "dime_table_relocate n tbl (probe (2 ^ b) h j) =
          Some (tbl\<lparr>t_arr := a', t_ncollisions := c'\<rparr>)"
      and post: "relocate_post (t_arr tbl) (probe (2 ^ b) h j) a'"
      unfolding reloc_result_def by blast
    have rel: "relocated (t_arr tbl) a'" using post by (simp add: relocate_post_def)
    show ?thesis
    proof (cases "is_occ (a' ! probe (2 ^ b) h j)")
      case True
      have here: "settled a' (probe (2 ^ b) h j)"
        using relocate_post_settled [OF post _ True] len by simp
      have chain': "\<forall>i < Suc j. settled a' (probe (2 ^ b) h i)"
        using relocated_settled [OF rel] chain here by (auto simp: less_Suc_eq)
      have "table_shape b (tbl\<lparr>t_arr := a', t_ncollisions := c'\<rparr>)"
        using shape relocated_length [OF rel] by (simp add: table_shape_def)
      moreover have "card (occ_slots a') = card (occ_slots (t_arr tbl))"
        by (rule card_occ_relocated [OF rel])
      ultimately have "probe_result b n (tbl\<lparr>t_arr := a', t_ncollisions := c'\<rparr>) h (Suc j)"
        using h chain' m lt n j by (intro IHp [of _ _ _ m]) simp_all
      then show ?thesis
        using probe_result_next [OF run post True _ len(3,2) j] chain by blast
    next
      case False
      then show ?thesis using probe_result_stop [OF run post] chain by blast
    qed
  qed
  ultimately show ?case by blast
qed

lemma relocate_ok:
  assumes "table_shape b tbl" and "i0 < 2 ^ b"
  obtains a' c' where "dime_table_relocate (relocate_fuel (t_cap tbl)) tbl i0 =
      Some (tbl\<lparr>t_arr := a', t_ncollisions := c'\<rparr>)" and "relocate_post (t_arr tbl) i0 a'"
proof -
  have len: "length (t_arr tbl) = 2 ^ b" "t_cap tbl = 2 ^ b" using assms(1) by (simp_all add: table_shape_def)
  have "card (occ_slots (t_arr tbl)) \<le> card {..<(2 :: nat) ^ b}"
    using len(1) by (intro card_mono) (auto simp: occ_slots_def)
  then have "reloc_result (relocate_fuel (t_cap tbl)) tbl i0"
    using relocate_fueled [of b "relocate_fuel (t_cap tbl)"] assms len(2)
    by (metis card_lessThan lessI relocate_fuel_def)
  then show thesis using that by (auto simp: reloc_result_def)
qed

end
