(* ===== verification/Table.thy ===== *)
theory Table
  imports Table_Reloc
begin

text \<open>
  Correctness of the hash table of \<^verbatim>\<open>server/table.c\<close>: its invariant, the finite map it
  represents, and the effect of every operation on that map.  The invariant says where an
  element may be: no slot that precedes it in its probe sequence is free.
\<close>

section \<open>Rehashing every slot\<close>

definition tidy :: "('k, 'v) table_elem list \<Rightarrow> bool" where
  "tidy a \<longleftrightarrow> unsettled a = {} \<and> removed_slots a = {}"

lemma relocate_post_sets:
  assumes "relocate_post a i a'"
  shows "unsettled a' \<subseteq> unsettled a - {i}" and "removed_slots a' \<subseteq> removed_slots a - {i}"
  using assms relocated_unsettled [of a a'] relocated_removed [of a a']
  by (auto simp: relocate_post_def removed_slots_def)

lemma relocate_all_ok:
  assumes "table_shape b tbl" and "\<forall>i \<in> set is. i < 2 ^ b"
  obtains a' c' where "dime_table_relocate_all tbl is = Some (tbl\<lparr>t_arr := a', t_ncollisions := c'\<rparr>)"
    and "relocated (t_arr tbl) a'"
    and "unsettled a' \<subseteq> unsettled (t_arr tbl) - set is"
    and "removed_slots a' \<subseteq> removed_slots (t_arr tbl) - set is"
proof -
  have "\<exists>a' c'. dime_table_relocate_all tbl is = Some (tbl\<lparr>t_arr := a', t_ncollisions := c'\<rparr>) \<and>
      relocated (t_arr tbl) a' \<and> unsettled a' \<subseteq> unsettled (t_arr tbl) - set is \<and>
      removed_slots a' \<subseteq> removed_slots (t_arr tbl) - set is"
    using assms
  proof (induction "is" arbitrary: tbl)
    case Nil
    have "tbl = tbl\<lparr>t_arr := t_arr tbl, t_ncollisions := t_ncollisions tbl\<rparr>" by simp
    then show ?case by (metis dime_table_relocate_all.simps(1) relocated_refl Diff_empty list.set(1) subset_refl)
  next
    case (Cons i "is")
    obtain a1 c1 where run: "dime_table_relocate (relocate_fuel (t_cap tbl)) tbl i =
        Some (tbl\<lparr>t_arr := a1, t_ncollisions := c1\<rparr>)" and post: "relocate_post (t_arr tbl) i a1"
      using relocate_ok [OF Cons.prems(1), of i] Cons.prems(2) by (metis list.set_intros(1))
    have rel: "relocated (t_arr tbl) a1" using post by (simp add: relocate_post_def)
    let ?t = "tbl\<lparr>t_arr := a1, t_ncollisions := c1\<rparr>"
    have "table_shape b ?t" using Cons.prems(1) relocated_length [OF rel] by (simp add: table_shape_def)
    moreover have t_arr: "t_arr ?t = a1" by simp
    ultimately obtain a2 c2 where rest: "dime_table_relocate_all ?t is = Some (?t\<lparr>t_arr := a2, t_ncollisions := c2\<rparr>)"
        "relocated a1 a2" "unsettled a2 \<subseteq> unsettled a1 - set is"
        "removed_slots a2 \<subseteq> removed_slots a1 - set is"
      using Cons.IH [of ?t] Cons.prems(2) by (metis (no_types, lifting) list.set_intros(2) t_arr)
    have "dime_table_relocate_all tbl (i # is) = Some (tbl\<lparr>t_arr := a2, t_ncollisions := c2\<rparr>)"
      using run rest(1) by simp
    moreover have "relocated (t_arr tbl) a2" by (rule relocated_trans [OF rel rest(2)])
    moreover have "unsettled a2 \<subseteq> unsettled (t_arr tbl) - set (i # is)"
      and "removed_slots a2 \<subseteq> removed_slots (t_arr tbl) - set (i # is)"
      using rest(3,4) relocate_post_sets [OF post] by auto
    ultimately show ?case by blast
  qed
  then show thesis using that by blast
qed

lemma relocate_all_tidy:
  assumes "table_shape b tbl" and "\<forall>i \<in> set is. i < 2 ^ b"
    and "\<forall>s < 2 ^ b. s \<notin> set is \<longrightarrow> t_arr tbl ! s = ELEM_FREE"
  obtains a' c' where "dime_table_relocate_all tbl is = Some (tbl\<lparr>t_arr := a', t_ncollisions := c'\<rparr>)"
    and "length a' = length (t_arr tbl)" and "entries_mset a' = entries_mset (t_arr tbl)" and "tidy a'"
proof -
  obtain a' c' where a': "dime_table_relocate_all tbl is = Some (tbl\<lparr>t_arr := a', t_ncollisions := c'\<rparr>)"
    "relocated (t_arr tbl) a'" "unsettled a' \<subseteq> unsettled (t_arr tbl) - set is"
    "removed_slots a' \<subseteq> removed_slots (t_arr tbl) - set is"
    by (rule relocate_all_ok [OF assms(1,2)])
  have "unsettled (t_arr tbl) \<subseteq> set is" and "removed_slots (t_arr tbl) \<subseteq> set is"
    using assms(1,3) by (fastforce simp: unsettled_def occ_slots_def removed_slots_def table_shape_def)+
  then have "tidy a'" using a'(3,4) by (auto simp: tidy_def)
  then show thesis
    using that [OF a'(1) relocated_length [OF a'(2)] relocated_entries [OF a'(2)]] by blast
qed

section \<open>The map a table represents\<close>

definition elem_pair :: "('k, 'v) table_elem \<Rightarrow> 'k \<times> 'v" where
  "elem_pair e = (e_key e, e_val e)"

definition table_entries :: "('k, 'v) table_elem list \<Rightarrow> ('k \<times> 'v) list" where
  "table_entries a = map elem_pair (filter is_occ a)"

definition table_map :: "('k, 'v) dime_table \<Rightarrow> 'k \<Rightarrow> 'v option" where
  "table_map tbl = map_of (table_entries (t_arr tbl))"

definition keys_distinct :: "('k, 'v) table_elem list \<Rightarrow> bool" where
  "keys_distinct a \<longleftrightarrow> distinct (map fst (table_entries a))"

lemma mset_table_entries: "mset (table_entries a) = image_mset elem_pair (entries_mset a)"
  by (simp add: table_entries_def entries_mset_def)

lemma length_table_entries: "length (table_entries a) = card (occ_slots a)"
  by (metis card_occ_slots mset_table_entries size_image_mset size_mset)

lemma keys_distinct_mset: "entries_mset a = entries_mset a' \<Longrightarrow> keys_distinct a \<longleftrightarrow> keys_distinct a'"
  unfolding keys_distinct_def by (metis mset_eq_imp_distinct_iff mset_map mset_table_entries)

lemma map_of_mset:
  assumes "mset xs = mset ys" and "distinct (map fst ys)"
  shows "map_of xs = map_of ys"
proof -
  have "distinct (map fst xs)" using assms by (metis mset_eq_imp_distinct_iff mset_map)
  then show ?thesis using assms by (metis map_of_inject_set mset_eq_setD)
qed

lemma entries_same:
  assumes "entries_mset a' = entries_mset a" and "keys_distinct a"
  shows "map_of (table_entries a') = map_of (table_entries a)"
  using assms by (intro map_of_mset) (simp_all add: mset_table_entries keys_distinct_def)

lemma entries_insert:
  assumes "entries_mset a' = add_mset (ELEM_OCCUPIED h k v) (entries_mset a)"
    and "keys_distinct a" and "map_of (table_entries a) k = None"
  shows "keys_distinct a'" and "map_of (table_entries a') = (map_of (table_entries a))(k \<mapsto> v)"
proof -
  have mset: "mset (table_entries a') = mset ((k, v) # table_entries a)"
    using assms(1) by (simp add: mset_table_entries elem_pair_def)
  have d: "distinct (map fst ((k, v) # table_entries a))"
    using assms(2,3) by (simp add: keys_distinct_def map_of_eq_None_iff)
  show "keys_distinct a'"
    unfolding keys_distinct_def using mset d by (metis mset_eq_imp_distinct_iff mset_map)
  show "map_of (table_entries a') = (map_of (table_entries a))(k \<mapsto> v)"
    using map_of_mset [OF mset d] by simp
qed

lemma entries_delete:
  assumes "add_mset (ELEM_OCCUPIED h k v) (entries_mset a') = entries_mset a" and "keys_distinct a"
  shows "keys_distinct a'" and "map_of (table_entries a') = (map_of (table_entries a))(k := None)"
    and "map_of (table_entries a) k = Some v"
proof -
  have mset: "mset ((k, v) # table_entries a') = mset (table_entries a)"
    unfolding mset_table_entries using assms(1) [symmetric] by (simp add: mset_table_entries elem_pair_def)
  have d: "distinct (map fst ((k, v) # table_entries a'))"
    using assms(2) mset unfolding keys_distinct_def by (metis mset_eq_imp_distinct_iff mset_map)
  show "keys_distinct a'" using d by (simp add: keys_distinct_def)
  have eq: "map_of (table_entries a) = (map_of (table_entries a'))(k \<mapsto> v)"
    using map_of_mset [OF mset [symmetric] d] by simp
  show "map_of (table_entries a') = (map_of (table_entries a))(k := None)"
    unfolding eq using d by (auto simp: fun_eq_iff map_of_eq_None_iff)
  show "map_of (table_entries a) k = Some v" unfolding eq by simp
qed

lemma entries_in_map:
  assumes "keys_distinct a" and "s < length a" and "a ! s = ELEM_OCCUPIED h k v"
  shows "map_of (table_entries a) k = Some v"
proof -
  have "(k, v) \<in> set (table_entries a)"
    using assms(2,3) unfolding table_entries_def
    by (auto simp: elem_pair_def image_iff) (metis is_occ.simps(1) nth_mem table_elem.sel)
  then show ?thesis using assms(1) by (simp add: keys_distinct_def)
qed

lemma entries_from_map:
  assumes "map_of (table_entries a) k = Some v"
  obtains s h where "s < length a" and "a ! s = ELEM_OCCUPIED h k v"
proof -
  obtain e where e: "e \<in> set a" "is_occ e" "elem_pair e = (k, v)"
    using map_of_SomeD [OF assms] by (auto simp: table_entries_def)
  then obtain s where "s < length a" "a ! s = e" by (metis in_set_conv_nth)
  then show thesis using that e by (auto simp: is_occ_iff elem_pair_def)
qed

lemma entries_not_in_map:
  "map_of (table_entries a) k = None \<Longrightarrow> s < length a \<Longrightarrow> a ! s = ELEM_OCCUPIED h k' v \<Longrightarrow> k' \<noteq> k"
  unfolding map_of_eq_None_iff table_entries_def elem_pair_def
  by (auto simp: image_iff) (metis is_occ.simps(1) nth_mem table_elem.sel(2))

lemma keys_unique_slot:
  assumes "keys_distinct a" and "s < length a" and "s' < length a"
    and "a ! s = ELEM_OCCUPIED h k v" and "a ! s' = ELEM_OCCUPIED h' k v'"
  shows "s = s'"
proof (rule ccontr)
  assume "s \<noteq> s'"
  let ?a = "a[s := ELEM_FREE]"
  have "add_mset (ELEM_OCCUPIED h k v) (entries_mset ?a) = entries_mset a"
    using entries_mset_clear [of s a ELEM_FREE] assms(2,4) by simp
  then have "map_of (table_entries ?a) k = None" using entries_delete(2) assms(1) by fastforce
  moreover have "?a ! s' = ELEM_OCCUPIED h' k v'" using \<open>s \<noteq> s'\<close> assms(5) by simp
  ultimately show False using entries_not_in_map [of ?a k s'] assms(3) by simp
qed

section \<open>The invariant\<close>

text \<open>An element is reachable when no slot before it in its probe sequence is free.\<close>

definition chained :: "('k, 'v) table_elem list \<Rightarrow> bool" where
  "chained a \<longleftrightarrow>
     (\<forall>s h k v. s < length a \<longrightarrow> a ! s = ELEM_OCCUPIED h k v \<longrightarrow>
        (\<exists>j. s = probe (length a) (home a h) j \<and>
           (\<forall>i < j. a ! probe (length a) (home a h) i \<noteq> ELEM_FREE)))"

definition memo_ok :: "('k \<Rightarrow> 64 word) \<Rightarrow> ('k, 'v) table_elem list \<Rightarrow> bool" where
  "memo_ok f a \<longleftrightarrow> (\<forall>e \<in> set a. is_occ e \<longrightarrow> e_hash e = f (e_key e))"

definition free_count :: "('k, 'v) table_elem list \<Rightarrow> nat" where
  "free_count a = length (filter is_free a)"

text \<open>
  \<^verbatim>\<open>nfree\<close> is the number of free slots, or one less when the last insertion grew the table
  for its collisions, which counts the new element twice.
\<close>

definition nfree_ok :: "size_t \<Rightarrow> size_t \<Rightarrow> nat \<Rightarrow> bool" where
  "nfree_ok cap nfree n \<longleftrightarrow> nfree = n \<or> Suc nfree = n \<and> cap \<le> 2 * nfree"

definition table_inv :: "('k, 'v) dime_table \<Rightarrow> bool" where
  "table_inv tbl \<longleftrightarrow>
     (\<exists>b. 5 \<le> b \<and> table_shape b tbl) \<and> t_cap tbl * 32 \<le> ALLOC_MAX \<and>
     (\<forall>x y. t_cmp_f tbl x y = 0 \<longleftrightarrow> x = y) \<and>
     t_len tbl = card (occ_slots (t_arr tbl)) \<and> keys_distinct (t_arr tbl) \<and>
     memo_ok (t_hash_f tbl) (t_arr tbl) \<and> chained (t_arr tbl) \<and>
     nfree_ok (t_cap tbl) (t_nfree tbl) (free_count (t_arr tbl))"

text \<open>A table is live when some slot is free; only then do unsuccessful searches end.\<close>

definition table_live :: "('k, 'v) dime_table \<Rightarrow> bool" where
  "table_live tbl \<longleftrightarrow> ELEM_FREE \<in> set (t_arr tbl)"

lemma free_count_pos: "0 < free_count a \<longleftrightarrow> ELEM_FREE \<in> set a"
proof -
  have "is_free e \<longleftrightarrow> e = ELEM_FREE" for e :: "('a, 'b) table_elem" by (cases e) auto
  then show ?thesis by (simp add: free_count_def filter_empty_conv)
qed

lemma table_live_free_count: "table_live tbl \<longleftrightarrow> 0 < free_count (t_arr tbl)"
  by (simp add: table_live_def free_count_pos)

lemma table_invE:
  assumes "table_inv tbl"
  obtains b where "5 \<le> b" and "table_shape b tbl" and "b \<le> 42"
proof -
  obtain b where b: "5 \<le> b" "table_shape b tbl" using assms by (auto simp: table_inv_def)
  have "(2 :: nat) ^ b * 2 ^ 5 \<le> 2 ^ 47" using assms b(2) by (simp add: table_inv_def table_shape_def ALLOC_MAX_def)
  then have "(2 :: nat) ^ (b + 5) \<le> 2 ^ 47" by (simp add: power_add)
  then have "b + 5 \<le> 47" by (rule power_le_imp_le_exp [rotated]) simp
  then show thesis using that b by simp
qed

lemma free_count_append [simp]: "free_count (a @ b) = free_count a + free_count b"
  by (simp add: free_count_def)

lemma free_count_split:
  "s < length a \<Longrightarrow> free_count a = free_count (take s a) + (if is_free (a ! s) then 1 else 0) + free_count (drop (Suc s) a)"
proof -
  assume "s < length a"
  then have "free_count a = free_count (take s a @ a ! s # drop (Suc s) a)"
    by (rule arg_cong [OF id_take_nth_drop])
  also have "\<dots> = free_count (take s a) + (if is_free (a ! s) then 1 else 0) + free_count (drop (Suc s) a)"
    by (simp add: free_count_def)
  finally show ?thesis .
qed

lemma free_count_update:
  assumes "s < length a"
  shows "free_count (a[s := e]) + (if is_free (a ! s) then 1 else 0) = free_count a + (if is_free e then 1 else 0)"
proof -
  have "free_count (a[s := e]) = free_count (take s a) + (if is_free e then 1 else 0) + free_count (drop (Suc s) a)"
    using free_count_split [of s "a[s := e]"] assms by (simp add: drop_update_cancel)
  then show ?thesis using free_count_split [OF assms] by simp
qed

lemma tidy_free_count:
  assumes "tidy a"
  shows "free_count a + card (occ_slots a) = length a"
proof -
  have eq: "is_free e = (\<not> is_occ e)" if e: "e \<in> set a" for e
  proof -
    obtain s where s: "s < length a" "a ! s = e" using e by (auto simp: in_set_conv_nth)
    have "s \<notin> removed_slots a" using assms by (simp add: tidy_def)
    then have "e \<noteq> ELEM_REMOVED" using s by (simp add: removed_slots_def)
    then show ?thesis by (cases e) auto
  qed
  have "filter is_free a = filter (\<lambda>e. \<not> is_occ e) a"
    by (rule filter_cong [OF refl]) (rule eq)
  then have "free_count a = length (filter (\<lambda>e. \<not> is_occ e) a)"
    by (simp add: free_count_def)
  moreover have "card (occ_slots a) = length (filter is_occ a)"
    by (simp add: length_filter_conv_card occ_slots_def)
  ultimately show ?thesis using sum_length_filter_compl [of is_occ a] by simp
qed

lemma settled_chain:
  assumes "settled a s" and "a ! s = ELEM_OCCUPIED h k v"
  shows "\<exists>j. s = probe (length a) (home a h) j \<and> (\<forall>i < j. a ! probe (length a) (home a h) i \<noteq> ELEM_FREE)"
  using assms
proof (induction rule: settled.induct)
  case (1 s h' key val j)
  have "a ! probe (length a) (home a h') i \<noteq> ELEM_FREE" if "i < j" for i
    using settled_is_occ [OF "1.hyps"(4) [OF that]] by auto
  then show ?case using "1.hyps" "1.prems" by auto
qed

lemma tidy_chained: "tidy a \<Longrightarrow> chained a"
  unfolding chained_def
proof (intro allI impI)
  fix s h k v
  assume a: "tidy a" "s < length a" "a ! s = ELEM_OCCUPIED h k v"
  then have "settled a s" by (auto simp: tidy_def unsettled_def occ_slots_def)
  then show "\<exists>j. s = probe (length a) (home a h) j \<and> (\<forall>i < j. a ! probe (length a) (home a h) i \<noteq> ELEM_FREE)"
    using a(3) by (rule settled_chain)
qed

lemma memo_ok_mset: "entries_mset a = entries_mset a' \<Longrightarrow> memo_ok f a \<longleftrightarrow> memo_ok f a'"
proof -
  have "memo_ok f a \<longleftrightarrow> (\<forall>e \<in># entries_mset a. e_hash e = f (e_key e))" for a :: "('a, 'b) table_elem list"
    by (auto simp: memo_ok_def entries_mset_def)
  then show "entries_mset a = entries_mset a' \<Longrightarrow> memo_ok f a \<longleftrightarrow> memo_ok f a'" by simp
qed

text \<open>A rehashed array satisfies everything that depends on the array.\<close>

lemma table_inv_tidy:
  assumes "5 \<le> b" and "table_shape b tbl" and "t_cap tbl * 32 \<le> ALLOC_MAX"
    and "\<forall>x y. t_cmp_f tbl x y = 0 \<longleftrightarrow> x = y" and "tidy (t_arr tbl)"
    and "entries_mset (t_arr tbl) = entries_mset a" and "keys_distinct a" and "memo_ok (t_hash_f tbl) a"
    and "t_len tbl = card (occ_slots a)" and "nfree_ok (t_cap tbl) (t_nfree tbl) (t_cap tbl - t_len tbl)"
  shows "table_inv tbl" and "table_map tbl = map_of (table_entries a)"
    and "table_live tbl \<longleftrightarrow> t_len tbl < t_cap tbl"
proof -
  have card: "card (occ_slots (t_arr tbl)) = card (occ_slots a)" using assms(6) by (simp add: card_occ_slots)
  have free: "free_count (t_arr tbl) + t_len tbl = t_cap tbl"
    using tidy_free_count [OF assms(5)] assms(2,9) card by (simp add: table_shape_def)
  have "keys_distinct (t_arr tbl)" "memo_ok (t_hash_f tbl) (t_arr tbl)"
    using keys_distinct_mset [OF assms(6)] memo_ok_mset [OF assms(6)] assms(7,8) by simp_all
  then show "table_inv tbl"
    unfolding table_inv_def using assms card tidy_chained [OF assms(5)] free
    by (metis add_diff_cancel_right')
  show "table_map tbl = map_of (table_entries a)"
    unfolding table_map_def by (rule entries_same [OF assms(6,7)])
  show "table_live tbl \<longleftrightarrow> t_len tbl < t_cap tbl"
    using free by (auto simp: table_live_free_count)
qed

section \<open>Growing and initialising\<close>

lemma entries_mset_append_free [simp]: "entries_mset (a @ replicate n ELEM_FREE) = entries_mset a"
  by (induction n) (auto simp: entries_mset_def)

text \<open>
  The part of the invariant that growing needs: it holds in the middle of an insertion too,
  when the element is in place but the counters are not yet up to date.
\<close>

definition grow_pre :: "('k, 'v) dime_table \<Rightarrow> bool" where
  "grow_pre tbl \<longleftrightarrow>
     (\<exists>b. 5 \<le> b \<and> table_shape b tbl) \<and> t_cap tbl * 32 \<le> ALLOC_MAX \<and>
     (\<forall>x y. t_cmp_f tbl x y = 0 \<longleftrightarrow> x = y) \<and>
     t_len tbl = card (occ_slots (t_arr tbl)) \<and> keys_distinct (t_arr tbl) \<and>
     memo_ok (t_hash_f tbl) (t_arr tbl)"

lemma table_inv_grow_pre: "table_inv tbl \<Longrightarrow> grow_pre tbl"
  by (simp add: table_inv_def grow_pre_def)

lemma grow_pre_len:
  assumes "grow_pre tbl"
  shows "t_len tbl \<le> t_cap tbl" and "t_cap tbl \<le> 2 ^ 42"
proof -
  have "card (occ_slots (t_arr tbl)) \<le> card {..<length (t_arr tbl)}"
    by (intro card_mono) (auto simp: occ_slots_def)
  then show "t_len tbl \<le> t_cap tbl" using assms by (auto simp: grow_pre_def table_shape_def)
  show "t_cap tbl \<le> 2 ^ 42" using assms by (simp add: grow_pre_def ALLOC_MAX_def)
qed

lemma dime_table_grow_ok:
  assumes pre: "grow_pre tbl"
  shows "if alloc_ok ok (t_cap tbl * 64)
    then \<exists>tbl'. dime_table_grow ok tbl = Some (True, tbl') \<and> table_inv tbl' \<and> table_live tbl' \<and>
      table_map tbl' = table_map tbl \<and> t_cap tbl' = 2 * t_cap tbl \<and> t_len tbl' = t_len tbl \<and>
      t_hash_f tbl' = t_hash_f tbl \<and> t_cmp_f tbl' = t_cmp_f tbl \<and>
      t_nfree tbl' = t_cap tbl' - t_len tbl \<and> tidy (t_arr tbl')
    else dime_table_grow ok tbl = Some (False, tbl)"
proof -
  obtain b where b: "5 \<le> b" "table_shape b tbl" using pre by (auto simp: grow_pre_def)
  have len: "length (t_arr tbl) = 2 ^ b" "t_cap tbl = 2 ^ b" "(2 :: nat) ^ b \<le> 2 ^ 42" "t_len tbl \<le> 2 ^ b"
    using b grow_pre_len [OF pre] by (simp_all add: table_shape_def)
  have "t_cap tbl * 2 < 2 ^ 64" using len by simp
  then have s1: "sz_mul (t_cap tbl) 2 = t_cap tbl * 2" by (rule sz_mul_small)
  have "t_cap tbl * 2 * 32 < 2 ^ 64" using len by simp
  then have s2: "sz_mul (t_cap tbl * 2) ELEM_SIZE = t_cap tbl * 64"
    unfolding ELEM_SIZE_def by (subst sz_mul_small) simp_all
  have s3: "sz_sub (t_cap tbl * 2) (t_len tbl) = t_cap tbl * 2 - t_len tbl"
    using len by (intro sz_sub_small) simp_all
  let ?t = "tbl\<lparr>t_arr := t_arr tbl @ replicate (t_cap tbl) ELEM_FREE, t_cap := t_cap tbl * 2,
      t_ncollisions := 0, t_nfree := t_cap tbl * 2 - t_len tbl\<rparr>"
  show ?thesis
  proof (cases "alloc_ok ok (t_cap tbl * 64)")
    case True
    have "b \<noteq> 62"
    proof
      assume "b = 62"
      then show False using len(3) by simp
    qed
    then have shape: "table_shape (Suc b) ?t" using b len by (simp add: table_shape_def)
    have "\<forall>i \<in> set (rev [0..<t_cap tbl]). i < 2 ^ Suc b" using len by simp
    moreover have "\<forall>s < 2 ^ Suc b. s \<notin> set (rev [0..<t_cap tbl]) \<longrightarrow> t_arr ?t ! s = ELEM_FREE"
      using len by (auto simp: nth_append)
    ultimately obtain a' c' where run: "dime_table_relocate_all ?t (rev [0..<t_cap tbl]) =
          Some (?t\<lparr>t_arr := a', t_ncollisions := c'\<rparr>)"
      and a': "length a' = length (t_arr ?t)" "entries_mset a' = entries_mset (t_arr ?t)" "tidy a'"
      by (rule relocate_all_tidy [OF shape])
    let ?t' = "?t\<lparr>t_arr := a', t_ncollisions := c'\<rparr>"
    have grow: "dime_table_grow ok tbl = Some (True, ?t')"
      using True run by (simp add: dime_table_grow_def Let_def s1 s2 s3)
    have shape': "table_shape (Suc b) ?t'" using shape a'(1) by (simp add: table_shape_def)
    have inv: "table_inv ?t'" "table_map ?t' = map_of (table_entries (t_arr tbl))"
      "table_live ?t' \<longleftrightarrow> t_len ?t' < t_cap ?t'"
      using table_inv_tidy [of "Suc b" ?t' "t_arr tbl", OF _ shape'] b pre True a'
      by (simp_all add: grow_pre_def alloc_ok_def nfree_ok_def)
    have "t_len tbl < t_cap tbl * 2" using len(2,4) by (simp add: le_less_trans)
    then have "table_live ?t'" using inv(3) by simp
    then show ?thesis using True grow inv(1,2) a'(3) by (simp add: table_map_def)
  next
    case False
    then show ?thesis by (simp add: dime_table_grow_def Let_def s1 s2)
  qed
qed

lemma dime_table_init_ok:
  assumes "\<forall>x y. cmp_f x y = 0 \<longleftrightarrow> x = y" and "dime_table_init ok cmp_f hash_f = Some tbl"
  shows "table_inv tbl" and "table_live tbl" and "table_map tbl = Map.empty" and "t_cap tbl = 32"
    and "t_hash_f tbl = hash_f" and "t_cmp_f tbl = cmp_f" and "t_len tbl = 0"
proof -
  have tbl: "tbl = \<lparr>t_len = 0, t_cmp_f = cmp_f, t_hash_f = hash_f, t_arr = replicate 32 ELEM_FREE,
      t_cap = 32, t_ncollisions = 0, t_nfree = 32\<rparr>"
    using assms(2) by (auto simp: dime_table_init_def Let_def split: if_splits)
  have none: "occ_slots (t_arr tbl) = {}" "removed_slots (t_arr tbl) = {}" "table_entries (t_arr tbl) = []"
    by (auto simp: tbl occ_slots_def removed_slots_def table_entries_def)
  have "tidy (t_arr tbl)" using none by (simp add: tidy_def unsettled_def)
  moreover have "memo_ok (t_hash_f tbl) (t_arr tbl)" by (simp add: tbl memo_ok_def)
  moreover have "table_shape 5 tbl" by (simp add: tbl table_shape_def)
  ultimately show "table_inv tbl" and "table_live tbl" and "table_map tbl = Map.empty" and "t_cap tbl = 32"
    and "t_hash_f tbl = hash_f" and "t_cmp_f tbl = cmp_f" and "t_len tbl = 0"
    using table_inv_tidy [of 5 tbl "t_arr tbl"] assms(1) none
    by (simp_all add: keys_distinct_def nfree_ok_def) (simp_all add: tbl ALLOC_MAX_def)
qed

end
