(* ===== verification/Table_Ops.thy ===== *)
theory Table_Ops
  imports Table
begin

text \<open>
  The operations of the hash table that probe for a key, against the finite map: where a
  probing loop ends, that it ends within the fuel of the definitions, and what search, removal,
  insertion and iteration do to the map.  The table implements the \<open>finite_table\<close> interface.
\<close>

section \<open>Positions on a probe sequence\<close>

abbreviation key_slot :: "('k, 'v) dime_table \<Rightarrow> 'k \<Rightarrow> nat \<Rightarrow> size_t" where
  "key_slot tbl key j \<equiv> probe (t_cap tbl) (bucket (t_cap tbl) (t_hash_f tbl key)) j"

lemma key_slot_less:
  assumes "table_inv tbl"
  shows "key_slot tbl key j < t_cap tbl" and "length (t_arr tbl) = t_cap tbl"
    and "key_slot tbl key 0 = bucket (t_cap tbl) (t_hash_f tbl key)"
proof -
  obtain b where b: "table_shape b tbl" "b \<le> 42" by (rule table_invE [OF assms])
  then have cap: "t_cap tbl = 2 ^ b" "bucket (t_cap tbl) (t_hash_f tbl key) < t_cap tbl"
    by (simp_all add: table_shape_def bucket_less)
  then show "key_slot tbl key j < t_cap tbl" by simp
  show "length (t_arr tbl) = t_cap tbl" using b by (simp add: table_shape_def)
  show "key_slot tbl key 0 = bucket (t_cap tbl) (t_hash_f tbl key)" using cap by simp
qed

lemma key_slot_next:
  assumes "table_inv tbl" and "j < t_cap tbl"
  shows "probe_next (t_cap tbl) (key_slot tbl key j) (j + 1) = key_slot tbl key (Suc j)"
    and "sz_add (j + 1) 1 = Suc j + 1"
proof -
  obtain b where b: "table_shape b tbl" "b \<le> 42" by (rule table_invE [OF assms(1)])
  have cap: "t_cap tbl = 2 ^ b" using b by (simp add: table_shape_def)
  have "(2 :: nat) ^ b \<le> 2 ^ 42" using b(2) by (intro power_increasing) simp_all
  then have j: "j < 2 ^ 62" using assms(2) cap by simp
  show "probe_next (t_cap tbl) (key_slot tbl key j) (j + 1) = key_slot tbl key (Suc j)"
    unfolding cap by (rule probe_next_eq [OF _ j]) (use b(2) in simp)
  show "sz_add (j + 1) 1 = Suc j + 1" using j by (simp add: size_arith)
qed

text \<open>The first position of a sequence whose slot has a property that some slot has.\<close>

lemma first_position:
  assumes inv: "table_inv tbl" and "s < t_cap tbl" and "P s"
  obtains J where "J < t_cap tbl" and "P (key_slot tbl key J)"
    and "\<And>i. i < J \<Longrightarrow> \<not> P (key_slot tbl key i)"
proof -
  obtain b where b: "table_shape b tbl" by (rule table_invE [OF inv])
  then have cap: "t_cap tbl = 2 ^ b" by (simp add: table_shape_def)
  obtain j where j: "j < t_cap tbl" "key_slot tbl key j = s"
    using probe_reaches [of s b] assms(2) unfolding cap by metis
  define J where "J = (LEAST i. P (key_slot tbl key i))"
  have "P (key_slot tbl key j)" using j(2) assms(3) by simp
  then have "P (key_slot tbl key J)" "J \<le> j"
    unfolding J_def by (rule LeastI, rule Least_le)
  moreover have "\<not> P (key_slot tbl key i)" if "i < J" for i
    using that not_less_Least unfolding J_def by blast
  ultimately show thesis using that j(1) by (meson le_less_trans)
qed

text \<open>An element in the map has a slot, and no slot before it on its sequence is free.\<close>

lemma present_position:
  assumes inv: "table_inv tbl" and "table_map tbl key = Some v"
  obtains J h where "J < t_cap tbl" and "t_arr tbl ! key_slot tbl key J = ELEM_OCCUPIED h key v"
    and "\<And>i. i < J \<Longrightarrow> t_arr tbl ! key_slot tbl key i \<noteq> ELEM_FREE"
    and "\<And>i h' v'. i < J \<Longrightarrow> t_arr tbl ! key_slot tbl key i \<noteq> ELEM_OCCUPIED h' key v'"
    and "h = t_hash_f tbl key"
proof -
  let ?a = "t_arr tbl"
  note len = key_slot_less [OF inv]
  obtain s h where s: "s < t_cap tbl" "?a ! s = ELEM_OCCUPIED h key v"
    using entries_from_map assms(2) len(2) unfolding table_map_def by metis
  have "is_occ (?a ! s) \<longrightarrow> e_hash (?a ! s) = t_hash_f tbl (e_key (?a ! s))"
    using inv s(1) len(2) by (auto simp: table_inv_def memo_ok_def)
  then have h: "h = t_hash_f tbl key" using s(2) by simp
  obtain j where j: "s = key_slot tbl key j" "\<And>i. i < j \<Longrightarrow> ?a ! key_slot tbl key i \<noteq> ELEM_FREE"
    using inv s len(2) h unfolding table_inv_def chained_def by metis
  obtain J where J: "J < t_cap tbl" "key_slot tbl key J = s" "\<And>i. i < J \<Longrightarrow> key_slot tbl key i \<noteq> s"
    by (rule first_position [OF inv s(1), of "\<lambda>x. x = s"]) auto
  have "J \<le> j" using J(3) [of j] j(1) by (metis not_le_imp_less)
  then have free: "?a ! key_slot tbl key i \<noteq> ELEM_FREE" if "i < J" for i
    using that j(2) by simp
  have other: "?a ! key_slot tbl key i \<noteq> ELEM_OCCUPIED h' key v'" if "i < J" for i h' v'
    using keys_unique_slot [of ?a "key_slot tbl key i" s h' key v' h v] inv s len J(3) [OF that]
    by (auto simp: table_inv_def)
  show thesis using that [OF J(1) _ free other h] s(2) J(2) by simp
qed

lemma absent_slot:
  assumes "table_inv tbl" and "table_map tbl key = None"
    and "t_arr tbl ! key_slot tbl key i = ELEM_OCCUPIED h k v"
  shows "k \<noteq> key"
  using entries_not_in_map [of "t_arr tbl" key "key_slot tbl key i"] key_slot_less [OF assms(1)] assms
  by (simp add: table_map_def)

section \<open>Searching\<close>

definition avail_ok :: "('k, 'v) dime_table \<Rightarrow> 'k \<Rightarrow> nat \<Rightarrow> size_t option \<Rightarrow> bool" where
  "avail_ok tbl key j fa \<longleftrightarrow>
     (\<forall>f. fa = Some f \<longrightarrow> (\<exists>i < j. f = key_slot tbl key i \<and> t_arr tbl ! f = ELEM_REMOVED))"

lemma avail_ok_mono: "avail_ok tbl key j fa \<Longrightarrow> j \<le> j' \<Longrightarrow> avail_ok tbl key j' fa"
  unfolding avail_ok_def by (metis less_le_trans)

text \<open>
  The probing loop up to position \<open>J\<close>, when no earlier slot is free or holds the key, does
  not end before \<open>J\<close>.
\<close>

lemma search_probe_walk:
  assumes inv: "table_inv tbl"
    and free: "\<And>i. i < J \<Longrightarrow> t_arr tbl ! key_slot tbl key i \<noteq> ELEM_FREE"
    and other: "\<And>i h v. i < J \<Longrightarrow> t_arr tbl ! key_slot tbl key i \<noteq> ELEM_OCCUPIED h key v"
    and J: "J \<le> t_cap tbl"
  shows "j \<le> J \<Longrightarrow> avail_ok tbl key j fa \<Longrightarrow>
    \<exists>fa'. avail_ok tbl key J fa' \<and>
      dime_table_search_probe (n + (J - j)) tbl key (key_slot tbl key j) (j + 1) fa =
      dime_table_search_probe n tbl key (key_slot tbl key J) (J + 1) fa'"
proof (induction "J - j" arbitrary: j fa)
  case 0
  then show ?case by auto
next
  case (Suc d)
  then have j: "j < J" and d: "d = J - Suc j" by simp_all
  have steps: "n + (J - j) = Suc (n + (J - Suc j))" using j by simp
  note nxt = key_slot_next(1) [OF inv, of j key] key_slot_next(2) [OF inv, of j]
  have lt: "j < t_cap tbl" using j J by simp
  show ?case
  proof (cases "t_arr tbl ! key_slot tbl key j")
    case ELEM_FREE
    then show ?thesis using free j by blast
  next
    case (ELEM_OCCUPIED h k v)
    then have "t_cmp_f tbl key k \<noteq> 0" using other [OF j] inv by (auto simp: table_inv_def)
    then have "dime_table_search_probe (n + (J - j)) tbl key (key_slot tbl key j) (j + 1) fa =
        dime_table_search_probe (n + (J - Suc j)) tbl key (key_slot tbl key (Suc j)) (Suc j + 1) fa"
      using ELEM_OCCUPIED nxt lt by (simp only: steps dime_table_search_probe.simps table_elem.case if_False)
    then show ?thesis using Suc.hyps(1) [OF d] j avail_ok_mono [OF Suc.prems(2), of "Suc j"] by simp
  next
    case ELEM_REMOVED
    define fa1 where "fa1 = (if fa = None then Some (key_slot tbl key j) else fa)"
    have "dime_table_search_probe (n + (J - j)) tbl key (key_slot tbl key j) (j + 1) fa =
        dime_table_search_probe (n + (J - Suc j)) tbl key (key_slot tbl key (Suc j)) (Suc j + 1) fa1"
      using ELEM_REMOVED nxt lt by (simp only: steps dime_table_search_probe.simps table_elem.case fa1_def)
    moreover have "avail_ok tbl key (Suc j) fa1"
      using ELEM_REMOVED avail_ok_mono [OF Suc.prems(2), of "Suc j"]
      by (auto simp: fa1_def avail_ok_def)
    ultimately show ?thesis using Suc.hyps(1) [OF d] j by simp
  qed
qed

lemma search_probe_walk_start:
  assumes inv: "table_inv tbl"
    and free: "\<And>i. i < J \<Longrightarrow> t_arr tbl ! key_slot tbl key i \<noteq> ELEM_FREE"
    and other: "\<And>i h v. i < J \<Longrightarrow> t_arr tbl ! key_slot tbl key i \<noteq> ELEM_OCCUPIED h key v"
    and J: "J < t_cap tbl"
  obtains fa where "avail_ok tbl key J fa"
    and "dime_table_search_probe (Suc (t_cap tbl)) tbl key (bucket (t_cap tbl) (t_hash_f tbl key)) 1 None =
      dime_table_search_probe (Suc (t_cap tbl - J)) tbl key (key_slot tbl key J) (J + 1) fa"
proof -
  have "avail_ok tbl key 0 None" by (simp add: avail_ok_def)
  then obtain fa where fa: "avail_ok tbl key J fa"
    "dime_table_search_probe (Suc (t_cap tbl - J) + (J - 0)) tbl key (key_slot tbl key 0) (0 + 1) None =
     dime_table_search_probe (Suc (t_cap tbl - J)) tbl key (key_slot tbl key J) (J + 1) fa"
    using search_probe_walk [OF inv free other, of J 0 None "Suc (t_cap tbl - J)"] J by auto
  have "Suc (t_cap tbl - J) + (J - 0) = Suc (t_cap tbl)" using J by simp
  then show thesis using fa key_slot_less(3) [OF inv, of key] that by (metis add_0)
qed

text \<open>The three ways a search goes.\<close>

lemma search_probe_present:
  assumes inv: "table_inv tbl" and "table_map tbl key = Some v"
  obtains J h fa where "J < t_cap tbl" and "avail_ok tbl key J fa"
    and "t_arr tbl ! key_slot tbl key J = ELEM_OCCUPIED h key v" and "h = t_hash_f tbl key"
    and "\<And>i. i < J \<Longrightarrow> t_arr tbl ! key_slot tbl key i \<noteq> ELEM_FREE"
    and "dime_table_search_probe (Suc (t_cap tbl)) tbl key (bucket (t_cap tbl) (t_hash_f tbl key)) 1 None =
      Some (Some (key_slot tbl key J, fa))"
proof -
  obtain J h where J: "J < t_cap tbl" "t_arr tbl ! key_slot tbl key J = ELEM_OCCUPIED h key v"
    "\<And>i. i < J \<Longrightarrow> t_arr tbl ! key_slot tbl key i \<noteq> ELEM_FREE"
    "\<And>i h' v'. i < J \<Longrightarrow> t_arr tbl ! key_slot tbl key i \<noteq> ELEM_OCCUPIED h' key v'"
    "h = t_hash_f tbl key"
    by (rule present_position [OF assms]) blast
  obtain fa where fa: "avail_ok tbl key J fa"
    "dime_table_search_probe (Suc (t_cap tbl)) tbl key (bucket (t_cap tbl) (t_hash_f tbl key)) 1 None =
      dime_table_search_probe (Suc (t_cap tbl - J)) tbl key (key_slot tbl key J) (J + 1) fa"
    by (rule search_probe_walk_start [OF inv J(3,4,1)])
  have "t_cmp_f tbl key key = 0" using inv by (simp add: table_inv_def)
  then have "dime_table_search_probe (Suc (t_cap tbl)) tbl key (bucket (t_cap tbl) (t_hash_f tbl key)) 1 None =
      Some (Some (key_slot tbl key J, fa))"
    using fa(2) J(2) by simp
  then show thesis using that [OF J(1) fa(1) J(2,5)] J(3) by blast
qed

lemma search_probe_absent:
  assumes inv: "table_inv tbl" and "table_map tbl key = None" and "table_live tbl"
  shows "dime_table_search_probe (Suc (t_cap tbl)) tbl key (bucket (t_cap tbl) (t_hash_f tbl key)) 1 None =
    Some None"
proof -
  note len = key_slot_less [OF inv]
  obtain s where s: "s < t_cap tbl" "t_arr tbl ! s = ELEM_FREE"
    using assms(3) len(2) by (auto simp: table_live_def in_set_conv_nth)
  obtain J where J: "J < t_cap tbl" "t_arr tbl ! key_slot tbl key J = ELEM_FREE"
    "\<And>i. i < J \<Longrightarrow> t_arr tbl ! key_slot tbl key i \<noteq> ELEM_FREE"
    by (rule first_position [OF inv s(1), of "\<lambda>x. t_arr tbl ! x = ELEM_FREE"]) (use s in auto)
  have other: "\<And>i h v. i < J \<Longrightarrow> t_arr tbl ! key_slot tbl key i \<noteq> ELEM_OCCUPIED h key v"
    using absent_slot [OF inv assms(2)] by blast
  obtain fa where "dime_table_search_probe (Suc (t_cap tbl)) tbl key (bucket (t_cap tbl) (t_hash_f tbl key)) 1 None =
      dime_table_search_probe (Suc (t_cap tbl - J)) tbl key (key_slot tbl key J) (J + 1) fa"
    by (rule search_probe_walk_start [OF inv J(3) other J(1)])
  then show ?thesis using J(2) by simp
qed

lemma probe_next_less: "table_inv tbl \<Longrightarrow> probe_next (t_cap tbl) i k < t_cap tbl"
  by (erule table_invE) (simp add: table_shape_def probe_next_def nat_and_mask del: One_nat_def)

lemma search_probe_diverges:
  assumes inv: "table_inv tbl" and absent: "table_map tbl key = None" and dead: "\<not> table_live tbl"
  shows "i < t_cap tbl \<Longrightarrow> dime_table_search_probe n tbl key i k fa = None"
proof (induction n arbitrary: i k fa)
  case 0
  then show ?case by simp
next
  case (Suc n)
  note len = key_slot_less [OF inv]
  have "t_arr tbl ! i \<noteq> ELEM_FREE" using dead Suc.prems len(2) by (metis nth_mem table_live_def)
  moreover have "t_cmp_f tbl key k' \<noteq> 0" if "t_arr tbl ! i = ELEM_OCCUPIED h k' v" for h k' v
    using entries_not_in_map [of "t_arr tbl" key i h k' v] absent Suc.prems len(2) that inv
    by (auto simp: table_map_def table_inv_def)
  ultimately show ?case
    using Suc.IH [OF probe_next_less [OF inv]] by (cases "t_arr tbl ! i") auto
qed

section \<open>Writing one slot\<close>

lemma chained_set:
  assumes "chained a" and "s < length a" and "e \<noteq> ELEM_FREE"
    and "\<And>h k v. e = ELEM_OCCUPIED h k v \<Longrightarrow>
      \<exists>j. s = probe (length a) (home a h) j \<and> (\<forall>i < j. a ! probe (length a) (home a h) i \<noteq> ELEM_FREE)"
  shows "chained (a[s := e])"
  unfolding chained_def
proof (intro allI impI)
  fix s' h k v
  assume s': "s' < length (a[s := e])" "a[s := e] ! s' = ELEM_OCCUPIED h k v"
  have "\<exists>j. s' = probe (length a) (home a h) j \<and> (\<forall>i < j. a ! probe (length a) (home a h) i \<noteq> ELEM_FREE)"
  proof (cases "s' = s")
    case True
    then show ?thesis using assms(2,4) s' by simp
  next
    case False
    then show ?thesis using assms(1) s' by (simp add: chained_def)
  qed
  then show "\<exists>j. s' = probe (length (a[s := e])) (home (a[s := e]) h) j \<and>
      (\<forall>i < j. a[s := e] ! probe (length (a[s := e])) (home (a[s := e]) h) i \<noteq> ELEM_FREE)"
    using assms(2,3) by (auto simp: nth_list_update)
qed

lemma free_count_keep:
  "s < length a \<Longrightarrow> \<not> is_free (a ! s) \<Longrightarrow> \<not> is_free e \<Longrightarrow> free_count (a[s := e]) = free_count a"
  using free_count_update [of s a e] by simp

text \<open>A change of the array that keeps the elements keeps the invariant and the map.\<close>

lemma table_inv_same_entries:
  assumes inv: "table_inv tbl" and ent: "entries_mset a' = entries_mset (t_arr tbl)"
    and "length a' = length (t_arr tbl)" and "chained a'" and "free_count a' = free_count (t_arr tbl)"
  shows "table_inv (tbl\<lparr>t_arr := a', t_ncollisions := c\<rparr>)"
    and "table_map (tbl\<lparr>t_arr := a', t_ncollisions := c\<rparr>) = table_map tbl"
    and "table_live (tbl\<lparr>t_arr := a', t_ncollisions := c\<rparr>) = table_live tbl"
proof -
  have "card (occ_slots a') = card (occ_slots (t_arr tbl))" using ent by (simp add: card_occ_slots)
  then show "table_inv (tbl\<lparr>t_arr := a', t_ncollisions := c\<rparr>)"
    using inv assms(3-5) keys_distinct_mset [OF ent] memo_ok_mset [OF ent]
    unfolding table_inv_def by (simp add: table_shape_def)
  show "table_map (tbl\<lparr>t_arr := a', t_ncollisions := c\<rparr>) = table_map tbl"
    using entries_same [OF ent] inv by (simp add: table_map_def table_inv_def)
  show "table_live (tbl\<lparr>t_arr := a', t_ncollisions := c\<rparr>) = table_live tbl"
    using assms(5) by (simp add: table_live_free_count)
qed

definition same_frame :: "('k, 'v) dime_table \<Rightarrow> ('k, 'v) dime_table \<Rightarrow> bool" where
  "same_frame tbl tbl' \<longleftrightarrow> t_cmp_f tbl' = t_cmp_f tbl \<and> t_hash_f tbl' = t_hash_f tbl"

lemma dime_table_search_ok:
  assumes inv: "table_inv tbl" and "table_map tbl key \<noteq> None \<or> table_live tbl"
  obtains tbl' where "dime_table_search tbl key = Some (table_map tbl key, tbl')"
    and "table_inv tbl'" and "table_map tbl' = table_map tbl" and "table_live tbl' = table_live tbl"
    and "t_len tbl' = t_len tbl" and "t_cap tbl' = t_cap tbl" and "same_frame tbl tbl'"
proof (cases "table_map tbl key")
  case None
  then have "dime_table_search tbl key = Some (None, tbl)"
    using search_probe_absent [OF inv None] assms(2) by (simp add: dime_table_search_def)
  then show thesis using that inv None by (simp add: same_frame_def)
next
  case (Some v)
  let ?a = "t_arr tbl" and ?first = "bucket (t_cap tbl) (t_hash_f tbl key)"
  note len = key_slot_less [OF inv]
  obtain J h fa where J: "J < t_cap tbl" "avail_ok tbl key J fa"
    "?a ! key_slot tbl key J = ELEM_OCCUPIED h key v" "h = t_hash_f tbl key"
    "\<And>i. i < J \<Longrightarrow> ?a ! key_slot tbl key i \<noteq> ELEM_FREE"
    "dime_table_search_probe (Suc (t_cap tbl)) tbl key ?first 1 None = Some (Some (key_slot tbl key J, fa))"
    by (rule search_probe_present [OF inv Some]) blast
  let ?s = "key_slot tbl key J" and ?e = "ELEM_OCCUPIED h key v"
  show thesis
  proof (cases fa)
    case None
    then show thesis using that [of tbl] J(3,6) inv Some by (simp add: dime_table_search_def same_frame_def)
  next
    case (Some f)
    then obtain i where i: "i < J" "f = key_slot tbl key i" "?a ! f = ELEM_REMOVED"
      using J(2) by (auto simp: avail_ok_def)
    have f: "f < length ?a" "f \<noteq> ?s" and s: "?s < length ?a" using i J(3) len by auto
    let ?a' = "?a[f := ?e, ?s := ELEM_REMOVED]"
    have "chained (?a[f := ?e])"
    proof (rule chained_set)
      fix h' k' v' assume "?e = ELEM_OCCUPIED h' k' v'"
      then have h': "h' = t_hash_f tbl key" using J(4) by (metis table_elem.inject)
      have "f = probe (length ?a) (home ?a h') i" unfolding h' len(2) by (rule i(2))
      moreover have "\<forall>i' < i. ?a ! probe (length ?a) (home ?a h') i' \<noteq> ELEM_FREE"
        unfolding h' len(2) using J(5) i(1) by simp
      ultimately show "\<exists>j. f = probe (length ?a) (home ?a h') j \<and>
          (\<forall>i < j. ?a ! probe (length ?a) (home ?a h') i \<noteq> ELEM_FREE)" by blast
    qed (use inv f(1) in \<open>simp_all add: table_inv_def\<close>)
    then have chain: "chained ?a'" by (rule chained_set) (use s in simp_all)
    have free: "free_count ?a' = free_count ?a"
      using f s i(3) J(3) free_count_keep [of f ?a ?e] free_count_keep [of ?s "?a[f := ?e]" ELEM_REMOVED]
      by simp
    have "add_mset ?e (entries_mset ?a') = entries_mset (?a[f := ?e])"
      using entries_mset_clear [of ?s "?a[f := ?e]" ELEM_REMOVED] s f J(3) by simp
    also have "\<dots> = add_mset ?e (entries_mset ?a)"
      using f i(3) by (intro entries_mset_set) simp_all
    finally have ent: "entries_mset ?a' = entries_mset ?a" by simp
    define c where "c = (if ?first = f then sz_sub (t_ncollisions tbl) 1 else t_ncollisions tbl)"
    have "dime_table_search tbl key = Some (Some v, tbl\<lparr>t_arr := ?a', t_ncollisions := c\<rparr>)"
      using J(3,6) Some by (simp add: dime_table_search_def Let_def c_def)
    then show thesis
      using that [of "tbl\<lparr>t_arr := ?a', t_ncollisions := c\<rparr>"]
        table_inv_same_entries [OF inv ent _ chain free, of c] \<open>table_map tbl key = Some v\<close>
      by (simp add: same_frame_def)
  qed
qed

lemma dime_table_search_r_ok:
  assumes "table_inv tbl" and "table_map tbl key \<noteq> None \<or> table_live tbl"
  shows "dime_table_search_r tbl key = Some (table_map tbl key)"
proof (cases "table_map tbl key")
  case None
  then show ?thesis using search_probe_absent [OF assms(1) None] assms(2)
    by (simp add: dime_table_search_r_def)
next
  case (Some v)
  show ?thesis by (rule search_probe_present [OF assms(1) Some]) (simp add: dime_table_search_r_def Some)
qed

lemma dime_table_remove_ok:
  assumes inv: "table_inv tbl" and "table_map tbl key \<noteq> None \<or> table_live tbl"
  obtains tbl' where "dime_table_remove tbl key = Some (table_map tbl key, tbl')"
    and "table_inv tbl'" and "table_map tbl' = (table_map tbl)(key := None)"
    and "table_live tbl' = table_live tbl"
    and "t_len tbl' = t_len tbl - (if table_map tbl key = None then 0 else 1)"
    and "t_cap tbl' = t_cap tbl" and "same_frame tbl tbl'"
proof (cases "table_map tbl key")
  case None
  then have "dime_table_remove tbl key = Some (None, tbl)"
    using search_probe_absent [OF inv None] assms(2) by (simp add: dime_table_remove_def)
  moreover have "(table_map tbl)(key := None) = table_map tbl" using None by auto
  ultimately show thesis using that [of tbl] inv None by (simp add: same_frame_def)
next
  case (Some v)
  let ?a = "t_arr tbl"
  note len = key_slot_less [OF inv]
  obtain J h fa where J: "J < t_cap tbl" "?a ! key_slot tbl key J = ELEM_OCCUPIED h key v"
    "dime_table_search_probe (Suc (t_cap tbl)) tbl key (bucket (t_cap tbl) (t_hash_f tbl key)) 1 None =
      Some (Some (key_slot tbl key J, fa))"
    by (rule search_probe_present [OF inv Some]) blast
  let ?s = "key_slot tbl key J"
  let ?a' = "?a[?s := ELEM_REMOVED]"
  have s: "?s < length ?a" using len by simp
  have ent: "add_mset (ELEM_OCCUPIED h key v) (entries_mset ?a') = entries_mset ?a"
    using entries_mset_clear [OF s, of ELEM_REMOVED] J(2) by simp
  have kd: "keys_distinct ?a" using inv by (simp add: table_inv_def)
  note del = entries_delete [OF ent kd]
  have chain: "chained ?a'" using inv s by (intro chained_set) (simp_all add: table_inv_def)
  have free: "free_count ?a' = free_count ?a" using free_count_keep [OF s] J(2) by simp
  have card: "Suc (card (occ_slots ?a')) = card (occ_slots ?a)"
    using arg_cong [OF ent, of size] by (simp add: card_occ_slots)
  have memo: "memo_ok (t_hash_f tbl) ?a'"
    using inv s by (auto simp: table_inv_def memo_ok_def dest!: set_update_subset_insert [THEN subsetD])
  have "t_len tbl \<le> t_cap tbl" "t_cap tbl \<le> 2 ^ 42"
    by (rule grow_pre_len [OF table_inv_grow_pre [OF inv]])+
  moreover have "0 < t_len tbl" using inv card by (simp add: table_inv_def)
  ultimately have sub: "sz_sub (t_len tbl) 1 = t_len tbl - 1" by (intro sz_sub_small) simp_all
  let ?t = "tbl\<lparr>t_arr := ?a', t_len := t_len tbl - 1\<rparr>"
  have run: "dime_table_remove tbl key = Some (Some v, ?t)"
    using J(2,3) sub by (simp add: dime_table_remove_def)
  have "table_inv ?t"
    using inv card chain free memo del(1) unfolding table_inv_def by (auto simp: table_shape_def)
  then show thesis
    using that [of ?t] run del(2) Some free
    by (simp add: table_map_def table_live_free_count same_frame_def)
qed

end
