(* ===== verification/Table_Insert.thy ===== *)
theory Table_Insert
  imports Table_Ops
begin

text \<open>
  Insertion into the hash table: the four steps of \<^verbatim>\<open>dime_table_insert\<close> (room, probing,
  collision bookkeeping, free-slot bookkeeping) and their composition.
\<close>

section \<open>Making room\<close>

lemma insert_room_ok:
  assumes inv: "table_inv tbl"
  shows "if t_len tbl = t_cap tbl \<and> \<not> alloc_ok ok (t_cap tbl * 64)
    then dime_table_insert_room ok tbl = Some (False, tbl)
    else \<exists>tbl'. dime_table_insert_room ok tbl = Some (True, tbl') \<and> table_inv tbl' \<and>
      table_map tbl' = table_map tbl \<and> t_len tbl' = t_len tbl \<and> t_len tbl < t_cap tbl' \<and>
      t_cap tbl \<le> t_cap tbl' \<and> same_frame tbl tbl' \<and> (table_live tbl \<longrightarrow> table_live tbl') \<and>
      (alloc_ok ok (t_cap tbl * 64) \<longrightarrow> 2 * t_len tbl \<le> t_cap tbl')"
proof -
  note pre = table_inv_grow_pre [OF inv]
  have le: "t_len tbl \<le> t_cap tbl" by (rule grow_pre_len [OF pre])
  have pos: "0 < t_cap tbl" using inv by (auto simp: table_inv_def table_shape_def)
  note grow = dime_table_grow_ok [OF pre, of ok]
  show ?thesis
  proof (cases "alloc_ok ok (t_cap tbl * 64)")
    case True
    then obtain tbl' where t: "dime_table_grow ok tbl = Some (True, tbl')" "table_inv tbl'" "table_live tbl'"
      "table_map tbl' = table_map tbl" "t_cap tbl' = 2 * t_cap tbl" "t_len tbl' = t_len tbl"
      "same_frame tbl tbl'"
      using grow by (auto simp: same_frame_def)
    have "t_len tbl < t_cap tbl'" "t_cap tbl \<le> t_cap tbl'" "2 * t_len tbl \<le> t_cap tbl'"
      using t(5) le pos by simp_all
    then show ?thesis using True t le inv
      by (auto simp: dime_table_insert_room_def same_frame_def over_load_def)
  next
    case False
    then show ?thesis using grow le inv
      by (auto simp: dime_table_insert_room_def same_frame_def)
  qed
qed

section \<open>Probing for a slot\<close>

lemma insert_probe_walk:
  assumes inv: "table_inv tbl"
    and occ: "\<And>i. i < J \<Longrightarrow> is_occ (t_arr tbl ! key_slot tbl key i)"
    and other: "\<And>i h v. i < J \<Longrightarrow> t_arr tbl ! key_slot tbl key i \<noteq> ELEM_OCCUPIED h key v"
    and J: "J \<le> t_cap tbl"
  shows "j \<le> J \<Longrightarrow>
    dime_table_insert_probe (n + (J - j)) tbl key (key_slot tbl key j) (j + 1) =
    dime_table_insert_probe n tbl key (key_slot tbl key J) (J + 1)"
proof (induction "J - j" arbitrary: j)
  case 0
  then show ?case by simp
next
  case (Suc d)
  then have j: "j < J" and d: "d = J - Suc j" by simp_all
  have steps: "n + (J - j) = Suc (n + (J - Suc j))" using j by simp
  have lt: "j < t_cap tbl" using j J by simp
  obtain h k v where e: "t_arr tbl ! key_slot tbl key j = ELEM_OCCUPIED h k v"
    using occ [OF j] by (auto simp: is_occ_iff)
  then have "t_cmp_f tbl key k \<noteq> 0" using other [OF j] inv by (auto simp: table_inv_def)
  then have "dime_table_insert_probe (n + (J - j)) tbl key (key_slot tbl key j) (j + 1) =
      dime_table_insert_probe (n + (J - Suc j)) tbl key (key_slot tbl key (Suc j)) (Suc j + 1)"
    using e key_slot_next(1) [OF inv lt, of key] key_slot_next(2) [OF inv lt]
    by (simp only: steps dime_table_insert_probe.simps table_elem.case if_False)
  then show ?case using Suc.hyps(1) [OF d] j by simp
qed

lemma insert_probe_walk_start:
  assumes inv: "table_inv tbl"
    and occ: "\<And>i. i < J \<Longrightarrow> is_occ (t_arr tbl ! key_slot tbl key i)"
    and other: "\<And>i h v. i < J \<Longrightarrow> t_arr tbl ! key_slot tbl key i \<noteq> ELEM_OCCUPIED h key v"
    and J: "J < t_cap tbl"
  shows "dime_table_insert_probe (Suc (t_cap tbl)) tbl key (bucket (t_cap tbl) (t_hash_f tbl key)) 1 =
    dime_table_insert_probe (Suc (t_cap tbl - J)) tbl key (key_slot tbl key J) (J + 1)"
proof -
  have "dime_table_insert_probe (Suc (t_cap tbl - J) + (J - 0)) tbl key (key_slot tbl key 0) (0 + 1) =
      dime_table_insert_probe (Suc (t_cap tbl - J)) tbl key (key_slot tbl key J) (J + 1)"
    by (rule insert_probe_walk [OF inv occ other]) (use J in simp_all)
  moreover have "Suc (t_cap tbl - J) + (J - 0) = Suc (t_cap tbl)" using J by simp
  ultimately show ?thesis using key_slot_less(3) [OF inv, of key] by (metis add_0)
qed

lemma insert_probe_absent:
  assumes inv: "table_inv tbl" and "table_map tbl key = None" and "t_len tbl < t_cap tbl"
  obtains J where "J < t_cap tbl" and "\<not> is_occ (t_arr tbl ! key_slot tbl key J)"
    and "\<And>i. i < J \<Longrightarrow> t_arr tbl ! key_slot tbl key i \<noteq> ELEM_FREE"
    and "dime_table_insert_probe (Suc (t_cap tbl)) tbl key (bucket (t_cap tbl) (t_hash_f tbl key)) 1 =
      Some (Inr (key_slot tbl key J, J + 1))"
proof -
  let ?a = "t_arr tbl"
  note len = key_slot_less [OF inv]
  have "\<exists>s < t_cap tbl. \<not> is_occ (?a ! s)"
  proof (rule ccontr)
    assume "\<not> ?thesis"
    then have "occ_slots ?a = {..<t_cap tbl}" using len(2) by (auto simp: occ_slots_def)
    then show False using assms(3) inv by (simp add: table_inv_def)
  qed
  then obtain s where s: "s < t_cap tbl" "\<not> is_occ (?a ! s)" by blast
  obtain J where J: "J < t_cap tbl" "\<not> is_occ (?a ! key_slot tbl key J)"
    "\<And>i. i < J \<Longrightarrow> is_occ (?a ! key_slot tbl key i)"
    by (rule first_position [OF inv s(1), of "\<lambda>x. \<not> is_occ (?a ! x)"]) (use s in auto)
  have other: "\<And>i h v. i < J \<Longrightarrow> ?a ! key_slot tbl key i \<noteq> ELEM_OCCUPIED h key v"
    using absent_slot [OF inv assms(2)] by blast
  have "dime_table_insert_probe (Suc (t_cap tbl)) tbl key (bucket (t_cap tbl) (t_hash_f tbl key)) 1 =
      dime_table_insert_probe (Suc (t_cap tbl - J)) tbl key (key_slot tbl key J) (J + 1)"
    by (rule insert_probe_walk_start [OF inv J(3) other J(1)])
  also have "\<dots> = Some (Inr (key_slot tbl key J, J + 1))"
    using J(2) by (cases "?a ! key_slot tbl key J") simp_all
  finally show thesis using that [OF J(1,2)] J(3) by (metis is_occ.simps(2))
qed

text \<open>
  A key that is in the table: the loop finds it unless a removed slot comes first.
\<close>

lemma insert_probe_present:
  assumes inv: "table_inv tbl" and "table_map tbl key = Some v" and "ELEM_REMOVED \<notin> set (t_arr tbl)"
  shows "dime_table_insert_probe (Suc (t_cap tbl)) tbl key (bucket (t_cap tbl) (t_hash_f tbl key)) 1 =
    Some (Inl ())"
proof -
  note len = key_slot_less [OF inv]
  obtain J h where J: "J < t_cap tbl" "t_arr tbl ! key_slot tbl key J = ELEM_OCCUPIED h key v"
    "\<And>i. i < J \<Longrightarrow> t_arr tbl ! key_slot tbl key i \<noteq> ELEM_FREE"
    "\<And>i h' v'. i < J \<Longrightarrow> t_arr tbl ! key_slot tbl key i \<noteq> ELEM_OCCUPIED h' key v'"
    by (rule present_position [OF inv assms(2)]) blast
  have occ: "is_occ (t_arr tbl ! key_slot tbl key i)" if "i < J" for i
  proof -
    have "t_arr tbl ! key_slot tbl key i \<noteq> ELEM_REMOVED"
      using assms(3) len(1) [of key i] len(2) by (metis nth_mem)
    then show ?thesis using J(3) [OF that] by (cases "t_arr tbl ! key_slot tbl key i") simp_all
  qed
  have "t_cmp_f tbl key key = 0" using inv by (simp add: table_inv_def)
  then show ?thesis using insert_probe_walk_start [OF inv occ J(4,1)] J(2) by simp
qed

section \<open>Closing the insertion\<close>

lemma insert_free_ok:
  assumes pre: "grow_pre tbl" and chain: "chained (t_arr tbl)"
    and yes: "prev_free \<Longrightarrow> 1 \<le> t_nfree tbl \<and>
      (t_nfree tbl = Suc (free_count (t_arr tbl)) \<or> t_nfree tbl = free_count (t_arr tbl))"
    and no: "\<not> prev_free \<Longrightarrow> nfree_ok (t_cap tbl) (t_nfree tbl) (free_count (t_arr tbl))"
  shows "\<exists>tbl'. dime_table_insert_free tbl prev_free = Some tbl' \<and> table_inv tbl' \<and>
    table_map tbl' = map_of (table_entries (t_arr tbl)) \<and> t_len tbl' = t_len tbl \<and>
    t_cap tbl' = t_cap tbl \<and> same_frame tbl tbl' \<and>
    (prev_free \<and> t_len tbl < t_cap tbl \<longrightarrow> table_live tbl') \<and>
    (\<not> prev_free \<longrightarrow> table_live tbl' = table_live tbl)"
proof -
  obtain b where b: "5 \<le> b" "table_shape b tbl" using pre by (auto simp: grow_pre_def)
  have le: "t_len tbl \<le> t_cap tbl" "t_cap tbl \<le> 2 ^ 42" by (rule grow_pre_len [OF pre])+
  have "(2 :: nat) ^ 5 \<le> 2 ^ b" using b(1) by (intro power_increasing) simp_all
  then have cap: "32 \<le> t_cap tbl" using b(2) by (simp add: table_shape_def)
  show ?thesis
  proof (cases prev_free)
    case False
    have "table_inv tbl" using pre chain no [OF False] by (auto simp: grow_pre_def table_inv_def)
    then show ?thesis using False
      by (simp add: dime_table_insert_free_def table_map_def same_frame_def)
  next
    case True
    have "free_count (t_arr tbl) \<le> t_cap tbl"
      using b(2) by (simp add: free_count_def table_shape_def) (metis length_filter_le)
    then have "t_nfree tbl < 2 ^ 64" using yes [OF True] le(2) by auto
    then have sub: "sz_sub (t_nfree tbl) 1 = t_nfree tbl - 1"
      using yes [OF True] by (intro sz_sub_small) simp_all
    have sub2: "sz_sub (t_cap tbl) (t_len tbl) = t_cap tbl - t_len tbl"
      using le by (intro sz_sub_small) simp_all
    let ?n = "t_nfree tbl - 1"
    show ?thesis
    proof (cases "under_free ?n (t_cap tbl)")
      case under: True
      let ?t = "tbl\<lparr>t_nfree := t_cap tbl - t_len tbl\<rparr>"
      have shape: "table_shape b ?t" using b(2) by (simp add: table_shape_def)
      have all: "\<forall>i \<in> set [0..<t_cap tbl]. i < 2 ^ b" using b(2) by (simp add: table_shape_def)
      have rest: "\<forall>s < 2 ^ b. s \<notin> set [0..<t_cap tbl] \<longrightarrow> t_arr ?t ! s = ELEM_FREE"
        using b(2) by (simp add: table_shape_def)
      obtain a' c' where run: "dime_table_relocate_all ?t [0..<t_cap tbl] =
            Some (?t\<lparr>t_arr := a', t_ncollisions := c'\<rparr>)"
        and a': "length a' = length (t_arr ?t)" "entries_mset a' = entries_mset (t_arr ?t)" "tidy a'"
        by (rule relocate_all_tidy [OF shape all rest])
      let ?t' = "?t\<lparr>t_arr := a', t_ncollisions := c'\<rparr>"
      have shape': "table_shape b ?t'" using shape a'(1) by (simp add: table_shape_def)
      have run': "dime_table_insert_free tbl prev_free = Some ?t'"
        using True under run sub sub2 by (simp add: dime_table_insert_free_def Let_def)
      have "table_inv ?t'" "table_map ?t' = map_of (table_entries (t_arr tbl))"
        "table_live ?t' \<longleftrightarrow> t_len ?t' < t_cap ?t'"
        using table_inv_tidy [of b ?t' "t_arr tbl", OF b(1) shape'] pre a'
        by (simp_all add: grow_pre_def nfree_ok_def)
      then show ?thesis using True run' by (simp add: same_frame_def)
    next
      case False
      then have half: "t_cap tbl \<le> 2 * ?n" by (simp add: under_free_def)
      let ?t' = "tbl\<lparr>t_nfree := ?n\<rparr>"
      have run': "dime_table_insert_free tbl prev_free = Some ?t'"
        using True False sub by (simp add: dime_table_insert_free_def Let_def)
      have nf: "nfree_ok (t_cap tbl) ?n (free_count (t_arr tbl))"
        using yes [OF True] half by (auto simp: nfree_ok_def)
      have "table_inv ?t'"
        using pre chain nf unfolding grow_pre_def table_inv_def by (auto simp: table_shape_def)
      moreover have "0 < free_count (t_arr tbl)" using yes [OF True] half cap by linarith
      ultimately show ?thesis using True run'
        by (simp add: table_map_def same_frame_def table_live_free_count)
    qed
  qed
qed

lemma insert_collision_ok:
  assumes pre: "grow_pre tbl"
  shows "(\<exists>c. dime_table_insert_collision ok tbl k = Some (tbl\<lparr>t_ncollisions := c\<rparr>)) \<or>
    (\<exists>tbl'. dime_table_insert_collision ok tbl k = Some tbl' \<and> table_inv tbl' \<and> table_live tbl' \<and>
      table_map tbl' = table_map tbl \<and> t_cap tbl' = 2 * t_cap tbl \<and> t_len tbl' = t_len tbl \<and>
      same_frame tbl tbl' \<and> t_nfree tbl' = t_cap tbl' - t_len tbl \<and> tidy (t_arr tbl'))"
proof -
  let ?t = "tbl\<lparr>t_ncollisions := sz_add (t_ncollisions tbl) 1\<rparr>"
  have pre': "grow_pre ?t" using pre by (simp add: grow_pre_def table_shape_def)
  have same: "tbl = tbl\<lparr>t_ncollisions := t_ncollisions tbl\<rparr>" by simp
  note grow = dime_table_grow_ok [OF pre', of ok]
  show ?thesis
  proof (cases "k > 1 \<and> over_collisions (t_ncollisions ?t) (t_len tbl) \<and> alloc_ok ok (t_cap tbl * 64)")
    case True
    then show ?thesis using grow
      by (intro disjI2) (auto simp: dime_table_insert_collision_def Let_def same_frame_def table_map_def)
  next
    case False
    then have "dime_table_insert_collision ok tbl k = Some tbl \<or>
        dime_table_insert_collision ok tbl k = Some ?t"
      using grow by (auto simp: dime_table_insert_collision_def Let_def)
    then show ?thesis using same by metis
  qed
qed

section \<open>Insertion\<close>

lemma insert_place:
  fixes val :: 'v
  assumes inv: "table_inv tbl" and absent: "table_map tbl key = None" and room: "t_len tbl < t_cap tbl"
    and J: "J < t_cap tbl" "\<not> is_occ (t_arr tbl ! key_slot tbl key J)"
    and before: "\<forall>i < J. t_arr tbl ! key_slot tbl key i \<noteq> ELEM_FREE"
  defines "s \<equiv> key_slot tbl key J"
  defines "a' \<equiv> (t_arr tbl)[s := ELEM_OCCUPIED (t_hash_f tbl key) key val]"
  defines "tbl' \<equiv> tbl\<lparr>t_arr := a', t_len := t_len tbl + 1\<rparr>"
  shows "grow_pre tbl'" and "chained a'" and "map_of (table_entries a') = (table_map tbl)(key \<mapsto> val)"
    and "free_count a' + (if is_free (t_arr tbl ! s) then 1 else 0) = free_count (t_arr tbl)"
proof -
  let ?a = "t_arr tbl" and ?e = "ELEM_OCCUPIED (t_hash_f tbl key) key val"
  note len = key_slot_less [OF inv]
  have s: "s < length ?a" using len by (simp add: s_def)
  have ent: "entries_mset a' = add_mset ?e (entries_mset ?a)"
    unfolding a'_def using s J(2) by (intro entries_mset_set) (simp_all add: s_def)
  have kd: "keys_distinct ?a" using inv by (simp add: table_inv_def)
  note ins = entries_insert [OF ent kd absent [unfolded table_map_def]]
  show "map_of (table_entries a') = (table_map tbl)(key \<mapsto> val)" using ins(2) by (simp add: table_map_def)
  have card: "card (occ_slots a') = Suc (card (occ_slots ?a))" using ent by (simp add: card_occ_slots)
  have memo: "memo_ok (t_hash_f tbl) a'"
    using inv s by (auto simp: a'_def table_inv_def memo_ok_def dest!: set_update_subset_insert [THEN subsetD])
  show "grow_pre tbl'"
    using inv card memo ins(1) unfolding table_inv_def grow_pre_def
    by (auto simp: tbl'_def table_shape_def a'_def)
  show "chained a'"
    unfolding a'_def
  proof (rule chained_set)
    fix h k v assume "?e = ELEM_OCCUPIED h k v"
    then have h: "h = t_hash_f tbl key" by (metis table_elem.inject)
    show "\<exists>j. s = probe (length ?a) (home ?a h) j \<and> (\<forall>i < j. ?a ! probe (length ?a) (home ?a h) i \<noteq> ELEM_FREE)"
      unfolding h len(2) s_def using before by blast
  qed (use inv s in \<open>simp_all add: table_inv_def\<close>)
  show "free_count a' + (if is_free (?a ! s) then 1 else 0) = free_count ?a"
    using free_count_update [OF s, of ?e] by (simp add: a'_def)
qed

lemma dime_table_insert_ok:
  assumes inv: "table_inv tbl" and absent: "table_map tbl key = None"
  shows "if t_len tbl = t_cap tbl \<and> \<not> alloc_ok (ok 0) (t_cap tbl * 64)
    then dime_table_insert ok tbl key val = Some (-1, tbl)
    else \<exists>tbl'. dime_table_insert ok tbl key val = Some (0, tbl') \<and> table_inv tbl' \<and>
      table_map tbl' = (table_map tbl)(key \<mapsto> val) \<and> t_len tbl' = t_len tbl + 1 \<and>
      t_cap tbl \<le> t_cap tbl' \<and> same_frame tbl tbl' \<and>
      (table_live tbl \<and> t_len tbl' < t_cap tbl' \<longrightarrow> table_live tbl') \<and>
      (alloc_ok (ok 0) (t_cap tbl * 64) \<longrightarrow> 2 * t_len tbl \<le> t_cap tbl')"
proof (cases "t_len tbl = t_cap tbl \<and> \<not> alloc_ok (ok 0) (t_cap tbl * 64)")
  case True
  then show ?thesis using insert_room_ok [OF inv, of "ok 0"] by (simp add: dime_table_insert_def)
next
  case False
  then obtain tbl1 where t1: "dime_table_insert_room (ok 0) tbl = Some (True, tbl1)" "table_inv tbl1"
    "table_map tbl1 = table_map tbl" "t_len tbl1 = t_len tbl" "t_len tbl < t_cap tbl1"
    "t_cap tbl \<le> t_cap tbl1" "same_frame tbl tbl1" "table_live tbl \<longrightarrow> table_live tbl1"
    "alloc_ok (ok 0) (t_cap tbl * 64) \<longrightarrow> 2 * t_len tbl \<le> t_cap tbl1"
    using insert_room_ok [OF inv, of "ok 0"] by auto
  have absent1: "table_map tbl1 key = None" and room1: "t_len tbl1 < t_cap tbl1" using t1 absent by simp_all
  obtain J where J: "J < t_cap tbl1" "\<not> is_occ (t_arr tbl1 ! key_slot tbl1 key J)"
    "\<And>i. i < J \<Longrightarrow> t_arr tbl1 ! key_slot tbl1 key i \<noteq> ELEM_FREE"
    "dime_table_insert_probe (Suc (t_cap tbl1)) tbl1 key (bucket (t_cap tbl1) (t_hash_f tbl1 key)) 1 =
      Some (Inr (key_slot tbl1 key J, J + 1))"
    by (rule insert_probe_absent [OF t1(2) absent1 room1]) blast
  define s where "s = key_slot tbl1 key J"
  define pf where "pf = is_free (t_arr tbl1 ! s)"
  define a' where "a' = (t_arr tbl1)[s := ELEM_OCCUPIED (t_hash_f tbl1 key) key val]"
  define tbl2 where "tbl2 = tbl1\<lparr>t_arr := a', t_len := t_len tbl1 + 1\<rparr>"
  have before1: "\<forall>i < J. t_arr tbl1 ! key_slot tbl1 key i \<noteq> ELEM_FREE" using J(3) by blast
  note place = insert_place [OF t1(2) absent1 room1 J(1,2) before1, of val, folded s_def, folded a'_def pf_def, folded tbl2_def]
  have cap1: "t_cap tbl1 \<le> 2 ^ 42" by (rule grow_pre_len [OF table_inv_grow_pre [OF t1(2)]])
  have "t_len tbl1 + 1 < 2 ^ 64" using room1 cap1 by simp
  then have add: "sz_add (t_len tbl1) 1 = t_len tbl1 + 1" by (rule sz_add_small)
  have step: "dime_table_insert ok tbl key val =
      (case dime_table_insert_collision (ok 1) tbl2 (J + 1) of
         None \<Rightarrow> None | Some tbl \<Rightarrow> map_option (Pair 0) (dime_table_insert_free tbl pf))"
    unfolding dime_table_insert_def tbl2_def a'_def pf_def s_def using t1(1) J(4) add
    by (simp add: Let_def del: dime_table_insert_probe.simps)
  have nf: "nfree_ok (t_cap tbl1) (t_nfree tbl1) (free_count (t_arr tbl1))" and cap32: "32 \<le> t_cap tbl1"
  proof -
    show "nfree_ok (t_cap tbl1) (t_nfree tbl1) (free_count (t_arr tbl1))" using t1(2) by (simp add: table_inv_def)
    obtain b where "5 \<le> b" "table_shape b tbl1" by (rule table_invE [OF t1(2)])
    moreover have "(2 :: nat) ^ 5 \<le> 2 ^ b" using \<open>5 \<le> b\<close> by (intro power_increasing) simp_all
    ultimately show "32 \<le> t_cap tbl1" by (simp add: table_shape_def)
  qed
  have "\<exists>tbl'. dime_table_insert ok tbl key val = Some (0, tbl') \<and> table_inv tbl' \<and>
      table_map tbl' = (table_map tbl)(key \<mapsto> val) \<and> t_len tbl' = t_len tbl + 1 \<and>
      t_cap tbl \<le> t_cap tbl' \<and> same_frame tbl tbl' \<and>
      (table_live tbl \<and> t_len tbl' < t_cap tbl' \<longrightarrow> table_live tbl') \<and>
      (alloc_ok (ok 0) (t_cap tbl * 64) \<longrightarrow> 2 * t_len tbl \<le> t_cap tbl')"
    using insert_collision_ok [OF place(1), of "ok 1" "J + 1"]
  proof (elim disjE exE conjE)
    fix c assume col: "dime_table_insert_collision (ok 1) tbl2 (J + 1) = Some (tbl2\<lparr>t_ncollisions := c\<rparr>)"
    let ?t = "tbl2\<lparr>t_ncollisions := c\<rparr>"
    have pre3: "grow_pre ?t" using place(1) by (simp add: grow_pre_def table_shape_def)
    have chain3: "chained (t_arr ?t)" using place(2) by (simp add: tbl2_def)
    have yes: "1 \<le> t_nfree ?t \<and> (t_nfree ?t = Suc (free_count (t_arr ?t)) \<or> t_nfree ?t = free_count (t_arr ?t))"
      if pf using that nf place(4) cap32 by (auto simp: tbl2_def nfree_ok_def)
    have no: "nfree_ok (t_cap ?t) (t_nfree ?t) (free_count (t_arr ?t))" if "\<not> pf"
      using that nf place(4) by (simp add: tbl2_def)
    have live: "\<not> pf \<Longrightarrow> table_live tbl1 \<Longrightarrow> table_live ?t"
      using place(4) by (simp add: tbl2_def table_live_free_count)
    obtain tbl' where "dime_table_insert_free ?t pf = Some tbl'" "table_inv tbl'"
      "table_map tbl' = map_of (table_entries a')" "t_len tbl' = t_len tbl + 1" "t_cap tbl' = t_cap tbl1"
      "same_frame tbl1 tbl'" "pf \<and> t_len tbl' < t_cap tbl' \<longrightarrow> table_live tbl'"
      "\<not> pf \<longrightarrow> table_live tbl' = table_live ?t"
      using insert_free_ok [OF pre3 chain3 yes no] t1(4) by (auto simp: tbl2_def same_frame_def)
    then show ?thesis
      using step col place(3) t1 live by (cases pf) (auto simp: same_frame_def)
  next
    fix tbl3
    assume col: "dime_table_insert_collision (ok 1) tbl2 (J + 1) = Some tbl3"
      and inv3: "table_inv tbl3" "table_live tbl3" "table_map tbl3 = table_map tbl2"
        "t_cap tbl3 = 2 * t_cap tbl2" "t_len tbl3 = t_len tbl2" "same_frame tbl2 tbl3"
        "t_nfree tbl3 = t_cap tbl3 - t_len tbl2" "tidy (t_arr tbl3)"
    have "free_count (t_arr tbl3) + card (occ_slots (t_arr tbl3)) = t_cap tbl3"
      using tidy_free_count [OF inv3(8)] key_slot_less(2) [OF inv3(1)] by simp
    then have free3: "t_nfree tbl3 = free_count (t_arr tbl3)"
      using inv3(1,5,7) by (simp add: table_inv_def)
    have pos: "1 \<le> t_nfree tbl3" using inv3(4,7) room1 cap32 by (simp add: tbl2_def)
    have chain3: "chained (t_arr tbl3)" using inv3(1) by (simp add: table_inv_def)
    have nf3: "nfree_ok (t_cap tbl3) (t_nfree tbl3) (free_count (t_arr tbl3))" using free3 by (simp add: nfree_ok_def)
    obtain tbl' where "dime_table_insert_free tbl3 pf = Some tbl'" "table_inv tbl'"
      "table_map tbl' = table_map tbl3" "t_len tbl' = t_len tbl + 1" "t_cap tbl' = t_cap tbl3"
      "same_frame tbl3 tbl'" "pf \<and> t_len tbl' < t_cap tbl' \<longrightarrow> table_live tbl'"
      "\<not> pf \<longrightarrow> table_live tbl' = table_live tbl3"
      using insert_free_ok [OF table_inv_grow_pre [OF inv3(1)] chain3, of pf] free3 pos nf3 t1(4) inv3(5)
      by (auto simp: tbl2_def same_frame_def table_map_def)
    then show ?thesis
      using step col place(3) t1 inv3 by (cases pf) (auto simp: same_frame_def tbl2_def table_map_def)
  qed
  then show ?thesis by (subst if_not_P [OF False])
qed

end
