(* ===== verification/Table_Map.thy ===== *)
theory Table_Map
  imports Table_Insert Interfaces
begin

text \<open>
  The hash table as a finite map: iteration, the \<open>finite_table\<close> interface, and the properties
  of the table of \<^verbatim>\<open>server/table.c\<close> that its users rely on.
\<close>

section \<open>Iteration\<close>

lemma iter_skip_ok:
  assumes inv: "table_inv tbl"
  shows "sz_add i 1 = p \<Longrightarrow> p \<le> t_cap tbl \<Longrightarrow> t_cap tbl - p < n \<Longrightarrow>
    \<exists>q. dime_table_iter_skip n tbl i = Some q \<and> q \<le> t_cap tbl \<and>
      filter is_occ (drop p (t_arr tbl)) =
        (if q < t_cap tbl then t_arr tbl ! q # filter is_occ (drop (Suc q) (t_arr tbl)) else []) \<and>
      p \<le> q"
proof (induction n arbitrary: i p)
  case 0
  then show ?case by simp
next
  case (Suc n)
  have len: "length (t_arr tbl) = t_cap tbl" by (rule key_slot_less(2) [OF inv])
  show ?case
  proof (cases "p < t_cap tbl")
    case False
    then show ?thesis using Suc.prems len by simp
  next
    case p: True
    then have drop: "drop p (t_arr tbl) = t_arr tbl ! p # drop (Suc p) (t_arr tbl)"
      using len by (simp add: Cons_nth_drop_Suc)
    show ?thesis
    proof (cases "is_occ (t_arr tbl ! p)")
      case True
      then show ?thesis using Suc.prems p drop by simp
    next
      case False
      have "t_cap tbl \<le> 2 ^ 42" by (rule grow_pre_len [OF table_inv_grow_pre [OF inv]])
      then have "p + 1 < 2 ^ 64" using p by simp
      then have "sz_add p 1 = Suc p" by (simp add: sz_add_small)
      moreover have "t_cap tbl - Suc p < n" "Suc p \<le> t_cap tbl" using Suc.prems(3) p by linarith+
      ultimately obtain q where "dime_table_iter_skip n tbl p = Some q" "q \<le> t_cap tbl"
        "filter is_occ (drop (Suc p) (t_arr tbl)) =
          (if q < t_cap tbl then t_arr tbl ! q # filter is_occ (drop (Suc q) (t_arr tbl)) else [])"
        "Suc p \<le> q"
        using Suc.IH [of p "Suc p"] by blast
      then show ?thesis using Suc.prems p drop False by (auto simp: Let_def)
    qed
  qed
qed

lemma iter_run_from:
  assumes inv: "table_inv tbl"
  shows "sz_add i 1 = p \<Longrightarrow> p \<le> t_cap tbl \<Longrightarrow> t_cap tbl - p < n \<Longrightarrow>
    dime_table_iter_run n tbl i = Some (map elem_pair (filter is_occ (drop p (t_arr tbl))))"
proof (induction n arbitrary: i p)
  case 0
  then show ?case by simp
next
  case (Suc n)
  have "t_cap tbl - p < Suc (t_cap tbl)" by simp
  then obtain q where q: "dime_table_iter_skip (Suc (t_cap tbl)) tbl i = Some q" "q \<le> t_cap tbl"
    "filter is_occ (drop p (t_arr tbl)) =
      (if q < t_cap tbl then t_arr tbl ! q # filter is_occ (drop (Suc q) (t_arr tbl)) else [])" "p \<le> q"
    using iter_skip_ok [OF inv Suc.prems(1,2), of "Suc (t_cap tbl)"] by blast
  show ?case
  proof (cases "q < t_cap tbl")
    case False
    then show ?thesis using q by (simp add: dime_table_iter_next_def del: dime_table_iter_skip.simps)
  next
    case True
    have "t_cap tbl \<le> 2 ^ 42" by (rule grow_pre_len [OF table_inv_grow_pre [OF inv]])
    then have "q + 1 < 2 ^ 64" using True by simp
    then have "sz_add q 1 = Suc q" by (simp add: sz_add_small)
    then have "dime_table_iter_run n tbl q = Some (map elem_pair (filter is_occ (drop (Suc q) (t_arr tbl))))"
      using True q(4) Suc.prems(3) by (intro Suc.IH) simp_all
    then show ?thesis using q True
      by (simp add: dime_table_iter_next_def elem_pair_def del: dime_table_iter_skip.simps)
  qed
qed

lemma iter_run_all:
  assumes "table_inv tbl"
  shows "dime_table_iter_run (Suc (t_cap tbl)) tbl dime_table_iter_init = Some (table_entries (t_arr tbl))"
proof -
  have "sz_add dime_table_iter_init 1 = 0" unfolding dime_table_iter_init_def by (rule sz_add_SIZE_MAX_one)
  then show ?thesis using iter_run_from [OF assms, of dime_table_iter_init 0 "Suc (t_cap tbl)"]
    by (simp add: table_entries_def del: dime_table_iter_run.simps)
qed

lemma apply_from_entries:
  "dime_table_apply_from a f s = fold_until (\<lambda>(k, v). f k v) (table_entries a) s"
proof (induction a arbitrary: s)
  case Nil
  then show ?case by (simp add: table_entries_def)
next
  case (Cons e a)
  then show ?case by (cases e) (simp_all add: table_entries_def elem_pair_def split: prod.split bool.split)
qed

section \<open>The interface\<close>

definition table_roomy :: "('k, 'v) dime_table \<Rightarrow> bool" where
  "table_roomy tbl \<longleftrightarrow> t_cap tbl * 64 \<le> ALLOC_MAX"

lemma insert_roomy_live:
  assumes inv: "table_inv tbl" and "table_map tbl key = None" and "table_live tbl" and "table_roomy tbl"
    and "ok 0" and ins: "dime_table_insert ok tbl key val = Some (rc, tbl')"
  shows "rc = 0 \<and> table_live tbl'"
proof -
  have "alloc_ok (ok 0) (t_cap tbl * 64)" using assms(4,5) by (simp add: alloc_ok_def table_roomy_def)
  then have r: "rc = 0" "table_inv tbl'" "t_len tbl' = t_len tbl + 1" "2 * t_len tbl \<le> t_cap tbl'"
    "t_len tbl' < t_cap tbl' \<longrightarrow> table_live tbl'"
    using dime_table_insert_ok [OF inv assms(2), of ok val] ins assms(3) by auto
  obtain b where "5 \<le> b" "table_shape b tbl'" by (rule table_invE [OF r(2)])
  moreover have "(2 :: nat) ^ 5 \<le> 2 ^ b" using \<open>5 \<le> b\<close> by (intro power_increasing) simp_all
  ultimately have "32 \<le> t_cap tbl'" by (simp add: table_shape_def)
  then show ?thesis using r by auto
qed

interpretation tb: finite_table table_inv table_live table_roomy table_map
  dime_table_insert dime_table_search dime_table_remove
proof unfold_locales
  fix t :: "('k, 'v) dime_table" and k v ok
  assume "table_inv t" and "table_map t k = None"
  then show "\<exists>rc t'. dime_table_insert ok t k v = Some (rc, t') \<and> table_inv t' \<and>
      (rc = 0 \<and> table_map t' = (table_map t)(k \<mapsto> v) \<or> rc = -1 \<and> t' = t)"
    using dime_table_insert_ok [of t k ok v] by (auto split: if_splits)
next
  fix t t' :: "('k, 'v) dime_table" and k v ok rc
  assume "table_inv t" "table_map t k = None" "table_live t" "table_roomy t" "ok 0"
    "dime_table_insert ok t k v = Some (rc, t')"
  then show "rc = 0 \<and> table_live t'" by (rule insert_roomy_live)
next
  fix t :: "('k, 'v) dime_table" and k
  assume "table_inv t" and "table_map t k \<noteq> None \<or> table_live t"
  then show "\<exists>t'. dime_table_search t k = Some (table_map t k, t') \<and> table_inv t' \<and>
      table_map t' = table_map t \<and> table_live t' = table_live t"
    by (rule dime_table_search_ok) blast
next
  fix t :: "('k, 'v) dime_table" and k
  assume "table_inv t" and "table_map t k \<noteq> None \<or> table_live t"
  then show "\<exists>t'. dime_table_remove t k = Some (table_map t k, t') \<and> table_inv t' \<and>
      table_map t' = (table_map t)(k := None) \<and> table_live t' = table_live t"
    by (rule dime_table_remove_ok) blast
qed

section \<open>Properties\<close>

text \<open>A table for the witnesses: 32 free slots, integer keys, every key in bucket 0.\<close>

definition demo_table :: "(int, nat) dime_table" where
  "demo_table = the (dime_table_init True (\<lambda>x y. x - y) (\<lambda>_. 0))"

lemma demo_table_init: "dime_table_init True (\<lambda>x y :: int. x - y) (\<lambda>_. 0) = Some demo_table"
  by (simp add: demo_table_def dime_table_init_def alloc_ok_def ALLOC_MAX_def ELEM_SIZE_def sz_mul_def)

lemma demo_table_ok:
  "table_inv demo_table" "table_live demo_table" "table_map demo_table = Map.empty"
  "t_cap demo_table = 32" "t_len demo_table = 0"
  using dime_table_init_ok [OF _ demo_table_init] by simp_all

text \<open>
  C25. Insertion of a new key: \<^verbatim>\<open>dime_table_insert\<close> returns 0 and the table then maps the key to the
  value and every other key as before, with one more element and the invariant restored,
  whichever slots the growth, the collision growth and the in-place rehash moved elements to;
  it returns -1, with the table unchanged, only when every slot is taken and the allocator
  refuses to grow it.  It always ends.
\<close>

theorem table_insert_spec:
  assumes "table_inv tbl" and "table_map tbl key = None"
  shows "if t_len tbl = t_cap tbl \<and> \<not> alloc_ok (ok 0) (t_cap tbl * 64)
    then dime_table_insert ok tbl key val = Some (-1, tbl)
    else \<exists>tbl'. dime_table_insert ok tbl key val = Some (0, tbl') \<and> table_inv tbl' \<and>
      table_map tbl' = (table_map tbl)(key \<mapsto> val) \<and> dime_table_len tbl' = dime_table_len tbl + 1"
  using dime_table_insert_ok [OF assms, of ok val] by (auto simp: dime_table_len_def split: if_splits)

theorem table_insert_spec_witness:
  "\<exists>tbl'. dime_table_insert (\<lambda>_. False) demo_table 7 3 = Some (0, tbl') \<and> table_inv tbl' \<and>
     table_map tbl' = [7 \<mapsto> 3] \<and> dime_table_len tbl' = 1"
  using table_insert_spec [OF demo_table_ok(1), of 7 "\<lambda>_. False" 3] demo_table_ok
  by (simp add: dime_table_len_def)

text \<open>
  C26. Search and removal: when the key is present, or some slot is free, both end;
  \<^verbatim>\<open>dime_table_search\<close> returns the value of the key or NULL and, although it may move the element
  to a removed slot, represents the same map; \<^verbatim>\<open>dime_table_search_r\<close> returns the same without
  writing; \<^verbatim>\<open>dime_table_remove\<close> returns the value and takes exactly that key out of the map.
\<close>

theorem table_search_remove_spec:
  assumes "table_inv tbl" and "table_map tbl key \<noteq> None \<or> table_live tbl"
  shows "(\<exists>tbl'. dime_table_search tbl key = Some (table_map tbl key, tbl') \<and> table_inv tbl' \<and>
      table_map tbl' = table_map tbl \<and> dime_table_len tbl' = dime_table_len tbl) \<and>
    dime_table_search_r tbl key = Some (table_map tbl key) \<and>
    (\<exists>tbl'. dime_table_remove tbl key = Some (table_map tbl key, tbl') \<and> table_inv tbl' \<and>
      table_map tbl' = (table_map tbl)(key := None) \<and>
      dime_table_len tbl' = dime_table_len tbl - (if table_map tbl key = None then 0 else 1))"
proof (intro conjI)
  show "\<exists>tbl'. dime_table_search tbl key = Some (table_map tbl key, tbl') \<and> table_inv tbl' \<and>
      table_map tbl' = table_map tbl \<and> dime_table_len tbl' = dime_table_len tbl"
    by (rule dime_table_search_ok [OF assms]) (auto simp: dime_table_len_def)
  show "dime_table_search_r tbl key = Some (table_map tbl key)" by (rule dime_table_search_r_ok [OF assms])
  show "\<exists>tbl'. dime_table_remove tbl key = Some (table_map tbl key, tbl') \<and> table_inv tbl' \<and>
      table_map tbl' = (table_map tbl)(key := None) \<and>
      dime_table_len tbl' = dime_table_len tbl - (if table_map tbl key = None then 0 else 1)"
    by (rule dime_table_remove_ok [OF assms]) (auto simp: dime_table_len_def)
qed

theorem table_search_remove_spec_witness:
  "dime_table_search_r demo_table 5 = Some None \<and>
   (\<exists>tbl'. dime_table_remove demo_table 5 = Some (None, tbl') \<and> table_map tbl' = Map.empty)"
  using table_search_remove_spec [OF demo_table_ok(1), of 5] demo_table_ok by auto

text \<open>
  C24. The in-place rehash: \<^verbatim>\<open>dime_table_grow\<close> ends whatever chains of evictions the recursive
  relocation goes through, doubles the capacity, keeps exactly the same elements, and leaves a
  table whose slots are all either free or in the first place of their probe sequence that the
  elements before them leave open; if \<^verbatim>\<open>realloc\<close> fails it returns 0 and changes nothing.
\<close>

theorem table_grow_spec:
  assumes "table_inv tbl"
  shows "if alloc_ok ok (t_cap tbl * 64)
    then \<exists>tbl'. dime_table_grow ok tbl = Some (True, tbl') \<and> t_cap tbl' = 2 * t_cap tbl \<and>
      table_inv tbl' \<and> table_map tbl' = table_map tbl \<and> t_len tbl' = t_len tbl \<and>
      (\<forall>s < t_cap tbl'. t_arr tbl' ! s = ELEM_FREE \<or> settled (t_arr tbl') s)
    else dime_table_grow ok tbl = Some (False, tbl)"
proof (cases "alloc_ok ok (t_cap tbl * 64)")
  case True
  then obtain tbl' where t: "dime_table_grow ok tbl = Some (True, tbl')" "table_inv tbl'"
    "table_map tbl' = table_map tbl" "t_cap tbl' = 2 * t_cap tbl" "t_len tbl' = t_len tbl" "tidy (t_arr tbl')"
    using dime_table_grow_ok [OF table_inv_grow_pre [OF assms], of ok] by auto
  have "t_arr tbl' ! s = ELEM_FREE \<or> settled (t_arr tbl') s" if "s < t_cap tbl'" for s
  proof (cases "t_arr tbl' ! s")
    case (ELEM_OCCUPIED h k v)
    have "s \<notin> unsettled (t_arr tbl')" using t(6) by (simp add: tidy_def)
    then show ?thesis using that key_slot_less(2) [OF t(2)] ELEM_OCCUPIED
      by (simp add: unsettled_def occ_slots_def)
  next
    case ELEM_REMOVED
    have "s \<notin> removed_slots (t_arr tbl')" using t(6) by (simp add: tidy_def)
    then show ?thesis using that key_slot_less(2) [OF t(2)] ELEM_REMOVED by (simp add: removed_slots_def)
  qed simp
  then show ?thesis using True t by auto
next
  case False
  then show ?thesis using dime_table_grow_ok [OF table_inv_grow_pre [OF assms], of ok] by simp
qed

theorem table_grow_spec_witness:
  "\<exists>tbl'. dime_table_grow True demo_table = Some (True, tbl') \<and> t_cap tbl' = 64"
  using table_grow_spec [OF demo_table_ok(1), of True] demo_table_ok(4)
  by (auto simp: alloc_ok_def ALLOC_MAX_def)

text \<open>
  Insert, search, remove: a key that was inserted is found with its value; removing it gives
  the value back and the map that was there before; searching for it again finds nothing.
\<close>

theorem table_roundtrip:
  assumes "table_inv tbl" and "table_map tbl key = None" and "dime_table_insert ok tbl key val = Some (0, tbl1)"
  shows "\<exists>tbl2. dime_table_search tbl1 key = Some (Some val, tbl2) \<and>
    table_map tbl2 = (table_map tbl)(key \<mapsto> val) \<and>
    (\<exists>tbl3. dime_table_remove tbl1 key = Some (Some val, tbl3) \<and> table_inv tbl3 \<and>
      table_map tbl3 = table_map tbl)"
  using tb.search_after_insert(1) [OF assms] tb.remove_after_insert [OF assms] by blast

theorem table_roundtrip_witness:
  "\<exists>tbl1 tbl2. dime_table_insert (\<lambda>_. True) demo_table 7 3 = Some (0, tbl1) \<and>
     dime_table_search tbl1 7 = Some (Some 3, tbl2)"
proof -
  obtain tbl1 where "dime_table_insert (\<lambda>_. True) demo_table 7 3 = Some (0, tbl1)"
    using dime_table_insert_ok [OF demo_table_ok(1), of 7 "\<lambda>_. True" 3] demo_table_ok by auto
  then show ?thesis using table_roundtrip [OF demo_table_ok(1), of 7 "\<lambda>_. True" 3 tbl1] demo_table_ok(3) by auto
qed

text \<open>
  C27. A table keeps a free slot, and so all its searches end, as long as its allocations succeed:
  an insertion whose first allocation is granted returns 0 and leaves a free slot.
\<close>

theorem table_stays_live:
  assumes "table_inv tbl" and "table_map tbl key = None" and "table_live tbl"
    and "t_cap tbl * 64 \<le> ALLOC_MAX" and "ok 0" and "dime_table_insert ok tbl key val = Some (rc, tbl')"
  shows "rc = 0 \<and> table_live tbl'"
  using assms(4) by (intro tb.insert_roomy [OF assms(1-3) _ assms(5,6)]) (simp add: table_roomy_def)

theorem table_stays_live_witness:
  "\<exists>tbl'. dime_table_insert (\<lambda>_. True) demo_table 7 3 = Some (0, tbl') \<and> table_live tbl'"
proof -
  obtain tbl' where t: "dime_table_insert (\<lambda>_. True) demo_table 7 3 = Some (0, tbl')"
    using dime_table_insert_ok [OF demo_table_ok(1), of 7 "\<lambda>_. True" 3] demo_table_ok by auto
  have "t_cap demo_table * 64 \<le> ALLOC_MAX" by (simp add: demo_table_ok ALLOC_MAX_def)
  then show ?thesis
    using table_stays_live [OF demo_table_ok(1) _ demo_table_ok(2) _ _ t] demo_table_ok(3) t by auto
qed

text \<open>
  Iteration: \<^verbatim>\<open>while (dime_table_iter_next(&it))\<close> ends and yields every pair of the map exactly
  once, in slot order, and \<^verbatim>\<open>dime_table_apply\<close> calls its argument on the same pairs in the same
  order until a call returns 0.
\<close>

theorem table_iter_spec:
  assumes "table_inv tbl"
  shows "\<exists>kvs. dime_table_iter_run (Suc (t_cap tbl)) tbl dime_table_iter_init = Some kvs \<and>
    distinct (map fst kvs) \<and> map_of kvs = table_map tbl \<and> length kvs = dime_table_len tbl \<and>
    dime_table_apply tbl f s = fold_until (\<lambda>(k, v). f k v) kvs s"
proof (intro exI conjI)
  show "dime_table_iter_run (Suc (t_cap tbl)) tbl dime_table_iter_init = Some (table_entries (t_arr tbl))"
    by (rule iter_run_all [OF assms])
  show "distinct (map fst (table_entries (t_arr tbl)))"
    using assms by (simp add: table_inv_def keys_distinct_def)
  show "map_of (table_entries (t_arr tbl)) = table_map tbl" by (simp add: table_map_def)
  show "length (table_entries (t_arr tbl)) = dime_table_len tbl"
    using assms by (simp add: length_table_entries table_inv_def dime_table_len_def)
  show "dime_table_apply tbl f s = fold_until (\<lambda>(k, v). f k v) (table_entries (t_arr tbl)) s"
    using key_slot_less(2) [OF assms] by (simp add: dime_table_apply_def apply_from_entries)
qed

theorem table_iter_spec_witness:
  "\<exists>kvs. dime_table_iter_run 33 demo_table dime_table_iter_init = Some kvs \<and> map_of kvs = Map.empty"
  using table_iter_spec [OF demo_table_ok(1)] demo_table_ok(3,4) by fastforce

text \<open>
  The hazard of a table without a free slot, which failed allocations can lead to: the probing
  loop of a search (or removal) of an absent key does not end, whatever the fuel.
\<close>

theorem table_search_diverges:
  assumes "table_inv tbl" and "table_map tbl key = None" and "ELEM_FREE \<notin> set (t_arr tbl)" and "i < t_cap tbl"
  shows "dime_table_search_probe n tbl key i k fa = None"
  using search_probe_diverges [OF assms(1,2) _ assms(4)] assms(3) by (simp add: table_live_def)

text \<open>Two more tables for witnesses: one with no free slot, one with a removed slot.\<close>

definition full_table :: "(int, nat) dime_table" where
  "full_table = \<lparr>t_len = 32, t_cmp_f = (\<lambda>x y. x - y), t_hash_f = (\<lambda>_. 0),
     t_arr = map (\<lambda>i. ELEM_OCCUPIED 0 (int i) i) [0..<32], t_cap = 32, t_ncollisions = 31, t_nfree = 0\<rparr>"

lemma full_table_entries: "table_entries (t_arr full_table) = map (\<lambda>i. (int i, i)) [0..<32]"
  by (simp add: full_table_def table_entries_def elem_pair_def comp_def filter_True)

lemma full_table_inv: "table_inv full_table"
proof -
  have "chained (t_arr full_table)"
    unfolding chained_def
  proof (intro allI impI)
    fix s h k v
    assume "s < length (t_arr full_table)" "t_arr full_table ! s = ELEM_OCCUPIED h k v"
    then have s: "s < 2 ^ 5" by (simp add: full_table_def)
    obtain j where "probe (2 ^ 5) (home (t_arr full_table) h) j = s" by (rule probe_reaches [OF s])
    moreover have "t_arr full_table ! probe (2 ^ 5) (home (t_arr full_table) h) i \<noteq> ELEM_FREE" for i
      using probe_less [of "2 ^ 5" "home (t_arr full_table) h" i] by (simp add: full_table_def)
    moreover have "length (t_arr full_table) = 2 ^ 5" by (simp add: full_table_def)
    ultimately show "\<exists>j. s = probe (length (t_arr full_table)) (home (t_arr full_table) h) j \<and>
        (\<forall>i < j. t_arr full_table ! probe (length (t_arr full_table)) (home (t_arr full_table) h) i \<noteq> ELEM_FREE)"
      by metis
  qed
  moreover have "table_shape 5 full_table" by (simp add: full_table_def table_shape_def)
  moreover have "t_len full_table = card (occ_slots (t_arr full_table))"
    unfolding length_table_entries [symmetric] full_table_entries by (simp add: full_table_def)
  moreover have "keys_distinct (t_arr full_table)"
    unfolding keys_distinct_def full_table_entries by (simp add: distinct_map comp_def inj_on_def)
  moreover have "memo_ok (t_hash_f full_table) (t_arr full_table)"
    by (auto simp: memo_ok_def full_table_def)
  moreover have "free_count (t_arr full_table) = 0"
    by (auto simp: free_count_def full_table_def filter_empty_conv)
  ultimately show ?thesis
    unfolding table_inv_def by (auto simp: full_table_def ALLOC_MAX_def nfree_ok_def)
qed

theorem table_search_diverges_witness:
  "dime_table_search_probe 1000000 full_table 99 0 1 None = None"
proof -
  have "table_map full_table 99 = None"
    unfolding table_map_def full_table_entries by (auto simp: map_of_eq_None_iff)
  moreover have "ELEM_FREE \<notin> set (t_arr full_table)" and "0 < t_cap full_table"
    by (auto simp: full_table_def)
  ultimately show ?thesis by (rule table_search_diverges [OF full_table_inv])
qed

definition removed_table :: "(int, nat) dime_table" where
  "removed_table = \<lparr>t_len = 1, t_cmp_f = (\<lambda>x y. x - y), t_hash_f = (\<lambda>_. 0),
     t_arr = ELEM_REMOVED # ELEM_OCCUPIED 0 5 9 # replicate 30 ELEM_FREE,
     t_cap = 32, t_ncollisions = 1, t_nfree = 30\<rparr>"

lemma removed_table_entries: "table_entries (t_arr removed_table) = [(5, 9)]"
  by (simp add: removed_table_def table_entries_def elem_pair_def)

lemma removed_table_inv: "table_inv removed_table"
proof -
  have occ: "s = 1 \<and> h = 0" if "s < 32" "t_arr removed_table ! s = ELEM_OCCUPIED h k v" for s h k v
    using that by (auto simp: removed_table_def nth_Cons split: nat.splits)
  have len: "length (t_arr removed_table) = 32" by (simp add: removed_table_def)
  have "chained (t_arr removed_table)"
    unfolding chained_def len
  proof (intro allI impI)
    fix s h k v
    assume "s < 32" "t_arr removed_table ! s = ELEM_OCCUPIED h k v"
    then have "s = 1" "h = 0" using occ by blast+
    then have "s = probe 32 (bucket 32 h) 1 \<and> (\<forall>i < 1. t_arr removed_table ! probe 32 (bucket 32 h) i \<noteq> ELEM_FREE)"
      by (simp add: bucket_def probe_def removed_table_def)
    then show "\<exists>j. s = probe 32 (bucket 32 h) j \<and>
        (\<forall>i < j. t_arr removed_table ! probe 32 (bucket 32 h) i \<noteq> ELEM_FREE)" by blast
  qed
  moreover have "table_shape 5 removed_table" by (simp add: removed_table_def table_shape_def)
  moreover have "t_len removed_table = card (occ_slots (t_arr removed_table))"
    unfolding length_table_entries [symmetric] removed_table_entries by (simp add: removed_table_def)
  moreover have "keys_distinct (t_arr removed_table)"
    unfolding keys_distinct_def removed_table_entries by simp
  moreover have "memo_ok (t_hash_f removed_table) (t_arr removed_table)"
    by (auto simp: memo_ok_def removed_table_def)
  moreover have "free_count (t_arr removed_table) = 30"
    by (simp add: free_count_def removed_table_def)
  ultimately show ?thesis
    unfolding table_inv_def by (auto simp: removed_table_def ALLOC_MAX_def nfree_ok_def)
qed

text \<open>
  The probing loop of an insertion ends at the first slot that is not occupied, so it does not
  see a key that is stored further along its sequence: when a removed slot comes first, the
  insertion of a key that is already present is not refused.
\<close>

theorem table_insert_blind:
  assumes "table_inv tbl" and "J < t_cap tbl" and "t_arr tbl ! key_slot tbl key J = ELEM_REMOVED"
    and "\<forall>i < J. \<exists>h k v. t_arr tbl ! key_slot tbl key i = ELEM_OCCUPIED h k v \<and> k \<noteq> key"
  shows "dime_table_insert_probe (Suc (t_cap tbl)) tbl key (bucket (t_cap tbl) (t_hash_f tbl key)) 1 =
    Some (Inr (key_slot tbl key J, J + 1))"
proof -
  have "is_occ (t_arr tbl ! key_slot tbl key i)" if "i < J" for i
    using assms(4) that by fastforce
  moreover have "t_arr tbl ! key_slot tbl key i \<noteq> ELEM_OCCUPIED h key v" if "i < J" for i h v
    using assms(4) that by fastforce
  ultimately show ?thesis
    using insert_probe_walk_start [OF assms(1) _ _ assms(2), of key] assms(3) by simp
qed

theorem table_insert_blind_witness:
  "table_map removed_table 5 = Some 9 \<and>
   dime_table_insert_probe 33 removed_table 5 0 1 = Some (Inr (0, 1))"
proof -
  have cap: "t_cap removed_table = 32" "t_hash_f removed_table 5 = 0" by (simp_all add: removed_table_def)
  have b: "bucket 32 0 = 0" by (simp add: bucket_def)
  have "table_map removed_table 5 = Some 9" unfolding table_map_def removed_table_entries by simp
  moreover have "t_arr removed_table ! key_slot removed_table 5 0 = ELEM_REMOVED"
    unfolding cap b by (simp add: removed_table_def)
  ultimately show ?thesis
    using table_insert_blind [OF removed_table_inv, of 0 5] unfolding cap b by simp
qed

end
