(* ===== verification/Socket_Def.thy ===== *)
theory Socket_Def
  imports Ringbuffer
begin

text \<open>
  The message framing of \<^verbatim>\<open>server/socket.c\<close>: a DiME message is the 12-byte header, the JSON
  text and the binary data; on a WebSocket connection it is wrapped in a frame of its own on the
  way out, and unwrapped and unmasked on the way in.  The calls of the operating system and of
  OpenSSL that move bytes are parameters (their result is given), and so is the JSON decoder of
  the jansson library; \<open>ok i\<close> says whether the environment grants the \<open>i\<close>-th allocation of a
  call.  The fields of the build with \<^verbatim>\<open>DIME_USE_LIBEV\<close> are part of the socket; the other build is the
  one in which no socket has a loop.
\<close>

section \<open>Bytes on the wire\<close>

text \<open>Big-endian encoding in \<open>k\<close> bytes, keeping the low-order part of the number.\<close>

definition be_bytes :: "nat \<Rightarrow> nat \<Rightarrow> byte list" where
  "be_bytes k n = map (\<lambda>i. word_of_nat (n div 256 ^ (k - 1 - i))) [0..<k]"

definition be_value :: "byte list \<Rightarrow> nat" where
  "be_value bs = foldl (\<lambda>n b. 256 * n + unat b) 0 bs"

text \<open>The four bytes of \<^verbatim>\<open>"DiME"\<close>.\<close>

definition DIME_MAGIC :: "byte list" where
  "DIME_MAGIC = [0x44, 0x69, 0x4D, 0x45]"

text \<open>A C string is the bytes up to the first NUL.\<close>

definition c_string :: "byte list \<Rightarrow> byte list" where
  "c_string s = takeWhile (\<lambda>b. b \<noteq> 0) s"

text \<open>\<^verbatim>\<open>dime_header_t\<close> as it is written: the lengths are truncated to \<^verbatim>\<open>uint32_t\<close> by \<^verbatim>\<open>htonl\<close>.\<close>

definition dime_header :: "size_t \<Rightarrow> size_t \<Rightarrow> byte list" where
  "dime_header jsondata_len bindata_len = DIME_MAGIC @ be_bytes 4 jsondata_len @ be_bytes 4 bindata_len"

text \<open>The WebSocket header of an outgoing frame: one unmasked binary frame.\<close>

definition ws_out_header :: "size_t \<Rightarrow> byte list" where
  "ws_out_header payload_len =
     (if payload_len < 126 then [0x82, word_of_nat payload_len]
      else if payload_len < 65536 then 0x82 # 126 # be_bytes 2 payload_len
      else 0x82 # 127 # be_bytes 8 payload_len)"

text \<open>The field \<^verbatim>\<open>ws_hdr[1] & ~0x80\<close> of a frame.\<close>

definition ws_len7 :: "byte \<Rightarrow> nat" where
  "ws_len7 b = unat (b AND NOT 0x80)"

text \<open>
  The first bytes of the incoming stream, as \<^verbatim>\<open>dime_socket_pop\<close> reads them: the length of the
  frame header, the length of the payload and the mask, or \<open>None\<close> when there are too few bytes.
\<close>

definition ws_in_header :: "byte list \<Rightarrow> (size_t \<times> size_t \<times> byte list) option" where
  "ws_in_header h =
     (let nread = length h;
          len7 = (if 1 < nread then ws_len7 (h ! 1) else 0)
      in if len7 < 126 \<and> nread \<ge> 6 then Some (6, len7, take 4 (drop 2 h))
         else if len7 = 126 \<and> nread \<ge> 8 then Some (8, be_value (take 2 (drop 2 h)), take 4 (drop 4 h))
         else if len7 = 127 \<and> nread = 14 then Some (14, be_value (take 8 (drop 2 h)), take 4 (drop 10 h))
         else None)"

definition ws_masked :: "byte \<Rightarrow> bool" where
  "ws_masked b \<longleftrightarrow> b AND 0x80 \<noteq> 0"

text \<open>The loop \<^verbatim>\<open>frame[i] ^= mask[i & 3]\<close>.\<close>

definition ws_unmask :: "byte list \<Rightarrow> byte list \<Rightarrow> byte list" where
  "ws_unmask key frame = map (\<lambda>i. frame ! i XOR key ! (i AND 3)) [0..<length frame]"

section \<open>Socket\<close>

text \<open>
  The substructures \<^verbatim>\<open>ws\<close> and \<^verbatim>\<open>zlib\<close> are present when enabled; nothing in the sources enables
  \<^verbatim>\<open>zlib\<close>.  \<open>s_loop\<close> says that \<^verbatim>\<open>loop\<close> is not null, and \<open>s_wwatcher\<close> that \<^verbatim>\<open>wwatcher\<close> is started.
\<close>

record dime_socket =
  s_fd :: int
  s_rbuf :: dime_ringbuffer
  s_wbuf :: dime_ringbuffer
  s_tls :: bool
  s_ws :: "dime_ringbuffer option"
  s_zlib :: "dime_ringbuffer option"
  s_err :: string
  s_loop :: bool
  s_wwatcher :: bool

text \<open>The size of \<^verbatim>\<open>err\<close>, and what \<^verbatim>\<open>strncpy\<close> leaves in it.\<close>

definition ERR_SIZE :: size_t where
  "ERR_SIZE = 81"

definition set_err :: "string \<Rightarrow> dime_socket \<Rightarrow> dime_socket" where
  "set_err msg sock = sock\<lparr>s_err := take ERR_SIZE msg\<rparr>"

definition dime_socket_init :: "(nat \<Rightarrow> bool) \<Rightarrow> int \<Rightarrow> dime_socket option" where
  "dime_socket_init ok fd =
     (case dime_ringbuffer_init (ok 0) of
        None \<Rightarrow> None
      | Some rbuf \<Rightarrow>
          (case dime_ringbuffer_init (ok 1) of
             None \<Rightarrow> None
           | Some wbuf \<Rightarrow>
               Some \<lparr>s_fd = fd, s_rbuf = rbuf, s_wbuf = wbuf, s_tls = False, s_ws = None,
                     s_zlib = None, s_err = '''', s_loop = False, s_wwatcher = False\<rparr>))"

section \<open>Sending\<close>

text \<open>
  A push into an empty out-buffer starts the write watcher: \<^verbatim>\<open>ev_io_start(sock->loop, &sock->wwatcher)\<close>.
\<close>

definition start_wwatcher :: "dime_socket \<Rightarrow> dime_socket" where
  "start_wwatcher sock =
     (if dime_ringbuffer_len (s_wbuf sock) = 0 \<and> s_loop sock then sock\<lparr>s_wwatcher := True\<rparr> else sock)"

text \<open>
  \<^verbatim>\<open>dime_socket_push_str\<close>.  The return value of each write is compared with a number of bytes:
  with the constant 12 as signed numbers, with a variable of type \<^verbatim>\<open>size_t\<close> as unsigned ones.
  \<open>strerror\<close> is the text of \<^verbatim>\<open>errno\<close>.
\<close>

definition dime_socket_push_str ::
  "string \<Rightarrow> (nat \<Rightarrow> bool) \<Rightarrow> dime_socket \<Rightarrow> byte list \<Rightarrow> byte list \<Rightarrow> int \<times> dime_socket" where
  "dime_socket_push_str strerror ok sock jsonstr bindata =
     (let sock = start_wwatcher sock;
          json = c_string jsonstr;
          jsondata_len = length json;
          bindata_len = length bindata;
          payload_len = sz_add (sz_add 12 jsondata_len) bindata_len;
          ws_hdr = (if s_ws sock = None then [] else ws_out_header payload_len);
          ws_len = length ws_hdr;
          (rc0, wbuf0) = (if s_ws sock = None then (0, s_wbuf sock)
                          else dime_ringbuffer_write (ok 0) (s_wbuf sock) ws_hdr)
      in if ssize_to_size rc0 < ws_len then (-1, set_err strerror (sock\<lparr>s_wbuf := wbuf0\<rparr>))
         else
           (let (rc1, wbuf1) = dime_ringbuffer_write (ok 1) wbuf0 (dime_header jsondata_len bindata_len)
            in if rc1 < 12 then (-1, set_err strerror (sock\<lparr>s_wbuf := wbuf1\<rparr>))
               else
                 (let (rc2, wbuf2) = dime_ringbuffer_write (ok 2) wbuf1 json
                  in if ssize_to_size rc2 < jsondata_len then (-1, set_err strerror (sock\<lparr>s_wbuf := wbuf2\<rparr>))
                     else
                       (let (rc3, wbuf3) = dime_ringbuffer_write (ok 3) wbuf2 bindata
                        in if ssize_to_size rc3 < bindata_len
                           then (-1, set_err strerror (sock\<lparr>s_wbuf := wbuf3\<rparr>))
                           else (int (12 + ws_len + jsondata_len + bindata_len), sock\<lparr>s_wbuf := wbuf3\<rparr>)))))"

text \<open>\<^verbatim>\<open>dime_socket_push\<close>, with the encoder of jansson (\<open>None\<close> when it fails) as a parameter.\<close>

definition dime_socket_push ::
  "('j \<Rightarrow> byte list option) \<Rightarrow> string \<Rightarrow> (nat \<Rightarrow> bool) \<Rightarrow> dime_socket \<Rightarrow> 'j \<Rightarrow> byte list \<Rightarrow> int \<times> dime_socket" where
  "dime_socket_push json_dumps strerror ok sock jsondata bindata =
     (case json_dumps jsondata of
        None \<Rightarrow> (-1, set_err ''Can't encode JSON data'' sock)
      | Some jsonstr \<Rightarrow> dime_socket_push_str strerror ok sock jsonstr bindata)"

definition SENDBUFLEN :: size_t where
  "SENDBUFLEN = 200000000"

definition RECVBUFLEN :: size_t where
  "RECVBUFLEN = 200000000"

text \<open>
  \<open>transport\<close> is \<^verbatim>\<open>send\<close> or \<^verbatim>\<open>SSL_write\<close>: the number of bytes of the buffer it took, negative
  on failure.
\<close>

definition dime_socket_sendpartial ::
  "string \<Rightarrow> bool \<Rightarrow> (byte list \<Rightarrow> int) \<Rightarrow> dime_socket \<Rightarrow> int \<times> dime_socket" where
  "dime_socket_sendpartial strerror ok transport sock =
     (if \<not> alloc_ok ok SENDBUFLEN then (-1, sock)
      else
        (let buf = dime_ringbuffer_peek (s_wbuf sock) SENDBUFLEN;
             nsent = transport buf
         in if nsent < 0 then (-1, set_err strerror sock)
            else (nsent, sock\<lparr>s_wbuf := snd (dime_ringbuffer_discard (s_wbuf sock) (ssize_to_size nsent))\<rparr>)))"

section \<open>Receiving\<close>

text \<open>
  \<open>transport\<close> is \<^verbatim>\<open>recv\<close> or \<^verbatim>\<open>SSL_read\<close> with room for the given number of bytes: the bytes
  received, or \<open>None\<close> on failure.
\<close>

definition dime_socket_recvpartial ::
  "string \<Rightarrow> (nat \<Rightarrow> bool) \<Rightarrow> (size_t \<Rightarrow> byte list option) \<Rightarrow> dime_socket \<Rightarrow> int \<times> dime_socket" where
  "dime_socket_recvpartial strerror ok transport sock =
     (if \<not> alloc_ok (ok 0) RECVBUFLEN then (-1, set_err strerror sock)
      else
        (case transport RECVBUFLEN of
           None \<Rightarrow> (-1, set_err strerror sock)
         | Some buf \<Rightarrow>
             (let ring = (case s_ws sock of
                            Some ws \<Rightarrow> ws
                          | None \<Rightarrow> (case s_zlib sock of Some z \<Rightarrow> z | None \<Rightarrow> s_rbuf sock));
                  (rc, ring') = dime_ringbuffer_write (ok 1) ring buf;
                  sock' = (if s_ws sock \<noteq> None then sock\<lparr>s_ws := Some ring'\<rparr>
                           else if s_zlib sock \<noteq> None then sock\<lparr>s_zlib := Some ring'\<rparr>
                           else sock\<lparr>s_rbuf := ring'\<rparr>)
              in if rc < 0 then (-1, set_err strerror sock') else (int (length buf), sock'))))"

text \<open>
  How \<^verbatim>\<open>dime_socket_pop\<close> ends: with a message and its size, with \<^verbatim>\<open>0\<close> because no message is
  complete yet, with \<^verbatim>\<open>-1\<close>, or with a read outside of an allocated block.
\<close>

datatype 'j pop_result =
    Pop_Message (pop_size: size_t) (pop_json: 'j) (pop_bindata: "byte list")
  | Pop_Incomplete
  | Pop_Error
  | Pop_Out_Of_Bounds

datatype ws_result = Ws_Done | Ws_Error | Ws_Out_Of_Bounds

text \<open>The unwrapping loop of \<^verbatim>\<open>dime_socket_pop\<close>; \<open>None\<close> when it has not ended within the fuel.\<close>

fun dime_socket_unwrap ::
  "nat \<Rightarrow> string \<Rightarrow> (nat \<Rightarrow> bool) \<Rightarrow> dime_socket \<Rightarrow> dime_ringbuffer \<Rightarrow> (ws_result \<times> dime_socket) option" where
  "dime_socket_unwrap 0 strerror ok sock ws = None"
| "dime_socket_unwrap (Suc n) strerror ok sock ws =
     (let ws_hdr = dime_ringbuffer_peek ws 14
      in case ws_in_header ws_hdr of
           None \<Rightarrow> Some (Ws_Done, sock\<lparr>s_ws := Some ws\<rparr>)
         | Some (hdr_len, frame_len, key) \<Rightarrow>
             if \<not> ws_masked (ws_hdr ! 1) then Some (Ws_Error, sock\<lparr>s_ws := Some ws\<rparr>)
             else
               (let msgsiz = sz_add hdr_len frame_len
                in if \<not> alloc_ok (ok (2 * n)) msgsiz then Some (Ws_Error, sock\<lparr>s_ws := Some ws\<rparr>)
                   else
                     (let msg = dime_ringbuffer_peek ws msgsiz
                      in if length msg = msgsiz then
                           (if msgsiz < hdr_len + frame_len
                            then Some (Ws_Out_Of_Bounds, sock\<lparr>s_ws := Some ws\<rparr>)
                            else
                              (let frame = ws_unmask key (drop hdr_len msg);
                                   (rc, rbuf) = dime_ringbuffer_write (ok (2 * n + 1)) (s_rbuf sock) frame
                               in if rc < 0 then Some (Ws_Error, set_err strerror (sock\<lparr>s_ws := Some ws\<rparr>))
                                  else dime_socket_unwrap n strerror ok (sock\<lparr>s_rbuf := rbuf\<rparr>)
                                         (snd (dime_ringbuffer_discard ws msgsiz))))
                         else Some (Ws_Done, sock\<lparr>s_ws := Some ws\<rparr>))))"

text \<open>
  The part of \<^verbatim>\<open>dime_socket_pop\<close> that parses a message.  The size of the message is computed in
  \<^verbatim>\<open>uint32_t\<close>.  \<open>json_loadb\<close> gives the text of the error, or the value.
\<close>

definition dime_socket_parse ::
  "(byte list \<Rightarrow> string + 'j) \<Rightarrow> string \<Rightarrow> (nat \<Rightarrow> bool) \<Rightarrow> dime_socket \<Rightarrow> 'j pop_result \<times> dime_socket" where
  "dime_socket_parse json_loadb strerror ok sock =
     (let hdr = dime_ringbuffer_peek (s_rbuf sock) 12
      in if length hdr \<noteq> 12 then (Pop_Incomplete, sock)
         else if take 4 hdr \<noteq> DIME_MAGIC then (Pop_Error, set_err ''Invalid DiME header'' sock)
         else
           (let jsondata_len = be_value (take 4 (drop 4 hdr));
                bindata_len = be_value (take 4 (drop 8 hdr));
                msgsiz = (12 + jsondata_len + bindata_len) mod 2 ^ 32
            in if \<not> alloc_ok (ok 0) msgsiz then (Pop_Error, set_err strerror sock)
               else
                 (let buf = dime_ringbuffer_peek (s_rbuf sock) msgsiz
                  in if length buf \<noteq> msgsiz then (Pop_Incomplete, sock)
                     else if msgsiz < 12 + jsondata_len then (Pop_Out_Of_Bounds, sock)
                     else
                       (case json_loadb (take jsondata_len (drop 12 buf)) of
                          Inl text \<Rightarrow> (Pop_Error, set_err text sock)
                        | Inr jsondata \<Rightarrow>
                            if \<not> alloc_ok (ok 1) bindata_len then (Pop_Error, set_err strerror sock)
                            else if msgsiz < 12 + jsondata_len + bindata_len then (Pop_Out_Of_Bounds, sock)
                            else (Pop_Message msgsiz jsondata (take bindata_len (drop (12 + jsondata_len) buf)),
                                  sock\<lparr>s_rbuf := snd (dime_ringbuffer_discard (s_rbuf sock) msgsiz)\<rparr>)))))"

definition dime_socket_pop ::
  "(byte list \<Rightarrow> string + 'j) \<Rightarrow> string \<Rightarrow> (nat \<Rightarrow> bool) \<Rightarrow> dime_socket \<Rightarrow> ('j pop_result \<times> dime_socket) option" where
  "dime_socket_pop json_loadb strerror ok sock =
     (case s_ws sock of
        None \<Rightarrow> Some (dime_socket_parse json_loadb strerror ok sock)
      | Some ws \<Rightarrow>
          (case dime_socket_unwrap (Suc (dime_ringbuffer_len ws)) strerror (\<lambda>i. ok (i + 2)) sock ws of
             None \<Rightarrow> None
           | Some (Ws_Done, sock) \<Rightarrow> Some (dime_socket_parse json_loadb strerror ok sock)
           | Some (Ws_Error, sock) \<Rightarrow> Some (Pop_Error, sock)
           | Some (Ws_Out_Of_Bounds, sock) \<Rightarrow> Some (Pop_Out_Of_Bounds, sock)))"

definition dime_socket_fd :: "dime_socket \<Rightarrow> int" where
  "dime_socket_fd sock = s_fd sock"

definition dime_socket_sendlen :: "dime_socket \<Rightarrow> size_t" where
  "dime_socket_sendlen sock = dime_ringbuffer_len (s_wbuf sock)"

definition dime_socket_recvlen :: "dime_socket \<Rightarrow> size_t" where
  "dime_socket_recvlen sock = dime_ringbuffer_len (s_rbuf sock)"

section \<open>Invariant\<close>

text \<open>In a socket that has a loop, output is never without a started write watcher.\<close>

definition watched :: "dime_socket \<Rightarrow> bool" where
  "watched s \<longleftrightarrow> (s_loop s \<and> 0 < dime_ringbuffer_len (s_wbuf s) \<longrightarrow> s_wwatcher s)"

definition sock_inv :: "dime_socket \<Rightarrow> bool" where
  "sock_inv s \<longleftrightarrow> rb_inv (s_rbuf s) \<and> rb_inv (s_wbuf s) \<and>
     (\<forall>r. s_ws s = Some r \<longrightarrow> rb_inv r) \<and> (\<forall>r. s_zlib s = Some r \<longrightarrow> rb_inv r) \<and> watched s"

lemma watched_upd [simp]:
  "watched (s\<lparr>s_rbuf := r\<rparr>) = watched s" "watched (s\<lparr>s_ws := w\<rparr>) = watched s" "watched (s\<lparr>s_zlib := z\<rparr>) = watched s"
  "watched (s\<lparr>s_tls := b\<rparr>) = watched s" "watched (s\<lparr>s_err := e\<rparr>) = watched s" "watched (s\<lparr>s_fd := fd\<rparr>) = watched s"
  by (simp_all add: watched_def)

lemma watched_unlooped [simp]: "\<not> s_loop s \<Longrightarrow> watched s"
  by (simp add: watched_def)

lemma start_wwatcher_unlooped [simp]: "\<not> s_loop s \<Longrightarrow> start_wwatcher s = s"
  by (simp add: start_wwatcher_def)

lemma start_wwatcher_fields [simp]:
  "s_fd (start_wwatcher s) = s_fd s" "s_rbuf (start_wwatcher s) = s_rbuf s" "s_wbuf (start_wwatcher s) = s_wbuf s"
  "s_tls (start_wwatcher s) = s_tls s" "s_ws (start_wwatcher s) = s_ws s" "s_zlib (start_wwatcher s) = s_zlib s"
  "s_err (start_wwatcher s) = s_err s" "s_loop (start_wwatcher s) = s_loop s"
  by (simp_all add: start_wwatcher_def)

text \<open>After that, anything may be written to the out-buffer; and taking bytes out of it is harmless.\<close>

lemma watched_start: "watched s \<Longrightarrow> watched (start_wwatcher s\<lparr>s_wbuf := w\<rparr>)"
  by (auto simp: watched_def start_wwatcher_def)

lemma watched_shrink:
  "watched s \<Longrightarrow> dime_ringbuffer_len w \<le> dime_ringbuffer_len (s_wbuf s) \<Longrightarrow> watched (s\<lparr>s_wbuf := w\<rparr>)"
  by (auto simp: watched_def)

lemma watched_discard:
  assumes "sock_inv s"
  shows "watched (s\<lparr>s_wbuf := snd (dime_ringbuffer_discard (s_wbuf s) n)\<rparr>)"
proof (rule watched_shrink)
  show "watched s" using assms by (simp add: sock_inv_def)
  have "rb_inv (s_wbuf s)" using assms by (simp add: sock_inv_def)
  then show "dime_ringbuffer_len (snd (dime_ringbuffer_discard (s_wbuf s) n)) \<le> dime_ringbuffer_len (s_wbuf s)"
    using dime_ringbuffer_discard_step [of "s_wbuf s" n] length_rb_bytes [of "s_wbuf s"]
      length_rb_bytes [of "snd (dime_ringbuffer_discard (s_wbuf s) n)"]
    by (simp add: dime_ringbuffer_len_def)
qed

abbreviation sent_bytes :: "dime_socket \<Rightarrow> byte list" where
  "sent_bytes s \<equiv> rb_bytes (s_wbuf s)"

abbreviation recv_bytes :: "dime_socket \<Rightarrow> byte list" where
  "recv_bytes s \<equiv> rb_bytes (s_rbuf s)"

end
