(* ===== verification/Socket_Stream.thy ===== *)
theory Socket_Stream
  imports Socket
begin

text \<open>
  The two ends of a connection: parsing what the other side pushed, the transfer of bytes by
  partial sends and receives, and the unwrapping of WebSocket frames.
\<close>

section \<open>Pushing when allocations succeed\<close>

lemma push_str_success:
  assumes inv: "sock_inv s" and nul: "0 \<notin> set (fst m)" and ok: "\<forall>i. ok i"
    and room: "2 * (length (sent_bytes s) + 10 + length (wire m)) \<le> ALLOC_MAX"
  obtains s' where
    "dime_socket_push_str strerror ok s (fst m) (snd m) = (int (length (ws_prefix s m) + length (wire m)), s')"
    and "sent_bytes s' = sent_bytes s @ ws_prefix s m @ wire m" and "sock_inv s'"
    and "s_rbuf s' = s_rbuf s" and "s_ws s' = s_ws s" and "s_zlib s' = s_zlib s"
proof -
  define hd where "hd = dime_header (length (fst m)) (length (snd m))"
  have len: "length (fst m) \<le> ALLOC_MAX" "length (snd m) \<le> ALLOC_MAX" using room by simp_all
  have hdl: "length hd = 12" by (simp add: hd_def)
  have big: "2 * (length (sent_bytes s) + length (ws_prefix s m) + 12 + length (fst m) + length (snd m)) \<le> ALLOC_MAX"
    using room length_ws_prefix [of s m] by simp
  have w: "rb_inv (s_wbuf s)" using inv by (simp add: sock_inv_def)
  have plen: "sz_add (sz_add 12 (length (fst m))) (length (snd m)) = length (wire m)"
    using payload_len [OF len] by simp
  obtain rc0 w0 where w0: "(if s_ws s = None then (0, s_wbuf s)
      else dime_ringbuffer_write (ok 0) (s_wbuf s) (ws_prefix s m)) = (rc0, w0)"
    "rc0 = int (length (ws_prefix s m))" "rb_inv w0" "rb_bytes w0 = sent_bytes s @ ws_prefix s m"
  proof (cases "s_ws s = None")
    case True
    then show thesis using that [of 0 "s_wbuf s"] w by (simp add: ws_prefix_def)
  next
    case False
    have "2 * (length (sent_bytes s) + length (ws_prefix s m)) \<le> ALLOC_MAX" using big by simp
    then obtain r' where "dime_ringbuffer_write (ok 0) (s_wbuf s) (ws_prefix s m) = (int (length (ws_prefix s m)), r')"
        "rb_inv r'" "rb_bytes r' = sent_bytes s @ ws_prefix s m"
      using write_ok [OF w ok [rule_format]] by blast
    then show thesis using that False by auto
  qed
  have "2 * (length (rb_bytes w0) + length hd) \<le> ALLOC_MAX" using big w0(4) hdl by simp
  then obtain w1 where w1: "dime_ringbuffer_write (ok 1) w0 hd = (int (length hd), w1)" "rb_inv w1"
      "rb_bytes w1 = rb_bytes w0 @ hd"
    using write_ok [OF w0(3) ok [rule_format]] by blast
  have "2 * (length (rb_bytes w1) + length (fst m)) \<le> ALLOC_MAX" using big w0(4) w1(3) hdl by simp
  then obtain w2 where w2: "dime_ringbuffer_write (ok 2) w1 (fst m) = (int (length (fst m)), w2)" "rb_inv w2"
      "rb_bytes w2 = rb_bytes w1 @ fst m"
    using write_ok [OF w1(2) ok [rule_format]] by blast
  have "2 * (length (rb_bytes w2) + length (snd m)) \<le> ALLOC_MAX" using big w0(4) w1(3) w2(3) hdl by simp
  then obtain w3 where w3: "dime_ringbuffer_write (ok 3) w2 (snd m) = (int (length (snd m)), w3)" "rb_inv w3"
      "rb_bytes w3 = rb_bytes w2 @ snd m"
    using write_ok [OF w2(2) ok [rule_format]] by blast
  have wsl: "length (ws_prefix s m) \<le> ALLOC_MAX" using length_ws_prefix [of s m] by (simp add: ALLOC_MAX_def)
  have hdr: "(if s_ws s = None then [] else ws_out_header (length (wire m))) = ws_prefix s m"
    by (simp add: ws_prefix_def)
  have "dime_socket_push_str strerror ok s (fst m) (snd m) =
      (int (12 + length (ws_prefix s m) + length (fst m) + length (snd m)), start_wwatcher s\<lparr>s_wbuf := w3\<rparr>)"
    unfolding dime_socket_push_str_def c_string_no_nul [OF nul] Let_def start_wwatcher_fields plen hdr w0(1)
    using unsigned_never_short(1) [OF wsl] unsigned_never_short(1) [OF len(1)] unsigned_never_short(1) [OF len(2)]
      w0(2) w1(1) w2(1) w3(1) hdl
    by (simp add: hd_def)
  then show thesis
    using that [of "start_wwatcher s\<lparr>s_wbuf := w3\<rparr>"] watched_start inv w3 w2(3) w1(3) w0(4) by (simp add: sock_inv_def hd_def wire_def)
qed

section \<open>Parsing\<close>

lemma peek_bytes: "sock_inv s \<Longrightarrow> dime_ringbuffer_peek (s_rbuf s) n = take n (recv_bytes s)"
  by (simp add: sock_inv_def dime_ringbuffer_peek_eq)

text \<open>The sum that the parser allocates, and the sum that it reads.\<close>

definition claimed_json :: "byte list \<Rightarrow> nat" where
  "claimed_json bs = be_value (take 4 (drop 4 bs))"

definition claimed_bin :: "byte list \<Rightarrow> nat" where
  "claimed_bin bs = be_value (take 4 (drop 8 bs))"

lemma claimed_prefix:
  "12 \<le> length bs \<Longrightarrow> claimed_json (take 12 bs) = claimed_json bs"
  "12 \<le> length bs \<Longrightarrow> claimed_bin (take 12 bs) = claimed_bin bs"
  by (simp_all add: claimed_json_def claimed_bin_def drop_take)

text \<open>
  \<^verbatim>\<open>dime_socket_pop\<close> on a complete header, as a function of the bytes received.
\<close>

lemma parse_eq:
  assumes inv: "sock_inv s"
  defines "bs \<equiv> recv_bytes s"
  defines "claim \<equiv> 12 + claimed_json bs + claimed_bin bs"
  shows "dime_socket_parse json_loadb strerror ok s =
    (if length bs < 12 then (Pop_Incomplete, s)
     else if take 4 bs \<noteq> DIME_MAGIC then (Pop_Error, set_err ''Invalid DiME header'' s)
     else if \<not> alloc_ok (ok 0) (claim mod 2 ^ 32) then (Pop_Error, set_err strerror s)
     else if length bs < claim mod 2 ^ 32 then (Pop_Incomplete, s)
     else if claim mod 2 ^ 32 < 12 + claimed_json bs then (Pop_Out_Of_Bounds, s)
     else case json_loadb (take (claimed_json bs) (drop 12 bs)) of
            Inl text \<Rightarrow> (Pop_Error, set_err text s)
          | Inr v \<Rightarrow>
              if \<not> alloc_ok (ok 1) (claimed_bin bs) then (Pop_Error, set_err strerror s)
              else if claim mod 2 ^ 32 < claim then (Pop_Out_Of_Bounds, s)
              else (Pop_Message claim v (take (claimed_bin bs) (drop (12 + claimed_json bs) bs)),
                    s\<lparr>s_rbuf := snd (dime_ringbuffer_discard (s_rbuf s) claim)\<rparr>))"
proof (cases "length bs < 12")
  case True
  then show ?thesis using peek_bytes [OF inv, of 12] by (simp add: dime_socket_parse_def Let_def bs_def)
next
  case False
  have hdr: "dime_ringbuffer_peek (s_rbuf s) 12 = take 12 bs" using peek_bytes [OF inv] by (simp add: bs_def)
  have l12: "length (take 12 bs) = 12" using False by simp
  have t4: "take 4 (take 12 bs) = take 4 bs" by simp
  have cj: "be_value (take 4 (drop 4 (take 12 bs))) = claimed_json bs"
    and cb: "be_value (take 4 (drop 8 (take 12 bs))) = claimed_bin bs"
    using claimed_prefix [of bs] False by (simp_all add: claimed_json_def claimed_bin_def)
  define siz where "siz = claim mod 2 ^ 32"
  have buf: "dime_ringbuffer_peek (s_rbuf s) siz = take siz bs" using peek_bytes [OF inv] by (simp add: bs_def)
  have sizeq: "(12 + claimed_json bs + claimed_bin bs) mod 2 ^ 32 = siz" by (simp add: siz_def claim_def)
  have le: "siz = claim" if "\<not> siz < claim" using that by (simp add: siz_def)
  have take1: "take (claimed_json bs) (drop 12 (take siz bs)) = take (claimed_json bs) (drop 12 bs)"
    if "\<not> siz < 12 + claimed_json bs" using that by (simp add: drop_take take_take min_def)
  have take2: "take (claimed_bin bs) (drop (12 + claimed_json bs) (take siz bs)) =
      take (claimed_bin bs) (drop (12 + claimed_json bs) bs)" if "\<not> siz < claim"
    using that by (simp add: drop_take take_take min_def claim_def)
  have claim': "12 + claimed_json bs + claimed_bin bs = claim" by (simp add: claim_def)
  show ?thesis
    unfolding dime_socket_parse_def hdr Let_def l12 t4 cj cb sizeq buf siz_def [symmetric] claim'
    using False le take1 take2 by (auto simp: min_def split: sum.split)
qed

lemma discard_recv:
  assumes "sock_inv s"
  shows "sock_inv (s\<lparr>s_rbuf := snd (dime_ringbuffer_discard (s_rbuf s) n)\<rparr>)"
    and "recv_bytes (s\<lparr>s_rbuf := snd (dime_ringbuffer_discard (s_rbuf s) n)\<rparr>) = drop n (recv_bytes s)"
  using assms dime_ringbuffer_discard_step [of "s_rbuf s" n] by (simp_all add: sock_inv_def)

text \<open>A message that is complete at the front of the stream is parsed and taken off.\<close>

lemma claimed_wire:
  assumes "12 + length (fst m) + length (snd m) < 2 ^ 32"
  shows "claimed_json (wire m @ rest) = length (fst m)" and "claimed_bin (wire m @ rest) = length (snd m)"
    and "take 4 (wire m @ rest) = DIME_MAGIC"
proof -
  have lt: "length (fst m) < 2 ^ 32" "length (snd m) < 2 ^ 32" using assms by simp_all
  have p1: "take 4 (drop 4 (wire m @ rest)) = take 4 (drop 4 (dime_header (length (fst m)) (length (snd m))))"
    and p2: "take 4 (drop 8 (wire m @ rest)) = take 4 (drop 8 (dime_header (length (fst m)) (length (snd m))))"
    and p3: "take 4 (wire m @ rest) = take 4 (dime_header (length (fst m)) (length (snd m)))"
    by (simp_all add: wire_def)
  show "claimed_json (wire m @ rest) = length (fst m)" and "claimed_bin (wire m @ rest) = length (snd m)"
    and "take 4 (wire m @ rest) = DIME_MAGIC"
    using lt by (simp_all only: claimed_json_def claimed_bin_def p1 p2 p3 dime_header_parts mod_less)
qed

lemma parse_wire:
  assumes inv: "sock_inv s" and bytes: "recv_bytes s = wire m @ rest"
    and small: "12 + length (fst m) + length (snd m) < 2 ^ 32"
    and json: "json_loadb (fst m) = Inr v" and ok: "ok 0" "ok 1"
  obtains s' where "dime_socket_parse json_loadb strerror ok s = (Pop_Message (length (wire m)) v (snd m), s')"
    and "sock_inv s'" and "recv_bytes s' = rest" and "s_wbuf s' = s_wbuf s" and "s_ws s' = s_ws s"
    and "s_zlib s' = s_zlib s"
proof -
  let ?s' = "s\<lparr>s_rbuf := snd (dime_ringbuffer_discard (s_rbuf s) (length (wire m)))\<rparr>"
  note claims = claimed_wire [OF small, of rest]
  have claim: "12 + claimed_json (recv_bytes s) + claimed_bin (recv_bytes s) = length (wire m)"
    using claims bytes by simp
  have parts: "take (length (fst m)) (drop 12 (wire m @ rest)) = fst m"
    "take (length (snd m)) (drop (12 + length (fst m)) (wire m @ rest)) = snd m"
    by (simp_all add: wire_def)
  have lt: "length (wire m) < 2 ^ 32" using small by simp
  have mod: "length (wire m) mod 2 ^ 32 = length (wire m)" by (rule mod_less [OF lt])
  have al: "alloc_ok (ok 0) (length (wire m))" "alloc_ok (ok 1) (length (snd m))"
    using ok small by (simp_all add: alloc_ok_def ALLOC_MAX_def)
  have "dime_socket_parse json_loadb strerror ok s = (Pop_Message (length (wire m)) v (snd m), ?s')"
    unfolding parse_eq [OF inv] claim mod
    using bytes claims parts json al by simp
  then show thesis
    using that [of ?s'] discard_recv [OF inv, of "length (wire m)"] bytes by simp
qed

text \<open>A proper prefix of a message is left alone.\<close>

lemma parse_incomplete:
  assumes inv: "sock_inv s" and bytes: "recv_bytes s = take n (wire m)" and n: "n < length (wire m)"
    and small: "12 + length (fst m) + length (snd m) < 2 ^ 32" and ok: "ok 0"
  shows "dime_socket_parse json_loadb strerror ok s = (Pop_Incomplete, s)"
proof (cases "length (recv_bytes s) < 12")
  case True
  then show ?thesis unfolding parse_eq [OF inv] by simp
next
  case False
  then have n12: "12 \<le> n" using bytes by simp
  have "take 12 (recv_bytes s) = take 12 (wire m)" using bytes n12 by simp
  then have "claimed_json (recv_bytes s) = claimed_json (wire m @ [])"
    "claimed_bin (recv_bytes s) = claimed_bin (wire m @ [])"
    using claimed_prefix [of "recv_bytes s"] claimed_prefix [of "wire m"] False by simp_all
  moreover have "take 4 (recv_bytes s) = take 4 (wire m @ [])" using bytes n12 by simp
  ultimately have c: "claimed_json (recv_bytes s) = length (fst m)" "claimed_bin (recv_bytes s) = length (snd m)"
    "take 4 (recv_bytes s) = DIME_MAGIC"
    using claimed_wire [OF small, of "[]"] by simp_all
  have "12 + length (fst m) + length (snd m) = length (wire m)" by simp
  moreover have "length (wire m) mod 2 ^ 32 = length (wire m)" using small by simp
  moreover have "alloc_ok (ok 0) (length (wire m))" using ok small by (simp add: alloc_ok_def ALLOC_MAX_def)
  moreover have "length (recv_bytes s) < length (wire m)" using bytes n by simp
  ultimately show ?thesis unfolding parse_eq [OF inv] c using False by simp
qed

end
