(* ===== verification/Socket_Wire.thy ===== *)
theory Socket_Wire
  imports Socket_Stream
begin

text \<open>
  Whole conversations: a list of messages pushed on one socket, moved by any sequence of partial
  transfers, and popped on the other; and the WebSocket side, where the incoming bytes are a
  sequence of masked frames.
\<close>

section \<open>Partial transfers\<close>

lemma all_ok: "\<forall>i :: nat. (\<lambda>_. True) i"
  by simp

lemma sendpartial_ok:
  assumes inv: "sock_inv s" and "0 \<le> transport (take SENDBUFLEN (sent_bytes s))"
    and "transport (take SENDBUFLEN (sent_bytes s)) \<le> int (min SENDBUFLEN (length (sent_bytes s)))"
  obtains s' where "dime_socket_sendpartial strerror True transport s =
      (transport (take SENDBUFLEN (sent_bytes s)), s')"
    and "sock_inv s'"
    and "sent_bytes s' = drop (nat (transport (take SENDBUFLEN (sent_bytes s)))) (sent_bytes s)"
    and "s_rbuf s' = s_rbuf s" and "s_ws s' = s_ws s" and "s_zlib s' = s_zlib s"
proof -
  have w: "rb_inv (s_wbuf s)" using inv by (simp add: sock_inv_def)
  define n where "n = transport (take SENDBUFLEN (sent_bytes s))"
  have "n < 2 ^ 64" using assms(3) by (simp add: n_def SENDBUFLEN_def)
  then have conv: "ssize_to_size n = nat n" using assms(2) by (simp add: n_def ssize_to_size_nonneg)
  have al: "alloc_ok True SENDBUFLEN" by (simp add: alloc_ok_def SENDBUFLEN_def ALLOC_MAX_def)
  let ?s' = "s\<lparr>s_wbuf := snd (dime_ringbuffer_discard (s_wbuf s) (nat n))\<rparr>"
  have "dime_socket_sendpartial strerror True transport s = (n, ?s')"
    using al assms(2) conv
    by (simp add: dime_socket_sendpartial_def dime_ringbuffer_peek_eq [OF w] n_def Let_def)
  then show thesis
    using that [of ?s'] dime_ringbuffer_discard_step [OF w, of "nat n"] watched_discard [OF inv] inv
    by (simp add: sock_inv_def n_def)
qed

lemma recvpartial_ok:
  assumes inv: "sock_inv s" and plain: "s_ws s = None" "s_zlib s = None" and ok: "\<forall>i. ok i"
    and "2 * (length (recv_bytes s) + length buf) \<le> ALLOC_MAX"
  obtains s' where "dime_socket_recvpartial strerror ok (\<lambda>_. Some buf) s = (int (length buf), s')"
    and "sock_inv s'" and "recv_bytes s' = recv_bytes s @ buf"
    and "s_wbuf s' = s_wbuf s" and "s_ws s' = None" and "s_zlib s' = None"
proof -
  have r: "rb_inv (s_rbuf s)" using inv by (simp add: sock_inv_def)
  obtain r' where r': "dime_ringbuffer_write (ok 1) (s_rbuf s) buf = (int (length buf), r')" "rb_inv r'"
      "rb_bytes r' = recv_bytes s @ buf"
    using write_ok [OF r ok [rule_format] assms(5)] by blast
  have "alloc_ok (ok 0) RECVBUFLEN" using ok by (simp add: alloc_ok_def RECVBUFLEN_def ALLOC_MAX_def)
  then have "dime_socket_recvpartial strerror ok (\<lambda>_. Some buf) s = (int (length buf), s\<lparr>s_rbuf := r'\<rparr>)"
    using plain r'(1) by (simp add: dime_socket_recvpartial_def)
  then show thesis using that [of "s\<lparr>s_rbuf := r'\<rparr>"] r' inv plain by (simp add: sock_inv_def)
qed

text \<open>One transfer: up to \<open>n\<close> bytes leave the one socket and reach the other.\<close>

definition transfer :: "nat \<Rightarrow> dime_socket \<times> dime_socket \<Rightarrow> dime_socket \<times> dime_socket" where
  "transfer n ab =
     (let (k, a) = dime_socket_sendpartial '''' True (\<lambda>buf. int (min n (length buf))) (fst ab);
          sent = take (nat k) (sent_bytes (fst ab));
          (rc, b) = dime_socket_recvpartial '''' (\<lambda>_. True) (\<lambda>_. Some sent) (snd ab)
      in (a, b))"

definition linked :: "byte list \<Rightarrow> dime_socket \<times> dime_socket \<Rightarrow> bool" where
  "linked bs ab \<longleftrightarrow> sock_inv (fst ab) \<and> sock_inv (snd ab) \<and> s_ws (snd ab) = None \<and> s_zlib (snd ab) = None \<and>
     recv_bytes (snd ab) @ sent_bytes (fst ab) = bs"

lemma transfer_linked:
  assumes "linked bs ab" and "2 * length bs \<le> ALLOC_MAX"
  shows "linked bs (transfer n ab)"
proof -
  obtain a b where ab: "ab = (a, b)" by (cases ab)
  have l: "sock_inv a" "sock_inv b" "s_ws b = None" "s_zlib b = None" "recv_bytes b @ sent_bytes a = bs"
    using assms(1) by (simp_all add: linked_def ab)
  define k where "k = min n (length (take SENDBUFLEN (sent_bytes a)))"
  obtain a' where a': "dime_socket_sendpartial '''' True (\<lambda>buf. int (min n (length buf))) a = (int k, a')"
    "sock_inv a'" "sent_bytes a' = drop k (sent_bytes a)"
    by (rule sendpartial_ok [OF l(1), of "\<lambda>buf. int (min n (length buf))" "''''"]) (auto simp: k_def)
  have kle: "k \<le> length (sent_bytes a)" by (simp add: k_def)
  have "2 * (length (recv_bytes b) + length (take k (sent_bytes a))) \<le> ALLOC_MAX"
    using assms(2) kle unfolding l(5) [symmetric] by simp
  then obtain b' where b': "dime_socket_recvpartial '''' (\<lambda>_. True) (\<lambda>_. Some (take k (sent_bytes a))) b =
      (int (length (take k (sent_bytes a))), b')" "sock_inv b'"
    "recv_bytes b' = recv_bytes b @ take k (sent_bytes a)" "s_ws b' = None" "s_zlib b' = None"
    by (rule recvpartial_ok [OF l(2-4) all_ok, of _ "''''"])
  have "transfer n ab = (a', b')" using a'(1) b'(1) by (simp add: transfer_def ab)
  then show ?thesis using a' b' l(5) by (simp add: linked_def)
qed

lemma transfers_linked:
  "linked bs ab \<Longrightarrow> 2 * length bs \<le> ALLOC_MAX \<Longrightarrow> linked bs (fold transfer ns ab)"
  by (induction ns arbitrary: ab) (simp_all add: transfer_linked)

section \<open>Lists of messages\<close>

fun push_messages :: "(byte list \<times> byte list) list \<Rightarrow> dime_socket \<Rightarrow> dime_socket" where
  "push_messages [] s = s"
| "push_messages (m # ms) s =
     push_messages ms (snd (dime_socket_push_str '''' (\<lambda>_. True) s (fst m) (snd m)))"

fun pop_messages ::
  "(byte list \<Rightarrow> string + 'j) \<Rightarrow> nat \<Rightarrow> dime_socket \<Rightarrow> ('j \<times> byte list) list \<times> dime_socket" where
  "pop_messages json_loadb 0 s = ([], s)"
| "pop_messages json_loadb (Suc n) s =
     (case dime_socket_pop json_loadb '''' (\<lambda>_. True) s of
        Some (Pop_Message _ v b, s') \<Rightarrow> apfst ((#) (v, b)) (pop_messages json_loadb n s')
      | _ \<Rightarrow> ([], s))"

lemma push_messages_bytes:
  assumes "sock_inv s" and "s_ws s = None" and "\<forall>m \<in> set ms. 0 \<notin> set (fst m)"
    and "2 * (length (sent_bytes s) + 10 + length (concat (map wire ms))) \<le> ALLOC_MAX"
  shows "sock_inv (push_messages ms s) \<and> sent_bytes (push_messages ms s) = sent_bytes s @ concat (map wire ms)"
  using assms
proof (induction ms arbitrary: s)
  case Nil
  then show ?case by simp
next
  case (Cons m ms)
  have "2 * (length (sent_bytes s) + 10 + length (wire m)) \<le> ALLOC_MAX" using Cons.prems(4) by simp
  moreover have nul: "0 \<notin> set (fst m)" using Cons.prems(3) by simp
  ultimately obtain s' where s0: "dime_socket_push_str '''' (\<lambda>_. True) s (fst m) (snd m) =
      (int (length (ws_prefix s m) + length (wire m)), s')"
    "sent_bytes s' = sent_bytes s @ ws_prefix s m @ wire m" "sock_inv s'" "s_ws s' = s_ws s"
    using push_str_success [OF Cons.prems(1) nul all_ok] by metis
  have s': "snd (dime_socket_push_str '''' (\<lambda>_. True) s (fst m) (snd m)) = s'"
    "sent_bytes s' = sent_bytes s @ wire m" "sock_inv s'" "s_ws s' = None"
    using s0 Cons.prems(2) by (simp_all add: ws_prefix_def)
  have "sock_inv (push_messages ms s') \<and> sent_bytes (push_messages ms s') = sent_bytes s' @ concat (map wire ms)"
    using Cons.prems(3,4) s' by (intro Cons.IH) simp_all
  then show ?case using s' by simp
qed

lemma pop_messages_bytes:
  assumes "sock_inv s" and "s_ws s = None" and "recv_bytes s = concat (map wire ms) @ rest"
    and "\<forall>m \<in> set ms. wire_ok m \<and> json_loadb (fst m) = Inr (f (fst m))"
  shows "\<exists>s'. pop_messages json_loadb (length ms) s = (map (\<lambda>m. (f (fst m), snd m)) ms, s') \<and>
    sock_inv s' \<and> recv_bytes s' = rest"
  using assms
proof (induction ms arbitrary: s)
  case Nil
  then show ?case by simp
next
  case (Cons m ms)
  have bytes: "recv_bytes s = wire m @ (concat (map wire ms) @ rest)" using Cons.prems(3) by simp
  have small: "12 + length (fst m) + length (snd m) < 2 ^ 32" using Cons.prems(4) by (simp add: wire_ok_def)
  have json: "json_loadb (fst m) = Inr (f (fst m))" using Cons.prems(4) by simp
  obtain s' where s': "dime_socket_parse json_loadb '''' (\<lambda>_. True) s =
      (Pop_Message (length (wire m)) (f (fst m)) (snd m), s')"
    "sock_inv s'" "recv_bytes s' = concat (map wire ms) @ rest" "s_ws s' = s_ws s"
    by (rule parse_wire [where json_loadb = json_loadb and v = "f (fst m)" and ok = "\<lambda>_. True"
          and strerror = "''''", OF Cons.prems(1) bytes small json]) simp_all
  have "\<exists>s''. pop_messages json_loadb (length ms) s' = (map (\<lambda>m. (f (fst m), snd m)) ms, s'') \<and>
      sock_inv s'' \<and> recv_bytes s'' = rest"
    using Cons.prems s' by (intro Cons.IH) simp_all
  then show ?case using s'(1) Cons.prems(2) by (auto simp: dime_socket_pop_def)
qed

section \<open>WebSocket frames\<close>

text \<open>A frame as a client sends it (RFC 6455): masked, with the shortest length field.\<close>

definition ws_frame :: "byte \<Rightarrow> byte list \<Rightarrow> byte list \<Rightarrow> byte list" where
  "ws_frame b0 key payload =
     (let n = length payload
      in if n < 126 then [b0, word_of_nat n OR 0x80] @ key @ ws_unmask key payload
         else if n < 65536 then [b0, 126 OR 0x80] @ be_bytes 2 n @ key @ ws_unmask key payload
         else [b0, 127 OR 0x80] @ be_bytes 8 n @ key @ ws_unmask key payload)"

definition ws_hdr_len :: "nat \<Rightarrow> nat" where
  "ws_hdr_len n = (if n < 126 then 6 else if n < 65536 then 8 else 14)"

lemma length_ws_frame: "length key = 4 \<Longrightarrow> length (ws_frame b0 key p) = ws_hdr_len (length p) + length p"
  by (simp add: ws_frame_def ws_hdr_len_def Let_def)

lemma drop_ws_frame: "length key = 4 \<Longrightarrow> drop (ws_hdr_len (length p)) (ws_frame b0 key p) = ws_unmask key p"
  by (simp add: ws_frame_def ws_hdr_len_def Let_def)

lemma masked_len_byte:
  fixes n :: nat
  assumes "n < 128"
  shows "ws_masked (word_of_nat n OR 0x80)" and "ws_len7 (word_of_nat n OR 0x80) = n"
proof -
  let ?w = "word_of_nat n :: byte"
  have n: "unat ?w = n" using assms by (simp add: unsigned_of_nat take_bit_nat_eq_self)
  have high: "\<not> bit ?w 7"
  proof -
    have "\<not> bit n 7" using assms by (simp add: bit_iff_odd)
    then show ?thesis by (simp add: bit_simps)
  qed
  have m: "bit (0x80 :: byte) i \<longleftrightarrow> i = 7" for i
  proof -
    have "(0x80 :: byte) = push_bit 7 1" by simp
    then show ?thesis by (simp only: bit_simps) auto
  qed
  have "bit ((?w OR 0x80) AND 0x80) 7" by (simp add: bit_or_iff bit_and_iff m)
  then show "ws_masked (?w OR 0x80)" unfolding ws_masked_def by auto
  have "(?w OR 0x80) AND NOT 0x80 = ?w"
  proof (rule bit_word_eqI)
    fix i assume i: "i < LENGTH(8)"
    then show "bit ((?w OR 0x80) AND NOT 0x80) i = bit ?w i"
      unfolding bit_or_iff bit_and_iff bit_not_iff m using high by auto
  qed
  then show "ws_len7 (?w OR 0x80) = n" using n by (simp only: ws_len7_def)
qed

lemma masked_len_lits:
  "ws_masked (126 OR 0x80)" "ws_len7 (126 OR 0x80) = 126" "ws_masked (127 OR 0x80)" "ws_len7 (127 OR 0x80) = 127"
  using masked_len_byte [of 126] masked_len_byte [of 127] by simp_all

text \<open>What the parser sees of a frame, in full and cut short.\<close>

lemma ws_in_header_small:
  assumes "length key = 4" and "n < 126"
  shows "ws_in_header (b0 # (word_of_nat n OR 0x80) # key @ t) = Some (6, n, key)"
  using assms masked_len_byte(2) [of n] by (simp add: ws_in_header_def Let_def)

lemma ws_in_header_126:
  assumes "length key = 4" and "n < 65536"
  shows "ws_in_header (b0 # (126 OR 0x80) # be_bytes 2 n @ key @ t) = Some (8, n, key)"
  using assms masked_len_lits be_value_bytes [of 2 n] by (simp add: ws_in_header_def Let_def)

lemma ws_in_header_127:
  assumes "length key = 4" and "n < 2 ^ 64"
  shows "ws_in_header (b0 # (127 OR 0x80) # be_bytes 8 n @ key) = Some (14, n, key)"
  using assms masked_len_lits be_value_bytes [of 8 n] by (simp add: ws_in_header_def Let_def)

lemma ws_in_header_frame:
  assumes key: "length key = 4" and n: "length p < 2 ^ 64"
  shows "ws_in_header (take 14 (ws_frame b0 key p @ rest)) = Some (ws_hdr_len (length p), length p, key)"
    and "ws_masked (take 14 (ws_frame b0 key p @ rest) ! 1)"
proof -
  have "ws_in_header (take 14 (ws_frame b0 key p @ rest)) = Some (ws_hdr_len (length p), length p, key) \<and>
      ws_masked (take 14 (ws_frame b0 key p @ rest) ! 1)"
  proof (cases "length p < 126")
    case True
    have "take 14 (ws_frame b0 key p @ rest) =
        b0 # (word_of_nat (length p) OR 0x80) # key @ take 8 (ws_unmask key p @ rest)"
      using True key by (simp add: ws_frame_def)
    then show ?thesis using ws_in_header_small [OF key True] masked_len_byte(1) [of "length p"] True
      by (simp add: ws_hdr_len_def)
  next
    case ge: False
    show ?thesis
    proof (cases "length p < 65536")
      case True
      have "take 14 (ws_frame b0 key p @ rest) =
          b0 # (126 OR 0x80) # be_bytes 2 (length p) @ key @ take 6 (ws_unmask key p @ rest)"
        using True ge key by (simp add: ws_frame_def)
      then show ?thesis using ws_in_header_126 [OF key True] masked_len_lits ge True
        by (simp add: ws_hdr_len_def)
    next
      case False
      have "take 14 (ws_frame b0 key p @ rest) = b0 # (127 OR 0x80) # be_bytes 8 (length p) @ key"
        using False ge key by (simp add: ws_frame_def)
      then show ?thesis using ws_in_header_127 [OF key n] masked_len_lits ge False
        by (simp add: ws_hdr_len_def)
    qed
  qed
  then show "ws_in_header (take 14 (ws_frame b0 key p @ rest)) = Some (ws_hdr_len (length p), length p, key)"
    and "ws_masked (take 14 (ws_frame b0 key p @ rest) ! 1)" by auto
qed

text \<open>Bytes that the loop leaves for later: no header yet, or a frame that is not complete.\<close>

definition ws_waiting :: "byte list \<Rightarrow> bool" where
  "ws_waiting bs \<longleftrightarrow>
     (case ws_in_header (take 14 bs) of
        None \<Rightarrow> True
      | Some (hdr_len, frame_len, key) \<Rightarrow>
          ws_masked (take 14 bs ! 1) \<and> hdr_len + frame_len \<le> ALLOC_MAX \<and> length bs < hdr_len + frame_len)"

lemma ws_waiting_Nil: "ws_waiting []"
  by (simp add: ws_waiting_def ws_in_header_def)

lemma unwrap_frame:
  assumes inv: "sock_inv s" "rb_inv ws" and bytes: "rb_bytes ws = ws_frame b0 key p @ rest"
    and key: "length key = 4" and ok: "\<forall>i. ok i"
    and room: "2 * (length (recv_bytes s) + length p) \<le> ALLOC_MAX" "14 + length p \<le> ALLOC_MAX"
  obtains s' ws' where "dime_socket_unwrap (Suc n) strerror ok s ws = dime_socket_unwrap n strerror ok s' ws'"
    and "sock_inv s'" and "rb_inv ws'" and "rb_bytes ws' = rest" and "recv_bytes s' = recv_bytes s @ p"
    and "s_wbuf s' = s_wbuf s" and "s_zlib s' = s_zlib s"
proof -
  let ?h = "ws_hdr_len (length p)"
  let ?m = "?h + length p"
  have h: "?h \<le> 14" by (simp add: ws_hdr_len_def)
  have n64: "length p < 2 ^ 64" using room(2) by (simp add: ALLOC_MAX_def)
  have peek14: "dime_ringbuffer_peek ws 14 = take 14 (ws_frame b0 key p @ rest)"
    using dime_ringbuffer_peek_eq [OF inv(2)] bytes by simp
  note hdr = ws_in_header_frame [OF key n64, of b0 rest]
  have m64: "?m < 2 ^ 64" and al: "alloc_ok True ?m"
    using h room(2) by (simp_all add: ALLOC_MAX_def alloc_ok_def)
  have siz: "sz_add ?h (length p) = ?m" by (rule sz_add_small [OF m64])
  have peek: "dime_ringbuffer_peek ws ?m = ws_frame b0 key p"
    using dime_ringbuffer_peek_eq [OF inv(2)] bytes length_ws_frame [OF key] by simp
  have frame: "ws_unmask key (drop ?h (ws_frame b0 key p)) = p"
    using drop_ws_frame [OF key] by (simp add: ws_unmask_unmask)
  have r: "rb_inv (s_rbuf s)" using inv(1) by (simp add: sock_inv_def)
  obtain r' where r': "dime_ringbuffer_write (ok (2 * n + 1)) (s_rbuf s) p = (int (length p), r')" "rb_inv r'"
      "rb_bytes r' = recv_bytes s @ p"
    using write_ok [OF r ok [rule_format] room(1)] by blast
  let ?ws' = "snd (dime_ringbuffer_discard ws ?m)"
  have ws': "rb_inv ?ws'" "rb_bytes ?ws' = rest"
    using dime_ringbuffer_discard_step [OF inv(2), of ?m] bytes length_ws_frame [OF key, of b0 p] by simp_all
  have "dime_socket_unwrap (Suc n) strerror ok s ws = dime_socket_unwrap n strerror ok (s\<lparr>s_rbuf := r'\<rparr>) ?ws'"
    unfolding dime_socket_unwrap.simps Let_def peek14
    using hdr siz peek frame r'(1) al ok length_ws_frame [OF key, of b0 p] by simp
  then show thesis using that [of "s\<lparr>s_rbuf := r'\<rparr>" ?ws'] inv(1) r' ws' by (simp add: sock_inv_def)
qed

lemma unwrap_waiting:
  assumes "rb_inv ws" and "ws_waiting (rb_bytes ws)" and "\<forall>i. ok i"
  shows "dime_socket_unwrap (Suc n) strerror ok s ws = Some (Ws_Done, s\<lparr>s_ws := Some ws\<rparr>)"
proof -
  have peek: "dime_ringbuffer_peek ws k = take k (rb_bytes ws)" for k
    by (rule dime_ringbuffer_peek_eq [OF assms(1)])
  show ?thesis
  proof (cases "ws_in_header (take 14 (rb_bytes ws))")
    case None
    then show ?thesis by (simp add: peek)
  next
    case (Some x)
    obtain h l k where x: "x = (h, l, k)" by (cases x)
    have w: "ws_masked (take 14 (rb_bytes ws) ! 1)" "h + l \<le> ALLOC_MAX" "r_len ws < h + l"
      using assms(2) Some by (simp_all add: ws_waiting_def x)
    have "h + l < 2 ^ 64" using w(2) by (simp add: ALLOC_MAX_def)
    then have "sz_add h l = h + l" by (rule sz_add_small)
    then show ?thesis using Some w assms(3) by (simp add: peek x alloc_ok_def)
  qed
qed

text \<open>A list of frames, then bytes that wait.\<close>

definition ws_stream :: "(byte \<times> byte list \<times> byte list) list \<Rightarrow> byte list" where
  "ws_stream fs = concat (map (\<lambda>(b0, key, p). ws_frame b0 key p) fs)"

definition ws_payload :: "(byte \<times> byte list \<times> byte list) list \<Rightarrow> byte list" where
  "ws_payload fs = concat (map (\<lambda>(b0, key, p). p) fs)"

lemma unwrap_frames:
  assumes "sock_inv s" and "rb_inv ws" and "rb_bytes ws = ws_stream fs @ rest" and "ws_waiting rest"
    and "\<forall>(b0, key, p) \<in> set fs. length key = 4" and "\<forall>i. ok i"
    and "2 * (14 + length (recv_bytes s) + length (ws_payload fs)) \<le> ALLOC_MAX" and "length fs < n"
  shows "\<exists>s' ws'. dime_socket_unwrap n strerror ok s ws = Some (Ws_Done, s') \<and> sock_inv s' \<and>
    s_ws s' = Some ws' \<and> rb_bytes ws' = rest \<and> recv_bytes s' = recv_bytes s @ ws_payload fs \<and>
    s_wbuf s' = s_wbuf s"
  using assms
proof (induction fs arbitrary: s ws n)
  case Nil
  obtain n' where n: "n = Suc n'" using Nil.prems(8) by (cases n) auto
  have "ws_waiting (rb_bytes ws)" using Nil.prems(3,4) by (simp add: ws_stream_def)
  then have "dime_socket_unwrap n strerror ok s ws = Some (Ws_Done, s\<lparr>s_ws := Some ws\<rparr>)"
    unfolding n using unwrap_waiting [OF Nil.prems(2)] Nil.prems(6) by blast
  then show ?case using Nil.prems(1-3) by (simp add: ws_stream_def ws_payload_def sock_inv_def)
next
  case (Cons f fs)
  obtain b0 key p where f: "f = (b0, key, p)" by (cases f)
  obtain n' where n: "n = Suc n'" using Cons.prems(8) by (cases n) auto
  have bytes: "rb_bytes ws = ws_frame b0 key p @ (ws_stream fs @ rest)"
    using Cons.prems(3) by (simp add: ws_stream_def f)
  have key: "length key = 4" using Cons.prems(5) by (simp add: f)
  have room: "2 * (length (recv_bytes s) + length p) \<le> ALLOC_MAX" "14 + length p \<le> ALLOC_MAX"
    using Cons.prems(7) by (simp_all add: ws_payload_def f)
  obtain s' ws' where step: "dime_socket_unwrap (Suc n') strerror ok s ws = dime_socket_unwrap n' strerror ok s' ws'"
    "sock_inv s'" "rb_inv ws'" "rb_bytes ws' = ws_stream fs @ rest" "recv_bytes s' = recv_bytes s @ p"
    "s_wbuf s' = s_wbuf s"
    by (rule unwrap_frame [OF Cons.prems(1,2) bytes key Cons.prems(6) room])
  have room': "2 * (14 + length (recv_bytes s') + length (ws_payload fs)) \<le> ALLOC_MAX"
    using Cons.prems(7) step(5) by (simp add: ws_payload_def f)
  have "\<exists>s'' ws''. dime_socket_unwrap n' strerror ok s' ws' = Some (Ws_Done, s'') \<and> sock_inv s'' \<and>
      s_ws s'' = Some ws'' \<and> rb_bytes ws'' = rest \<and> recv_bytes s'' = recv_bytes s' @ ws_payload fs \<and>
      s_wbuf s'' = s_wbuf s'"
    using Cons.prems(5,8) n
    by (intro Cons.IH [OF step(2-4) Cons.prems(4) _ Cons.prems(6) room']) auto
  then show ?case unfolding n step(1) using step(5,6) by (auto simp: ws_payload_def f)
qed

text \<open>The loop ends on every input: each turn takes at least six bytes.\<close>

lemma ws_in_header_len: "ws_in_header h = Some (hdr_len, frame_len, key) \<Longrightarrow> 6 \<le> hdr_len"
  by (auto simp: ws_in_header_def Let_def split: if_splits)

lemma unwrap_terminates:
  assumes "rb_inv ws" and "r_len ws < n"
  shows "dime_socket_unwrap n strerror ok s ws \<noteq> None"
  using assms
proof (induction n arbitrary: s ws)
  case 0
  then show ?case by simp
next
  case (Suc n)
  have "dime_socket_unwrap n strerror ok s' (snd (dime_ringbuffer_discard ws m)) \<noteq> None"
    if "6 \<le> m" "m \<le> r_len ws" for s' m
  proof (rule Suc.IH)
    show "rb_inv (snd (dime_ringbuffer_discard ws m))"
      using dime_ringbuffer_discard_step [OF Suc.prems(1)] by blast
    have "length (rb_bytes (snd (dime_ringbuffer_discard ws m))) = r_len ws - m"
      using dime_ringbuffer_discard_step [OF Suc.prems(1), of m] by simp
    then show "r_len (snd (dime_ringbuffer_discard ws m)) < n" using that Suc.prems(2) by simp
  qed
  then show ?case
    using ws_in_header_len [of "dime_ringbuffer_peek ws 14"] dime_ringbuffer_peek_eq [OF Suc.prems(1)]
    by (auto simp: Let_def split: option.split prod.split)
qed

end
