(* ===== verification/Socket_Props.thy ===== *)
theory Socket_Props
  imports Socket_Wire
begin

text \<open>
  The properties of the message framing of \<^verbatim>\<open>server/socket.c\<close>.
\<close>

lemma rb_bytes_empty_iff: "rb_bytes r = [] \<longleftrightarrow> r_len r = 0"
  using length_rb_bytes [of r] by (metis length_0_conv)

section \<open>Every call keeps the invariant\<close>

text \<open>The bytes that have been received and not yet been parsed.\<close>

definition unread :: "dime_socket \<Rightarrow> nat" where
  "unread s = length (recv_bytes s) + (case s_ws s of None \<Rightarrow> 0 | Some ws \<Rightarrow> length (rb_bytes ws))"

lemma unwrap_inv:
  "sock_inv s \<Longrightarrow> rb_inv ws \<Longrightarrow> dime_socket_unwrap n strerror ok s ws = Some (r, s') \<Longrightarrow>
   sock_inv s' \<and> s_wbuf s' = s_wbuf s \<and> s_fd s' = s_fd s \<and>
   unread s' \<le> length (recv_bytes s) + length (rb_bytes ws)"
proof (induction n arbitrary: s ws)
  case 0
  then show ?case by simp
next
  case (Suc n)
  have ws: "sock_inv (s\<lparr>s_ws := Some ws\<rparr>)" "sock_inv (set_err e (s\<lparr>s_ws := Some ws\<rparr>))" for e
    using Suc.prems(1,2) by (simp_all add: sock_inv_def set_err_def)
  have peek: "dime_ringbuffer_peek ws k = take k (rb_bytes ws)" for k
    by (rule dime_ringbuffer_peek_eq [OF Suc.prems(2)])
  have left: "unread (s\<lparr>s_ws := Some ws\<rparr>) = length (recv_bytes s) + length (rb_bytes ws)"
    "unread (s\<lparr>s_ws := Some ws, s_err := e\<rparr>) = length (recv_bytes s) + length (rb_bytes ws)" for e
    by (simp_all add: unread_def)
  show ?case
  proof (cases "ws_in_header (take 14 (rb_bytes ws))")
    case None
    then show ?thesis using Suc.prems ws left by (auto simp: peek)
  next
    case (Some x)
    obtain h l k where x: "x = (h, l, k)" by (cases x)
    let ?m = "sz_add h l"
    let ?f = "ws_unmask k (drop h (take ?m (rb_bytes ws)))"
    obtain rc rb where wr: "dime_ringbuffer_write (ok (2 * n + 1)) (s_rbuf s) ?f = (rc, rb)"
      by (cases "dime_ringbuffer_write (ok (2 * n + 1)) (s_rbuf s) ?f")
    have go: "sock_inv s' \<and> s_wbuf s' = s_wbuf s \<and> s_fd s' = s_fd s \<and>
        unread s' \<le> length (recv_bytes s) + length (rb_bytes ws)"
      if al: "alloc_ok (ok (2 * n)) ?m"
        and run: "dime_socket_unwrap n strerror ok (s\<lparr>s_rbuf := rb\<rparr>) (snd (dime_ringbuffer_discard ws ?m)) = Some (r, s')"
    proof -
      have "length ?f \<le> length (take ?m (rb_bytes ws))" by (metis length_ws_unmask length_drop diff_le_self)
      also have "\<dots> \<le> ?m" by simp
      finally have "length ?f \<le> ?m" .
      then have "length ?f \<le> ALLOC_MAX" using al by (simp add: alloc_ok_def)
      then have rb: "rb_inv rb" and grown: "length (rb_bytes rb) \<le> length (recv_bytes s) + length ?f"
        using dime_ringbuffer_write_step [of "s_rbuf s" ?f "ok (2 * n + 1)"] wr Suc.prems(1)
        by (simp_all add: sock_inv_def split: if_splits)
      have "length ?f \<le> length (take ?m (rb_bytes ws))" by (metis length_ws_unmask length_drop diff_le_self)
      then have moved: "length ?f + length (drop ?m (rb_bytes ws)) \<le> length (rb_bytes ws)" by simp
      have s1: "sock_inv (s\<lparr>s_rbuf := rb\<rparr>)" using rb Suc.prems(1) by (simp add: sock_inv_def)
      have d: "rb_inv (snd (dime_ringbuffer_discard ws ?m))"
        "rb_bytes (snd (dime_ringbuffer_discard ws ?m)) = drop ?m (rb_bytes ws)"
        using dime_ringbuffer_discard_step [OF Suc.prems(2)] by blast+
      show ?thesis using Suc.IH [OF s1 d(1) run] grown moved unfolding d(2) by simp
    qed
    show ?thesis
      using Suc.prems(3) Some ws go wr left
      by (auto simp: peek x Let_def set_err_def split: if_splits)
  qed
qed

lemma sendpartial_inv: "sock_inv sock \<Longrightarrow> sock_inv (snd (dime_socket_sendpartial e ok send sock))"
  using dime_ringbuffer_discard_step [of "s_wbuf sock"] watched_discard [of sock]
  by (simp add: dime_socket_sendpartial_def Let_def sock_inv_def set_err_def)

lemma parse_inv:
  assumes "sock_inv s" and "dime_socket_parse json_loadb strerror ok s = (r, s')"
  shows "sock_inv s' \<and> s_wbuf s' = s_wbuf s \<and> s_ws s' = s_ws s \<and> s_fd s' = s_fd s"
  using assms(2) discard_recv(1) [OF assms(1)] assms(1) unfolding parse_eq [OF assms(1)]
  by (auto simp: sock_inv_def set_err_def split: if_splits sum.splits)

lemma pop_inv:
  assumes inv: "sock_inv s" and pop: "dime_socket_pop json_loadb strerror ok s = Some (r, s')"
  shows "sock_inv s' \<and> s_wbuf s' = s_wbuf s \<and> s_fd s' = s_fd s"
proof (cases "s_ws s")
  case None
  then have "dime_socket_parse json_loadb strerror ok s = (r, s')" using pop by (simp add: dime_socket_pop_def)
  then show ?thesis using parse_inv [OF inv] by blast
next
  case (Some ws)
  then have ws: "rb_inv ws" using inv by (simp add: sock_inv_def)
  obtain w s1 where run: "dime_socket_unwrap (Suc (dime_ringbuffer_len ws)) strerror (\<lambda>i. ok (i + 2)) s ws = Some (w, s1)"
    using pop Some by (auto simp: dime_socket_pop_def split: option.splits)
  note u = unwrap_inv [OF inv ws run]
  show ?thesis
  proof (cases w)
    case Ws_Done
    then have "dime_socket_parse json_loadb strerror ok s1 = (r, s')"
      using pop Some run by (simp add: dime_socket_pop_def)
    then show ?thesis using parse_inv [of s1 json_loadb strerror ok r s'] u by simp
  qed (use pop Some run u in \<open>auto simp: dime_socket_pop_def\<close>)
qed

text \<open>A message takes its header, 12 bytes at least, from what has been received.\<close>

lemma parse_unread:
  assumes "sock_inv s" and "dime_socket_parse json_loadb strerror ok s = (r, s')"
  shows "unread s' + (case r of Pop_Message siz j bin \<Rightarrow> 12 | _ \<Rightarrow> 0) \<le> unread s"
proof -
  have "length (rb_bytes (snd (dime_ringbuffer_discard (s_rbuf s) n))) = length (recv_bytes s) - n" for n
    using discard_recv(2) [OF assms(1), of n] by simp
  then have "r_len (snd (dime_ringbuffer_discard (s_rbuf s) n)) = r_len (s_rbuf s) - n" for n by simp
  then show ?thesis using assms(2) unfolding parse_eq [OF assms(1)]
    by (auto simp: unread_def set_err_def split: if_splits sum.splits)
qed

lemma pop_unread:
  assumes inv: "sock_inv s" and pop: "dime_socket_pop json_loadb strerror ok s = Some (r, s')"
  shows "unread s' + (case r of Pop_Message siz j bin \<Rightarrow> 12 | _ \<Rightarrow> 0) \<le> unread s"
proof (cases "s_ws s")
  case None
  then have "dime_socket_parse json_loadb strerror ok s = (r, s')" using pop by (simp add: dime_socket_pop_def)
  then show ?thesis by (rule parse_unread [OF inv])
next
  case (Some ws)
  then have ws: "rb_inv ws" using inv by (simp add: sock_inv_def)
  obtain w s1 where run: "dime_socket_unwrap (Suc (dime_ringbuffer_len ws)) strerror (\<lambda>i. ok (i + 2)) s ws = Some (w, s1)"
    using pop Some by (auto simp: dime_socket_pop_def split: option.splits)
  have u: "sock_inv s1" "unread s1 \<le> unread s"
    using unwrap_inv [OF inv ws run] Some by (simp_all add: unread_def)
  show ?thesis
  proof (cases w)
    case Ws_Done
    then have "dime_socket_parse json_loadb strerror ok s1 = (r, s')"
      using pop Some run by (simp add: dime_socket_pop_def)
    then show ?thesis using parse_unread [of s1 json_loadb strerror ok r s'] u by simp
  qed (use pop Some run u in \<open>auto simp: dime_socket_pop_def\<close>)
qed

lemma parse_bin_len:
  assumes "sock_inv s" and "dime_socket_parse json_loadb strerror ok s = (Pop_Message siz j bin, s')"
  shows "length bin \<le> ALLOC_MAX"
  using assms(2) unfolding parse_eq [OF assms(1)]
  by (auto simp: alloc_ok_def split: if_splits sum.splits)

lemma pop_bin_len:
  assumes inv: "sock_inv s" and pop: "dime_socket_pop json_loadb strerror ok s = Some (Pop_Message siz j bin, s')"
  shows "length bin \<le> ALLOC_MAX"
proof (cases "s_ws s")
  case None
  then show ?thesis using parse_bin_len [OF inv] pop by (simp add: dime_socket_pop_def)
next
  case (Some ws)
  then have ws: "rb_inv ws" using inv by (simp add: sock_inv_def)
  obtain s1 where run: "dime_socket_unwrap (Suc (dime_ringbuffer_len ws)) strerror (\<lambda>i. ok (i + 2)) s ws = Some (Ws_Done, s1)"
    and p: "dime_socket_parse json_loadb strerror ok s1 = (Pop_Message siz j bin, s')"
    using pop Some by (auto simp: dime_socket_pop_def split: option.splits ws_result.splits)
  have "sock_inv s1" using unwrap_inv [OF inv ws run] by simp
  then show ?thesis by (rule parse_bin_len [OF _ p])
qed

lemma pop_total:
  assumes "sock_inv s"
  shows "dime_socket_pop json_loadb strerror ok s \<noteq> None"
proof (cases "s_ws s")
  case None
  then show ?thesis by (simp add: dime_socket_pop_def)
next
  case (Some ws)
  then have "rb_inv ws" using assms by (simp add: sock_inv_def)
  then have "dime_socket_unwrap (Suc (dime_ringbuffer_len ws)) strerror (\<lambda>i. ok (i + 2)) s ws \<noteq> None"
    by (rule unwrap_terminates) (simp add: dime_ringbuffer_len_def)
  then show ?thesis using Some by (auto simp: dime_socket_pop_def split: ws_result.split)
qed

section \<open>Properties\<close>

text \<open>A fresh socket for the witnesses, and one with a WebSocket buffer.\<close>

definition demo_sock :: dime_socket where
  "demo_sock = the (dime_socket_init (\<lambda>_. True) 3)"

lemma demo_sock:
  "sock_inv demo_sock" "sent_bytes demo_sock = []" "recv_bytes demo_sock = []" "s_ws demo_sock = None"
  "s_zlib demo_sock = None" "r_cap (s_wbuf demo_sock) = 1024" "r_len (s_wbuf demo_sock) = 0" "\<not> s_loop demo_sock"
proof -
  obtain r where r: "dime_ringbuffer_init True = Some r" using dime_ringbuffer_init_Some [OF TrueI] by blast
  have "r_cap r = 1024" "r_len r = 0" using ringbuffer_init_True r by simp_all
  then show "sock_inv demo_sock" "sent_bytes demo_sock = []" "recv_bytes demo_sock = []" "s_ws demo_sock = None"
    "s_zlib demo_sock = None" "r_cap (s_wbuf demo_sock) = 1024" "r_len (s_wbuf demo_sock) = 0" "\<not> s_loop demo_sock"
    using dime_ringbuffer_init_ok [OF r] by (simp_all add: demo_sock_def dime_socket_init_def r sock_inv_def)
qed

definition holding :: "byte list \<Rightarrow> dime_ringbuffer" where
  "holding bs = snd (dime_ringbuffer_write True (the (dime_ringbuffer_init True)) bs)"

lemma holding:
  assumes "2 * length bs \<le> ALLOC_MAX"
  shows "rb_inv (holding bs)" and "rb_bytes (holding bs) = bs"
proof -
  obtain r' where "dime_ringbuffer_write True (the (dime_ringbuffer_init True)) bs = (int (length bs), r')"
      "rb_inv r'" "rb_bytes r' = rb_bytes (the (dime_ringbuffer_init True)) @ bs"
    using write_ok [of "the (dime_ringbuffer_init True)" True bs] ringbuffer_init_True assms by auto
  then show "rb_inv (holding bs)" and "rb_bytes (holding bs) = bs"
    using ringbuffer_init_True by (simp_all add: holding_def)
qed

lemma demo_recv:
  assumes "2 * length bs \<le> ALLOC_MAX"
  shows "sock_inv (demo_sock\<lparr>s_rbuf := holding bs\<rparr>)" and "recv_bytes (demo_sock\<lparr>s_rbuf := holding bs\<rparr>) = bs"
  using holding [OF assms] demo_sock(1) by (simp_all add: sock_inv_def)

text \<open>
  C14. End to end: messages pushed on one socket with \<^verbatim>\<open>dime_socket_push_str\<close>, and moved to another
  by any sequence of \<^verbatim>\<open>dime_socket_sendpartial\<close> and \<^verbatim>\<open>dime_socket_recvpartial\<close> calls that each
  transfer any number of bytes, are popped there by \<^verbatim>\<open>dime_socket_pop\<close> one by one, in order,
  each with its JSON value and its binary data, once the sender's buffer is empty; nothing is
  left over.
\<close>

theorem socket_end_to_end:
  assumes "sock_inv a" and "s_ws a = None" and "sent_bytes a = []"
    and "sock_inv b" and "s_ws b = None" and "s_zlib b = None" and "recv_bytes b = []"
    and "\<forall>m \<in> set ms. wire_ok m \<and> json_loadb (fst m) = Inr (f (fst m))"
    and "2 * (10 + length (concat (map wire ms))) \<le> ALLOC_MAX"
    and "fold transfer ns (push_messages ms a, b) = (a', b')" and "dime_socket_sendlen a' = 0"
  shows "\<exists>b''. pop_messages json_loadb (length ms) b' = (map (\<lambda>m. (f (fst m), snd m)) ms, b'') \<and>
    dime_socket_recvlen b'' = 0"
proof -
  have nul: "\<forall>m \<in> set ms. 0 \<notin> set (fst m)" using assms(8) by (auto simp: wire_ok_def)
  have "2 * (length (sent_bytes a) + 10 + length (concat (map wire ms))) \<le> ALLOC_MAX" using assms(3,9) by simp
  then have push: "sock_inv (push_messages ms a)" "sent_bytes (push_messages ms a) = concat (map wire ms)"
    using push_messages_bytes [OF assms(1,2) nul] assms(3) by simp_all
  have "linked (concat (map wire ms)) (push_messages ms a, b)"
    using push assms(4-7) by (simp add: linked_def)
  moreover have "2 * length (concat (map wire ms)) \<le> ALLOC_MAX" using assms(9) by simp
  ultimately have "linked (concat (map wire ms)) (a', b')"
    using transfers_linked [of _ _ ns] assms(10) by metis
  moreover have "sent_bytes a' = []"
    using assms(11) by (simp add: dime_socket_sendlen_def dime_ringbuffer_len_def rb_bytes_empty_iff)
  ultimately have b': "sock_inv b'" "s_ws b' = None" "recv_bytes b' = concat (map wire ms) @ []"
    by (simp_all add: linked_def)
  obtain b'' where "pop_messages json_loadb (length ms) b' = (map (\<lambda>m. (f (fst m), snd m)) ms, b'')"
    "recv_bytes b'' = []"
    using pop_messages_bytes [OF b' assms(8)] by blast
  then show ?thesis by (simp add: dime_socket_recvlen_def dime_ringbuffer_len_def rb_bytes_empty_iff)
qed

lemma transfer_sent:
  assumes "sock_inv (fst ab)"
  shows "sent_bytes (fst (transfer n ab)) = drop (min n (min (length (sent_bytes (fst ab))) SENDBUFLEN)) (sent_bytes (fst ab))"
proof -
  obtain a' where "dime_socket_sendpartial '''' True (\<lambda>buf. int (min n (length buf))) (fst ab) =
      (int (min n (length (take SENDBUFLEN (sent_bytes (fst ab))))), a')"
    "sent_bytes a' = drop (nat (int (min n (length (take SENDBUFLEN (sent_bytes (fst ab))))))) (sent_bytes (fst ab))"
    by (rule sendpartial_ok [OF assms, of "\<lambda>buf. int (min n (length buf))" "''''"]) auto
  then show ?thesis by (simp add: transfer_def split_beta min.commute)
qed

theorem socket_end_to_end_witness:
  "\<exists>b''. pop_messages (\<lambda>bs. Inr (length bs)) 2 (snd (fold transfer [5, 100] (push_messages [([0x7B], [1]), ([0x7D], [])] demo_sock, demo_sock)))
     = ([(1, [1]), (1, [])], b'')"
proof -
  let ?ms = "[([0x7B], [1]), ([0x7D], [])] :: (byte list \<times> byte list) list"
  let ?st = "fold transfer [5, 100] (push_messages ?ms demo_sock, demo_sock)"
  have ok: "\<forall>m \<in> set ?ms. wire_ok m \<and> (\<lambda>bs. Inr (length bs) :: string + nat) (fst m) = Inr (length (fst m))"
    by (simp add: wire_ok_def)
  have room: "2 * (10 + length (concat (map wire ?ms))) \<le> ALLOC_MAX" by (simp add: ALLOC_MAX_def)
  have push: "sock_inv (push_messages ?ms demo_sock)" "sent_bytes (push_messages ?ms demo_sock) = concat (map wire ?ms)"
    using push_messages_bytes [OF demo_sock(1,4), of ?ms] demo_sock(2) by (simp_all add: ALLOC_MAX_def)
  have link: "linked (concat (map wire ?ms)) (push_messages ?ms demo_sock, demo_sock)"
    using push demo_sock by (simp add: linked_def)
  let ?s1 = "transfer 5 (push_messages ?ms demo_sock, demo_sock)"
  have big: "2 * length (concat (map wire ?ms)) \<le> ALLOC_MAX" by (simp add: ALLOC_MAX_def)
  have l1: "linked (concat (map wire ?ms)) ?s1" by (rule transfer_linked [OF link big])
  have "length (recv_bytes (snd ?s1) @ sent_bytes (fst ?s1)) = length (concat (map wire ?ms))"
    using l1 unfolding linked_def by (intro arg_cong [where f = length]) blast
  then have "length (sent_bytes (fst ?s1)) \<le> 27" by simp
  moreover have inv1: "sock_inv (fst ?s1)" using l1 by (simp add: linked_def)
  ultimately have "sent_bytes (fst (transfer 100 ?s1)) = []"
    using transfer_sent [OF inv1, of 100] by (simp add: SENDBUFLEN_def)
  then have "dime_socket_sendlen (fst ?st) = 0"
    by (simp add: dime_socket_sendlen_def dime_ringbuffer_len_def rb_bytes_empty_iff)
  then show ?thesis
    using socket_end_to_end [OF demo_sock(1,4,2,1,4,5,3) ok room, of "[5, 100]" "fst ?st" "snd ?st"]
    by (auto simp: numeral_2_eq_2 simp del: pop_messages.simps push_messages.simps)
qed

text \<open>
  A push on any answers of the allocator: \<^verbatim>\<open>dime_socket_push_str\<close> keeps the invariant, only
  appends to the out-buffer, and leaves the in-buffers alone; when every allocation succeeds it
  returns the number of bytes of the WebSocket header and the message, and has appended exactly
  these.
\<close>

theorem socket_push_spec:
  assumes "sock_inv s" and "0 \<notin> set json"
    and "2 * (dime_socket_sendlen s + 22 + length json + length bin) \<le> ALLOC_MAX"
  shows "\<exists>rc s' bs. dime_socket_push_str strerror ok s json bin = (rc, s') \<and> sock_inv s' \<and>
    sent_bytes s' = sent_bytes s @ bs \<and> s_rbuf s' = s_rbuf s \<and> s_ws s' = s_ws s \<and>
    (rc = -1 \<or> rc = int (length (ws_prefix s (json, bin)) + length (wire (json, bin)))) \<and>
    ((\<forall>i. ok i) \<longrightarrow> rc = int (length bs) \<and> bs = ws_prefix s (json, bin) @ wire (json, bin))"
proof (cases "\<forall>i. ok i")
  case True
  have room: "2 * (length (sent_bytes s) + 10 + length (wire (json, bin))) \<le> ALLOC_MAX"
    using assms(3) by (simp add: dime_socket_sendlen_def dime_ringbuffer_len_def)
  have nul: "0 \<notin> set (fst (json, bin))" using assms(2) by simp
  obtain s' where s': "dime_socket_push_str strerror ok s (fst (json, bin)) (snd (json, bin)) =
      (int (length (ws_prefix s (json, bin)) + length (wire (json, bin))), s')"
    "sent_bytes s' = sent_bytes s @ ws_prefix s (json, bin) @ wire (json, bin)" "sock_inv s'"
    "s_rbuf s' = s_rbuf s" "s_ws s' = s_ws s"
    by (rule push_str_success [OF assms(1) nul True room])
  show ?thesis
    by (rule exI [of _ "int (length (ws_prefix s (json, bin)) + length (wire (json, bin)))"],
        rule exI [of _ s'], rule exI [of _ "ws_prefix s (json, bin) @ wire (json, bin)"])
      (use s' in simp)
next
  case False
  have len: "length (fst (json, bin)) \<le> ALLOC_MAX" "length (snd (json, bin)) \<le> ALLOC_MAX"
    "0 \<notin> set (fst (json, bin))"
    using assms(2,3) by simp_all
  show ?thesis
    by (rule push_str_steps [OF assms(1) len, of strerror ok]) (use False in \<open>auto split: if_splits\<close>)
qed

theorem socket_push_spec_witness:
  "\<exists>s'. dime_socket_push_str '''' (\<lambda>_. True) demo_sock [0x7B, 0x7D] [1, 2, 3] = (17, s') \<and>
     sent_bytes s' = [0x44, 0x69, 0x4D, 0x45, 0, 0, 0, 2, 0, 0, 0, 3, 0x7B, 0x7D, 1, 2, 3]"
proof -
  have "2 * (dime_socket_sendlen demo_sock + 22 + length [0x7B, 0x7D :: byte] + length [1, 2, 3 :: byte]) \<le> ALLOC_MAX"
    using demo_sock by (simp add: dime_socket_sendlen_def dime_ringbuffer_len_def ALLOC_MAX_def)
  then obtain rc s' bs where "dime_socket_push_str '''' (\<lambda>_. True) demo_sock [0x7B, 0x7D] [1, 2, 3] = (rc, s')"
    "sent_bytes s' = sent_bytes demo_sock @ bs" "rc = int (length bs)"
    "bs = ws_prefix demo_sock ([0x7B, 0x7D], [1, 2, 3]) @ wire ([0x7B, 0x7D], [1, 2, 3])"
    using socket_push_spec [OF demo_sock(1), of "[0x7B, 0x7D]" "[1, 2, 3]" "''''" "\<lambda>_. True"] by auto
  then show ?thesis using demo_sock(2,4)
    by (simp add: ws_prefix_def wire_def dime_header_def DIME_MAGIC_def be_bytes_def upt_rec)
qed

text \<open>
  Failures that \<^verbatim>\<open>dime_socket_push_str\<close> does not notice: if the header is written and the write
  of the JSON text fails with -1, the comparison \<^verbatim>\<open>-1 < jsondata_len\<close> is done on unsigned
  numbers, so the call returns the full size as on success, with a header in the out-buffer
  whose JSON text is missing: the peer can no longer find the message boundaries.
\<close>

theorem socket_push_blind:
  assumes "s_ws s = None" and "0 \<notin> set json" and "length json \<le> ALLOC_MAX" and "length bin \<le> ALLOC_MAX"
    and "dime_ringbuffer_write (ok 1) (s_wbuf s) (dime_header (length json) (length bin)) = (12, w1)"
    and "dime_ringbuffer_write (ok 2) w1 json = (-1, w1)"
    and "dime_ringbuffer_write (ok 3) w1 bin = (int (length bin), w3)"
  shows "dime_socket_push_str strerror ok s json bin =
    (int (12 + length json + length bin), start_wwatcher s\<lparr>s_wbuf := w3\<rparr>)"
  unfolding dime_socket_push_str_def c_string_no_nul [OF assms(2)] Let_def start_wwatcher_fields
  using assms unsigned_never_short [OF assms(3)] unsigned_never_short [OF assms(4)] by simp

theorem socket_push_blind_witness:
  "\<exists>w3. dime_socket_push_str '''' (\<lambda>i. i \<noteq> 2) demo_sock (replicate 2000 65) [] =
      (2012, demo_sock\<lparr>s_wbuf := w3\<rparr>) \<and>
    rb_bytes w3 = dime_header 2000 0"
proof -
  let ?hd = "dime_header 2000 0" and ?j = "replicate 2000 (65 :: byte)"
  have w: "rb_inv (s_wbuf demo_sock)" using demo_sock(1) by (simp add: sock_inv_def)
  have "2 * (length (sent_bytes demo_sock) + length ?hd) \<le> ALLOC_MAX"
    unfolding demo_sock(2) by (simp add: ALLOC_MAX_def)
  then obtain w1 where w1: "dime_ringbuffer_write True (s_wbuf demo_sock) ?hd = (12, w1)" "rb_inv w1"
      "rb_bytes w1 = ?hd"
    using write_ok [OF w TrueI, of ?hd] demo_sock(2) by auto
  have cap: "r_cap w1 = 1024"
  proof -
    have "dime_ringbuffer_grow True (s_wbuf demo_sock) 12 = Some (s_wbuf demo_sock)"
      using demo_sock(6,7) by (simp add: dime_ringbuffer_grow_def sz_add_def)
    then show ?thesis using w1(1) demo_sock(6) by (auto simp: dime_ringbuffer_write_def Let_def)
  qed
  have l1: "r_len w1 = 12" using w1(3) length_rb_bytes [of w1] by simp
  have fails: "fst (dime_ringbuffer_write False w1 ?j) = -1"
    using dime_ringbuffer_write_rc [OF w1(2), of ?j False] cap l1
    by (simp add: ALLOC_MAX_def alloc_ok_def)
  have "length ?j \<le> ALLOC_MAX" by (simp add: ALLOC_MAX_def)
  then have f: "dime_ringbuffer_write False w1 ?j = (-1, w1)"
    using fails by (rule_tac write_cases [OF w1(2), of ?j False]) auto
  have e: "dime_ringbuffer_write True w1 [] = (int (length []), w1)" by (simp add: dime_ringbuffer_write_def)
  have "dime_socket_push_str '''' (\<lambda>i. i \<noteq> 2) demo_sock ?j [] =
      (int (12 + length ?j + length ([] :: byte list)), start_wwatcher demo_sock\<lparr>s_wbuf := w1\<rparr>)"
    by (rule socket_push_blind [OF demo_sock(4)]) (use w1 f e in \<open>simp_all add: ALLOC_MAX_def\<close>)
  then show ?thesis using w1(3) demo_sock(8) by auto
qed

text \<open>
  A message may arrive in pieces: while only a proper prefix of it has been received,
  \<^verbatim>\<open>dime_socket_pop\<close> returns 0 and changes nothing; when the rest has been received it returns
  the message, and what follows it stays in the in-buffer.
\<close>

theorem socket_incremental:
  assumes "sock_inv s" and "s_ws s = None" and "s_zlib s = None" and "wire_ok (json, bin)"
    and "json_loadb json = Inr v" and "recv_bytes s = xs" and "xs @ ys = wire (json, bin)" and "ys \<noteq> []"
    and "2 * (length (wire (json, bin)) + length zs) \<le> ALLOC_MAX" and "\<forall>i. ok i"
  shows "dime_socket_pop json_loadb strerror ok s = Some (Pop_Incomplete, s) \<and>
    (\<exists>s' s''. dime_socket_recvpartial strerror ok (\<lambda>_. Some (ys @ zs)) s = (int (length (ys @ zs)), s') \<and>
      dime_socket_pop json_loadb strerror ok s' = Some (Pop_Message (length (wire (json, bin))) v bin, s'') \<and>
      recv_bytes s'' = zs)"
proof
  have small: "12 + length (fst (json, bin)) + length (snd (json, bin)) < 2 ^ 32"
    using assms(4) by (simp add: wire_ok_def)
  have pre: "recv_bytes s = take (length xs) (wire (json, bin))" "length xs < length (wire (json, bin))"
    using assms(6-8) by (metis append_eq_conv_conj, metis length_append less_add_same_cancel1 length_greater_0_conv)
  show "dime_socket_pop json_loadb strerror ok s = Some (Pop_Incomplete, s)"
    using parse_incomplete [OF assms(1) pre small, of ok json_loadb strerror] assms(2,10)
    by (simp add: dime_socket_pop_def)
  have split: "length (wire (json, bin)) = length xs + length ys" using arg_cong [OF assms(7), of length] by simp
  have room: "2 * (length (recv_bytes s) + length (ys @ zs)) \<le> ALLOC_MAX"
    using assms(6,9) split by simp
  obtain s' where s': "dime_socket_recvpartial strerror ok (\<lambda>_. Some (ys @ zs)) s = (int (length (ys @ zs)), s')"
    "sock_inv s'" "recv_bytes s' = recv_bytes s @ (ys @ zs)" "s_ws s' = None"
    by (rule recvpartial_ok [OF assms(1-3,10) room])
  have bytes: "recv_bytes s' = wire (json, bin) @ zs" using s'(3) assms(6,7) by simp
  have json: "json_loadb (fst (json, bin)) = Inr v" using assms(5) by simp
  obtain s'' where "dime_socket_parse json_loadb strerror ok s' =
      (Pop_Message (length (wire (json, bin))) v (snd (json, bin)), s'')" "recv_bytes s'' = zs"
    by (rule parse_wire [where json_loadb = json_loadb and v = v and ok = ok and strerror = strerror,
          OF s'(2) bytes small json]) (use assms(10) in auto)
  then show "\<exists>s' s''. dime_socket_recvpartial strerror ok (\<lambda>_. Some (ys @ zs)) s = (int (length (ys @ zs)), s') \<and>
      dime_socket_pop json_loadb strerror ok s' = Some (Pop_Message (length (wire (json, bin))) v bin, s'') \<and>
      recv_bytes s'' = zs"
    using s'(1,4) by (simp add: dime_socket_pop_def)
qed

theorem socket_incremental_witness:
  "dime_socket_pop (\<lambda>bs. Inr (length bs)) '''' (\<lambda>_. True)
      (demo_sock\<lparr>s_rbuf := holding (take 15 (wire ([0x7B, 0x7D], [9, 9])))\<rparr>) =
    Some (Pop_Incomplete, demo_sock\<lparr>s_rbuf := holding (take 15 (wire ([0x7B, 0x7D], [9, 9])))\<rparr>)"
proof -
  let ?w = "wire ([0x7B, 0x7D], [9, 9])"
  let ?s = "demo_sock\<lparr>s_rbuf := holding (take 15 ?w)\<rparr>"
  have b: "2 * length (take 15 ?w) \<le> ALLOC_MAX" by (simp add: ALLOC_MAX_def)
  have "drop 15 ?w \<noteq> []" using length_wire [of "([0x7B, 0x7D], [9, 9])"] by simp
  then show ?thesis
    using socket_incremental [OF demo_recv(1) [OF b], of "[0x7B, 0x7D]" "[9, 9]" "\<lambda>bs. Inr (length bs)" 2
        "take 15 ?w" "drop 15 ?w" "[]" "\<lambda>_. True" "''''"] demo_sock(4,5) demo_recv(2) [OF b]
    by (simp add: wire_ok_def ALLOC_MAX_def)
qed

text \<open>
  C22. \<^verbatim>\<open>dime_socket_pop\<close> ends on every input, whatever bytes the peer sent: the unwrapping loop of
  a WebSocket connection takes at least six bytes per turn.  It keeps the invariant of all
  buffers and never touches the out-buffer; a message is only returned with the exact
  number of bytes that its header announces, and is then removed from the in-buffer.
\<close>

theorem socket_pop_total:
  assumes "sock_inv s"
  shows "\<exists>r s'. dime_socket_pop json_loadb strerror ok s = Some (r, s') \<and> sock_inv s' \<and>
    s_wbuf s' = s_wbuf s \<and> dime_socket_fd s' = dime_socket_fd s \<and>
    (s_ws s = None \<longrightarrow> (case r of
       Pop_Message n v b \<Rightarrow> n = 12 + claimed_json (recv_bytes s) + length b \<and> length b = claimed_bin (recv_bytes s) \<and>
         recv_bytes s' = drop n (recv_bytes s)
     | _ \<Rightarrow> recv_bytes s' = recv_bytes s))"
proof -
  obtain r s' where pop: "dime_socket_pop json_loadb strerror ok s = Some (r, s')"
    using pop_total [OF assms, of json_loadb strerror ok] by auto
  have "case r of
       Pop_Message n v b \<Rightarrow> n = 12 + claimed_json (recv_bytes s) + length b \<and> length b = claimed_bin (recv_bytes s) \<and>
         recv_bytes s' = drop n (recv_bytes s)
     | _ \<Rightarrow> recv_bytes s' = recv_bytes s" if "s_ws s = None"
  proof -
    have "dime_socket_parse json_loadb strerror ok s = (r, s')" using pop that by (simp add: dime_socket_pop_def)
    then show ?thesis
      unfolding parse_eq [OF assms] using discard_recv(2) [OF assms]
      by (auto simp: set_err_def min_def split: if_splits sum.splits)
  qed
  then show ?thesis using pop pop_inv [OF assms pop] by (simp add: dime_socket_fd_def)
qed

theorem socket_pop_total_witness:
  "\<exists>r s'. dime_socket_pop (\<lambda>_. Inl ''bad'' :: string + nat) '''' (\<lambda>_. False)
     (demo_sock\<lparr>s_rbuf := holding (replicate 100 0xFF)\<rparr>) = Some (r, s') \<and> sock_inv s'"
proof -
  have b: "2 * length (replicate 100 (0xFF :: byte)) \<le> ALLOC_MAX" by (simp add: ALLOC_MAX_def)
  show ?thesis using socket_pop_total [OF demo_recv(1) [OF b], of "\<lambda>_. Inl ''bad''" "''''" "\<lambda>_. False"] by blast
qed

text \<open>
  C35. When the parser reads outside of the block it allocated: exactly when a header with the right
  magic announces lengths whose sum with 12 does not fit in 32 bits, the wrapped sum can be
  allocated, and that many bytes are there.  No other input makes it do so.
\<close>

theorem socket_pop_out_of_bounds_iff:
  assumes "sock_inv s" and "s_ws s = None"
  defines "bs \<equiv> recv_bytes s"
  defines "claim \<equiv> 12 + claimed_json bs + claimed_bin bs"
  shows "dime_socket_pop json_loadb strerror ok s = Some (Pop_Out_Of_Bounds, s) \<longleftrightarrow>
    12 \<le> length bs \<and> take 4 bs = DIME_MAGIC \<and> 2 ^ 32 \<le> claim \<and>
    alloc_ok (ok 0) (claim mod 2 ^ 32) \<and> claim mod 2 ^ 32 \<le> length bs"
proof -
  have b4: "length (take 4 (drop k bs)) \<le> 4" for k by simp
  have lt: "claimed_json bs < 2 ^ 32" "claimed_bin bs < 2 ^ 32"
  proof -
    have "be_value xs < 2 ^ 32" if "length xs \<le> 4" for xs
    proof -
      have "(256 :: nat) ^ length xs \<le> 256 ^ 4" using that by (intro power_increasing) simp_all
      then show ?thesis using be_value_less [of xs] by simp
    qed
    then show "claimed_json bs < 2 ^ 32" "claimed_bin bs < 2 ^ 32"
      unfolding claimed_json_def claimed_bin_def using b4 by blast+
  qed
  have wrap: "claim mod 2 ^ 32 < 12 + claimed_json bs" if "2 ^ 32 \<le> claim"
  proof -
    have "claim mod 2 ^ 32 = (claim - 2 ^ 32) mod 2 ^ 32" using that by (rule le_mod_geq)
    also have "\<dots> \<le> claim - 2 ^ 32" by (rule mod_less_eq_dividend)
    also have "\<dots> < 12 + claimed_json bs" using lt(2) that by (simp add: claim_def)
    finally show ?thesis .
  qed
  have fits: "claim mod 2 ^ 32 = claim" if "\<not> 2 ^ 32 \<le> claim" using that by simp
  have "dime_socket_pop json_loadb strerror ok s = Some (dime_socket_parse json_loadb strerror ok s)"
    using assms(2) by (simp add: dime_socket_pop_def)
  also have "\<dots> = Some (Pop_Out_Of_Bounds, s) \<longleftrightarrow>
      12 \<le> length bs \<and> take 4 bs = DIME_MAGIC \<and> 2 ^ 32 \<le> claim \<and>
      alloc_ok (ok 0) (claim mod 2 ^ 32) \<and> claim mod 2 ^ 32 \<le> length bs"
  proof (cases "2 ^ 32 \<le> claim")
    case True
    then show ?thesis unfolding parse_eq [OF assms(1)] bs_def [symmetric] claim_def [symmetric]
      using wrap by auto
  next
    case False
    have no: "\<not> claim mod 2 ^ 32 < 12 + claimed_json bs" "\<not> claim mod 2 ^ 32 < claim"
      unfolding fits [OF False] by (simp_all add: claim_def)
    show ?thesis unfolding parse_eq [OF assms(1)] bs_def [symmetric] claim_def [symmetric]
      using no False by (auto split: sum.split)
  qed
  finally show ?thesis .
qed

theorem socket_pop_out_of_bounds_iff_witness:
  "let s = demo_sock\<lparr>s_rbuf := holding (DIME_MAGIC @ [0xFF, 0xFF, 0xFF, 0xFF, 0, 0, 0, 0])\<rparr>
   in dime_socket_pop (\<lambda>_. Inr ()) '''' (\<lambda>_. True) s = Some (Pop_Out_Of_Bounds, s)"
proof -
  let ?bs = "DIME_MAGIC @ [0xFF, 0xFF, 0xFF, 0xFF, 0, 0, 0, 0]"
  let ?s = "demo_sock\<lparr>s_rbuf := holding ?bs\<rparr>"
  have b: "2 * length ?bs \<le> ALLOC_MAX" by (simp add: ALLOC_MAX_def DIME_MAGIC_def)
  have c: "claimed_json ?bs = 2 ^ 32 - 1" "claimed_bin ?bs = 0"
    by (simp_all add: claimed_json_def claimed_bin_def be_value_def DIME_MAGIC_def)
  have "s_ws ?s = None" using demo_sock(4) by simp
  then show ?thesis
    using socket_pop_out_of_bounds_iff [OF demo_recv(1) [OF b], of "\<lambda>_. Inr ()" "''''" "\<lambda>_. True"]
    unfolding demo_recv(2) [OF b] c by (simp add: DIME_MAGIC_def alloc_ok_def ALLOC_MAX_def)
qed

text \<open>
  C21. WebSocket input: whatever masked frames have arrived, with any keys and any sizes of payload
  and in any grouping, followed by any incomplete frame, \<^verbatim>\<open>dime_socket_pop\<close> moves the unmasked
  payloads, concatenated, to the in-buffer of the message parser, keeps the incomplete rest, and
  parses as if the payloads had been received directly.
\<close>

theorem socket_ws_input:
  assumes "sock_inv s" and "s_ws s = Some ws" and "rb_bytes ws = ws_stream fs @ rest" and "ws_waiting rest"
    and "\<forall>(b0, key, p) \<in> set fs. length key = 4" and "\<forall>i. ok i"
    and "2 * (14 + dime_socket_recvlen s + length (ws_payload fs)) \<le> ALLOC_MAX"
  shows "\<exists>s' ws'. sock_inv s' \<and> s_ws s' = Some ws' \<and> rb_bytes ws' = rest \<and>
    recv_bytes s' = recv_bytes s @ ws_payload fs \<and> s_wbuf s' = s_wbuf s \<and>
    dime_socket_pop json_loadb strerror ok s = Some (dime_socket_parse json_loadb strerror ok s')"
proof -
  have ws: "rb_inv ws" using assms(1,2) by (simp add: sock_inv_def)
  have "length fs \<le> length (ws_stream fs)"
  proof (induction fs)
    case (Cons f fs)
    then show ?case by (cases f) (auto simp: ws_stream_def ws_frame_def Let_def)
  qed (simp add: ws_stream_def)
  then have fuel: "length fs < Suc (dime_ringbuffer_len ws)"
    using arg_cong [OF assms(3), of length] by (simp add: dime_ringbuffer_len_def)
  have room: "2 * (14 + length (recv_bytes s) + length (ws_payload fs)) \<le> ALLOC_MAX"
    using assms(7) by (simp add: dime_socket_recvlen_def dime_ringbuffer_len_def)
  have ok2: "\<forall>i. ok (i + 2)" using assms(6) by blast
  obtain s' ws' where run: "dime_socket_unwrap (Suc (dime_ringbuffer_len ws)) strerror (\<lambda>i. ok (i + 2)) s ws =
      Some (Ws_Done, s')"
    and s': "sock_inv s'" "s_ws s' = Some ws'" "rb_bytes ws' = rest"
      "recv_bytes s' = recv_bytes s @ ws_payload fs" "s_wbuf s' = s_wbuf s"
    using unwrap_frames [OF assms(1) ws assms(3-5) ok2 room fuel] by blast
  have "dime_socket_pop json_loadb strerror ok s = Some (dime_socket_parse json_loadb strerror ok s')"
    using run assms(2) by (simp add: dime_socket_pop_def)
  then show ?thesis using s' by blast
qed

theorem socket_ws_input_witness:
  "\<exists>s'. recv_bytes s' = [7, 8, 9] \<and>
     dime_socket_pop (\<lambda>_. Inr ()) '''' (\<lambda>_. True)
       (demo_sock\<lparr>s_ws := Some (holding (ws_stream [(0x82, [1, 2, 3, 4], [7]), (0x82, [5, 5, 5, 5], [8, 9])]))\<rparr>) =
     Some (dime_socket_parse (\<lambda>_. Inr ()) '''' (\<lambda>_. True) s')"
proof -
  let ?fs = "[(0x82, [1, 2, 3, 4], [7]), (0x82, [5, 5, 5, 5], [8, 9])] :: (byte \<times> byte list \<times> byte list) list"
  have b: "2 * length (ws_stream ?fs) \<le> ALLOC_MAX"
    by (simp add: ws_stream_def ws_frame_def ALLOC_MAX_def)
  let ?s = "demo_sock\<lparr>s_ws := Some (holding (ws_stream ?fs))\<rparr>"
  have inv: "sock_inv ?s" using demo_sock(1) holding(1) [OF b] by (simp add: sock_inv_def)
  have "rb_bytes (holding (ws_stream ?fs)) = ws_stream ?fs @ []" using holding(2) [OF b] by simp
  moreover have "ws_payload ?fs = [7, 8, 9]" by (simp add: ws_payload_def)
  moreover have "dime_socket_recvlen ?s = 0"
    using demo_sock(3) by (simp add: dime_socket_recvlen_def dime_ringbuffer_len_def rb_bytes_empty_iff)
  ultimately show ?thesis
    using socket_ws_input [OF inv _ _ ws_waiting_Nil, of "holding (ws_stream ?fs)" ?fs "\<lambda>_. True" "\<lambda>_. Inr ()" "''''"]
      demo_sock(3) by (auto simp: ALLOC_MAX_def)
qed

text \<open>
  C36. The sum of the lengths of a WebSocket frame wraps too: a 14-byte frame header whose 64-bit
  length is within 14 of the maximum makes \<^verbatim>\<open>dime_socket_pop\<close> allocate fewer than 14 bytes and
  unmask memory beyond them.
\<close>

theorem socket_ws_out_of_bounds:
  assumes "sock_inv s" and "s_ws s = Some ws" and "14 \<le> dime_ringbuffer_len ws"
    and "ws_in_header (take 14 (rb_bytes ws)) = Some (14, n, key)" and "2 ^ 64 - 14 \<le> n" and "n < 2 ^ 64"
    and "ws_masked (rb_bytes ws ! 1)" and "\<forall>i. ok i"
  shows "\<exists>s'. dime_socket_pop json_loadb strerror ok s = Some (Pop_Out_Of_Bounds, s')"
proof -
  have ws: "rb_inv ws" using assms(1,2) by (simp add: sock_inv_def)
  have peek: "dime_ringbuffer_peek ws k = take k (rb_bytes ws)" for k by (rule dime_ringbuffer_peek_eq [OF ws])
  have siz: "sz_add 14 n = 14 + n - 2 ^ 64"
  proof -
    have "(14 + n) mod 2 ^ 64 = (14 + n - 2 ^ 64) mod 2 ^ 64" using assms(5) by (intro le_mod_geq) simp
    then show ?thesis using assms(6) by (simp add: sz_add_def)
  qed
  have lt: "sz_add 14 n < 14" using siz assms(5,6) by simp
  then have al: "alloc_ok True (sz_add 14 n)" by (simp add: alloc_ok_def ALLOC_MAX_def)
  have full: "length (take (sz_add 14 n) (rb_bytes ws)) = sz_add 14 n"
    using lt assms(3) by (simp add: dime_ringbuffer_len_def)
  have wrap: "sz_add 14 n < 14 + n" using lt by simp
  have "dime_socket_unwrap (Suc (dime_ringbuffer_len ws)) strerror (\<lambda>i. ok (i + 2)) s ws =
      Some (Ws_Out_Of_Bounds, s\<lparr>s_ws := Some ws\<rparr>)"
    unfolding dime_socket_unwrap.simps Let_def peek full
    using assms(4,7,8) al wrap full by simp
  then show ?thesis using assms(2) by (simp add: dime_socket_pop_def)
qed

theorem socket_ws_out_of_bounds_witness:
  "\<exists>s'. dime_socket_pop (\<lambda>_. Inr ()) '''' (\<lambda>_. True)
     (demo_sock\<lparr>s_ws := Some (holding ([0x82, 127 OR 0x80] @ be_bytes 8 (2 ^ 64 - 1) @ [1, 2, 3, 4]))\<rparr>) =
     Some (Pop_Out_Of_Bounds, s')"
proof -
  let ?bs = "[0x82, 127 OR 0x80] @ be_bytes 8 (2 ^ 64 - 1) @ [1, 2, 3, 4 :: byte]"
  have b: "2 * length ?bs \<le> ALLOC_MAX" by (simp add: ALLOC_MAX_def)
  have inv: "sock_inv (demo_sock\<lparr>s_ws := Some (holding ?bs)\<rparr>)"
    using demo_sock(1) holding(1) [OF b] by (simp add: sock_inv_def)
  have "dime_ringbuffer_len (holding ?bs) = length ?bs"
    by (metis dime_ringbuffer_len_def holding(2) [OF b] length_rb_bytes)
  then have len: "14 \<le> dime_ringbuffer_len (holding ?bs)" by simp
  have hdr: "ws_in_header (take 14 (rb_bytes (holding ?bs))) = Some (14, 2 ^ 64 - 1, [1, 2, 3, 4])"
    unfolding holding(2) [OF b] using ws_in_header_127 [where key = "[1, 2, 3, 4]" and n = "2 ^ 64 - 1" and ?b0.0 = "0x82"] by simp
  have m: "ws_masked (rb_bytes (holding ?bs) ! 1)"
    unfolding holding(2) [OF b] using masked_len_lits(3) by simp
  show ?thesis
    by (rule socket_ws_out_of_bounds [OF inv _ len hdr _ _ m]) simp_all
qed

text \<open>How a client reads the length field of an unmasked frame, after RFC 6455.\<close>

definition ws_client_length :: "byte list \<Rightarrow> nat \<times> byte list" where
  "ws_client_length bs =
     (let n = unat (bs ! 1)
      in if n < 126 then (n, drop 2 bs)
         else if n = 126 then (be_value (take 2 (drop 2 bs)), drop 4 bs)
         else (be_value (take 8 (drop 2 bs)), drop 10 bs))"

text \<open>
  WebSocket output: the frame header that \<^verbatim>\<open>dime_socket_push_str\<close> puts before a message is one
  unmasked final binary frame whose length field, in the form that RFC 6455 prescribes for its
  size (7, 16 or 64 bits), is the number of bytes that follow.
\<close>

theorem socket_ws_output:
  assumes "n < 2 ^ 63"
  shows "ws_client_length (ws_out_header n @ payload) = (n, payload) \<and>
    ws_out_header n ! 0 = 0x82 \<and> \<not> ws_masked (ws_out_header n ! 1)"
proof -
  have unmasked: "\<not> ws_masked (word_of_nat k)" if "k < 128" for k
  proof -
    have "word_of_nat k AND (0x80 :: byte) = 0"
    proof (rule bit_word_eqI)
      fix i
      have "(0x80 :: byte) = push_bit 7 1" by simp
      then have "bit (0x80 :: byte) i \<longleftrightarrow> i = 7" by (simp only: bit_simps) auto
      moreover have "\<not> bit (word_of_nat k :: byte) 7"
      proof -
        have "\<not> bit k 7" using that by (simp add: bit_iff_odd)
        then show ?thesis by (simp add: bit_simps)
      qed
      ultimately show "bit (word_of_nat k AND (0x80 :: byte)) i = bit 0 i" unfolding bit_and_iff by auto
    qed
    then show ?thesis by (simp only: ws_masked_def)
  qed
  have small: "unat (word_of_nat k :: byte) = k" if "k < 128" for k
    using that by (simp add: unsigned_of_nat take_bit_nat_eq_self)
  have lits: "\<not> ws_masked 126" "\<not> ws_masked 127" using unmasked [of 126] unmasked [of 127] by simp_all
  show ?thesis
    using assms small [of n] unmasked [of n] lits be_value_bytes [of 2 n] be_value_bytes [of 8 n]
    by (auto simp: ws_out_header_def ws_client_length_def Let_def)
qed

theorem socket_ws_output_witness:
  "ws_client_length (ws_out_header 1000 @ [1, 2]) = (1000, [1, 2])"
  using socket_ws_output [of 1000 "[1, 2]"] by simp

end
