(* ===== verification/Tls_Def.thy ===== *)
theory Tls_Def
  imports Socket_Def
begin

text \<open>
  \<^verbatim>\<open>dime_socket_init_tls\<close> of \<^verbatim>\<open>server/socket.c\<close>: the descriptor is made blocking, what is queued is
  sent in the clear, OpenSSL does its handshake, and the descriptor is made non-blocking again.
  The flags of the descriptor are state of the operating system and are passed along; the answers
  of \<^verbatim>\<open>fcntl\<close>, \<^verbatim>\<open>send\<close>, the allocator and OpenSSL are parameters.
\<close>

unbundle bit_operations_syntax

section \<open>Environment\<close>

text \<open>
  \<open>t_getfl k\<close> and \<open>t_setfl k\<close> say whether the \<open>k\<close>-th \<^verbatim>\<open>fcntl\<close> of that kind succeeds; \<open>t_ok i\<close> grants
  the buffer of turn \<open>i\<close> of the flushing loop and \<open>t_send i\<close> is the result of its \<^verbatim>\<open>send\<close> or
  \<^verbatim>\<open>SSL_write\<close>; \<open>t_new\<close> says whether \<^verbatim>\<open>SSL_new\<close> gave a context, \<open>t_set_fd\<close> and \<open>t_accept\<close> are the
  results of \<^verbatim>\<open>SSL_set_fd\<close> and \<^verbatim>\<open>SSL_accept\<close>, \<open>t_ssl_error\<close> is the text of the error they leave.
\<close>

record tls_env =
  t_flags :: "32 word"
  t_getfl :: "nat \<Rightarrow> bool"
  t_setfl :: "nat \<Rightarrow> bool"
  t_ok :: "nat \<Rightarrow> bool"
  t_send :: "nat \<Rightarrow> byte list \<Rightarrow> int"
  t_new :: bool
  t_set_fd :: int
  t_accept :: int
  t_errno :: string
  t_ssl_error :: string

section \<open>The flags of a descriptor\<close>

text \<open>The value that the system headers of Linux give \<^verbatim>\<open>O_NONBLOCK\<close>.\<close>

definition O_NONBLOCK :: "32 word" where
  "O_NONBLOCK = 2048"

definition dime_socket_setnonblocking :: "bool \<Rightarrow> bool \<Rightarrow> bool \<Rightarrow> 32 word \<Rightarrow> int \<times> 32 word" where
  "dime_socket_setnonblocking getfl setfl nonblocking flags =
     (if \<not> getfl then (-1, flags)
      else
        (let new = (if nonblocking then flags OR O_NONBLOCK else flags AND NOT O_NONBLOCK)
         in if setfl then (0, new) else (-1, flags)))"

section \<open>The handshake\<close>

text \<open>The flushing loop: \<open>None\<close> when it does not end, \<open>False\<close> for \<^verbatim>\<open>return -1\<close>.\<close>

partial_function (option) tls_flush :: "tls_env \<Rightarrow> nat \<Rightarrow> dime_socket \<Rightarrow> (bool \<times> dime_socket) option" where
  "tls_flush T i sock =
     (if dime_ringbuffer_len (s_wbuf sock) > 0 then
        (let (rc, sock) = dime_socket_sendpartial (t_errno T) (t_ok T i) (t_send T i) sock
         in if rc < 0 then Some (False, sock) else tls_flush T (Suc i) sock)
      else Some (True, sock))"

text \<open>
  How the call ends: with a return value, the socket and the flags of its descriptor; with a failed
  assertion; or not at all.
\<close>

datatype tls_outcome = Tls_Return int dime_socket "32 word" | Tls_Abort | Tls_No_Return

text \<open>\<^verbatim>\<open>ERR_error_string_n\<close> writes at most the size of \<^verbatim>\<open>err\<close>, its terminating NUL included.\<close>

definition ssl_failed :: "tls_env \<Rightarrow> dime_socket \<Rightarrow> 32 word \<Rightarrow> tls_outcome" where
  "ssl_failed T sock flags = Tls_Return (-1) (sock\<lparr>s_err := take (ERR_SIZE - 1) (t_ssl_error T)\<rparr>) flags"

definition tls_accept :: "tls_env \<Rightarrow> dime_socket \<Rightarrow> 32 word \<Rightarrow> tls_outcome" where
  "tls_accept T sock flags =
     (if \<not> t_new T then Tls_Return (-1) sock flags
      else if t_set_fd T \<le> 0 then ssl_failed T sock flags
      else if t_accept T \<le> 0 then ssl_failed T sock flags
      else
        (let (rc, flags) = dime_socket_setnonblocking (t_getfl T 1) (t_setfl T 1) True flags
         in if rc < 0 then Tls_Return 0 (set_err (t_errno T) sock) flags
            else Tls_Return 0 (sock\<lparr>s_tls := True\<rparr>) flags))"

definition dime_socket_init_tls :: "tls_env \<Rightarrow> dime_socket \<Rightarrow> tls_outcome" where
  "dime_socket_init_tls T sock =
     (let (rc, flags) = dime_socket_setnonblocking (t_getfl T 0) (t_setfl T 0) False (t_flags T)
      in if rc < 0 then Tls_Return 0 (set_err (t_errno T) sock) flags
         else if dime_ringbuffer_len (s_rbuf sock) \<noteq> 0 then Tls_Abort
         else
           (case tls_flush T 0 sock of
              None \<Rightarrow> Tls_No_Return
            | Some (False, sock) \<Rightarrow> Tls_Return (-1) sock flags
            | Some (True, sock) \<Rightarrow> tls_accept T sock flags))"

end
