(* ===== verification/Tls_Props.thy ===== *)
theory Tls_Props
  imports Tls_Def Socket_Props
begin

text \<open>
  The properties of \<^verbatim>\<open>dime_socket_init_tls\<close>: it ends whenever every \<^verbatim>\<open>send\<close> either fails or takes
  some bytes, sends what was queued before the handshake, and changes nothing else of the socket.
\<close>

section \<open>The flags\<close>

lemma setnonblocking_cases:
  "dime_socket_setnonblocking getfl setfl b flags =
     (if getfl \<and> setfl then (0, if b then flags OR O_NONBLOCK else flags AND NOT O_NONBLOCK) else (-1, flags))"
  by (simp add: dime_socket_setnonblocking_def Let_def)

lemma nonblock_bit: "bit (flags OR O_NONBLOCK) 11" "\<not> bit (flags AND NOT O_NONBLOCK) 11"
proof -
  have "bit (2048 :: 32 word) 11" by (simp add: bit_iff_odd)
  then have "bit O_NONBLOCK 11" by (simp add: O_NONBLOCK_def)
  then show "bit (flags OR O_NONBLOCK) 11" "\<not> bit (flags AND NOT O_NONBLOCK) 11"
    by (simp_all add: bit_or_iff bit_and_iff bit_not_iff)
qed

section \<open>The flushing loop\<close>

text \<open>What the loop and the handshake leave alone.\<close>

definition same_input :: "dime_socket \<Rightarrow> dime_socket \<Rightarrow> bool" where
  "same_input s s' \<longleftrightarrow> s_fd s' = s_fd s \<and> s_rbuf s' = s_rbuf s \<and> s_ws s' = s_ws s \<and> s_zlib s' = s_zlib s \<and> s_loop s' = s_loop s"

lemma same_input_refl [simp]: "same_input s s"
  by (simp add: same_input_def)

lemma same_input_upd [simp]:
  "same_input s (s'\<lparr>s_err := e\<rparr>) = same_input s s'" "same_input s (s'\<lparr>s_tls := b\<rparr>) = same_input s s'"
  by (simp_all add: same_input_def)

definition progress :: "tls_env \<Rightarrow> bool" where
  "progress T \<longleftrightarrow> (\<forall>i buf. buf \<noteq> [] \<longrightarrow> t_send T i buf \<noteq> 0 \<and> t_send T i buf \<le> int (length buf))"

lemma flush_turn:
  assumes "sock_inv s" and "progress T" and "sent_bytes s \<noteq> []"
  obtains rc s' n where "dime_socket_sendpartial (t_errno T) (t_ok T i) (t_send T i) s = (rc, s')"
    and "sock_inv s'" and "same_input s s'" and "s_tls s' = s_tls s" and "sent_bytes s' = drop n (sent_bytes s)"
    and "0 \<le> rc \<longrightarrow> 0 < n \<and> n \<le> length (sent_bytes s)"
    and "0 \<le> rc \<longleftrightarrow> t_ok T i \<and> 0 < t_send T i (take SENDBUFLEN (sent_bytes s))"
proof -
  let ?buf = "take SENDBUFLEN (sent_bytes s)"
  let ?n = "t_send T i ?buf"
  have w: "rb_inv (s_wbuf s)" using assms(1) by (simp add: sock_inv_def)
  have ne: "?buf \<noteq> []" using assms(3) by (simp add: SENDBUFLEN_def)
  have "?n \<noteq> 0 \<and> ?n \<le> int (length ?buf)" using assms(2) ne unfolding progress_def by blast
  then have p: "?n \<noteq> 0" "?n \<le> int (min SENDBUFLEN (length (sent_bytes s)))" by (simp_all add: min.commute)
  have al: "alloc_ok b SENDBUFLEN = b" for b by (simp add: alloc_ok_def SENDBUFLEN_def ALLOC_MAX_def)
  show thesis
  proof (cases "t_ok T i \<and> 0 < ?n")
    case True
    obtain s' where s': "dime_socket_sendpartial (t_errno T) True (t_send T i) s = (?n, s')" "sock_inv s'"
        "sent_bytes s' = drop (nat ?n) (sent_bytes s)" "s_rbuf s' = s_rbuf s" "s_ws s' = s_ws s" "s_zlib s' = s_zlib s"
      by (rule sendpartial_ok [OF assms(1), of "t_send T i" "t_errno T"]) (use True p in simp_all)
    have "s_fd s' = s_fd s" "s_tls s' = s_tls s" "s_loop s' = s_loop s"
      using s'(1) True by (auto simp: dime_socket_sendpartial_def al Let_def dime_ringbuffer_peek_eq [OF w] split: if_splits)
    then show thesis using that [of ?n s' "nat ?n"] s' True p by (simp add: same_input_def)
  next
    case False
    then have "fst (dime_socket_sendpartial (t_errno T) (t_ok T i) (t_send T i) s) = -1"
      and "snd (dime_socket_sendpartial (t_errno T) (t_ok T i) (t_send T i) s) \<in> {s, set_err (t_errno T) s}"
      using p(1) by (auto simp: dime_socket_sendpartial_def al Let_def dime_ringbuffer_peek_eq [OF w])
    then show thesis
      using that [of "-1" _ 0] assms(1) False
      by (cases "dime_socket_sendpartial (t_errno T) (t_ok T i) (t_send T i) s")
        (auto simp: set_err_def sock_inv_def)
  qed
qed

definition flushed :: "tls_env \<Rightarrow> nat \<Rightarrow> dime_socket \<Rightarrow> bool \<Rightarrow> dime_socket \<Rightarrow> bool" where
  "flushed T i s b s' \<longleftrightarrow> tls_flush T i s = Some (b, s') \<and> sock_inv s' \<and> same_input s s' \<and> s_tls s' = s_tls s \<and>
     (\<exists>n. sent_bytes s' = drop n (sent_bytes s)) \<and> (b \<longrightarrow> sent_bytes s' = []) \<and>
     ((\<forall>i. t_ok T i) \<and> (\<forall>i buf. buf \<noteq> [] \<longrightarrow> 0 < t_send T i buf) \<longrightarrow> b)"

lemma flush_ok:
  assumes "sock_inv s" and P: "progress T"
  shows "\<exists>b s'. flushed T i s b s'"
  using assms(1)
proof (induction "length (sent_bytes s)" arbitrary: s i rule: less_induct)
  case less
  have len: "dime_ringbuffer_len (s_wbuf s) = length (sent_bytes s)"
    by (simp add: dime_ringbuffer_len_def length_rb_bytes)
  show ?case
  proof (cases "sent_bytes s = []")
    case True
    then have "flushed T i s True s" using less.prems len by (simp add: flushed_def tls_flush.simps [of T i s])
    then show ?thesis by blast
  next
    case False
    obtain rc s1 n where r: "dime_socket_sendpartial (t_errno T) (t_ok T i) (t_send T i) s = (rc, s1)"
      and s1: "sock_inv s1" "same_input s s1" "s_tls s1 = s_tls s" "sent_bytes s1 = drop n (sent_bytes s)"
      and n: "0 \<le> rc \<longrightarrow> 0 < n \<and> n \<le> length (sent_bytes s)"
      and rc: "0 \<le> rc \<longleftrightarrow> t_ok T i \<and> 0 < t_send T i (take SENDBUFLEN (sent_bytes s))"
      by (rule flush_turn [OF less.prems P False, where i = i])
    have step: "tls_flush T i s = (if rc < 0 then Some (False, s1) else tls_flush T (Suc i) s1)"
      using False len rb_bytes_empty_iff [of "s_wbuf s"] by (simp add: tls_flush.simps [of T i s] r)
    have ne: "take SENDBUFLEN (sent_bytes s) \<noteq> []" using False by (simp add: SENDBUFLEN_def)
    show ?thesis
    proof (cases "0 \<le> rc")
      case True
      then have "length (sent_bytes s1) < length (sent_bytes s)" using n s1(4) by simp
      then obtain b s' where "flushed T (Suc i) s1 b s'" using less.hyps s1(1) by blast
      then have "flushed T i s b s'"
        using step True s1 by (auto simp: flushed_def same_input_def drop_drop)
      then show ?thesis by blast
    next
      case False
      then have "\<not> ((\<forall>i. t_ok T i) \<and> (\<forall>i buf. buf \<noteq> [] \<longrightarrow> 0 < t_send T i buf))" using rc ne by blast
      then have "flushed T i s False s1" using step s1 False by (auto simp: flushed_def)
      then show ?thesis by blast
    qed
  qed
qed

section \<open>The handshake\<close>

text \<open>Whatever the answers of the environment, the input side and the invariant are kept.\<close>

lemma sendpartial_same:
  "same_input s (snd (dime_socket_sendpartial e ok send s))"
  by (simp add: dime_socket_sendpartial_def Let_def same_input_def set_err_def)

lemma flush_same:
  assumes "tls_flush T i s = Some r"
  shows "same_input s (snd r)"
proof (rule tls_flush.raw_induct [where P = "\<lambda>T i s r. same_input s (snd r)", OF _ assms])
  fix f T i s and r :: "bool \<times> dime_socket"
  assume IH: "\<And>T i s r. f T i s = Some r \<Longrightarrow> same_input s (snd r)"
    and eq: "(if dime_ringbuffer_len (s_wbuf s) > 0 then
        (let (rc, sock) = dime_socket_sendpartial (t_errno T) (t_ok T i) (t_send T i) s
         in if rc < 0 then Some (False, sock) else f T (Suc i) sock)
      else Some (True, s)) = Some r"
  obtain rc s1 where p: "dime_socket_sendpartial (t_errno T) (t_ok T i) (t_send T i) s = (rc, s1)" by fastforce
  have s1: "same_input s s1" using sendpartial_same [of s "t_errno T" "t_ok T i" "t_send T i"] by (simp add: p)
  show "same_input s (snd r)"
    using eq IH [of T "Suc i" s1 r] s1 by (auto simp: p same_input_def split: if_splits)
qed

lemma init_tls_same:
  assumes "dime_socket_init_tls T s = Tls_Return rc s' flags"
  shows "same_input s s'"
  using assms flush_same [of T 0 s]
  by (auto simp: dime_socket_init_tls_def tls_accept_def ssl_failed_def setnonblocking_cases set_err_def
    split: if_splits option.splits bool.splits)

text \<open>
  C23. \<^verbatim>\<open>dime_socket_init_tls\<close>, when every \<^verbatim>\<open>send\<close> either fails or takes some of the bytes offered: it
  gives up with 0 and without TLS when the descriptor cannot be made blocking; otherwise the assertion
  fails exactly when input has already arrived.  Otherwise it returns, having sent a prefix of what was
  queued and changed nothing of the input side.  Without TLS before, TLS is on afterwards exactly when
  it returns 0 with the descriptor non-blocking again; it returns 0 only after all queued bytes were
  sent and OpenSSL has accepted; and it does return 0 when no allocation, \<^verbatim>\<open>send\<close> or call of OpenSSL fails.
\<close>

theorem init_tls_spec:
  assumes "sock_inv s" and "progress T"
  shows "if \<not> (t_getfl T 0 \<and> t_setfl T 0)
    then dime_socket_init_tls T s = Tls_Return 0 (set_err (t_errno T) s) (t_flags T)
    else if recv_bytes s \<noteq> [] then dime_socket_init_tls T s = Tls_Abort
    else \<exists>rc s' flags n. dime_socket_init_tls T s = Tls_Return rc s' flags \<and> sock_inv s' \<and> same_input s s' \<and>
      rc \<in> {0, -1} \<and> sent_bytes s' = drop n (sent_bytes s) \<and>
      (s_tls s' \<longleftrightarrow> s_tls s \<or> rc = 0 \<and> bit flags 11) \<and>
      (rc = 0 \<longrightarrow> sent_bytes s' = [] \<and> t_new T \<and> 0 < t_set_fd T \<and> 0 < t_accept T \<and>
        (bit flags 11 \<longleftrightarrow> t_getfl T 1 \<and> t_setfl T 1)) \<and>
      ((\<forall>i. t_ok T i) \<and> (\<forall>i buf. buf \<noteq> [] \<longrightarrow> 0 < t_send T i buf) \<and>
        t_new T \<and> 0 < t_set_fd T \<and> 0 < t_accept T \<longrightarrow> rc = 0)"
proof (cases "(t_getfl T 0 \<and> t_setfl T 0) \<and> recv_bytes s = []")
  case False
  then show ?thesis
    by (auto simp: dime_socket_init_tls_def setnonblocking_cases dime_ringbuffer_len_def rb_bytes_empty_iff)
next
  case True
  let ?fl = "t_flags T AND NOT O_NONBLOCK"
  obtain b s1 where fl: "flushed T 0 s b s1" using flush_ok [OF assms] by blast
  have run: "dime_socket_init_tls T s = (if b then tls_accept T s1 ?fl else Tls_Return (-1) s1 ?fl)"
    using fl True by (simp add: dime_socket_init_tls_def setnonblocking_cases dime_ringbuffer_len_def
      flushed_def rb_bytes_empty_iff split: bool.split)
  have acc: "\<exists>rc s' flags. tls_accept T s1 ?fl = Tls_Return rc s' flags \<and> sock_inv s' \<and> same_input s s' \<and>
      rc \<in> {0, -1} \<and> s_wbuf s' = s_wbuf s1 \<and> (s_tls s' \<longleftrightarrow> s_tls s \<or> rc = 0 \<and> bit flags 11) \<and>
      (rc = 0 \<longleftrightarrow> t_new T \<and> 0 < t_set_fd T \<and> 0 < t_accept T) \<and>
      (rc = 0 \<longrightarrow> (bit flags 11 \<longleftrightarrow> t_getfl T 1 \<and> t_setfl T 1))"
    using fl nonblock_bit
    by (auto simp: tls_accept_def ssl_failed_def setnonblocking_cases set_err_def flushed_def sock_inv_def)
  obtain n where n: "sent_bytes s1 = drop n (sent_bytes s)" using fl by (auto simp: flushed_def)
  have c: "t_getfl T 0" "t_setfl T 0" "recv_bytes s = []" using True by simp_all
  show ?thesis
  proof (cases b)
    case True
    obtain rc s' flags where r: "dime_socket_init_tls T s = Tls_Return rc s' flags"
      and p: "sock_inv s'" "same_input s s'" "rc \<in> {0, -1}" "s_wbuf s' = s_wbuf s1"
        "s_tls s' \<longleftrightarrow> s_tls s \<or> rc = 0 \<and> bit flags 11"
        "rc = 0 \<longleftrightarrow> t_new T \<and> 0 < t_set_fd T \<and> 0 < t_accept T"
        "rc = 0 \<longrightarrow> (bit flags 11 \<longleftrightarrow> t_getfl T 1 \<and> t_setfl T 1)"
      using acc True unfolding run by auto
    have e: "sent_bytes s1 = []" "sent_bytes s' = sent_bytes s1" using fl True p(4) by (simp_all add: flushed_def)
    show ?thesis
      by (simp only: c simp_thms if_False) (intro exI conjI impI, rule r; use p e n in simp)
  next
    case False
    then have r: "dime_socket_init_tls T s = Tls_Return (-1) s1 ?fl" by (simp add: run)
    show ?thesis
      by (simp only: c simp_thms if_False) (intro exI conjI impI, rule r; use False fl n in \<open>simp add: flushed_def\<close>)
  qed
qed

text \<open>A system whose calls all succeed, where each \<^verbatim>\<open>send\<close> takes one byte.\<close>

definition demo_tls :: tls_env where
  "demo_tls = \<lparr>t_flags = 2050, t_getfl = \<lambda>_. True, t_setfl = \<lambda>_. True, t_ok = \<lambda>_. True,
     t_send = \<lambda>_ buf. int (min 1 (length buf)), t_new = True, t_set_fd = 1, t_accept = 1,
     t_errno = [], t_ssl_error = []\<rparr>"

theorem init_tls_spec_witness:
  "\<exists>s' flags. dime_socket_init_tls demo_tls (demo_sock\<lparr>s_wbuf := holding [1, 2, 3]\<rparr>) = Tls_Return 0 s' flags \<and>
     s_tls s' \<and> sent_bytes s' = []"
proof -
  let ?s = "demo_sock\<lparr>s_wbuf := holding [1, 2, 3]\<rparr>"
  have "sock_inv ?s" using holding(1) [of "[1, 2, 3]"] demo_sock(1,8) by (simp add: sock_inv_def ALLOC_MAX_def)
  moreover have "progress demo_tls" by (simp add: progress_def demo_tls_def)
  moreover have "t_getfl demo_tls i" "t_setfl demo_tls i" "t_ok demo_tls i" "t_new demo_tls"
    "0 < t_set_fd demo_tls" "0 < t_accept demo_tls" "buf \<noteq> [] \<Longrightarrow> 0 < t_send demo_tls i buf" for i buf
    by (simp_all add: demo_tls_def)
  moreover have "recv_bytes ?s = []" using demo_sock(3) by simp
  ultimately show ?thesis using init_tls_spec [of ?s demo_tls] by auto
qed

end
