(* ===== verification/Addr_Def.thy ===== *)
theory Addr_Def
  imports Socket_Def
begin

text \<open>
  The name of a client in the log: \<^verbatim>\<open>dime_client_init\<close> of \<^verbatim>\<open>server/client.c\<close> prints the address of
  the peer into \<^verbatim>\<open>clnt->addr\<close>.  Here are the printing functions of the C library that it uses, as
  functions to bytes.
\<close>

section \<open>Text\<close>

text \<open>The bytes of a string literal.\<close>

definition str_bytes :: "string \<Rightarrow> byte list" where
  "str_bytes = map (\<lambda>ch. word_of_nat (of_char ch))"

text \<open>The conversions \<^verbatim>\<open>%hu\<close> and \<^verbatim>\<open>%d\<close> of \<^verbatim>\<open>snprintf\<close>, and \<^verbatim>\<open>%x\<close>.\<close>

fun dec_nat :: "nat \<Rightarrow> byte list" where
  "dec_nat n = (if n < 10 then [word_of_nat (48 + n)] else dec_nat (n div 10) @ [word_of_nat (48 + n mod 10)])"

declare dec_nat.simps [simp del]

definition dec_int :: "int \<Rightarrow> byte list" where
  "dec_int n = (if n < 0 then 45 # dec_nat (nat (- n)) else dec_nat (nat n))"

definition hex_digit :: "nat \<Rightarrow> byte" where
  "hex_digit d = word_of_nat (if d < 10 then 48 + d else 87 + d)"

fun hex_nat :: "nat \<Rightarrow> byte list" where
  "hex_nat n = (if n < 16 then [hex_digit n] else hex_nat (n div 16) @ [hex_digit (n mod 16)])"

declare hex_nat.simps [simp del]

text \<open>\<^verbatim>\<open>snprintf\<close> into a buffer of \<open>siz\<close> bytes: what it leaves before the terminating NUL.\<close>

definition snprintf :: "nat \<Rightarrow> byte list \<Rightarrow> byte list" where
  "snprintf siz text = take (siz - 1) text"

section \<open>Addresses\<close>

text \<open>The fields of a socket address as they are in memory: a port is in network byte order.\<close>

datatype sockaddr =
    Sock_In6 "16 word list" "16 word"
  | Sock_In "byte list" "16 word"
  | Sock_Unix
  | Sock_Other

fun join_with :: "byte \<Rightarrow> byte list list \<Rightarrow> byte list" where
  "join_with sep [] = []"
| "join_with sep [t] = t"
| "join_with sep (t # ts) = t @ sep # join_with sep ts"

text \<open>\<^verbatim>\<open>inet_ntop\<close> of \<^verbatim>\<open>AF_INET\<close>: the four bytes in decimal with dots.\<close>

definition ntop4 :: "byte list \<Rightarrow> byte list" where
  "ntop4 bs = join_with 46 (map (\<lambda>b. dec_nat (unat b)) bs)"

text \<open>
  \<^verbatim>\<open>inet_ntop\<close> of \<^verbatim>\<open>AF_INET6\<close>: eight groups in hexadecimal with colons, the first longest run of at
  least two zero groups left out, and the last two groups in decimal with dots when the run ends
  before them and they hold an address of the older kind.
\<close>

definition zeros_at :: "16 word list \<Rightarrow> nat \<Rightarrow> nat" where
  "zeros_at ws i = length (takeWhile (\<lambda>w. w = 0) (drop i ws))"

definition best_run :: "16 word list \<Rightarrow> nat" where
  "best_run ws = foldl (\<lambda>b i. if zeros_at ws b < zeros_at ws i then i else b) 0 [1..<8]"

definition groups6 :: "16 word list \<Rightarrow> byte list" where
  "groups6 ws = join_with 58 (map (\<lambda>w. hex_nat (unat w)) ws)"

definition word_bytes :: "16 word \<Rightarrow> byte list" where
  "word_bytes w = [word_of_nat (unat w div 256), word_of_nat (unat w mod 256)]"

definition ntop6 :: "16 word list \<Rightarrow> byte list" where
  "ntop6 ws =
     (let b = best_run ws; n = zeros_at ws b; old = ntop4 (word_bytes (ws ! 6) @ word_bytes (ws ! 7))
      in if n < 2 then groups6 ws
         else if b = 0 \<and> n = 6 then [58, 58] @ old
         else if b = 0 \<and> n = 5 \<and> ws ! 5 = 65535 then [58, 58] @ groups6 [ws ! 5] @ [58] @ old
         else groups6 (take b ws) @ [58, 58] @ groups6 (drop (b + n) ws))"

section \<open>\<^verbatim>\<open>clnt->addr\<close>\<close>

text \<open>
  The sizes of the local arrays and of the blocks.  \<open>tmp\<close> is what the array on the stack holds at
  first: \<^verbatim>\<open>inet_ntop\<close> leaves it as it is when the text does not fit, and its result is not looked at.
  \<open>None\<close> when \<^verbatim>\<open>%s\<close> then reads past the end of the array.
\<close>

definition TMP_SIZE :: nat where
  "TMP_SIZE = 34"

definition client_addr :: "byte list \<Rightarrow> sockaddr \<Rightarrow> int \<Rightarrow> byte list option" where
  "client_addr tmp addr fd =
     (case addr of
        Sock_In6 ws port \<Rightarrow>
          (let text = ntop6 ws;
               tmp = (if length text < TMP_SIZE then text @ [0] else tmp)
           in if 0 \<in> set tmp then Some (snprintf 40 (c_string tmp @ 58 # dec_nat (unat port))) else None)
      | Sock_In bs port \<Rightarrow> Some (snprintf 22 (ntop4 bs @ 58 # dec_nat (unat port)))
      | _ \<Rightarrow> Some (snprintf 14 (str_bytes ''fd '' @ dec_int fd)))"

end
