(* ===== verification/Addr_Props.thy ===== *)
theory Addr_Props
  imports Addr_Def
begin

text \<open>
  How long the printed addresses are, and so which of them fit into the arrays of
  \<^verbatim>\<open>dime_client_init\<close>.
\<close>

section \<open>Digits\<close>

lemma dec_nat_range: "b \<in> set (dec_nat n) \<Longrightarrow> 48 \<le> b \<and> b \<le> 57"
proof (induction n rule: dec_nat.induct)
  case (1 n)
  have d: "48 \<le> (word_of_nat (48 + k) :: byte) \<and> word_of_nat (48 + k) \<le> (57 :: byte)" if "k < 10" for k
    using that by (simp add: word_le_nat_alt unat_of_nat del: of_nat_add)
  show ?case
  proof (cases "n < 10")
    case True
    then show ?thesis using 1(2) d by (simp add: dec_nat.simps [of n] del: of_nat_add)
  next
    case False
    then show ?thesis using 1 d [of "n mod 10"] by (auto simp: dec_nat.simps [of n] simp del: of_nat_add)
  qed
qed

lemma length_dec_nat: "n < 10 ^ k \<Longrightarrow> 0 < k \<Longrightarrow> length (dec_nat n) \<le> k"
proof (induction n arbitrary: k rule: dec_nat.induct)
  case (1 n)
  show ?case
  proof (cases "n < 10")
    case True
    then show ?thesis using 1(3) by (simp add: dec_nat.simps [of n])
  next
    case False
    then obtain j where j: "k = Suc j" using 1(3) by (cases k) auto
    have "j \<noteq> 0" using j 1(2) False by (cases "j = 0") auto
    with j have j: "k = Suc j" "0 < j" by simp_all
    then have "n div 10 < 10 ^ j" using 1(2) by (simp add: less_mult_imp_div_less mult.commute)
    then show ?thesis using 1(1) [OF False, of j] j by (simp add: dec_nat.simps [of n] False)
  qed
qed

lemma length_hex_nat: "n < 16 ^ k \<Longrightarrow> 0 < k \<Longrightarrow> length (hex_nat n) \<le> k"
proof (induction n arbitrary: k rule: hex_nat.induct)
  case (1 n)
  show ?case
  proof (cases "n < 16")
    case True
    then show ?thesis using 1(3) by (simp add: hex_nat.simps [of n])
  next
    case False
    then obtain j where j: "k = Suc j" using 1(3) by (cases k) auto
    have "j \<noteq> 0" using j 1(2) False by (cases "j = 0") auto
    with j have j: "k = Suc j" "0 < j" by simp_all
    then have "n div 16 < 16 ^ j" using 1(2) by (simp add: less_mult_imp_div_less mult.commute)
    then show ?thesis using 1(1) [OF False, of j] j by (simp add: hex_nat.simps [of n] False)
  qed
qed

lemma length_hex_nat_ge: "16 ^ k \<le> n \<Longrightarrow> k < length (hex_nat n)"
proof (induction n arbitrary: k rule: hex_nat.induct)
  case (1 n)
  show ?case
  proof (cases k)
    case 0
    then show ?thesis by (simp add: hex_nat.simps [of n])
  next
    case (Suc j)
    then have n: "16 * 16 ^ j \<le> n" using 1(2) by simp
    have "1 \<le> (16 :: nat) ^ j" by simp
    then have "16 * 1 \<le> n" using n by (meson le_trans mult_le_mono2)
    then have big: "\<not> n < 16" "16 ^ j \<le> n div 16" using n by (auto simp: less_eq_div_iff_mult_less_eq mult.commute)
    then show ?thesis using 1(1) [OF big] Suc by (simp add: hex_nat.simps [of n])
  qed
qed

lemma port_digits: "length (dec_nat (unat (p :: 16 word))) \<le> 5"
proof -
  have "unat p < 2 ^ LENGTH(16)" by (rule unsigned_less)
  then show ?thesis by (intro length_dec_nat) simp_all
qed

lemma byte_digits: "length (dec_nat (unat (b :: byte))) \<le> 3"
proof -
  have "unat b < 2 ^ LENGTH(8)" by (rule unsigned_less)
  then show ?thesis by (intro length_dec_nat) simp_all
qed

lemma length_join_with:
  "ts \<noteq> [] \<Longrightarrow> length (join_with sep ts) + 1 = sum_list (map length ts) + length ts"
proof (induction sep ts rule: join_with.induct)
  case (3 sep t u us)
  then show ?case by simp
qed simp_all

section \<open>Which names fit\<close>

lemma length_ntop4:
  assumes "length bs = 4"
  shows "length (ntop4 bs) \<le> 15"
proof -
  obtain a b c d where bs: "bs = [a, b, c, d]"
    using assms by (auto simp: numeral_eq_Suc length_Suc_conv)
  show ?thesis using byte_digits [of a] byte_digits [of b] byte_digits [of c] byte_digits [of d] by (simp add: bs ntop4_def)
qed

lemma set_join_with: "set (join_with sep ts) \<subseteq> insert sep (\<Union> (set ` set ts))"
  by (induction sep ts rule: join_with.induct) auto

lemma length_fd:
  assumes "0 \<le> fd" and "fd < 2 ^ 31"
  shows "length (str_bytes ''fd '' @ dec_int fd) \<le> 13"
  using assms length_dec_nat [of "nat fd" 10] by (simp add: dec_int_def str_bytes_def)

text \<open>An address without a run of zero groups: all groups have four digits, with seven colons.\<close>

lemma ntop6_full:
  assumes len: "length ws = 8" and big: "\<forall>w \<in> set ws. 4096 \<le> w"
  shows "length (ntop6 ws) = 39"
proof -
  have z: "zeros_at ws i = 0" for i
  proof (cases "drop i ws")
    case (Cons w xs)
    then have "w \<in> set ws" by (metis in_set_dropD list.set_intros(1))
    then have "w \<noteq> 0" using big by auto
    then show ?thesis using Cons by (simp add: zeros_at_def)
  qed (simp add: zeros_at_def)
  have four: "length (hex_nat (unat w)) = 4" if "w \<in> set ws" for w
  proof -
    have "(4096 :: nat) \<le> unat w" using big that by (simp add: word_le_nat_alt)
    then have "3 < length (hex_nat (unat w))" by (intro length_hex_nat_ge) simp
    moreover have "unat w < 2 ^ LENGTH(16)" by (rule unsigned_less)
    then have "length (hex_nat (unat w)) \<le> 4" by (intro length_hex_nat) simp_all
    ultimately show ?thesis by simp
  qed
  then have "map (\<lambda>w. length (hex_nat (unat w))) ws = replicate 8 4"
    using len by (intro replicate_eqI) auto
  then have "sum_list (map length (map (\<lambda>w. hex_nat (unat w)) ws)) = 32" by (simp add: comp_def sum_list_replicate)
  then show ?thesis
    using z len length_join_with [of "map (\<lambda>w. hex_nat (unat w)) ws" 58]
    by (simp add: ntop6_def groups6_def Let_def) (cases ws; simp)
qed

text \<open>No character of an address is the terminating NUL.\<close>

lemma hex_nat_no_nul: "0 \<notin> set (hex_nat n)"
proof (induction n rule: hex_nat.induct)
  case (1 n)
  have d: "hex_digit k \<noteq> 0" if "k < 16" for k
  proof -
    have "unat (hex_digit k) \<noteq> 0" using that by (simp add: hex_digit_def unat_of_nat del: of_nat_add)
    then show ?thesis by (metis unat_0)
  qed
  show ?case using 1 d [of n] d [of "n mod 16"] by (cases "n < 16") (simp_all add: hex_nat.simps [of n])
qed

lemma groups6_no_nul: "0 \<notin> set (groups6 ws)"
  using set_join_with [of 58 "map (\<lambda>w. hex_nat (unat w)) ws"] hex_nat_no_nul by (auto simp: groups6_def)

lemma ntop4_no_nul: "0 \<notin> set (ntop4 bs)"
proof -
  have "0 \<notin> set (dec_nat n)" for n using dec_nat_range [of 0 n] by auto
  then show ?thesis using set_join_with [of 46 "map (\<lambda>b. dec_nat (unat b)) bs"] by (auto simp: ntop4_def)
qed

lemma ntop6_no_nul: "0 \<notin> set (ntop6 ws)"
  using groups6_no_nul ntop4_no_nul by (simp add: ntop6_def Let_def)

section \<open>The name of a client\<close>

text \<open>
  C39. The name of a client.  An address of IPv4 with its port, and the number of a descriptor, always
  fit and are printed in full.  An address of IPv6 is printed in full with its port when it has at most
  33 characters.  A longer one, such as every address whose groups all have four digits (they take 39),
  is not printed at all: the name is what happens to be on the stack, whatever the address, and when
  there is no NUL in it the server reads past the end of the array.
\<close>

theorem client_addr_spec:
  assumes "0 \<le> fd" and "fd < 2 ^ 31"
  shows "(\<forall>bs port. length bs = 4 \<longrightarrow>
      client_addr tmp (Sock_In bs port) fd = Some (ntop4 bs @ [58] @ dec_nat (unat port))) \<and>
    client_addr tmp Sock_Unix fd = Some (str_bytes ''fd '' @ dec_int fd) \<and>
    (\<forall>ws port. length (ntop6 ws) \<le> 33 \<longrightarrow>
      client_addr tmp (Sock_In6 ws port) fd = Some (ntop6 ws @ [58] @ dec_nat (unat port))) \<and>
    (\<forall>ws port. 33 < length (ntop6 ws) \<longrightarrow>
      client_addr tmp (Sock_In6 ws port) fd =
        (if 0 \<in> set tmp then Some (take 39 (c_string tmp @ [58] @ dec_nat (unat port))) else None)) \<and>
    (\<forall>ws. length ws = 8 \<and> (\<forall>w \<in> set ws. 4096 \<le> w) \<longrightarrow> length (ntop6 ws) = 39)"
proof (intro conjI allI impI)
  fix bs :: "byte list" and port :: "16 word"
  assume "length bs = 4"
  then show "client_addr tmp (Sock_In bs port) fd = Some (ntop4 bs @ [58] @ dec_nat (unat port))"
    using length_ntop4 [of bs] port_digits [of port] by (simp add: client_addr_def snprintf_def)
next
  show "client_addr tmp Sock_Unix fd = Some (str_bytes ''fd '' @ dec_int fd)"
    using length_fd [OF assms] by (simp add: client_addr_def snprintf_def)
next
  fix ws :: "16 word list" and port :: "16 word"
  assume "length (ntop6 ws) \<le> 33"
  moreover have "c_string (ntop6 ws @ [0]) = ntop6 ws"
    unfolding c_string_def by (subst takeWhile_append2) (use ntop6_no_nul [of ws] in \<open>auto intro: ccontr\<close>)
  ultimately show "client_addr tmp (Sock_In6 ws port) fd = Some (ntop6 ws @ [58] @ dec_nat (unat port))"
    using port_digits [of port] by (simp add: client_addr_def snprintf_def TMP_SIZE_def Let_def)
next
  fix ws :: "16 word list" and port :: "16 word"
  assume "33 < length (ntop6 ws)"
  then show "client_addr tmp (Sock_In6 ws port) fd =
      (if 0 \<in> set tmp then Some (take 39 (c_string tmp @ [58] @ dec_nat (unat port))) else None)"
    by (simp add: client_addr_def snprintf_def TMP_SIZE_def Let_def)
qed (use ntop6_full in blast)

text \<open>A connection from 2001:db80::1, and one from an address with full groups.\<close>

theorem client_addr_spec_witness:
  "client_addr [] (Sock_In6 [8193, 56192, 0, 0, 0, 0, 0, 1] 80) 5 = Some (str_bytes ''2001:db80::1:80'') \<and>
   client_addr [] (Sock_In6 (replicate 8 65535) 80) 5 = None"
proof -
  have a: "ntop6 [8193, 56192, 0, 0, 0, 0, 0, 1] = str_bytes ''2001:db80::1''"
    by (simp add: ntop6_def best_run_def zeros_at_def groups6_def hex_nat.simps hex_digit_def str_bytes_def upt_rec)
  have "length (ntop6 (replicate 8 65535)) = 39" using client_addr_spec [of 5 "[]"] by simp
  then show ?thesis
    using client_addr_spec [of 5 "[]"] a by (simp add: str_bytes_def dec_nat.simps)
qed

end
