(* ===== verification/Client_Def.thy ===== *)
theory Client_Def
  imports Deque Table_Map Tls_Props Addr_Props
begin

text \<open>
  The commands of \<^verbatim>\<open>server/client.c\<close> on the state of the server: clients, groups and
  reference-counted messages live in stores indexed by addresses, so that the same client is
  reached through the table of descriptors, through a group, and as the sender.  A step that
  follows a dangling pointer, fails an assertion or makes a call that does not end
  sets \<open>h_fault\<close>.  What the program calls but does not define (jansson, \<^verbatim>\<open>strerror\<close>, OpenSSL)
  is given by an environment; its answers, like those of the allocator, depend on the time of
  the call, which \<open>h_tick\<close> counts.
\<close>

section \<open>State\<close>

type_synonym addr = nat

record dime_rcmessage =
  m_refs :: "32 word"
  m_jsondata :: "byte list"
  m_bindata :: "byte list"

text \<open>The arrays \<^verbatim>\<open>clnts\<close> and \<^verbatim>\<open>groups\<close> are the lists of their used elements, with their capacity.\<close>

record dime_group =
  g_name :: string
  g_clnts :: "addr list"
  g_clnts_cap :: size_t

record dime_client =
  c_fd :: int
  c_addr :: "byte list"
  c_waiting :: bool
  c_groups :: "addr list"
  c_groups_cap :: size_t
  c_sock :: dime_socket
  c_queue :: "addr dime_deque"

datatype dime_serialization =
  DIME_NO_SERIALIZATION | DIME_MATLAB | DIME_PICKLE | DIME_DIMEB | DIME_JSON

text \<open>\<open>h_overrun\<close> records a write past the end of \<^verbatim>\<open>err\<close>.\<close>

record dime_server =
  h_err :: string
  h_overrun :: bool
  h_tlsctx :: bool
  h_serialization :: dime_serialization
  h_fd2clnt :: "(int, addr) dime_table"
  h_name2clnt :: "(string, addr) dime_table"
  h_clnts :: "addr \<rightharpoonup> dime_client"
  h_groups :: "addr \<rightharpoonup> dime_group"
  h_msgs :: "addr \<rightharpoonup> dime_rcmessage"
  h_next :: addr
  h_tick :: nat
  h_fault :: bool

section \<open>Environment\<close>

datatype 'j pack_arg = PInt int | PStr string | PBool bool | PObj 'j

record 'j env =
  e_ok :: "nat \<Rightarrow> nat \<Rightarrow> bool"
  e_errno :: "nat \<Rightarrow> string"
  e_loadb :: "byte list \<Rightarrow> string + 'j"
  e_dumps :: "nat \<Rightarrow> 'j \<Rightarrow> byte list option"
  e_pack :: "nat \<Rightarrow> (string \<times> 'j pack_arg) list \<Rightarrow> 'j option"
  e_unpack_sb :: "'j \<Rightarrow> string \<Rightarrow> string \<Rightarrow> string + (string \<times> bool)"
  e_unpack_o :: "'j \<Rightarrow> string \<Rightarrow> string + 'j"
  e_unpack_s :: "'j \<Rightarrow> string \<Rightarrow> string + string"
  e_unpack_I :: "'j \<Rightarrow> string \<Rightarrow> int option"
  e_elems :: "'j \<Rightarrow> 'j list"
  e_string_value :: "'j \<Rightarrow> string option"
  e_array :: "nat \<Rightarrow> 'j option"
  e_string :: "nat \<Rightarrow> string \<Rightarrow> 'j option"
  e_append :: "nat \<Rightarrow> 'j \<Rightarrow> 'j \<Rightarrow> 'j option"
  e_tls :: "nat \<Rightarrow> tls_env"

section \<open>Small steps\<close>

definition fault :: "dime_server \<Rightarrow> dime_server" where
  "fault s = s\<lparr>h_fault := True\<rparr>"

definition tick :: "dime_server \<Rightarrow> dime_server" where
  "tick s = s\<lparr>h_tick := Suc (h_tick s)\<rparr>"

definition set_clnt :: "addr \<Rightarrow> dime_client \<Rightarrow> dime_server \<Rightarrow> dime_server" where
  "set_clnt c cl s = s\<lparr>h_clnts := (h_clnts s)(c \<mapsto> cl)\<rparr>"

definition set_group :: "addr \<Rightarrow> dime_group \<Rightarrow> dime_server \<Rightarrow> dime_server" where
  "set_group g gr s = s\<lparr>h_groups := (h_groups s)(g \<mapsto> gr)\<rparr>"

text \<open>
  \<^verbatim>\<open>strncpy(srv->err, msg, sizeof(srv->err)); srv->err[sizeof(srv->err) - 1] = '\0'\<close>, and the same
  with \<^verbatim>\<open>strncat(srv->err, text, sizeof(srv->err) - strlen(srv->err))\<close> in between, which writes
  its terminating NUL one past the end when the text fills the buffer.
\<close>

definition err_copy :: "string \<Rightarrow> dime_server \<Rightarrow> dime_server" where
  "err_copy msg s = s\<lparr>h_err := take 80 msg\<rparr>"

definition err_cat :: "string \<Rightarrow> string \<Rightarrow> dime_server \<Rightarrow> dime_server" where
  "err_cat prefix text s =
     (let room = ERR_SIZE - length prefix
      in s\<lparr>h_err := take 80 (prefix @ take room text), h_overrun := (h_overrun s \<or> room \<le> length text)\<rparr>)"

text \<open>The literal \<^verbatim>\<open>"{\"status\":0}"\<close>.\<close>

definition STATUS_OK :: "byte list" where
  "STATUS_OK = str_bytes ([CHR 0x7B, CHR 0x22] @ ''status'' @ [CHR 0x22, CHR 0x3A, CHR 0x30, CHR 0x7D])"

definition clnt_push :: "'j env \<Rightarrow> addr \<Rightarrow> 'j \<Rightarrow> dime_server \<Rightarrow> int \<times> dime_server" where
  "clnt_push E c j s =
     (case h_clnts s c of
        None \<Rightarrow> (-1, fault s)
      | Some cl \<Rightarrow>
          (let t = h_tick s;
               (rc, sock) = dime_socket_push (e_dumps E t) (e_errno E t) (e_ok E t) (c_sock cl) j []
           in (rc, tick (set_clnt c (cl\<lparr>c_sock := sock\<rparr>) s))))"

definition clnt_push_str :: "'j env \<Rightarrow> addr \<Rightarrow> byte list \<Rightarrow> byte list \<Rightarrow> dime_server \<Rightarrow> int \<times> dime_server" where
  "clnt_push_str E c str bin s =
     (case h_clnts s c of
        None \<Rightarrow> (-1, fault s)
      | Some cl \<Rightarrow>
          (let t = h_tick s;
               (rc, sock) = dime_socket_push_str (e_errno E t) (e_ok E t) (c_sock cl) str bin
           in (rc, tick (set_clnt c (cl\<lparr>c_sock := sock\<rparr>) s))))"

text \<open>
  \<^verbatim>\<open>response = json_pack(...); if (response != NULL) { dime_socket_push(...); }\<close>
\<close>

definition respond :: "'j env \<Rightarrow> addr \<Rightarrow> (string \<times> 'j pack_arg) list \<Rightarrow> dime_server \<Rightarrow> dime_server" where
  "respond E c args s =
     (case e_pack E (h_tick s) args of
        None \<Rightarrow> tick s
      | Some j \<Rightarrow> snd (clnt_push E c j (tick s)))"

text \<open>The three ways a handler reports a failure: with \<^verbatim>\<open>errno\<close>, a fixed text, or two texts.\<close>

definition fail_text :: "'j env \<Rightarrow> addr \<Rightarrow> string \<Rightarrow> dime_server \<Rightarrow> dime_server" where
  "fail_text E c text s =
     respond E c [(''status'', PInt (-1)), (''error'', PStr text)] (err_copy text s)"

definition fail_errno :: "'j env \<Rightarrow> addr \<Rightarrow> dime_server \<Rightarrow> dime_server" where
  "fail_errno E c s = fail_text E c (e_errno E (h_tick s)) s"

definition fail_cat :: "'j env \<Rightarrow> addr \<Rightarrow> string \<Rightarrow> string \<Rightarrow> dime_server \<Rightarrow> dime_server" where
  "fail_cat E c prefix text s =
     respond E c [(''status'', PInt (-1)), (''error'', PStr (prefix @ text))] (err_cat prefix text s)"

text \<open>The end that most handlers share: \<^verbatim>\<open>dime_socket_push_str(&clnt->sock, "{\"status\":0}", NULL, 0)\<close>.\<close>

definition reply_ok :: "'j env \<Rightarrow> addr \<Rightarrow> dime_server \<Rightarrow> int \<times> dime_server" where
  "reply_ok E c s =
     (let (rc, s) = clnt_push_str E c STATUS_OK [] s
      in if rc < 0 then (-1, fail_errno E c s) else (0, s))"

section \<open>Joining groups\<close>

definition group_name :: "dime_server \<Rightarrow> addr \<Rightarrow> string option" where
  "group_name s g = map_option g_name (h_groups s g)"

text \<open>
  Creating a group: its three allocations and the insertion into \<^verbatim>\<open>name2clnt\<close>, any of which may
  fail; \<open>None\<close> then.
\<close>

definition new_group :: "'j env \<Rightarrow> string \<Rightarrow> dime_server \<Rightarrow> addr option \<times> dime_server" where
  "new_group E name s =
     (let t = h_tick s; s = tick s; g = h_next s
      in if \<not> (e_ok E t 0 \<and> e_ok E t 1 \<and> e_ok E t 2) then (None, s)
         else
           (let s = set_group g \<lparr>g_name = name, g_clnts = [], g_clnts_cap = 4\<rparr> (s\<lparr>h_next := Suc g\<rparr>)
            in case dime_table_insert (e_ok E (h_tick s)) (h_name2clnt s) name g of
                 None \<Rightarrow> (None, fault s)
               | Some (rc, tbl) \<Rightarrow>
                   if rc < 0
                   then (None, tick (s\<lparr>h_name2clnt := tbl, h_groups := (h_groups s)(g := None)\<rparr>))
                   else (Some g, tick (s\<lparr>h_name2clnt := tbl\<rparr>))))"

text \<open>Making room for one more element in an array of pointers; \<open>None\<close> when \<^verbatim>\<open>realloc\<close> fails.\<close>

definition array_room :: "bool \<Rightarrow> size_t \<Rightarrow> size_t \<Rightarrow> size_t option" where
  "array_room ok len cap =
     (if len \<ge> cap then
        (let ncap = sz_mul cap 3 div 2
         in if alloc_ok ok (sz_mul PTR_SIZE ncap) then Some ncap else None)
      else Some cap)"

definition join_group :: "'j env \<Rightarrow> addr \<Rightarrow> addr \<Rightarrow> dime_server \<Rightarrow> bool \<times> dime_server" where
  "join_group E c g s =
     (case (h_clnts s c, h_groups s g) of
        (Some cl, Some gr) \<Rightarrow>
          (let t = h_tick s; s = tick s
           in case array_room (e_ok E t 0) (length (c_groups cl)) (c_groups_cap cl) of
                None \<Rightarrow> (False, fail_errno E c s)
              | Some ccap \<Rightarrow>
                  (let s = set_clnt c (cl\<lparr>c_groups_cap := ccap\<rparr>) s
                   in case array_room (e_ok E t 1) (length (g_clnts gr)) (g_clnts_cap gr) of
                        None \<Rightarrow> (False, fail_errno E c s)
                      | Some gcap \<Rightarrow>
                          (True,
                           set_group g (gr\<lparr>g_clnts := g_clnts gr @ [c], g_clnts_cap := gcap\<rparr>)
                             (set_clnt c (cl\<lparr>c_groups := c_groups cl @ [g], c_groups_cap := ccap\<rparr>) s))))
      | _ \<Rightarrow> (False, fault s))"

text \<open>One turn of the loop of \<^verbatim>\<open>dime_client_join\<close>; the Boolean is false for \<^verbatim>\<open>return -1\<close>.\<close>

definition join_one :: "'j env \<Rightarrow> addr \<Rightarrow> 'j \<Rightarrow> dime_server \<Rightarrow> bool \<times> dime_server" where
  "join_one E c v s =
     (case e_string_value E v of
        None \<Rightarrow> (False, fail_text E c ''JSON parsing error: expected string'' s)
      | Some name \<Rightarrow>
          (case h_clnts s c of
             None \<Rightarrow> (False, fault s)
           | Some cl \<Rightarrow>
               if None \<in> group_name s ` set (c_groups cl) then (False, fault s)
               else if Some name \<in> group_name s ` set (c_groups cl)
               then (False, fail_cat E c ''Client is already in group: '' name s)
               else
                 (case dime_table_search (h_name2clnt s) name of
                    None \<Rightarrow> (False, fault s)
                  | Some (Some g, tbl) \<Rightarrow> join_group E c g (s\<lparr>h_name2clnt := tbl\<rparr>)
                  | Some (None, tbl) \<Rightarrow>
                      (case new_group E name (s\<lparr>h_name2clnt := tbl\<rparr>) of
                         (None, s) \<Rightarrow> (False, fail_errno E c s)
                       | (Some g, s) \<Rightarrow> join_group E c g s))))"

fun foreach :: "('a \<Rightarrow> 's \<Rightarrow> bool \<times> 's) \<Rightarrow> 'a list \<Rightarrow> 's \<Rightarrow> bool \<times> 's" where
  "foreach f [] s = (True, s)"
| "foreach f (x # xs) s = (case f x s of (False, s) \<Rightarrow> (False, s) | (True, s) \<Rightarrow> foreach f xs s)"

definition dime_client_join :: "'j env \<Rightarrow> addr \<Rightarrow> 'j \<Rightarrow> dime_server \<Rightarrow> int \<times> dime_server" where
  "dime_client_join E c jsondata s =
     (case e_unpack_o E jsondata ''name'' of
        Inl text \<Rightarrow> (-1, fail_cat E c ''JSON parsing error: '' text s)
      | Inr arr \<Rightarrow>
          (case foreach (join_one E c) (e_elems E arr) s of
             (False, s) \<Rightarrow> (-1, s)
           | (True, s) \<Rightarrow> reply_ok E c s))"

section \<open>Leaving groups\<close>

text \<open>\<^verbatim>\<open>len--; arr[j] = arr[len];\<close>\<close>

definition swap_remove :: "nat \<Rightarrow> 'a list \<Rightarrow> 'a list" where
  "swap_remove j xs = butlast (xs[j := last xs])"

fun first_index :: "('a \<Rightarrow> bool) \<Rightarrow> 'a list \<Rightarrow> nat option" where
  "first_index P [] = None"
| "first_index P (x # xs) = (if P x then Some 0 else map_option Suc (first_index P xs))"

definition leave_one :: "'j env \<Rightarrow> addr \<Rightarrow> 'j \<Rightarrow> dime_server \<Rightarrow> bool \<times> dime_server" where
  "leave_one E c v s =
     (case e_string_value E v of
        None \<Rightarrow> (False, fail_text E c ''JSON parsing error: expected string'' s)
      | Some name \<Rightarrow>
          (case h_clnts s c of
             None \<Rightarrow> (False, fault s)
           | Some cl \<Rightarrow>
               if None \<in> group_name s ` set (c_groups cl) then (False, fault s)
               else
                 (case first_index (\<lambda>g. group_name s g = Some name) (c_groups cl) of
                    None \<Rightarrow> (False, fail_cat E c ''Client is not in group: '' name s)
                  | Some i \<Rightarrow>
                      (let g = c_groups cl ! i; gr = the (h_groups s g)
                       in case first_index (\<lambda>c'. c' = c) (g_clnts gr) of
                            None \<Rightarrow> (False, fault s)
                          | Some j \<Rightarrow>
                              (True,
                               set_clnt c (cl\<lparr>c_groups := swap_remove i (c_groups cl)\<rparr>)
                                 (set_group g (gr\<lparr>g_clnts := swap_remove j (g_clnts gr)\<rparr>) s))))))"

definition dime_client_leave :: "'j env \<Rightarrow> addr \<Rightarrow> 'j \<Rightarrow> dime_server \<Rightarrow> int \<times> dime_server" where
  "dime_client_leave E c jsondata s =
     (case e_unpack_o E jsondata ''name'' of
        Inl text \<Rightarrow> (-1, fail_cat E c ''JSON parsing error: '' text s)
      | Inr arr \<Rightarrow>
          (case foreach (leave_one E c) (e_elems E arr) s of
             (False, s) \<Rightarrow> (-1, s)
           | (True, s) \<Rightarrow> reply_ok E c s))"

end
