(* ===== verification/Message_Def.thy ===== *)
theory Message_Def
  imports Client_Def
begin

text \<open>
  The commands of \<^verbatim>\<open>server/client.c\<close> that move messages (send, broadcast, sync, wait), the list of
  devices, the handshake, and the creation and destruction of a client.
\<close>

section \<open>Reference counts\<close>

text \<open>\<^verbatim>\<open>if (msg->refs == 0) { free(...); }\<close>\<close>

definition free_if_unused :: "addr \<Rightarrow> dime_server \<Rightarrow> dime_server" where
  "free_if_unused m s =
     (case h_msgs s m of
        None \<Rightarrow> fault s
      | Some msg \<Rightarrow> if m_refs msg = 0 then s\<lparr>h_msgs := (h_msgs s)(m := None)\<rparr> else s)"

definition add_refs :: "32 word \<Rightarrow> addr \<Rightarrow> dime_server \<Rightarrow> dime_server" where
  "add_refs d m s =
     (case h_msgs s m of
        None \<Rightarrow> fault s
      | Some msg \<Rightarrow> s\<lparr>h_msgs := (h_msgs s)(m \<mapsto> msg\<lparr>m_refs := m_refs msg + d\<rparr>)\<rparr>)"

section \<open>Sending\<close>

text \<open>
  Creating the message: \<^verbatim>\<open>malloc\<close>, then \<^verbatim>\<open>json_dumps\<close>; \<open>None\<close> when one of them fails.
\<close>

definition new_message :: "'j env \<Rightarrow> 'j \<Rightarrow> byte list \<Rightarrow> dime_server \<Rightarrow> addr option \<times> dime_server" where
  "new_message E jsondata bindata s =
     (let t = h_tick s; s = tick s; m = h_next s
      in if \<not> e_ok E t 0 then (None, s)
         else
           (case e_dumps E t jsondata of
              None \<Rightarrow> (None, s)
            | Some str \<Rightarrow>
                (Some m, s\<lparr>h_next := Suc m,
                           h_msgs := (h_msgs s)(m \<mapsto> \<lparr>m_refs = 0, m_jsondata = str, m_bindata = bindata\<rparr>)\<rparr>)))"

text \<open>
  Telling a waiting client the length of its queue; the response to a failure goes to that same
  client.
\<close>

definition notify :: "'j env \<Rightarrow> addr \<Rightarrow> dime_server \<Rightarrow> bool \<times> dime_server" where
  "notify E d s =
     (case h_clnts s d of
        None \<Rightarrow> (False, fault s)
      | Some cl \<Rightarrow>
          (case e_pack E (h_tick s) [(''status'', PInt 0), (''n'', PInt (int (dime_deque_len (c_queue cl))))] of
             None \<Rightarrow> (False, fail_errno E d (tick s))
           | Some j \<Rightarrow>
               (let (rc, s) = clnt_push E d j (tick s)
                in if rc < 0 then (False, fail_errno E d s) else (True, s))))"

text \<open>
  Delivering message \<open>m\<close> of client \<open>c\<close> to client \<open>d\<close>: one turn of the loops of
  \<^verbatim>\<open>dime_client_send\<close> and \<^verbatim>\<open>dime_client_broadcast\<close>.
\<close>

definition deliver :: "'j env \<Rightarrow> addr \<Rightarrow> addr \<Rightarrow> addr \<Rightarrow> dime_server \<Rightarrow> bool \<times> dime_server" where
  "deliver E c m d s =
     (case h_clnts s d of
        None \<Rightarrow> (False, fault s)
      | Some cl \<Rightarrow>
          (let (rc, queue) = dime_deque_pushr (e_ok E (h_tick s) 0) (c_queue cl) m;
               s = tick (set_clnt d (cl\<lparr>c_queue := queue\<rparr>) s)
           in if rc < 0 then (False, fail_errno E c (free_if_unused m s))
              else if c_waiting cl then
                (case notify E d s of
                   (False, s) \<Rightarrow> (False, s)
                 | (True, s) \<Rightarrow>
                     (case h_clnts s d of
                        None \<Rightarrow> (False, fault s)
                      | Some cl \<Rightarrow> (True, add_refs 1 m (set_clnt d (cl\<lparr>c_waiting := False\<rparr>) s))))
              else (True, add_refs 1 m s)))"

definition no_refs :: "addr \<Rightarrow> dime_server \<Rightarrow> bool" where
  "no_refs m s \<longleftrightarrow> (case h_msgs s m of None \<Rightarrow> True | Some msg \<Rightarrow> m_refs msg = 0)"

definition dime_client_send :: "'j env \<Rightarrow> addr \<Rightarrow> 'j \<Rightarrow> byte list \<Rightarrow> dime_server \<Rightarrow> int \<times> dime_server" where
  "dime_client_send E c jsondata bindata s =
     (case e_unpack_s E jsondata ''name'' of
        Inl text \<Rightarrow> (-1, fail_cat E c ''JSON parsing error: '' text s)
      | Inr name \<Rightarrow>
          (case dime_table_search (h_name2clnt s) name of
             None \<Rightarrow> (-1, fault s)
           | Some (None, tbl) \<Rightarrow> (-1, fail_cat E c ''No such group exists: '' name (s\<lparr>h_name2clnt := tbl\<rparr>))
           | Some (Some g, tbl) \<Rightarrow>
               (let s = s\<lparr>h_name2clnt := tbl\<rparr>
                in case h_groups s g of
                     None \<Rightarrow> (-1, fault s)
                   | Some gr \<Rightarrow>
                       if g_clnts gr = [] then (-1, fail_cat E c ''No such group exists: '' name s)
                       else
                         (case new_message E jsondata bindata s of
                            (None, s) \<Rightarrow> (-1, fail_errno E c s)
                          | (Some m, s) \<Rightarrow>
                              (case foreach (deliver E c m) (g_clnts gr) s of
                                 (False, s) \<Rightarrow> (-1, s)
                               | (True, s) \<Rightarrow>
                                   if no_refs m s then (-1, fault s) else reply_ok E c s)))))"

text \<open>The pairs that an iterator over a table yields.\<close>

definition table_walk :: "('k, addr) dime_table \<Rightarrow> addr list option" where
  "table_walk tbl = map_option (map snd) (dime_table_iter_run (Suc (t_cap tbl)) tbl dime_table_iter_init)"

text \<open>The turn of \<^verbatim>\<open>dime_client_broadcast\<close>, which passes over the sender by its descriptor.\<close>

definition deliver_other :: "'j env \<Rightarrow> addr \<Rightarrow> addr \<Rightarrow> addr \<Rightarrow> dime_server \<Rightarrow> bool \<times> dime_server" where
  "deliver_other E c m d s =
     (case (h_clnts s c, h_clnts s d) of
        (Some cl, Some other) \<Rightarrow> if c_fd cl \<noteq> c_fd other then deliver E c m d s else (True, s)
      | _ \<Rightarrow> (False, fault s))"

definition dime_client_broadcast ::
  "'j env \<Rightarrow> addr \<Rightarrow> 'j \<Rightarrow> byte list \<Rightarrow> dime_server \<Rightarrow> int \<times> dime_server" where
  "dime_client_broadcast E c jsondata bindata s =
     (case new_message E jsondata bindata s of
        (None, s) \<Rightarrow> (-1, fail_errno E c s)
      | (Some m, s) \<Rightarrow>
          (case table_walk (h_fd2clnt s) of
             None \<Rightarrow> (-1, fault s)
           | Some ds \<Rightarrow>
               (case foreach (deliver_other E c m) ds s of
                  (False, s) \<Rightarrow> (-1, s)
                | (True, s) \<Rightarrow> reply_ok E c (free_if_unused m s))))"

section \<open>Synchronizing and waiting\<close>

text \<open>
  The loop of \<^verbatim>\<open>dime_client_sync\<close>, at most \<open>n\<close> turns: pop a message, push it on the socket, put it
  back if that fails, release it otherwise.
\<close>

fun sync_loop :: "'j env \<Rightarrow> addr \<Rightarrow> nat \<Rightarrow> dime_server \<Rightarrow> bool \<times> dime_server" where
  "sync_loop E c 0 s = (True, s)"
| "sync_loop E c (Suc n) s =
     (case h_clnts s c of
        None \<Rightarrow> (False, fault s)
      | Some cl \<Rightarrow>
          (case dime_deque_popl (c_queue cl) of
             (None, queue) \<Rightarrow> (True, s)
           | (Some m, queue) \<Rightarrow>
               (let s = set_clnt c (cl\<lparr>c_queue := queue\<rparr>) s
                in case h_msgs s m of
                     None \<Rightarrow> (False, fault s)
                   | Some msg \<Rightarrow>
                       (let (rc, s) = clnt_push_str E c (m_jsondata msg) (m_bindata msg) s
                        in if rc < 0 then
                             (case h_clnts s c of
                                None \<Rightarrow> (False, fault s)
                              | Some cl \<Rightarrow>
                                  (False,
                                   tick (set_clnt c
                                     (cl\<lparr>c_queue := snd (dime_deque_pushl (e_ok E (h_tick s) 0) (c_queue cl) m)\<rparr>) s)))
                           else sync_loop E c n (free_if_unused m (add_refs (-1) m s))))))"

definition dime_client_sync :: "'j env \<Rightarrow> addr \<Rightarrow> 'j \<Rightarrow> dime_server \<Rightarrow> int \<times> dime_server" where
  "dime_client_sync E c jsondata s =
     (case e_unpack_I E jsondata ''n'' of
        None \<Rightarrow> (-1, s)
      | Some n \<Rightarrow>
          (case sync_loop E c (ssize_to_size (if n < 0 then -1 else n)) s of
             (False, s) \<Rightarrow> (-1, s)
           | (True, s) \<Rightarrow> reply_ok E c s))"

definition dime_client_wait :: "'j env \<Rightarrow> addr \<Rightarrow> dime_server \<Rightarrow> int \<times> dime_server" where
  "dime_client_wait E c s =
     (case h_clnts s c of
        None \<Rightarrow> (-1, fault s)
      | Some cl \<Rightarrow>
          if dime_deque_len (c_queue cl) > 0
          then (case notify E c s of (False, s) \<Rightarrow> (-1, s) | (True, s) \<Rightarrow> (0, s))
          else (0, set_clnt c (cl\<lparr>c_waiting := True\<rparr>) s))"

section \<open>Listing the groups\<close>

text \<open>
  One turn of the loop of \<^verbatim>\<open>dime_client_devices\<close>; \<open>None\<close> when jansson fails.
\<close>

fun devices_loop :: "'j env \<Rightarrow> addr list \<Rightarrow> 'j \<Rightarrow> dime_server \<Rightarrow> 'j option \<times> dime_server" where
  "devices_loop E [] arr s = (Some arr, s)"
| "devices_loop E (g # gs) arr s =
     (case h_groups s g of
        None \<Rightarrow> (None, fault s)
      | Some gr \<Rightarrow>
          if g_clnts gr = [] then devices_loop E gs arr s
          else
            (case e_string E (h_tick s) (g_name gr) of
               None \<Rightarrow> (None, tick s)
             | Some str \<Rightarrow>
                 (case e_append E (h_tick s) arr str of
                    None \<Rightarrow> (None, tick s)
                  | Some arr \<Rightarrow> devices_loop E gs arr (tick s))))"

definition dime_client_devices :: "'j env \<Rightarrow> addr \<Rightarrow> dime_server \<Rightarrow> int \<times> dime_server" where
  "dime_client_devices E c s =
     (case e_array E (h_tick s) of
        None \<Rightarrow> (-1, fail_errno E c (tick s))
      | Some arr \<Rightarrow>
          (case table_walk (h_name2clnt s) of
             None \<Rightarrow> (-1, fault s)
           | Some gs \<Rightarrow>
               (case devices_loop E gs arr (tick s) of
                  (None, s) \<Rightarrow> (-1, fail_errno E c s)
                | (Some arr, s) \<Rightarrow>
                    (case e_pack E (h_tick s) [(''status'', PInt 0), (''devices'', PObj arr)] of
                       None \<Rightarrow> (-1, fail_errno E c (tick s))
                     | Some j \<Rightarrow>
                         (let (rc, s) = clnt_push E c j (tick s)
                          in if rc < 0 then (-1, fail_errno E c s) else (0, s))))))"

section \<open>Handshake\<close>

definition serialization_of :: "string \<Rightarrow> dime_serialization option" where
  "serialization_of str =
     (if str = ''matlab'' then Some DIME_MATLAB
      else if str = ''pickle'' then Some DIME_PICKLE
      else if str = ''dimeb'' then Some DIME_DIMEB
      else if str = ''json'' then Some DIME_JSON
      else None)"

fun serialization_name :: "dime_serialization \<Rightarrow> string \<Rightarrow> string" where
  "serialization_name DIME_MATLAB str = ''matlab''"
| "serialization_name DIME_PICKLE str = ''pickle''"
| "serialization_name DIME_DIMEB str = ''dimeb''"
| "serialization_name DIME_JSON str = ''json''"
| "serialization_name DIME_NO_SERIALIZATION str = str"

definition reregister_one :: "'j env \<Rightarrow> addr \<Rightarrow> byte list \<Rightarrow> addr \<Rightarrow> dime_server \<Rightarrow> bool \<times> dime_server" where
  "reregister_one E c meta_str d s =
     (if d \<noteq> c then (let (rc, s) = clnt_push_str E d meta_str [] s in (\<not> rc < 0, s)) else (True, s))"

text \<open>
  Agreeing on a serialization: the first client decides; when a later one disagrees, and the
  server is not yet on one of the two portable formats, every other client is told to
  re-register with \<^verbatim>\<open>dimeb\<close>.
\<close>

definition negotiate :: "'j env \<Rightarrow> addr \<Rightarrow> dime_serialization \<Rightarrow> dime_server \<Rightarrow> bool \<times> dime_server" where
  "negotiate E c i s =
     (if h_serialization s = DIME_NO_SERIALIZATION then (True, s\<lparr>h_serialization := i\<rparr>)
      else if h_serialization s \<noteq> i \<and> h_serialization s \<noteq> DIME_DIMEB \<and> h_serialization s \<noteq> DIME_JSON then
        (case e_pack E (h_tick s) [(''status'', PInt 1), (''meta'', PBool True),
             (''command'', PStr ''reregister''), (''serialization'', PStr ''dimeb'')] of
           None \<Rightarrow> (False, tick s)
         | Some meta \<Rightarrow>
             (case e_dumps E (h_tick s) meta of
                None \<Rightarrow> (False, tick s)
              | Some meta_str \<Rightarrow>
                  (case table_walk (h_fd2clnt s) of
                     None \<Rightarrow> (False, fault s)
                   | Some ds \<Rightarrow>
                       (case foreach (reregister_one E c meta_str) ds (tick s) of
                          (False, s) \<Rightarrow> (False, s)
                        | (True, s) \<Rightarrow> (True, s\<lparr>h_serialization := DIME_DIMEB\<rparr>)))))
      else (True, s))"

definition start_tls :: "'j env \<Rightarrow> addr \<Rightarrow> dime_server \<Rightarrow> int \<times> dime_server" where
  "start_tls E c s =
     (case h_clnts s c of
        None \<Rightarrow> (-1, fault s)
      | Some cl \<Rightarrow>
          (case dime_socket_init_tls (e_tls E (h_tick s)) (c_sock cl) of
             Tls_Return rc sock _ \<Rightarrow>
               (let s = tick (set_clnt c (cl\<lparr>c_sock := sock\<rparr>) s)
                in if rc < 0 then (-1, s) else (0, s))
           | _ \<Rightarrow> (-1, fault s)))"

definition dime_client_handshake :: "'j env \<Rightarrow> addr \<Rightarrow> 'j \<Rightarrow> dime_server \<Rightarrow> int \<times> dime_server" where
  "dime_client_handshake E c jsondata s =
     (case e_unpack_sb E jsondata ''serialization'' ''tls'' of
        Inl text \<Rightarrow> (-1, fail_cat E c ''JSON parsing error: '' text s)
      | Inr (serialization, tls) \<Rightarrow>
          (case serialization_of serialization of
             None \<Rightarrow> (-1, s)
           | Some i \<Rightarrow>
               (case negotiate E c i s of
                  (False, s) \<Rightarrow> (-1, s)
                | (True, s) \<Rightarrow>
                    (let serialization = serialization_name (h_serialization s) serialization;
                         tls = (tls \<and> h_tlsctx s)
                     in case e_pack E (h_tick s) [(''status'', PInt 0),
                          (''serialization'', PStr serialization), (''tls'', PBool tls)] of
                          None \<Rightarrow> (-1, tick s)
                        | Some response \<Rightarrow>
                            (let (rc, s) = clnt_push E c response (tick s)
                             in if rc < 0 then (-1, s)
                                else if tls then start_tls E c s else (0, s))))))"

section \<open>Creating and destroying a client\<close>

text \<open>
  \<^verbatim>\<open>dime_client_init\<close>: the allocation of the printed address, of the group array, the socket and the
  queue.  It ends with \<^verbatim>\<open>-1\<close>, with a client, or while printing the address by reading outside of an array.
\<close>

datatype client_init = Client_Failed | Client_Undefined | Client_Ready dime_client

definition dime_client_init :: "(nat \<Rightarrow> bool) \<Rightarrow> int \<Rightarrow> byte list \<Rightarrow> sockaddr \<Rightarrow> client_init" where
  "dime_client_init ok fd tmp addr =
     (if \<not> ok 0 then Client_Failed
      else
        (case client_addr tmp addr fd of
           None \<Rightarrow> Client_Undefined
         | Some name \<Rightarrow>
             if \<not> alloc_ok (ok 1) (PTR_SIZE * 4) then Client_Failed
             else
               (case dime_socket_init (\<lambda>i. ok (i + 2)) fd of
                  None \<Rightarrow> Client_Failed
                | Some sock \<Rightarrow>
                    (case dime_deque_init (ok 4) of
                       None \<Rightarrow> Client_Failed
                     | Some queue \<Rightarrow>
                         Client_Ready \<lparr>c_fd = fd, c_addr = name, c_waiting = False, c_groups = [], c_groups_cap = 4,
                                       c_sock = sock, c_queue = queue\<rparr>))))"

definition quit_group :: "addr \<Rightarrow> addr \<Rightarrow> dime_server \<Rightarrow> dime_server" where
  "quit_group c g s =
     (case h_groups s g of
        None \<Rightarrow> fault s
      | Some gr \<Rightarrow>
          (case first_index (\<lambda>c'. c' = c) (g_clnts gr) of
             None \<Rightarrow> s
           | Some j \<Rightarrow> set_group g (gr\<lparr>g_clnts := swap_remove j (g_clnts gr)\<rparr>) s))"

definition drop_message :: "addr option \<Rightarrow> dime_server \<Rightarrow> dime_server" where
  "drop_message v s = (case v of None \<Rightarrow> fault s | Some m \<Rightarrow> free_if_unused m (add_refs (-1) m s))"

definition dime_client_destroy :: "addr \<Rightarrow> dime_server \<Rightarrow> dime_server" where
  "dime_client_destroy c s =
     (case h_clnts s c of
        None \<Rightarrow> fault s
      | Some cl \<Rightarrow>
          (let s = fold (quit_group c) (c_groups cl) s
           in case dime_deque_iter_run (Suc (d_cap (c_queue cl))) (c_queue cl) (dime_deque_iter_init (c_queue cl)) of
                None \<Rightarrow> fault s
              | Some vs \<Rightarrow> (fold drop_message vs s)))"

end
