(* ===== verification/Client_Inv.thy ===== *)
theory Client_Inv
  imports Message_Def
begin

text \<open>
  The invariant of the server's stores: the two tables describe the stores, membership of
  clients in groups is symmetric and without duplicates, and every socket and every queue
  satisfies its own invariant.  Pushing on sockets and reporting errors change nothing else.
\<close>

section \<open>Environment\<close>

text \<open>
  What is assumed of the libraries: JSON texts fit in memory and are C strings.
\<close>

definition env_ok :: "'j env \<Rightarrow> bool" where
  "env_ok E \<longleftrightarrow>
     (\<forall>t j str. e_dumps E t j = Some str \<longrightarrow> length str \<le> ALLOC_MAX \<and> 0 \<notin> set str)"

section \<open>Pushes keep the socket invariant\<close>

lemma c_string_c_string [simp]: "c_string (c_string s) = c_string s"
  by (rule c_string_no_nul) (auto simp: c_string_def dest: set_takeWhileD)

lemma length_c_string: "length (c_string s) \<le> length s"
  unfolding c_string_def by (rule length_takeWhile_le)

lemma push_str_c_string:
  "dime_socket_push_str e ok s (c_string str) bin = dime_socket_push_str e ok s str bin"
  by (simp add: dime_socket_push_str_def)

lemma push_str_inv:
  assumes "sock_inv s" and "length str \<le> ALLOC_MAX" and "length bin \<le> ALLOC_MAX"
  shows "sock_inv (snd (dime_socket_push_str e ok s str bin))"
proof -
  have l: "length (fst (c_string str, bin)) \<le> ALLOC_MAX" "length (snd (c_string str, bin)) \<le> ALLOC_MAX"
    using assms(2,3) length_c_string [of str] by simp_all
  have "0 \<notin> set (fst (c_string str, bin))" by (auto simp: c_string_def dest: set_takeWhileD)
  then have "sock_inv (snd (dime_socket_push_str e ok s (c_string str) bin))"
    by (rule push_str_steps [OF assms(1) l, of e ok]) auto
  then show ?thesis by (simp add: push_str_c_string)
qed

lemma push_inv:
  assumes "env_ok E" and "sock_inv s"
  shows "sock_inv (snd (dime_socket_push (e_dumps E t) e ok s j []))"
proof (cases "e_dumps E t j")
  case None
  then show ?thesis using assms(2) by (simp add: dime_socket_push_def set_err_def sock_inv_def)
next
  case (Some str)
  then have "length str \<le> ALLOC_MAX" using assms(1) by (auto simp: env_ok_def)
  then show ?thesis using push_str_inv [OF assms(2)] Some by (simp add: dime_socket_push_def)
qed

section \<open>Changes that only touch sockets\<close>

definition same_clnt :: "dime_client \<Rightarrow> dime_client \<Rightarrow> bool" where
  "same_clnt cl cl' \<longleftrightarrow>
     c_fd cl' = c_fd cl \<and> c_waiting cl' = c_waiting cl \<and> c_groups cl' = c_groups cl \<and>
     c_groups_cap cl' = c_groups_cap cl \<and> c_queue cl' = c_queue cl \<and>
     (sock_inv (c_sock cl) \<longrightarrow> sock_inv (c_sock cl'))"

definition same_but_socks :: "dime_server \<Rightarrow> dime_server \<Rightarrow> bool" where
  "same_but_socks s s' \<longleftrightarrow>
     h_tlsctx s' = h_tlsctx s \<and> h_serialization s' = h_serialization s \<and> h_fd2clnt s' = h_fd2clnt s \<and>
     h_name2clnt s' = h_name2clnt s \<and> h_groups s' = h_groups s \<and> h_msgs s' = h_msgs s \<and>
     h_next s' = h_next s \<and> h_fault s' = h_fault s \<and>
     (\<forall>c. rel_option same_clnt (h_clnts s c) (h_clnts s' c))"

lemma same_clnt_refl [simp]: "same_clnt cl cl"
  by (simp add: same_clnt_def)

lemma same_clnt_trans: "same_clnt a b \<Longrightarrow> same_clnt b c \<Longrightarrow> same_clnt a c"
  by (simp add: same_clnt_def)

lemma same_but_socks_refl [simp]: "same_but_socks s s"
  by (simp add: same_but_socks_def option.rel_refl)

lemma same_but_socks_trans [trans]:
  assumes "same_but_socks a b" and "same_but_socks b c"
  shows "same_but_socks a c"
proof -
  have "rel_option same_clnt (h_clnts a x) (h_clnts c x)" for x
  proof -
    have "rel_option same_clnt (h_clnts a x) (h_clnts b x)" "rel_option same_clnt (h_clnts b x) (h_clnts c x)"
      using assms by (simp_all add: same_but_socks_def)
    then show ?thesis
      by (cases "h_clnts a x"; cases "h_clnts b x"; cases "h_clnts c x") (auto intro: same_clnt_trans)
  qed
  then show ?thesis using assms by (simp add: same_but_socks_def)
qed

lemma same_but_socks_get:
  assumes "same_but_socks s s'" and "h_clnts s c = Some cl"
  obtains cl' where "h_clnts s' c = Some cl'" and "same_clnt cl cl'"
proof -
  have "rel_option same_clnt (h_clnts s c) (h_clnts s' c)" using assms(1) by (simp add: same_but_socks_def)
  then show thesis using that assms(2) by (cases "h_clnts s' c") auto
qed

lemma same_but_socks_get':
  assumes "same_but_socks s s'" and "h_clnts s' c = Some cl'"
  obtains cl where "h_clnts s c = Some cl" and "same_clnt cl cl'"
proof -
  have "rel_option same_clnt (h_clnts s c) (h_clnts s' c)" using assms(1) by (simp add: same_but_socks_def)
  then show thesis using that assms(2) by (cases "h_clnts s c") auto
qed

lemma same_but_socks_None: "same_but_socks s s' \<Longrightarrow> h_clnts s' c = None \<longleftrightarrow> h_clnts s c = None"
  unfolding same_but_socks_def by (metis option.rel_sel)

lemma same_but_socks_ex:
  assumes same: "same_but_socks s s'" and PQ: "\<And>cl cl'. same_clnt cl cl' \<Longrightarrow> P cl' \<longleftrightarrow> P cl"
  shows "(\<exists>cl. h_clnts s' c = Some cl \<and> P cl) \<longleftrightarrow> (\<exists>cl. h_clnts s c = Some cl \<and> P cl)"
proof -
  have "rel_option same_clnt (h_clnts s c) (h_clnts s' c)" using same by (simp add: same_but_socks_def)
  then show ?thesis by (cases "h_clnts s c"; cases "h_clnts s' c") (simp_all add: PQ)
qed

lemma same_but_socks_group_name: "same_but_socks s s' \<Longrightarrow> group_name s' = group_name s"
  by (simp add: same_but_socks_def group_name_def fun_eq_iff)

lemma same_tick [simp]: "same_but_socks s (tick s)"
  by (simp add: same_but_socks_def tick_def option.rel_refl)

lemma same_err [simp]: "same_but_socks s (err_copy msg s)" "same_but_socks s (err_cat p msg s)"
  by (simp_all add: same_but_socks_def err_copy_def err_cat_def Let_def option.rel_refl)

lemma same_set_sock:
  assumes "h_clnts s c = Some cl" and "same_clnt cl cl'"
  shows "same_but_socks s (set_clnt c cl' s)"
  using assms by (auto simp: same_but_socks_def set_clnt_def option.rel_refl)

lemma clnt_push_same:
  assumes "env_ok E" and "h_clnts s c \<noteq> None"
  shows "same_but_socks s (snd (clnt_push E c j s))"
proof -
  obtain cl where cl: "h_clnts s c = Some cl" using assms(2) by auto
  let ?p = "dime_socket_push (e_dumps E (h_tick s)) (e_errno E (h_tick s)) (e_ok E (h_tick s)) (c_sock cl) j []"
  have "same_clnt cl (cl\<lparr>c_sock := snd ?p\<rparr>)" using push_inv [OF assms(1)] by (simp add: same_clnt_def)
  then have "same_but_socks s (tick (set_clnt c (cl\<lparr>c_sock := snd ?p\<rparr>) s))"
    using same_but_socks_trans [OF same_set_sock [OF cl] same_tick] by blast
  then show ?thesis by (simp add: clnt_push_def cl split_beta Let_def)
qed

lemma clnt_push_str_same:
  assumes "length str \<le> ALLOC_MAX" and "length bin \<le> ALLOC_MAX" and "h_clnts s c \<noteq> None"
  shows "same_but_socks s (snd (clnt_push_str E c str bin s))"
proof -
  obtain cl where cl: "h_clnts s c = Some cl" using assms(3) by auto
  let ?p = "dime_socket_push_str (e_errno E (h_tick s)) (e_ok E (h_tick s)) (c_sock cl) str bin"
  have "same_clnt cl (cl\<lparr>c_sock := snd ?p\<rparr>)" using push_str_inv [OF _ assms(1,2)] by (simp add: same_clnt_def)
  then have "same_but_socks s (tick (set_clnt c (cl\<lparr>c_sock := snd ?p\<rparr>) s))"
    using same_but_socks_trans [OF same_set_sock [OF cl] same_tick] by blast
  then show ?thesis by (simp add: clnt_push_str_def cl split_beta Let_def)
qed

lemma respond_same:
  assumes "env_ok E" and "h_clnts s c \<noteq> None"
  shows "same_but_socks s (respond E c args s)"
proof (cases "e_pack E (h_tick s) args")
  case None
  then show ?thesis by (simp add: respond_def)
next
  case (Some j)
  have "same_but_socks (tick s) (snd (clnt_push E c j (tick s)))"
    using assms by (intro clnt_push_same) (simp_all add: tick_def)
  then show ?thesis using Some same_but_socks_trans [OF same_tick] by (simp add: respond_def)
qed

lemma fail_same:
  assumes "env_ok E" and "h_clnts s c \<noteq> None"
  shows "same_but_socks s (fail_text E c text s)" and "same_but_socks s (fail_errno E c s)"
    and "same_but_socks s (fail_cat E c p text s)"
proof -
  have "same_but_socks s (respond E c args (err_copy msg s))" for args msg
    by (rule same_but_socks_trans [OF same_err(1) respond_same]) (use assms in \<open>simp_all add: err_copy_def\<close>)
  then show "same_but_socks s (fail_text E c text s)" and "same_but_socks s (fail_errno E c s)"
    by (simp_all add: fail_text_def fail_errno_def)
  have "same_but_socks s (respond E c args (err_cat p text s))" for args
    by (rule same_but_socks_trans [OF same_err(2) respond_same]) (use assms in \<open>simp_all add: err_cat_def Let_def\<close>)
  then show "same_but_socks s (fail_cat E c p text s)" by (simp add: fail_cat_def)
qed

lemma length_str_bytes [simp]: "length (str_bytes s) = length s"
  by (simp add: str_bytes_def)

lemma length_STATUS_OK: "length STATUS_OK \<le> ALLOC_MAX"
proof -
  have "length STATUS_OK = 12" by (simp only: STATUS_OK_def length_str_bytes) simp
  then show ?thesis by (simp add: ALLOC_MAX_def)
qed

lemma reply_ok_same:
  assumes "env_ok E" and "h_clnts s c \<noteq> None"
  shows "same_but_socks s (snd (reply_ok E c s))"
proof -
  let ?s = "snd (clnt_push_str E c STATUS_OK [] s)"
  have s: "same_but_socks s ?s" using length_STATUS_OK assms(2) by (intro clnt_push_str_same) simp_all
  have "h_clnts ?s c \<noteq> None" using same_but_socks_None [OF s] assms(2) by simp
  then have "same_but_socks s (fail_errno E c ?s)" using same_but_socks_trans [OF s fail_same(2) [OF assms(1)]] by blast
  then show ?thesis using s by (simp add: reply_ok_def split_beta Let_def)
qed

section \<open>The invariant\<close>

definition tables_ok :: "dime_server \<Rightarrow> bool" where
  "tables_ok s \<longleftrightarrow>
     table_inv (h_fd2clnt s) \<and> table_inv (h_name2clnt s) \<and>
     (\<forall>fd c. table_map (h_fd2clnt s) fd = Some c \<longleftrightarrow> (\<exists>cl. h_clnts s c = Some cl \<and> c_fd cl = fd)) \<and>
     (\<forall>name g. table_map (h_name2clnt s) name = Some g \<longleftrightarrow> group_name s g = Some name)"

definition member :: "dime_server \<Rightarrow> addr \<Rightarrow> addr \<Rightarrow> bool" where
  "member s c g \<longleftrightarrow> (\<exists>gr. h_groups s g = Some gr \<and> c \<in> set (g_clnts gr))"

definition has_group :: "dime_server \<Rightarrow> addr \<Rightarrow> addr \<Rightarrow> bool" where
  "has_group s c g \<longleftrightarrow> (\<exists>cl. h_clnts s c = Some cl \<and> g \<in> set (c_groups cl))"

text \<open>An array of pointers of capacity \<open>cap\<close>, as the program allocates them, holding \<open>xs\<close>.\<close>

definition array_ok :: "'a list \<Rightarrow> size_t \<Rightarrow> bool" where
  "array_ok xs cap \<longleftrightarrow> distinct xs \<and> length xs \<le> cap \<and> 4 \<le> cap \<and> cap * 8 \<le> ALLOC_MAX"

definition groups_ok :: "dime_server \<Rightarrow> bool" where
  "groups_ok s \<longleftrightarrow>
     (\<forall>c g. member s c g \<longleftrightarrow> has_group s c g) \<and>
     (\<forall>g gr. h_groups s g = Some gr \<longrightarrow> array_ok (g_clnts gr) (g_clnts_cap gr)) \<and>
     (\<forall>c cl. h_clnts s c = Some cl \<longrightarrow> array_ok (c_groups cl) (c_groups_cap cl))"

definition msg_ok :: "dime_rcmessage \<Rightarrow> bool" where
  "msg_ok msg \<longleftrightarrow> length (m_jsondata msg) \<le> ALLOC_MAX \<and> length (m_bindata msg) \<le> ALLOC_MAX \<and>
     0 \<notin> set (m_jsondata msg)"

definition clnts_ok :: "dime_server \<Rightarrow> bool" where
  "clnts_ok s \<longleftrightarrow>
     (\<forall>c cl. h_clnts s c = Some cl \<longrightarrow>
        sock_inv (c_sock cl) \<and> dq_inv (c_queue cl) \<and> 0 \<le> c_fd cl \<and> c_fd cl < 2 ^ 31) \<and>
     (\<forall>m msg. h_msgs s m = Some msg \<longrightarrow> msg_ok msg)"

definition fresh_ok :: "dime_server \<Rightarrow> bool" where
  "fresh_ok s \<longleftrightarrow>
     (\<forall>a. h_next s \<le> a \<longrightarrow> h_clnts s a = None \<and> h_groups s a = None \<and> h_msgs s a = None)"

definition srv_inv :: "dime_server \<Rightarrow> bool" where
  "srv_inv s \<longleftrightarrow> tables_ok s \<and> groups_ok s \<and> clnts_ok s \<and> fresh_ok s \<and> \<not> h_tlsctx s"

lemma srv_inv_same:
  assumes "srv_inv s" and same: "same_but_socks s s'"
  shows "srv_inv s'"
proof -
  have eqs: "h_fd2clnt s' = h_fd2clnt s" "h_name2clnt s' = h_name2clnt s" "h_groups s' = h_groups s"
    "h_msgs s' = h_msgs s" "h_next s' = h_next s" "h_tlsctx s' = h_tlsctx s"
    using same by (simp_all add: same_but_socks_def)
  have fd: "(\<exists>cl. h_clnts s' c = Some cl \<and> c_fd cl = fd) \<longleftrightarrow> (\<exists>cl. h_clnts s c = Some cl \<and> c_fd cl = fd)" for c fd
    by (rule same_but_socks_ex [OF same]) (simp add: same_clnt_def)
  have grp: "has_group s' c g \<longleftrightarrow> has_group s c g" for c g
    unfolding has_group_def by (rule same_but_socks_ex [OF same]) (simp add: same_clnt_def)
  have mem: "member s' c g \<longleftrightarrow> member s c g" for c g by (simp add: member_def eqs)
  have dist: "array_ok (c_groups cl) (c_groups_cap cl)" if some: "h_clnts s' c = Some cl" for c cl
  proof -
    obtain cl0 where "h_clnts s c = Some cl0" "same_clnt cl0 cl" by (rule same_but_socks_get' [OF same some])
    then show ?thesis using assms(1) by (auto simp: same_clnt_def srv_inv_def groups_ok_def)
  qed
  have inv: "sock_inv (c_sock cl) \<and> dq_inv (c_queue cl) \<and> 0 \<le> c_fd cl \<and> c_fd cl < 2 ^ 31" if some: "h_clnts s' c = Some cl" for c cl
  proof -
    obtain cl0 where "h_clnts s c = Some cl0" "same_clnt cl0 cl" by (rule same_but_socks_get' [OF same some])
    then show ?thesis using assms(1) by (auto simp: same_clnt_def srv_inv_def clnts_ok_def)
  qed
  show ?thesis
    using assms(1) dist inv same_but_socks_None [OF same]
    unfolding srv_inv_def tables_ok_def groups_ok_def clnts_ok_def fresh_ok_def
    by (simp add: eqs fd grp mem same_but_socks_group_name [OF same])
qed

lemma srv_inv_fault [simp]: "srv_inv (fault s) = srv_inv s"
  by (simp add: srv_inv_def tables_ok_def groups_ok_def clnts_ok_def fresh_ok_def fault_def
    group_name_def member_def has_group_def)

lemma srv_inv_tick [simp]: "srv_inv (tick s) = srv_inv s"
  by (simp add: srv_inv_def tables_ok_def groups_ok_def clnts_ok_def fresh_ok_def tick_def
    group_name_def member_def has_group_def)

lemma clnts_tick [simp]: "h_clnts (tick s) = h_clnts s" "h_clnts (fault s) = h_clnts s"
  by (simp_all add: tick_def fault_def)

lemma tick_fields [simp]:
  "h_next (tick s) = h_next s" "h_name2clnt (tick s) = h_name2clnt s" "h_fd2clnt (tick s) = h_fd2clnt s"
  "h_groups (tick s) = h_groups s" "h_msgs (tick s) = h_msgs s" "h_fault (tick s) = h_fault s"
  "h_serialization (tick s) = h_serialization s"
  by (simp_all add: tick_def)

lemma set_group_fields [simp]:
  "h_next (set_group g gr s) = h_next s" "h_name2clnt (set_group g gr s) = h_name2clnt s"
  "h_fd2clnt (set_group g gr s) = h_fd2clnt s" "h_clnts (set_group g gr s) = h_clnts s"
  "h_groups (set_group g gr s) = (h_groups s)(g \<mapsto> gr)"
  "h_msgs (set_group g gr s) = h_msgs s" "h_tlsctx (set_group g gr s) = h_tlsctx s" "h_fault (set_group g gr s) = h_fault s"
  by (simp_all add: set_group_def)

lemma set_clnt_fields [simp]:
  "h_next (set_clnt c cl s) = h_next s" "h_name2clnt (set_clnt c cl s) = h_name2clnt s"
  "h_fd2clnt (set_clnt c cl s) = h_fd2clnt s" "h_clnts (set_clnt c cl s) = (h_clnts s)(c \<mapsto> cl)"
  "h_groups (set_clnt c cl s) = h_groups s" "h_serialization (set_clnt c cl s) = h_serialization s"
  "h_msgs (set_clnt c cl s) = h_msgs s" "h_tlsctx (set_clnt c cl s) = h_tlsctx s" "h_fault (set_clnt c cl s) = h_fault s"
  by (simp_all add: set_clnt_def)

lemma srv_inv_parts:
  assumes "srv_inv s"
  shows "table_inv (h_fd2clnt s)" and "table_inv (h_name2clnt s)"
    and "\<And>fd c. table_map (h_fd2clnt s) fd = Some c \<longleftrightarrow> (\<exists>cl. h_clnts s c = Some cl \<and> c_fd cl = fd)"
    and "\<And>name g. table_map (h_name2clnt s) name = Some g \<longleftrightarrow> group_name s g = Some name"
    and "\<And>c g. member s c g \<longleftrightarrow> has_group s c g"
    and "\<And>g gr. h_groups s g = Some gr \<Longrightarrow> array_ok (g_clnts gr) (g_clnts_cap gr)"
    and "\<And>c cl. h_clnts s c = Some cl \<Longrightarrow> array_ok (c_groups cl) (c_groups_cap cl)"
    and "\<And>c cl. h_clnts s c = Some cl \<Longrightarrow> sock_inv (c_sock cl)"
    and "\<And>c cl. h_clnts s c = Some cl \<Longrightarrow> dq_inv (c_queue cl)"
    and "\<And>m msg. h_msgs s m = Some msg \<Longrightarrow> msg_ok msg"
    and "\<And>a. h_next s \<le> a \<Longrightarrow> h_clnts s a = None \<and> h_groups s a = None \<and> h_msgs s a = None"
    and "\<not> h_tlsctx s"
  using assms unfolding srv_inv_def tables_ok_def groups_ok_def clnts_ok_def fresh_ok_def by blast+

section \<open>Loops\<close>

text \<open>Each turn of a loop keeps \<open>P\<close>; a turn that faults ends the loop in a state with \<open>Q\<close>.\<close>

lemma foreach_safe:
  assumes "P s" and "\<not> h_fault s"
    and "\<And>x s. x \<in> set xs \<Longrightarrow> P s \<Longrightarrow> \<not> h_fault s \<Longrightarrow> P (snd (f x s)) \<and>
      (h_fault (snd (f x s)) \<longrightarrow> \<not> fst (f x s) \<and> Q (snd (f x s)))"
  shows "P (snd (foreach f xs s)) \<and>
    (h_fault (snd (foreach f xs s)) \<longrightarrow> \<not> fst (foreach f xs s) \<and> Q (snd (foreach f xs s)))"
  using assms
proof (induction xs arbitrary: s)
  case Nil
  then show ?case by simp
next
  case (Cons x xs)
  obtain go s1 where f: "f x s = (go, s1)" by (cases "f x s")
  have s1: "P s1" "h_fault s1 \<longrightarrow> \<not> go \<and> Q s1" using Cons.prems(3) [of x s] Cons.prems(1,2) f by simp_all
  show ?case
  proof (cases go)
    case True
    then have "\<not> h_fault s1" using s1(2) by simp
    then show ?thesis using Cons.IH [OF s1(1)] Cons.prems(3) f True by simp
  next
    case False
    then show ?thesis using s1 f by simp
  qed
qed

lemma foreach_inv:
  assumes "P s" and "\<And>x s. x \<in> set xs \<Longrightarrow> P s \<Longrightarrow> P (snd (f x s))"
  shows "P (snd (foreach f xs s))"
  using assms
proof (induction xs arbitrary: s)
  case Nil
  then show ?case by simp
next
  case (Cons x xs)
  obtain go s1 where f: "f x s = (go, s1)" by (cases "f x s")
  have "P s1" using Cons.prems(2) [of x s] Cons.prems(1) f by simp
  then show ?case using Cons.IH [of s1] Cons.prems(2) f by (cases go) simp_all
qed

end
