(* ===== verification/Client_Group.thy ===== *)
theory Client_Group
  imports Client_Inv
begin

text \<open>
  Joining and leaving groups (\<^verbatim>\<open>dime_client_join\<close>, \<^verbatim>\<open>dime_client_leave\<close> of
  \<^verbatim>\<open>server/client.c\<close>) implement the insertion into and the removal from a membership relation
  between clients and names, keep the invariant of the stores, and stay within their arrays.
\<close>

section \<open>Searching a table that the invariant describes\<close>

lemma table_search_None:
  assumes "table_inv t" and "table_map t k = None" and "\<not> table_live t"
  shows "dime_table_search t k = None"
proof -
  have "bucket (t_cap t) (t_hash_f t k) < t_cap t"
    using key_slot_less(1) [OF assms(1), of k 0] unfolding key_slot_less(3) [OF assms(1)] .
  then have "dime_table_search_probe (Suc (t_cap t)) t k (bucket (t_cap t) (t_hash_f t k)) 1 None = None"
    by (rule search_probe_diverges [OF assms])
  then show ?thesis by (simp add: dime_table_search_def Let_def del: dime_table_search_probe.simps)
qed

lemma table_search_cases:
  assumes "table_inv t"
  obtains (dead) "dime_table_search t k = None" and "table_map t k = None" and "\<not> table_live t"
  | (found) t' where "dime_table_search t k = Some (table_map t k, t')" and "table_inv t'"
      and "table_map t' = table_map t" and "table_live t' = table_live t"
proof (cases "table_map t k \<noteq> None \<or> table_live t")
  case True
  obtain t' where "dime_table_search t k = Some (table_map t k, t')" "table_inv t'"
    "table_map t' = table_map t" "table_live t' = table_live t"
    using tb.search_law [OF assms True] by blast
  then show thesis by (rule found)
next
  case False
  then have no: "table_map t k = None" "\<not> table_live t" by simp_all
  show thesis by (rule dead [OF table_search_None [OF assms no] no])
qed

text \<open>The search may move an entry of the table; nothing else sees it.\<close>

lemma srv_inv_search:
  assumes "srv_inv s" and "table_inv t" and "table_map t = table_map (h_name2clnt s)"
  shows "srv_inv (s\<lparr>h_name2clnt := t\<rparr>)"
  using assms by (simp add: srv_inv_def tables_ok_def groups_ok_def clnts_ok_def fresh_ok_def
    group_name_def member_def has_group_def)

section \<open>Membership\<close>

definition membership :: "dime_server \<Rightarrow> (addr \<times> string) set" where
  "membership s = {(c, name). \<exists>g. member s c g \<and> group_name s g = Some name}"

lemma membership_same: "same_but_socks s s' \<Longrightarrow> membership s' = membership s"
  using same_but_socks_group_name [of s s'] by (simp add: membership_def member_def same_but_socks_def)

lemma membership_tick [simp]: "membership (tick s) = membership s" "membership (fault s) = membership s"
  by (simp_all add: membership_def member_def group_name_def tick_def fault_def)

lemma membership_search [simp]: "membership (s\<lparr>h_name2clnt := t\<rparr>) = membership s"
  by (simp add: membership_def member_def group_name_def)

lemma membership_client:
  assumes "srv_inv s" and "h_clnts s c = Some cl"
  shows "(c, name) \<in> membership s \<longleftrightarrow> Some name \<in> group_name s ` set (c_groups cl)"
  using srv_inv_parts(5) [OF assms(1), of c] assms(2)
  by (auto simp: membership_def has_group_def image_iff) metis+

lemma client_groups_exist:
  assumes "srv_inv s" and "h_clnts s c = Some cl" and "g \<in> set (c_groups cl)"
  obtains gr where "h_groups s g = Some gr" and "c \<in> set (g_clnts gr)"
proof -
  have "has_group s c g" using assms(2,3) by (simp add: has_group_def)
  then have "member s c g" using srv_inv_parts(5) [OF assms(1)] by simp
  then show thesis using that by (auto simp: member_def)
qed

lemma client_groups_named:
  assumes "srv_inv s" and "h_clnts s c = Some cl"
  shows "None \<notin> group_name s ` set (c_groups cl)"
proof
  assume "None \<in> group_name s ` set (c_groups cl)"
  then obtain g where g: "g \<in> set (c_groups cl)" "group_name s g = None" by auto
  show False by (rule client_groups_exist [OF assms g(1)]) (use g(2) in \<open>simp add: group_name_def\<close>)
qed

lemma group_members_exist:
  assumes "srv_inv s" and "h_groups s g = Some gr" and "c \<in> set (g_clnts gr)"
  obtains cl where "h_clnts s c = Some cl" and "g \<in> set (c_groups cl)"
proof -
  have "member s c g" using assms(2,3) by (simp add: member_def)
  then have "has_group s c g" using srv_inv_parts(5) [OF assms(1)] by simp
  then show thesis using that by (auto simp: has_group_def)
qed

lemma group_name_inj:
  assumes "srv_inv s" and "group_name s g = Some name" and "group_name s g' = Some name"
  shows "g' = g"
  using srv_inv_parts(4) [OF assms(1), of name] assms(2,3) by (metis option.inject)

section \<open>Changing one link between a client and a group\<close>

text \<open>The client \<open>c\<close> and the group \<open>g\<close> get new lists that differ from the old ones in the other only.\<close>

definition relink ::
  "addr \<Rightarrow> dime_client \<Rightarrow> dime_client \<Rightarrow> addr \<Rightarrow> dime_group \<Rightarrow> dime_group \<Rightarrow> bool" where
  "relink c cl cl' g gr gr' \<longleftrightarrow>
     c_fd cl' = c_fd cl \<and> c_sock cl' = c_sock cl \<and> c_queue cl' = c_queue cl \<and> g_name gr' = g_name gr \<and>
     array_ok (c_groups cl') (c_groups_cap cl') \<and> array_ok (g_clnts gr') (g_clnts_cap gr') \<and>
     (\<forall>g'. g' \<noteq> g \<longrightarrow> g' \<in> set (c_groups cl') \<longleftrightarrow> g' \<in> set (c_groups cl)) \<and>
     (\<forall>c'. c' \<noteq> c \<longrightarrow> c' \<in> set (g_clnts gr') \<longleftrightarrow> c' \<in> set (g_clnts gr)) \<and>
     (g \<in> set (c_groups cl') \<longleftrightarrow> c \<in> set (g_clnts gr'))"

lemma relink_inv:
  assumes inv: "srv_inv s" and cl: "h_clnts s c = Some cl" and gr: "h_groups s g = Some gr"
    and re: "relink c cl cl' g gr gr'"
  defines "s' \<equiv> set_group g gr' (set_clnt c cl' s)"
  shows "srv_inv s'"
    and "member s' c' g' \<longleftrightarrow> (if c' = c \<and> g' = g then c \<in> set (g_clnts gr') else member s c' g')"
    and "group_name s' = group_name s"
proof -
  show mem: "member s' c' g' \<longleftrightarrow> (if c' = c \<and> g' = g then c \<in> set (g_clnts gr') else member s c' g')" for c' g'
    using re gr by (auto simp: s'_def member_def set_group_def set_clnt_def relink_def)
  have has: "has_group s' c' g' \<longleftrightarrow> (if c' = c \<and> g' = g then g \<in> set (c_groups cl') else has_group s c' g')" for c' g'
    using re cl by (auto simp: s'_def has_group_def set_group_def set_clnt_def relink_def)
  show name: "group_name s' = group_name s"
    using re gr by (auto simp: s'_def group_name_def set_group_def set_clnt_def relink_def fun_eq_iff)
  have sym: "member s' c' g' \<longleftrightarrow> has_group s' c' g'" for c' g'
    unfolding mem has using srv_inv_parts(5) [OF inv] re by (simp add: relink_def)
  have fields: "h_fd2clnt s' = h_fd2clnt s" "h_name2clnt s' = h_name2clnt s" "h_msgs s' = h_msgs s"
    "h_next s' = h_next s" "h_tlsctx s' = h_tlsctx s" "h_groups s' = (h_groups s)(g \<mapsto> gr')" "h_clnts s' = (h_clnts s)(c \<mapsto> cl')"
    by (simp_all add: s'_def set_group_def set_clnt_def)
  have fd: "(\<exists>cl. h_clnts s' d = Some cl \<and> c_fd cl = fd) \<longleftrightarrow> (\<exists>cl. h_clnts s d = Some cl \<and> c_fd cl = fd)" for d fd
    using cl re by (auto simp: fields relink_def)
  have "tables_ok s'"
    unfolding tables_ok_def fd unfolding fields name
    using inv by (simp add: srv_inv_def tables_ok_def)
  moreover have "groups_ok s'"
    unfolding groups_ok_def using sym re srv_inv_parts(6,7) [OF inv] by (simp add: fields relink_def)
  moreover have "clnts_ok s'"
    using inv re cl by (auto simp: srv_inv_def clnts_ok_def fields relink_def)
  moreover have "fresh_ok s'"
    using srv_inv_parts(11) [OF inv] cl gr unfolding fresh_ok_def fields
    by (metis fun_upd_other option.distinct(1))
  ultimately show "srv_inv s'" using srv_inv_parts(12) [OF inv] by (simp add: srv_inv_def fields)
qed

lemma relink_membership:
  assumes inv: "srv_inv s" and cl: "h_clnts s c = Some cl" and gr: "h_groups s g = Some gr"
    and re: "relink c cl cl' g gr gr'"
  shows "membership (set_group g gr' (set_clnt c cl' s)) =
    (if c \<in> set (g_clnts gr') then insert (c, g_name gr) (membership s) else membership s - {(c, g_name gr)})"
proof -
  have name: "group_name s g = Some (g_name gr)" using gr by (simp add: group_name_def)
  have "(c', n) \<in> membership (set_group g gr' (set_clnt c cl' s)) \<longleftrightarrow>
      (if c' = c \<and> n = g_name gr then c \<in> set (g_clnts gr') else (c', n) \<in> membership s)" for c' n
  proof (cases "c' = c \<and> n = g_name gr")
    case True
    have *: "(\<exists>g'. (if c' = c \<and> g' = g then c \<in> set (g_clnts gr') else member s c' g') \<and> group_name s g' = Some n) \<longleftrightarrow>
        c \<in> set (g_clnts gr')" (is "(\<exists>g'. ?P g') \<longleftrightarrow> _")
    proof
      assume "\<exists>g'. ?P g'"
      then obtain g' where g': "?P g'" ..
      then have "group_name s g' = Some (g_name gr)" using True by simp
      then have "g' = g" by (rule group_name_inj [OF inv name])
      then show "c \<in> set (g_clnts gr')" using g' True by simp
    next
      assume "c \<in> set (g_clnts gr')"
      then have "?P g" using True name by simp
      then show "\<exists>g'. ?P g'" ..
    qed
    have cn: "c' = c" "n = g_name gr" using True by simp_all
    show ?thesis
      unfolding membership_def relink_inv(2,3) [OF inv cl gr re] mem_Collect_eq case_prod_conv
      using * unfolding cn by simp
  next
    case False
    have "\<not> (c' = c \<and> g' = g)" if "group_name s g' = Some n" for g' using that name False by auto
    then have "(\<exists>g'. (if c' = c \<and> g' = g then c \<in> set (g_clnts gr') else member s c' g') \<and> group_name s g' = Some n) \<longleftrightarrow>
        (\<exists>g'. member s c' g' \<and> group_name s g' = Some n)"
      by (metis (full_types))
    then show ?thesis
      unfolding membership_def relink_inv(2,3) [OF inv cl gr re] mem_Collect_eq case_prod_conv
      by (simp only: if_not_P [OF False])
  qed
  then show ?thesis by (auto split: if_splits)
qed

section \<open>Joining\<close>

lemma array_room_ok:
  assumes "array_ok xs cap" and "array_room ok (length xs) cap = Some cap'"
  shows "length xs < cap'" and "4 \<le> cap'" and "cap' * 8 \<le> ALLOC_MAX" and "array_ok xs cap'"
proof -
  have cap: "cap * 3 < 2 ^ 64" "4 \<le> cap" "cap * 8 \<le> ALLOC_MAX" "length xs \<le> cap" "distinct xs"
    using assms(1) by (simp_all add: array_ok_def ALLOC_MAX_def)
  have "length xs < cap' \<and> 4 \<le> cap' \<and> cap' * 8 \<le> ALLOC_MAX"
  proof (cases "length xs \<ge> cap")
    case True
    have m: "sz_mul cap 3 = cap * 3" using cap(1) by (simp add: sz_mul_def)
    have "8 * (cap * 3 div 2) < 2 ^ 64" using cap(3) by (simp add: ALLOC_MAX_def)
    then have m': "sz_mul 8 (cap * 3 div 2) = 8 * (cap * 3 div 2)" by (simp add: sz_mul_def)
    have "cap' = cap * 3 div 2" "8 * (cap * 3 div 2) \<le> ALLOC_MAX"
      using assms(2) True by (auto simp: array_room_def m PTR_SIZE_def m' Let_def alloc_ok_def split: if_splits)
    moreover have "cap < cap * 3 div 2" using cap(2) by presburger
    ultimately show ?thesis using cap by simp
  next
    case False
    then show ?thesis using assms(2) cap by (simp add: array_room_def)
  qed
  then show "length xs < cap'" "4 \<le> cap'" "cap' * 8 \<le> ALLOC_MAX" "array_ok xs cap'"
    using cap(5) by (simp_all add: array_ok_def)
qed

text \<open>A change of one client that leaves its descriptor and its groups alone.\<close>

lemma set_clnt_inv:
  assumes inv: "srv_inv s" and cl: "h_clnts s c = Some cl"
    and same: "c_fd cl' = c_fd cl" "c_groups cl' = c_groups cl"
    and ok: "array_ok (c_groups cl') (c_groups_cap cl')" "sock_inv (c_sock cl')" "dq_inv (c_queue cl')"
  shows "srv_inv (set_clnt c cl' s)" and "membership (set_clnt c cl' s) = membership s"
proof -
  let ?s = "set_clnt c cl' s"
  have ex: "(\<exists>x. h_clnts ?s d = Some x \<and> P x) \<longleftrightarrow> (\<exists>x. h_clnts s d = Some x \<and> P x)" if "P cl' \<longleftrightarrow> P cl" for P d
    using that cl by auto
  have names: "group_name ?s = group_name s" "member ?s = member s"
    by (simp_all add: group_name_def member_def fun_eq_iff)
  have has: "has_group ?s d g \<longleftrightarrow> has_group s d g" for d g unfolding has_group_def by (rule ex) (simp add: same)
  have fd: "(\<exists>x. h_clnts ?s d = Some x \<and> c_fd x = fd) \<longleftrightarrow> (\<exists>x. h_clnts s d = Some x \<and> c_fd x = fd)" for d fd
    by (rule ex) (simp add: same)
  have "tables_ok ?s" unfolding tables_ok_def fd unfolding names set_clnt_fields
    using inv by (simp add: srv_inv_def tables_ok_def)
  moreover have "groups_ok ?s"
    using srv_inv_parts(5-7) [OF inv] ok(1) unfolding groups_ok_def has by (simp add: names)
  moreover have "clnts_ok ?s" using inv cl same(1) ok(2,3) by (auto simp: srv_inv_def clnts_ok_def)
  moreover have "fresh_ok ?s"
    unfolding fresh_ok_def
  proof (intro allI impI)
    fix a
    assume "h_next ?s \<le> a"
    then have "h_clnts s a = None \<and> h_groups s a = None \<and> h_msgs s a = None"
      using srv_inv_parts(11) [OF inv, of a] by simp
    then show "h_clnts ?s a = None \<and> h_groups ?s a = None \<and> h_msgs ?s a = None" using cl by auto
  qed
  ultimately show "srv_inv ?s" using srv_inv_parts(12) [OF inv] by (simp add: srv_inv_def)
  show "membership ?s = membership s" by (simp add: membership_def names)
qed

lemma set_cap_inv:
  assumes "srv_inv s" and "h_clnts s c = Some cl" and "array_ok (c_groups cl) cap"
  shows "srv_inv (set_clnt c (cl\<lparr>c_groups_cap := cap\<rparr>) s)"
    and "membership (set_clnt c (cl\<lparr>c_groups_cap := cap\<rparr>) s) = membership s"
  using set_clnt_inv [OF assms(1,2), of "cl\<lparr>c_groups_cap := cap\<rparr>"] assms(3)
    srv_inv_parts(8,9) [OF assms(1,2)] by simp_all

text \<open>A step that keeps the invariant and, unless it says \<open>True\<close>, the membership relation.\<close>

definition grows :: "addr \<Rightarrow> string \<Rightarrow> dime_server \<Rightarrow> bool \<times> dime_server \<Rightarrow> bool" where
  "grows c name s r \<longleftrightarrow>
     srv_inv (snd r) \<and> h_clnts (snd r) c \<noteq> None \<and> h_msgs (snd r) = h_msgs s \<and>
     (h_fault (snd r) \<longleftrightarrow> h_fault s) \<and>
     membership (snd r) = (if fst r then insert (c, name) (membership s) else membership s)"

lemma grows_fail:
  assumes "env_ok E" and "srv_inv s'" and "h_clnts s' c \<noteq> None" and "h_msgs s' = h_msgs s"
    and "h_fault s' \<longleftrightarrow> h_fault s" and "membership s' = membership s"
  shows "grows c name s (False, fail_errno E c s')"
proof -
  have same: "same_but_socks s' (fail_errno E c s')" using fail_same(2) assms(1,3) by blast
  then show ?thesis
    using srv_inv_same [OF assms(2) same] same_but_socks_None [OF same, of c] membership_same [OF same] assms
    by (simp add: grows_def same_but_socks_def)
qed

lemma relink_join:
  assumes "array_ok (c_groups cl) ccap" and "array_ok (g_clnts gr) gcap" and "length (c_groups cl) < ccap"
    and "length (g_clnts gr) < gcap" and "g \<notin> set (c_groups cl)" and "c \<notin> set (g_clnts gr)"
  shows "relink c cl (cl\<lparr>c_groups := c_groups cl @ [g], c_groups_cap := ccap\<rparr>)
    g gr (gr\<lparr>g_clnts := g_clnts gr @ [c], g_clnts_cap := gcap\<rparr>)"
  using assms by (auto simp: relink_def array_ok_def)

lemma join_group_grows:
  assumes env: "env_ok E" and inv: "srv_inv s" and cl: "h_clnts s c = Some cl" and gr: "h_groups s g = Some gr"
    and new: "g \<notin> set (c_groups cl)"
  shows "grows c (g_name gr) s (join_group E c g s)"
proof -
  let ?t = "h_tick s"
  have arr: "array_ok (c_groups cl) (c_groups_cap cl)" "array_ok (g_clnts gr) (g_clnts_cap gr)"
    using srv_inv_parts(6,7) [OF inv] cl gr by blast+
  have nm: "c \<notin> set (g_clnts gr)"
    using srv_inv_parts(5) [OF inv, of c g] cl gr new by (auto simp: member_def has_group_def)
  have t: "srv_inv (tick s)" "h_clnts (tick s) c = Some cl" "h_groups (tick s) g = Some gr"
    using inv cl gr by simp_all
  show ?thesis
  proof (cases "array_room (e_ok E ?t 0) (length (c_groups cl)) (c_groups_cap cl)")
    case None
    have "grows c (g_name gr) s (False, fail_errno E c (tick s))"
      by (rule grows_fail [OF env t(1)]) (simp_all add: cl)
    then show ?thesis using None by (simp add: join_group_def cl gr Let_def)
  next
    case (Some ccap)
    note c1 = array_room_ok [OF arr(1) Some]
    let ?cl = "cl\<lparr>c_groups_cap := ccap\<rparr>"
    let ?s = "set_clnt c ?cl (tick s)"
    have s: "srv_inv ?s" "membership ?s = membership (tick s)" by (rule set_cap_inv [OF t(1,2) c1(4)])+
    show ?thesis
    proof (cases "array_room (e_ok E ?t 1) (length (g_clnts gr)) (g_clnts_cap gr)")
      case None
      have "grows c (g_name gr) s (False, fail_errno E c ?s)"
        by (rule grows_fail [OF env s(1)]) (simp_all add: s(2))
      then show ?thesis using None Some by (simp add: join_group_def cl gr Let_def)
    next
      case (Some gcap)
      note g1 = array_room_ok [OF arr(2) Some]
      let ?cl' = "cl\<lparr>c_groups := c_groups cl @ [g], c_groups_cap := ccap\<rparr>"
      let ?gr' = "gr\<lparr>g_clnts := g_clnts gr @ [c], g_clnts_cap := gcap\<rparr>"
      let ?s' = "set_group g ?gr' (set_clnt c ?cl' (tick s))"
      have re: "relink c cl ?cl' g gr ?gr'" by (rule relink_join [OF c1(4) g1(4) c1(1) g1(1) new nm])
      have "srv_inv ?s'" by (rule relink_inv(1) [OF t re])
      moreover have "membership ?s' = insert (c, g_name gr) (membership s)"
        using relink_membership [OF t re] by simp
      ultimately have "grows c (g_name gr) s (True, ?s')"
        by (simp add: grows_def)
      moreover have "join_group E c g s = (True, ?s')"
        using Some \<open>array_room (e_ok E ?t 0) _ _ = Some ccap\<close>
        by (simp add: join_group_def cl gr Let_def set_clnt_def)
      ultimately show ?thesis by simp
    qed
  qed
qed

text \<open>A step of the allocator's counters only.\<close>

lemma srv_inv_next: "srv_inv s \<Longrightarrow> srv_inv (s\<lparr>h_next := Suc (h_next s)\<rparr>)"
  by (simp add: srv_inv_def tables_ok_def groups_ok_def clnts_ok_def fresh_ok_def group_name_def
    member_def has_group_def)

text \<open>Adding an empty group under a new name.\<close>

lemma add_group_inv:
  assumes inv: "srv_inv s" and t: "table_inv t" "table_map t = (table_map (h_name2clnt s))(name \<mapsto> h_next s)"
    and new: "table_map (h_name2clnt s) name = None"
  defines "gr \<equiv> \<lparr>g_name = name, g_clnts = [], g_clnts_cap = 4\<rparr>"
  defines "s' \<equiv> s\<lparr>h_next := Suc (h_next s), h_groups := (h_groups s)(h_next s \<mapsto> gr), h_name2clnt := t\<rparr>"
  shows "srv_inv s'" and "membership s' = membership s"
proof -
  let ?g = "h_next s"
  have fresh: "h_groups s ?g = None" using srv_inv_parts(11) [OF inv, of ?g] by simp
  have fields: "h_fd2clnt s' = h_fd2clnt s" "h_name2clnt s' = t" "h_msgs s' = h_msgs s"
    "h_next s' = Suc ?g" "h_tlsctx s' = h_tlsctx s" "h_groups s' = (h_groups s)(?g \<mapsto> gr)" "h_clnts s' = h_clnts s"
    by (simp_all add: s'_def)
  have name: "group_name s' h = (if h = ?g then Some name else group_name s h)" for h
    by (simp add: group_name_def fields gr_def)
  have no: "group_name s ?g = None" using fresh by (simp add: group_name_def)
  have mem: "member s' c h \<longleftrightarrow> member s c h" for c h
    using fresh by (auto simp: member_def fields gr_def)
  have has: "has_group s' c h \<longleftrightarrow> has_group s c h" for c h by (simp add: has_group_def fields)
  have map: "table_map t n = Some h \<longleftrightarrow> group_name s' h = Some n" for n h
    using srv_inv_parts(4) [OF inv, of n h] srv_inv_parts(4) [OF inv, of name h] new no
    by (auto simp: t(2) name)
  have "tables_ok s'" using inv t(1) map by (simp add: srv_inv_def tables_ok_def fields)
  moreover have "groups_ok s'"
    using srv_inv_parts(5-7) [OF inv] by (simp add: groups_ok_def mem has fields gr_def array_ok_def ALLOC_MAX_def)
  moreover have "clnts_ok s'" using inv by (simp add: srv_inv_def clnts_ok_def fields)
  moreover have "fresh_ok s'" using srv_inv_parts(11) [OF inv] by (simp add: fresh_ok_def fields)
  ultimately show "srv_inv s'" using srv_inv_parts(12) [OF inv] by (simp add: srv_inv_def fields)
  have "\<not> member s c ?g" for c using fresh by (simp add: member_def)
  then have "member s c g \<and> (if g = ?g then Some name else group_name s g) = Some n \<longleftrightarrow>
      member s c g \<and> group_name s g = Some n" for c g n by (cases "g = ?g") simp_all
  then show "membership s' = membership s" unfolding membership_def mem name by simp
qed

lemma new_group_ok:
  assumes inv: "srv_inv s" and new: "table_map (h_name2clnt s) name = None"
  shows "srv_inv (snd (new_group E name s)) \<and> membership (snd (new_group E name s)) = membership s \<and>
    h_clnts (snd (new_group E name s)) = h_clnts s \<and> h_msgs (snd (new_group E name s)) = h_msgs s \<and>
    h_fault (snd (new_group E name s)) = h_fault s \<and>
    (\<forall>g. fst (new_group E name s) = Some g \<longrightarrow> h_groups s g = None \<and>
      h_groups (snd (new_group E name s)) g = Some \<lparr>g_name = name, g_clnts = [], g_clnts_cap = 4\<rparr>)"
proof (cases "e_ok E (h_tick s) 0 \<and> e_ok E (h_tick s) 1 \<and> e_ok E (h_tick s) 2")
  case False
  then show ?thesis using inv by (simp add: new_group_def Let_def)
next
  case True
  let ?gr = "\<lparr>g_name = name, g_clnts = [], g_clnts_cap = 4\<rparr>"
  let ?s = "set_group (h_next s) ?gr ((tick s)\<lparr>h_next := Suc (h_next s)\<rparr>)"
  have fresh: "h_groups s (h_next s) = None" using srv_inv_parts(11) [OF inv, of "h_next s"] by simp
  have unf: "new_group E name s =
      (case dime_table_insert (e_ok E (h_tick ?s)) (h_name2clnt s) name (h_next s) of
         None \<Rightarrow> (None, fault ?s)
       | Some (rc, tbl) \<Rightarrow>
           if rc < 0
           then (None, tick (?s\<lparr>h_name2clnt := tbl, h_groups := (h_groups ?s)(h_next s := None)\<rparr>))
           else (Some (h_next s), tick (?s\<lparr>h_name2clnt := tbl\<rparr>)))"
  proof -
    have nm: "h_name2clnt ((tick s)\<lparr>h_next := n\<rparr>) = h_name2clnt s" for n by simp
    show ?thesis
      unfolding new_group_def Let_def tick_fields set_group_fields nm using True
      by (simp only: simp_thms if_False)
  qed
  obtain rc tbl where ins: "dime_table_insert (e_ok E (h_tick ?s)) (h_name2clnt s) name (h_next s) = Some (rc, tbl)"
    and tbl: "table_inv tbl" "rc = 0 \<and> table_map tbl = (table_map (h_name2clnt s))(name \<mapsto> h_next s) \<or>
      rc = -1 \<and> tbl = h_name2clnt s"
    using tb.insert_law [OF srv_inv_parts(2) [OF inv] new] by blast
  from tbl(2) show ?thesis
  proof
    assume r: "rc = 0 \<and> table_map tbl = (table_map (h_name2clnt s))(name \<mapsto> h_next s)"
    have ntick: "srv_inv (tick s)" "h_next (tick s) = h_next s" "h_name2clnt (tick s) = h_name2clnt s"
      "h_groups (tick s) = h_groups s" using inv by simp_all
    have eq: "?s\<lparr>h_name2clnt := tbl\<rparr> =
        (tick s)\<lparr>h_next := Suc (h_next s), h_groups := (h_groups s)(h_next s \<mapsto> ?gr), h_name2clnt := tbl\<rparr>"
      by (simp add: set_group_def tick_def)
    have "srv_inv (?s\<lparr>h_name2clnt := tbl\<rparr>)" "membership (?s\<lparr>h_name2clnt := tbl\<rparr>) = membership s"
      using add_group_inv [OF ntick(1) tbl(1), unfolded ntick(2-4), of name] r new unfolding eq by simp_all
    then show ?thesis unfolding unf ins using r fresh by simp
  next
    assume r: "rc = -1 \<and> tbl = h_name2clnt s"
    have eq: "?s\<lparr>h_name2clnt := tbl, h_groups := (h_groups ?s)(h_next s := None)\<rparr> =
        (tick s)\<lparr>h_next := Suc (h_next (tick s))\<rparr>"
      using r fresh by (simp add: set_group_def tick_def fun_upd_idem)
    have "srv_inv ((tick s)\<lparr>h_next := Suc (h_next (tick s))\<rparr>)" using inv by (intro srv_inv_next) simp
    moreover have "membership ((tick s)\<lparr>h_next := Suc (h_next (tick s))\<rparr>) = membership s"
      by (simp add: membership_def member_def group_name_def tick_def)
    ultimately show ?thesis unfolding unf ins using r eq by simp
  qed
qed

text \<open>What one turn of a loop over names does: a change \<open>upd\<close> of the membership, or none.\<close>

definition turn ::
  "'j env \<Rightarrow> (string \<Rightarrow> (addr \<times> string) set \<Rightarrow> (addr \<times> string) set) \<Rightarrow> (string \<Rightarrow> (addr \<times> string) set \<Rightarrow> bool) \<Rightarrow>
   addr \<Rightarrow> 'j \<Rightarrow> dime_server \<Rightarrow> bool \<times> dime_server \<Rightarrow> bool" where
  "turn E upd ok c v s r \<longleftrightarrow>
     srv_inv (snd r) \<and> h_clnts (snd r) c \<noteq> None \<and> h_msgs (snd r) = h_msgs s \<and>
     (h_fault (snd r) \<longrightarrow> h_fault s \<or> \<not> fst r \<and> \<not> table_live (h_name2clnt (snd r))) \<and>
     (if fst r
      then \<exists>name. e_string_value E v = Some name \<and> ok name (membership s) \<and>
        membership (snd r) = upd name (membership s)
      else membership (snd r) = membership s)"

lemma grows_turn:
  assumes "grows c name s r" and "e_string_value E v = Some name"
    and "ok name (membership s)" and "insert (c, name) (membership s) = upd name (membership s)"
  shows "turn E upd ok c v s r"
  using assms by (auto simp: grows_def turn_def)

lemma turn_fail:
  assumes "srv_inv s" and "same_but_socks s s'" and "h_clnts s c \<noteq> None"
  shows "turn E upd ok c v s (False, s')"
  using srv_inv_same [OF assms(1,2)] same_but_socks_None [OF assms(2), of c] membership_same [OF assms(2)] assms
  by (simp add: turn_def same_but_socks_def)

lemma join_one_turn:
  assumes env: "env_ok E" and inv: "srv_inv s" and c: "h_clnts s c \<noteq> None"
  shows "turn E (\<lambda>name. insert (c, name)) (\<lambda>name M. (c, name) \<notin> M) c v s (join_one E c v s)"
proof (cases "e_string_value E v")
  case None
  then show ?thesis using turn_fail [OF inv fail_same(1) [OF env c] c] by (simp add: join_one_def)
next
  case (Some name)
  obtain cl where cl: "h_clnts s c = Some cl" using c by auto
  note named = client_groups_named [OF inv cl] and mem = membership_client [OF inv cl, of name]
  show ?thesis
  proof (cases "Some name \<in> group_name s ` set (c_groups cl)")
    case True
    then show ?thesis using turn_fail [OF inv fail_same(3) [OF env c] c] Some named
      by (simp add: join_one_def cl)
  next
    case False
    then have new: "(c, name) \<notin> membership s" using mem by simp
    show ?thesis
    proof (rule table_search_cases [OF srv_inv_parts(2) [OF inv], of name])
      assume "dime_table_search (h_name2clnt s) name = None" "\<not> table_live (h_name2clnt s)"
      moreover have "turn E upd ok c v s (False, fault s)" if "\<not> table_live (h_name2clnt s)" for upd ok
        using inv c that by (simp add: turn_def) (simp add: fault_def)
      ultimately show ?thesis using Some False named by (simp add: join_one_def cl)
    next
      fix t
      assume t: "dime_table_search (h_name2clnt s) name = Some (table_map (h_name2clnt s) name, t)"
        "table_inv t" "table_map t = table_map (h_name2clnt s)"
      let ?s = "s\<lparr>h_name2clnt := t\<rparr>"
      have s: "srv_inv ?s" "h_clnts ?s c = Some cl"
        using srv_inv_search [OF inv t(2,3)] cl by simp_all
      have conv: "turn E upd ok c v s r" if "turn E upd ok c v ?s r" for upd ok r
        using that unfolding turn_def membership_search by simp
      show ?thesis
      proof (cases "table_map (h_name2clnt s) name")
        case None
        have none: "table_map (h_name2clnt ?s) name = None" using None t(3) by simp
        obtain r s1 where g: "new_group E name ?s = (r, s1)" by (cases "new_group E name ?s")
        have s1: "srv_inv s1" "membership s1 = membership s" "h_clnts s1 = h_clnts s" "h_msgs s1 = h_msgs s"
          "h_fault s1 = h_fault s"
          "\<forall>g. r = Some g \<longrightarrow> h_groups s g = None \<and> h_groups s1 g = Some \<lparr>g_name = name, g_clnts = [], g_clnts_cap = 4\<rparr>"
          using new_group_ok [OF s(1) none, of E] unfolding g by simp_all
        show ?thesis
        proof (cases r)
          case None
          have "grows c name s (False, fail_errno E c s1)"
            by (rule grows_fail [OF env s1(1)]) (simp_all add: s1(2-5) cl)
          then have "turn E (\<lambda>name. insert (c, name)) (\<lambda>name M. (c, name) \<notin> M) c v s (False, fail_errno E c s1)"
            by (rule grows_turn) (simp_all add: Some new)
          then show ?thesis using None g t(1) \<open>table_map (h_name2clnt s) name = None\<close> False named Some
            by (simp add: join_one_def cl)
        next
          case (Some a)
          then have a: "h_groups s a = None" "h_groups s1 a = Some \<lparr>g_name = name, g_clnts = [], g_clnts_cap = 4\<rparr>"
            using s1(6) by simp_all
          have "a \<notin> set (c_groups cl)" using client_groups_exist [OF inv cl, of a] a(1) by auto
          then have "grows c name s1 (join_group E c a s1)"
            using join_group_grows [OF env s1(1) _ a(2)] cl s1(3) by simp
          then have "grows c name s (join_group E c a s1)" using s1 by (simp add: grows_def)
          then have "turn E (\<lambda>name. insert (c, name)) (\<lambda>name M. (c, name) \<notin> M) c v s (join_group E c a s1)"
            by (rule grows_turn) (simp_all add: \<open>e_string_value E v = Some name\<close> new)
          then show ?thesis using Some g t(1) \<open>table_map (h_name2clnt s) name = None\<close> False named
              \<open>e_string_value E v = Some name\<close> by (simp add: join_one_def cl)
        qed
      next
        case (Some a)
        then have a: "group_name s a = Some name" using srv_inv_parts(4) [OF inv] by simp
        then obtain gr where gr: "h_groups s a = Some gr" "g_name gr = name" by (auto simp: group_name_def)
        have "a \<notin> set (c_groups cl)" using False a by (metis imageI)
        then have "grows c (g_name gr) ?s (join_group E c a ?s)"
          by (intro join_group_grows [OF env s(1,2)]) (simp_all add: gr)
        then have "turn E (\<lambda>name. insert (c, name)) (\<lambda>name M. (c, name) \<notin> M) c v ?s (join_group E c a ?s)"
          by (rule grows_turn) (simp_all add: gr(2) \<open>e_string_value E v = Some name\<close> new)
        then show ?thesis using conv Some t(1) False named \<open>e_string_value E v = Some name\<close>
          by (simp add: join_one_def cl)
      qed
    qed
  qed
qed

section \<open>The loop over names\<close>

definition requested :: "'j env \<Rightarrow> 'j \<Rightarrow> string option list" where
  "requested E j =
     (case e_unpack_o E j ''name'' of Inl text \<Rightarrow> [] | Inr arr \<Rightarrow> map (e_string_value E) (e_elems E arr))"

fun each_ok :: "(string \<Rightarrow> 'm \<Rightarrow> 'm) \<Rightarrow> (string \<Rightarrow> 'm \<Rightarrow> bool) \<Rightarrow> string list \<Rightarrow> 'm \<Rightarrow> bool" where
  "each_ok upd ok [] M = True"
| "each_ok upd ok (n # ns) M = (ok n M \<and> each_ok upd ok ns (upd n M))"

lemma foreach_turns:
  assumes step: "\<And>v s. srv_inv s \<Longrightarrow> h_clnts s c \<noteq> None \<Longrightarrow> turn E upd ok c v s (f v s)"
  shows "srv_inv s \<Longrightarrow> h_clnts s c \<noteq> None \<Longrightarrow> foreach f vs s = (go, s') \<Longrightarrow>
    srv_inv s' \<and> h_clnts s' c \<noteq> None \<and> h_msgs s' = h_msgs s \<and>
    (h_fault s' \<longrightarrow> h_fault s \<or> \<not> go \<and> \<not> table_live (h_name2clnt s')) \<and>
    (\<exists>names rest. map (e_string_value E) vs = map Some names @ rest \<and> (go \<longrightarrow> rest = []) \<and>
       each_ok upd ok names (membership s) \<and> membership s' = fold upd names (membership s))"
proof (induction vs arbitrary: s)
  case Nil
  then show ?case by (auto intro: exI [of _ "[]"])
next
  case (Cons v vs)
  obtain go1 s1 where f: "f v s = (go1, s1)" by (cases "f v s")
  have t: "turn E upd ok c v s (go1, s1)" using step [OF Cons.prems(1,2), of v] f by simp
  show ?case
  proof (cases go1)
    case True
    obtain name where name: "e_string_value E v = Some name" "ok name (membership s)"
      "membership s1 = upd name (membership s)"
      using t True by (auto simp: turn_def)
    have s1: "srv_inv s1" "h_clnts s1 c \<noteq> None" "h_fault s1 \<longrightarrow> h_fault s" "h_msgs s1 = h_msgs s"
      using t True by (auto simp: turn_def)
    have rest: "foreach f vs s1 = (go, s')" using Cons.prems(3) f True by simp
    obtain names rest where r: "map (e_string_value E) vs = map Some names @ rest" "go \<longrightarrow> rest = []"
      "each_ok upd ok names (membership s1)" "membership s' = fold upd names (membership s1)"
      using Cons.IH [OF s1(1,2) rest] by blast
    have "map (e_string_value E) (v # vs) = map Some (name # names) @ rest" using name r(1) by simp
    moreover have "each_ok upd ok (name # names) (membership s)"
      "membership s' = fold upd (name # names) (membership s)" using name r(3,4) by simp_all
    ultimately have "\<exists>names rest. map (e_string_value E) (v # vs) = map Some names @ rest \<and> (go \<longrightarrow> rest = []) \<and>
       each_ok upd ok names (membership s) \<and> membership s' = fold upd names (membership s)"
      using r(2) by blast
    then show ?thesis using Cons.IH [OF s1(1,2) rest] s1(3,4) by auto
  next
    case False
    then have "go = False" "s' = s1" using Cons.prems(3) f by simp_all
    moreover have "\<exists>names rest. map (e_string_value E) (v # vs) = map Some names @ rest \<and> (False \<longrightarrow> rest = []) \<and>
       each_ok upd ok names (membership s) \<and> membership s1 = fold upd names (membership s)"
      by (rule exI [of _ "[]"], rule exI [of _ "map (e_string_value E) (v # vs)"]) (use t False in \<open>simp add: turn_def\<close>)
    ultimately show ?thesis using t False by (simp add: turn_def)
  qed
qed

lemma each_ok_join:
  "each_ok (\<lambda>name. insert (c, name)) (\<lambda>name M. (c, name) \<notin> M) names M \<longleftrightarrow>
     distinct names \<and> {c} \<times> set names \<inter> M = {}"
  by (induction names arbitrary: M) auto

lemma fold_join: "fold (\<lambda>name. insert (c, name)) names M = M \<union> {c} \<times> set names"
  by (induction names arbitrary: M) auto

text \<open>The reply at the end touches the socket of the client only.\<close>

lemma reply_ok_keeps:
  assumes "env_ok E" and "srv_inv s" and "h_clnts s c \<noteq> None"
  shows "srv_inv (snd (reply_ok E c s)) \<and> h_clnts (snd (reply_ok E c s)) c \<noteq> None \<and>
    h_msgs (snd (reply_ok E c s)) = h_msgs s \<and> h_fault (snd (reply_ok E c s)) = h_fault s \<and>
    h_name2clnt (snd (reply_ok E c s)) = h_name2clnt s \<and>
    membership (snd (reply_ok E c s)) = membership s \<and> fst (reply_ok E c s) \<in> {0, -1}"
proof -
  have same: "same_but_socks s (snd (reply_ok E c s))" by (rule reply_ok_same [OF assms(1,3)])
  have "fst (reply_ok E c s) \<in> {0, -1}" by (simp add: reply_ok_def split_beta Let_def)
  then show ?thesis
    using srv_inv_same [OF assms(2) same] same_but_socks_None [OF same, of c] membership_same [OF same] same assms(3)
    by (simp add: same_but_socks_def)
qed

lemma dime_client_join_ok:
  assumes env: "env_ok E" and inv: "srv_inv s" and c: "h_clnts s c \<noteq> None"
    and run: "dime_client_join E c j s = (rc, s')"
  shows "srv_inv s' \<and> h_clnts s' c \<noteq> None \<and> h_msgs s' = h_msgs s \<and>
    (h_fault s' \<longrightarrow> h_fault s \<or> \<not> table_live (h_name2clnt s')) \<and> rc \<in> {0, -1} \<and>
    (\<exists>names rest. requested E j = map Some names @ rest \<and> (rc = 0 \<longrightarrow> rest = []) \<and>
       distinct names \<and> {c} \<times> set names \<inter> membership s = {} \<and>
       membership s' = membership s \<union> {c} \<times> set names)"
proof (cases "e_unpack_o E j ''name''")
  case (Inl msg)
  have same: "same_but_socks s s'" and rc: "rc = -1"
    using run Inl fail_same(3) [OF env c] by (auto simp: dime_client_join_def)
  have "\<exists>names rest. requested E j = map Some names @ rest \<and> (rc = 0 \<longrightarrow> rest = []) \<and>
       distinct names \<and> {c} \<times> set names \<inter> membership s = {} \<and>
       membership s' = membership s \<union> {c} \<times> set names"
    by (rule exI [of _ "[]"]) (simp add: membership_same [OF same] rc)
  then show ?thesis
    using srv_inv_same [OF inv same] same_but_socks_None [OF same, of c] c same rc
    by (simp add: same_but_socks_def)
next
  case (Inr arr)
  obtain go s1 where loop: "foreach (join_one E c) (e_elems E arr) s = (go, s1)"
    by (cases "foreach (join_one E c) (e_elems E arr) s")
  note turns = foreach_turns [OF join_one_turn [OF env] inv c loop, unfolded each_ok_join fold_join]
  have s1: "srv_inv s1" "h_clnts s1 c \<noteq> None" "h_msgs s1 = h_msgs s"
    "h_fault s1 \<longrightarrow> h_fault s \<or> \<not> go \<and> \<not> table_live (h_name2clnt s1)"
    using turns by blast+
  obtain names rest where n: "map (e_string_value E) (e_elems E arr) = map Some names @ rest" "go \<longrightarrow> rest = []"
    "distinct names" "{c} \<times> set names \<inter> membership s = {}" "membership s1 = membership s \<union> {c} \<times> set names"
    using turns by blast
  have ex: "\<exists>names rest. requested E j = map Some names @ rest \<and> (rc = 0 \<longrightarrow> rest = []) \<and>
       distinct names \<and> {c} \<times> set names \<inter> membership s = {} \<and>
       membership s' = membership s \<union> {c} \<times> set names"
    if "rc = 0 \<longrightarrow> go" "membership s' = membership s1"
    using n that Inr by (intro exI [of _ names] exI [of _ rest]) (auto simp: requested_def)
  show ?thesis
  proof (cases go)
    case True
    then have r: "reply_ok E c s1 = (rc, s')" using run Inr loop by (simp add: dime_client_join_def)
    show ?thesis using reply_ok_keeps [OF env s1(1,2)] s1(3,4) ex True unfolding r by simp
  next
    case False
    then have "rc = -1" "s' = s1" using run Inr loop by (simp_all add: dime_client_join_def)
    then show ?thesis using s1 ex by auto
  qed
qed

section \<open>Leaving\<close>

lemma first_index_Some: "first_index P xs = Some i \<Longrightarrow> i < length xs \<and> P (xs ! i)"
  by (induction xs arbitrary: i) (auto split: if_splits)

lemma first_index_None: "first_index P xs = None \<longleftrightarrow> (\<forall>x \<in> set xs. \<not> P x)"
  by (induction xs) auto

lemma mset_swap_remove:
  assumes "j < length xs"
  shows "mset (swap_remove j xs) = mset xs - {#xs ! j#}"
proof -
  have ne: "xs[j := last xs] \<noteq> []" using assms by auto
  have last: "last (xs[j := last xs]) = last xs"
    using assms by (cases xs rule: rev_cases) (auto simp: list_update_append split: nat.split)
  have "mset (xs[j := last xs]) = mset (swap_remove j xs) + {#last xs#}"
    using append_butlast_last_id [OF ne] unfolding last swap_remove_def
    by (metis mset.simps(1,2) union_code add_mset_add_single mset_append)
  moreover have "mset (xs[j := last xs]) = add_mset (last xs) (mset xs - {#xs ! j#})"
    using assms by (rule mset_update)
  ultimately show ?thesis by simp
qed

lemma swap_remove_ok:
  assumes "j < length xs" and "array_ok xs cap"
  shows "array_ok (swap_remove j xs) cap" and "set (swap_remove j xs) = set xs - {xs ! j}"
proof -
  have dist: "distinct xs" using assms(2) by (simp add: array_ok_def)
  have m: "mset (swap_remove j xs) = mset xs - {#xs ! j#}" by (rule mset_swap_remove [OF assms(1)])
  then have eq: "mset (swap_remove j xs) = mset (remove1 (xs ! j) xs)" by simp
  have "distinct (swap_remove j xs)" using mset_eq_imp_distinct_iff [OF eq] dist by simp
  moreover have "length (swap_remove j xs) \<le> length xs" by (simp add: swap_remove_def)
  ultimately show "array_ok (swap_remove j xs) cap" using assms(2) by (simp add: array_ok_def)
  show "set (swap_remove j xs) = set xs - {xs ! j}"
    unfolding mset_eq_setD [OF eq] by (rule set_remove1_eq [OF dist])
qed

lemma relink_leave:
  assumes "array_ok (c_groups cl) (c_groups_cap cl)" and "array_ok (g_clnts gr) (g_clnts_cap gr)"
    and "i < length (c_groups cl)" and "c_groups cl ! i = g"
    and "j < length (g_clnts gr)" and "g_clnts gr ! j = c"
  shows "relink c cl (cl\<lparr>c_groups := swap_remove i (c_groups cl)\<rparr>)
    g gr (gr\<lparr>g_clnts := swap_remove j (g_clnts gr)\<rparr>)"
  using swap_remove_ok [OF assms(3,1)] swap_remove_ok [OF assms(5,2)] assms(4,6) by (simp add: relink_def)

lemma set_clnt_group: "set_clnt c cl (set_group g gr s) = set_group g gr (set_clnt c cl s)"
  by (simp add: set_clnt_def set_group_def)

lemma leave_one_turn:
  assumes env: "env_ok E" and inv: "srv_inv s" and c: "h_clnts s c \<noteq> None"
  shows "turn E (\<lambda>name M. M - {(c, name)}) (\<lambda>name M. (c, name) \<in> M) c v s (leave_one E c v s) \<and>
    h_fault (snd (leave_one E c v s)) = h_fault s"
proof (cases "e_string_value E v")
  case None
  then show ?thesis using turn_fail [OF inv fail_same(1) [OF env c] c] fail_same(1) [OF env c]
    by (simp add: leave_one_def same_but_socks_def)
next
  case (Some name)
  obtain cl where cl: "h_clnts s c = Some cl" using c by auto
  note named = client_groups_named [OF inv cl] and mem = membership_client [OF inv cl, of name]
  show ?thesis
  proof (cases "first_index (\<lambda>g. group_name s g = Some name) (c_groups cl)")
    case None
    then show ?thesis using turn_fail [OF inv fail_same(3) [OF env c] c] fail_same(3) [OF env c] Some named
      by (simp add: leave_one_def cl same_but_socks_def)
  next
    fix i
    assume fi: "first_index (\<lambda>g. group_name s g = Some name) (c_groups cl) = Some i"
    then have i: "i < length (c_groups cl)" "group_name s (c_groups cl ! i) = Some name"
      using first_index_Some [OF fi] by simp_all
    define g where "g = c_groups cl ! i"
    have g: "g \<in> set (c_groups cl)" "group_name s g = Some name" using i by (simp_all add: g_def)
    have "(c, name) \<in> membership s" using mem g by (metis imageI)
    obtain gr where gr: "h_groups s g = Some gr" "c \<in> set (g_clnts gr)"
      by (rule client_groups_exist [OF inv cl g(1)])
    have gn: "g_name gr = name" using g(2) gr(1) by (simp add: group_name_def)
    have arr: "array_ok (c_groups cl) (c_groups_cap cl)" "array_ok (g_clnts gr) (g_clnts_cap gr)"
      using srv_inv_parts(6,7) [OF inv] cl gr by blast+
    obtain j where fj: "first_index (\<lambda>c'. c' = c) (g_clnts gr) = Some j"
      using gr(2) first_index_None [of "\<lambda>c'. c' = c" "g_clnts gr"] by auto
    have j: "j < length (g_clnts gr)" "g_clnts gr ! j = c" using first_index_Some [OF fj] by simp_all
    let ?cl = "cl\<lparr>c_groups := swap_remove i (c_groups cl)\<rparr>"
    let ?gr = "gr\<lparr>g_clnts := swap_remove j (g_clnts gr)\<rparr>"
    have re: "relink c cl ?cl g gr ?gr" by (rule relink_leave [OF arr i(1) g_def [symmetric] j])
    have out: "c \<notin> set (g_clnts ?gr)" using swap_remove_ok(2) [OF j(1) arr(2)] j(2) by simp
    have run: "leave_one E c v s = (True, set_group g ?gr (set_clnt c ?cl s))"
      using Some fi fj named gr(1) by (simp add: leave_one_def cl Let_def g_def [symmetric] set_clnt_group)
    have "membership (set_group g ?gr (set_clnt c ?cl s)) = membership s - {(c, name)}"
      using relink_membership [OF inv cl gr(1) re] out gn by simp
    then show ?thesis
      using relink_inv(1) [OF inv cl gr(1) re] Some \<open>(c, name) \<in> membership s\<close>
      unfolding run turn_def by simp
  qed
qed

lemma each_ok_leave:
  "each_ok (\<lambda>name M. M - {(c, name)}) (\<lambda>name M. (c, name) \<in> M) names M \<longleftrightarrow>
     distinct names \<and> {c} \<times> set names \<subseteq> M"
  by (induction names arbitrary: M) auto

lemma fold_leave: "fold (\<lambda>name M. M - {(c, name)}) names M = M - {c} \<times> set names"
  by (induction names arbitrary: M) auto

lemma dime_client_leave_ok:
  assumes env: "env_ok E" and inv: "srv_inv s" and c: "h_clnts s c \<noteq> None"
    and run: "dime_client_leave E c j s = (rc, s')"
  shows "srv_inv s' \<and> h_clnts s' c \<noteq> None \<and> h_msgs s' = h_msgs s \<and> h_fault s' = h_fault s \<and> rc \<in> {0, -1} \<and>
    (\<exists>names rest. requested E j = map Some names @ rest \<and> (rc = 0 \<longrightarrow> rest = []) \<and>
       distinct names \<and> {c} \<times> set names \<subseteq> membership s \<and>
       membership s' = membership s - {c} \<times> set names)"
proof (cases "e_unpack_o E j ''name''")
  case (Inl msg)
  have same: "same_but_socks s s'" and rc: "rc = -1"
    using run Inl fail_same(3) [OF env c] by (auto simp: dime_client_leave_def)
  have "\<exists>names rest. requested E j = map Some names @ rest \<and> (rc = 0 \<longrightarrow> rest = []) \<and>
       distinct names \<and> {c} \<times> set names \<subseteq> membership s \<and>
       membership s' = membership s - {c} \<times> set names"
    by (rule exI [of _ "[]"]) (simp add: membership_same [OF same] rc)
  then show ?thesis
    using srv_inv_same [OF inv same] same_but_socks_None [OF same, of c] c same rc
    by (simp add: same_but_socks_def)
next
  case (Inr arr)
  obtain go s1 where loop: "foreach (leave_one E c) (e_elems E arr) s = (go, s1)"
    by (cases "foreach (leave_one E c) (e_elems E arr) s")
  have "turn E (\<lambda>name M. M - {(c, name)}) (\<lambda>name M. (c, name) \<in> M) c v s (leave_one E c v s)"
    if "srv_inv s" "h_clnts s c \<noteq> None" for v s
    using leave_one_turn [OF env that] by blast
  note turns = foreach_turns [OF this inv c loop, unfolded each_ok_leave fold_leave]
  have s1: "srv_inv s1" "h_clnts s1 c \<noteq> None" "h_msgs s1 = h_msgs s"
    using turns by blast+
  have "srv_inv s1 \<and> h_clnts s1 c \<noteq> None \<and> h_fault s1 = h_fault s"
    using foreach_inv [of "\<lambda>s'. srv_inv s' \<and> h_clnts s' c \<noteq> None \<and> h_fault s' = h_fault s" s "e_elems E arr" "leave_one E c"]
      leave_one_turn [OF env] inv c unfolding loop turn_def by simp
  then have nf: "h_fault s1 = h_fault s" by simp
  obtain names rest where n: "map (e_string_value E) (e_elems E arr) = map Some names @ rest" "go \<longrightarrow> rest = []"
    "distinct names" "{c} \<times> set names \<subseteq> membership s" "membership s1 = membership s - {c} \<times> set names"
    using turns by blast
  have ex: "\<exists>names rest. requested E j = map Some names @ rest \<and> (rc = 0 \<longrightarrow> rest = []) \<and>
       distinct names \<and> {c} \<times> set names \<subseteq> membership s \<and>
       membership s' = membership s - {c} \<times> set names"
    if "rc = 0 \<longrightarrow> go" "membership s' = membership s1"
    using n that Inr by (intro exI [of _ names] exI [of _ rest]) (auto simp: requested_def)
  show ?thesis
  proof (cases go)
    case True
    then have r: "reply_ok E c s1 = (rc, s')" using run Inr loop by (simp add: dime_client_leave_def)
    show ?thesis using reply_ok_keeps [OF env s1(1,2)] s1(3) nf ex True unfolding r by simp
  next
    case False
    then have "rc = -1" "s' = s1" using run Inr loop by (simp_all add: dime_client_leave_def)
    then show ?thesis using s1 nf ex by simp
  qed
qed

end
