(* ===== verification/Message_Refs.thy ===== *)
theory Message_Refs
  imports Client_Group
begin

text \<open>
  Reference counts of messages: the count of a message is the number of clients that hold it in
  their queues.  First the arithmetic of counts, then what a step of the program shows of the
  state: its links, queues, waiting flags and messages.
\<close>

section \<open>Counts\<close>

text \<open>
  \<open>Q\<close> gives the queue of each client and \<open>ms\<close> the messages; only the messages in \<open>M\<close>, which are
  being sent, may be in no queue.  \<open>X\<close> counts for each message the references that were lost: a client
  with a full queue does not give back its references when it is freed.
\<close>

definition holders :: "(addr \<Rightarrow> addr list) \<Rightarrow> addr \<Rightarrow> addr set" where
  "holders Q m = {c. m \<in> set (Q c)}"

fun count_ok :: "nat \<Rightarrow> bool \<Rightarrow> addr set \<Rightarrow> dime_rcmessage option \<Rightarrow> bool" where
  "count_ok x sending H None = (H = {} \<and> x = 0)"
| "count_ok x sending H (Some msg) =
     (unat (m_refs msg) = card H + x \<and> (if sending then x = 0 else H \<noteq> {} \<or> x \<noteq> 0))"

definition refs_upto :: "(addr \<Rightarrow> nat) \<Rightarrow> addr set \<Rightarrow> (addr \<Rightarrow> addr list) \<Rightarrow> (addr \<rightharpoonup> dime_rcmessage) \<Rightarrow> bool" where
  "refs_upto X M Q ms \<longleftrightarrow> (\<forall>c. distinct (Q c)) \<and> (\<forall>m. count_ok (X m) (m \<in> M) (holders Q m) (ms m))"

lemma refs_uptoD:
  assumes "refs_upto X M Q ms"
  shows "distinct (Q c)" and "count_ok (X m) (m \<in> M) (holders Q m) (ms m)"
  using assms by (simp_all add: refs_upto_def)

lemma holders_other:
  assumes "x \<noteq> m" and "set q - {m} = set (Q d) - {m}"
  shows "holders (Q(d := q)) x = holders Q x"
proof -
  have "x \<in> set q \<longleftrightarrow> x \<in> set (Q d)" using assms by blast
  then show ?thesis by (auto simp: holders_def)
qed

lemma refs_change:
  assumes refs: "refs_upto X M Q ms" and q: "distinct q" "set q - {m} = set (Q d) - {m}"
    and m: "count_ok (X m) (m \<in> M') (holders (Q(d := q)) m) v" and M: "M - {m} = M' - {m}"
  shows "refs_upto X M' (Q(d := q)) (ms(m := v))"
  unfolding refs_upto_def
proof (intro conjI allI)
  show "distinct ((Q(d := q)) c)" for c using refs_uptoD(1) [OF refs] q(1) by simp
  show "count_ok (X x) (x \<in> M') (holders (Q(d := q)) x) ((ms(m := v)) x)" for x
  proof (cases "x = m")
    case True
    then show ?thesis using m by simp
  next
    case False
    then have "x \<in> M' \<longleftrightarrow> x \<in> M" using M by blast
    then show ?thesis
      using refs_uptoD(2) [OF refs, of x] False holders_other [of x m q Q d] q(2) by simp
  qed
qed

lemma refs_push:
  assumes refs: "refs_upto X {m} Q ms" and m: "ms m = Some msg" and new: "m \<notin> set (Q d)"
    and fin: "finite (holders Q m)" and few: "card (holders Q m) < 2 ^ 32 - 1"
  shows "refs_upto X {m} (Q(d := Q d @ [m])) (ms(m \<mapsto> msg\<lparr>m_refs := m_refs msg + 1\<rparr>))"
proof (rule refs_change [OF refs])
  have u: "unat (m_refs msg) = card (holders Q m)" "X m = 0" using refs_uptoD(2) [OF refs, of m] m by simp_all
  have "holders (Q(d := Q d @ [m])) m = insert d (holders Q m)" by (auto simp: holders_def)
  moreover have "d \<notin> holders Q m" using new by (simp add: holders_def)
  ultimately show "count_ok (X m) (m \<in> {m}) (holders (Q(d := Q d @ [m])) m) (Some (msg\<lparr>m_refs := m_refs msg + 1\<rparr>))"
    using fin few u by (simp add: unat_word_ariths)
qed (use new refs_uptoD(1) [OF refs] in auto)

lemma refs_zero:
  assumes "unat (m_refs msg) = card H + x" and "finite H"
  shows "m_refs msg = 0 \<longleftrightarrow> H = {} \<and> x = 0"
proof -
  have "m_refs msg = 0 \<longleftrightarrow> card H + x = 0" using assms(1) by (metis unat_eq_0)
  then show ?thesis using assms(2) by auto
qed

lemma refs_finish:
  assumes refs: "refs_upto X {m} Q ms" and m: "ms m = Some msg" and fin: "finite (holders Q m)"
  shows "refs_upto X {} Q (if m_refs msg = 0 then ms(m := None) else ms)"
proof -
  have c: "unat (m_refs msg) = card (holders Q m) + X m" "X m = 0" using refs_uptoD(2) [OF refs, of m] m by simp_all
  note z = refs_zero [OF c(1) fin]
  have "refs_upto X {} (Q(undefined := Q undefined)) (ms(m := (if m_refs msg = 0 then None else Some msg)))"
    by (rule refs_change [OF refs refs_uptoD(1) [OF refs]]) (use z c in simp_all)
  then show ?thesis using m by (simp add: fun_upd_idem split: if_splits)
qed

lemma refs_pop:
  assumes refs: "refs_upto X {} Q ms" and q: "Q c = m # q" and fin: "finite (holders Q m)"
  obtains msg where "ms m = Some msg"
    and "refs_upto X {} (Q(c := q))
      (ms(m := (if m_refs msg - 1 = 0 then None else Some (msg\<lparr>m_refs := m_refs msg - 1\<rparr>))))"
proof -
  have dq: "distinct (m # q)" using refs_uptoD(1) [OF refs, of c] q by simp
  have c: "c \<in> holders Q m" using q by (simp add: holders_def)
  obtain msg where msg: "ms m = Some msg" using refs_uptoD(2) [OF refs, of m] c by (cases "ms m") auto
  have self: "holders (Q(c := q)) m = holders Q m - {c}" using dq by (auto simp: holders_def)
  have u: "unat (m_refs msg) = card (holders Q m) + X m" using refs_uptoD(2) [OF refs, of m] msg by simp
  moreover have "0 < card (holders Q m)" using c fin by (auto simp: card_gt_0_iff)
  ultimately have "m_refs msg \<noteq> 0" by auto
  then have u1: "unat (m_refs (msg\<lparr>m_refs := m_refs msg - 1\<rparr>)) = card (holders Q m - {c}) + X m"
    using u \<open>0 < card (holders Q m)\<close> c fin by (simp add: unat_minus_one card_Diff_singleton)
  have z: "m_refs msg - 1 = 0 \<longleftrightarrow> holders Q m - {c} = {} \<and> X m = 0"
    using refs_zero [of "msg\<lparr>m_refs := m_refs msg - 1\<rparr>" "holders Q m - {c}" "X m"] u1 fin by simp
  have "refs_upto X {} (Q(c := q))
      (ms(m := (if m_refs msg - 1 = 0 then None else Some (msg\<lparr>m_refs := m_refs msg - 1\<rparr>))))"
    by (rule refs_change [OF refs]) (use z u1 self dq q in auto)
  then show thesis using that msg by blast
qed

section \<open>What is seen of a state\<close>

definition links :: "dime_server \<Rightarrow>
  (int, addr) dime_table \<times> (string, addr) dime_table \<times> (addr \<rightharpoonup> dime_group) \<times> dime_serialization \<times>
  (addr \<rightharpoonup> int \<times> addr list)" where
  "links s = (h_fd2clnt s, h_name2clnt s, h_groups s, h_serialization s,
     \<lambda>c. map_option (\<lambda>cl. (c_fd cl, c_groups cl)) (h_clnts s c))"

definition queue_of :: "dime_server \<Rightarrow> addr \<Rightarrow> addr list" where
  "queue_of s c = (case h_clnts s c of None \<Rightarrow> [] | Some cl \<Rightarrow> dq_list (c_queue cl))"

definition waiting_of :: "dime_server \<Rightarrow> addr \<Rightarrow> bool" where
  "waiting_of s c = (case h_clnts s c of None \<Rightarrow> False | Some cl \<Rightarrow> c_waiting cl)"

definition refs_leak :: "(addr \<Rightarrow> nat) \<Rightarrow> dime_server \<Rightarrow> bool" where
  "refs_leak X s \<longleftrightarrow> refs_upto X {} (queue_of s) (h_msgs s)"

text \<open>Exact counts.\<close>

abbreviation refs_ok :: "dime_server \<Rightarrow> bool" where
  "refs_ok \<equiv> refs_leak (\<lambda>_. 0)"

lemma links_map:
  assumes "links s' = links s"
  shows "map_option (\<lambda>cl. (c_fd cl, c_groups cl)) (h_clnts s' c) =
    map_option (\<lambda>cl. (c_fd cl, c_groups cl)) (h_clnts s c)"
proof -
  have "(\<lambda>c. map_option (\<lambda>cl. (c_fd cl, c_groups cl)) (h_clnts s' c)) =
      (\<lambda>c. map_option (\<lambda>cl. (c_fd cl, c_groups cl)) (h_clnts s c))"
    using assms by (simp add: links_def)
  then show ?thesis by (rule fun_cong)
qed

lemma links_clnt: "links s' = links s \<Longrightarrow> h_clnts s' c = None \<longleftrightarrow> h_clnts s c = None"
  using links_map [of s' s c] by (cases "h_clnts s c"; cases "h_clnts s' c") simp_all

lemma links_eq:
  assumes "links s' = links s"
  shows "h_fd2clnt s' = h_fd2clnt s" and "h_name2clnt s' = h_name2clnt s" and "h_groups s' = h_groups s"
    and "h_serialization s' = h_serialization s" and "membership s' = membership s"
  using assms by (simp_all add: links_def membership_def member_def group_name_def)

lemma links_fd:
  assumes "links s' = links s" and "h_clnts s c = Some cl"
  obtains cl' where "h_clnts s' c = Some cl'" and "c_fd cl' = c_fd cl" and "c_groups cl' = c_groups cl"
  using that links_map [OF assms(1), of c] assms(2) by (cases "h_clnts s' c") auto

lemma same_view:
  assumes "same_but_socks s s'"
  shows "links s' = links s" and "queue_of s' = queue_of s" and "waiting_of s' = waiting_of s"
    and "h_msgs s' = h_msgs s" and "h_fault s' = h_fault s"
proof -
  have rel: "rel_option same_clnt (h_clnts s c) (h_clnts s' c)" for c
    using assms by (simp add: same_but_socks_def)
  have eq: "map_option f (h_clnts s' c) = map_option f (h_clnts s c)"
    if "\<And>cl cl'. same_clnt cl cl' \<Longrightarrow> f cl' = f cl" for f :: "dime_client \<Rightarrow> 'z" and c
    using rel [of c] that by (cases "h_clnts s c"; cases "h_clnts s' c") auto
  have "map_option (\<lambda>cl. (c_fd cl, c_groups cl)) (h_clnts s' c) = map_option (\<lambda>cl. (c_fd cl, c_groups cl)) (h_clnts s c)" for c
    by (rule eq) (simp add: same_clnt_def)
  then show "links s' = links s" using assms by (simp add: links_def same_but_socks_def fun_eq_iff)
  have "queue_of s' c = queue_of s c" "waiting_of s' c = waiting_of s c" for c
    using rel [of c] by (cases "h_clnts s c"; cases "h_clnts s' c"; simp add: queue_of_def waiting_of_def same_clnt_def)+
  then show "queue_of s' = queue_of s" "waiting_of s' = waiting_of s" by blast+
  show "h_msgs s' = h_msgs s" "h_fault s' = h_fault s" using assms by (simp_all add: same_but_socks_def)
qed

section \<open>There are fewer clients than a reference count can count\<close>

lemma clients_few:
  assumes "srv_inv s"
  shows "finite (dom (h_clnts s))" and "card (dom (h_clnts s)) \<le> 2 ^ 31"
proof -
  let ?fd = "\<lambda>c. c_fd (the (h_clnts s c))"
  have inj: "inj_on ?fd (dom (h_clnts s))"
  proof (rule inj_onI)
    fix c d
    assume "c \<in> dom (h_clnts s)" "d \<in> dom (h_clnts s)" "?fd c = ?fd d"
    then have "table_map (h_fd2clnt s) (?fd c) = Some c" "table_map (h_fd2clnt s) (?fd c) = Some d"
      unfolding srv_inv_parts(3) [OF assms] by auto
    then show "c = d" by simp
  qed
  have range: "?fd ` dom (h_clnts s) \<subseteq> {0 ..< 2 ^ 31}"
    using assms by (auto simp: srv_inv_def clnts_ok_def)
  show "finite (dom (h_clnts s))" by (rule inj_on_finite [OF inj range]) simp
  have "card (dom (h_clnts s)) \<le> card {0 ..< 2 ^ 31 :: int}" by (rule card_inj_on_le [OF inj range]) simp
  then show "card (dom (h_clnts s)) \<le> 2 ^ 31" by simp
qed

lemma holders_few:
  assumes "srv_inv s"
  shows "finite (holders (queue_of s) m)" and "card (holders (queue_of s) m) < 2 ^ 32 - 1"
proof -
  have sub: "holders (queue_of s) m \<subseteq> dom (h_clnts s)"
  proof
    fix c
    assume "c \<in> holders (queue_of s) m"
    then show "c \<in> dom (h_clnts s)" by (cases "h_clnts s c") (auto simp: holders_def queue_of_def)
  qed
  show "finite (holders (queue_of s) m)" by (rule finite_subset [OF sub clients_few(1) [OF assms]])
  have "card (holders (queue_of s) m) \<le> card (dom (h_clnts s))"
    by (rule card_mono [OF clients_few(1) [OF assms] sub])
  then show "card (holders (queue_of s) m) < 2 ^ 32 - 1" using clients_few(2) [OF assms] by simp
qed

end
