(* ===== verification/Message_Send.thy ===== *)
theory Message_Send
  imports Message_Refs
begin

text \<open>
  Sending: what delivering one message to one client does on every path, the loop over the
  members of a group, and \<^verbatim>\<open>dime_client_send\<close> as a whole.
\<close>

section \<open>Steps on messages\<close>

lemma srv_inv_msgs:
  assumes "srv_inv s" and "\<And>m msg. ms m = Some msg \<Longrightarrow> m < h_next s \<and> msg_ok msg"
  shows "srv_inv (s\<lparr>h_msgs := ms\<rparr>)"
proof -
  have "ms a = None" if "h_next s \<le> a" for a using assms(2) [of a] that by (cases "ms a") auto
  then show ?thesis
    using assms by (simp add: srv_inv_def tables_ok_def groups_ok_def clnts_ok_def fresh_ok_def
      group_name_def member_def has_group_def)
qed

lemma msgs_old:
  assumes "srv_inv s" and "h_msgs s m = Some msg"
  shows "m < h_next s \<and> msg_ok msg"
  using srv_inv_parts(10,11) [OF assms(1)] assms(2) by (metis linorder_not_less option.distinct(1))

lemma view_msgs [simp]:
  "links (s\<lparr>h_msgs := ms\<rparr>) = links s" "queue_of (s\<lparr>h_msgs := ms\<rparr>) = queue_of s"
  "waiting_of (s\<lparr>h_msgs := ms\<rparr>) = waiting_of s"
  by (simp_all add: links_def queue_of_def waiting_of_def fun_eq_iff)

lemma view_tick [simp]:
  "links (tick s) = links s" "queue_of (tick s) = queue_of s" "waiting_of (tick s) = waiting_of s"
  using same_view [OF same_tick, of s] by simp_all

text \<open>Setting the messages to \<open>(h_msgs s)(m := v)\<close> with the data of an old message.\<close>

lemma srv_inv_msg_upd:
  assumes "srv_inv s" and "h_msgs s m = Some msg"
    and "\<And>x. v = Some x \<Longrightarrow> m_jsondata x = m_jsondata msg \<and> m_bindata x = m_bindata msg"
  shows "srv_inv (s\<lparr>h_msgs := (h_msgs s)(m := v)\<rparr>)"
proof (rule srv_inv_msgs [OF assms(1)])
  fix x y
  assume "((h_msgs s)(m := v)) x = Some y"
  then show "x < h_next s \<and> msg_ok y"
    using msgs_old [OF assms(1)] assms(2,3) by (cases "x = m") (auto simp: msg_ok_def)
qed

lemma free_if_unused_eq:
  assumes "h_msgs s m = Some msg"
  shows "free_if_unused m s = s\<lparr>h_msgs := (h_msgs s)(m := (if m_refs msg = 0 then None else Some msg))\<rparr>"
  using assms by (simp add: free_if_unused_def fun_upd_idem)

lemma add_refs_eq:
  assumes "h_msgs s m = Some msg"
  shows "add_refs d m s = s\<lparr>h_msgs := (h_msgs s)(m \<mapsto> msg\<lparr>m_refs := m_refs msg + d\<rparr>)\<rparr>"
  using assms by (simp add: add_refs_def)

section \<open>Steps on one client\<close>

lemma set_clnt_view:
  assumes "h_clnts s c = Some cl" and "c_fd cl' = c_fd cl" and "c_groups cl' = c_groups cl"
  shows "links (set_clnt c cl' s) = links s"
    and "queue_of (set_clnt c cl' s) = (queue_of s)(c := dq_list (c_queue cl'))"
    and "waiting_of (set_clnt c cl' s) = (waiting_of s)(c := c_waiting cl')"
  using assms by (auto simp: links_def queue_of_def waiting_of_def fun_eq_iff)

lemma set_clnt_keeps:
  assumes "srv_inv s" and "h_clnts s c = Some cl" and "c_fd cl' = c_fd cl" and "c_groups cl' = c_groups cl"
    and "c_groups_cap cl' = c_groups_cap cl" and "c_sock cl' = c_sock cl" and "dq_inv (c_queue cl')"
  shows "srv_inv (set_clnt c cl' s)"
  using set_clnt_inv(1) [OF assms(1-4)] srv_inv_parts(7,8) [OF assms(1,2)] assms by simp

lemma notify_same:
  assumes env: "env_ok E" and d: "h_clnts s d \<noteq> None"
  shows "same_but_socks s (snd (notify E d s))"
proof -
  obtain cl where cl: "h_clnts s d = Some cl" using d by auto
  let ?args = "[(''status'', PInt 0), (''n'', PInt (int (dime_deque_len (c_queue cl))))]"
  have t: "h_clnts (tick s) d \<noteq> None" using d by simp
  show ?thesis
  proof (cases "e_pack E (h_tick s) ?args")
    case None
    have "same_but_socks s (fail_errno E d (tick s))"
      by (rule same_but_socks_trans [OF same_tick fail_same(2) [OF env t]])
    then show ?thesis using None by (simp add: notify_def cl)
  next
    case (Some j)
    let ?p = "clnt_push E d j (tick s)"
    have p: "same_but_socks s (snd ?p)" by (rule same_but_socks_trans [OF same_tick clnt_push_same [OF env t]])
    have "h_clnts (snd ?p) d \<noteq> None" using same_but_socks_None [OF p] d by simp
    then have "same_but_socks s (fail_errno E d (snd ?p))"
      by (rule same_but_socks_trans [OF p fail_same(2) [OF env]])
    then show ?thesis using Some p by (simp add: notify_def cl split_beta Let_def)
  qed
qed

section \<open>Delivering to one client\<close>

text \<open>
  The three outcomes: the queue cannot grow, and a message nobody holds is freed; the message is
  queued and counted; or the message is queued, a waiting client cannot be told, and the message
  is not counted.
\<close>

datatype outcome = Full | Delivered | Broken

definition deliver_effect :: "addr \<Rightarrow> addr \<Rightarrow> dime_rcmessage \<Rightarrow> outcome \<Rightarrow> dime_server \<Rightarrow> dime_server \<Rightarrow> bool" where
  "deliver_effect m d msg out s s' \<longleftrightarrow>
     srv_inv s' \<and> links s' = links s \<and> h_fault s' = h_fault s \<and>
     queue_of s' = (if out = Full then queue_of s else (queue_of s)(d := queue_of s d @ [m])) \<and>
     waiting_of s' = (if out = Delivered then (waiting_of s)(d := False) else waiting_of s) \<and>
     h_msgs s' = (case out of
         Full \<Rightarrow> (h_msgs s)(m := (if m_refs msg = 0 then None else Some msg))
       | Delivered \<Rightarrow> (h_msgs s)(m \<mapsto> msg\<lparr>m_refs := m_refs msg + 1\<rparr>)
       | Broken \<Rightarrow> h_msgs s) \<and>
     (out = Broken \<longrightarrow> waiting_of s d)"

lemma deliver_cases:
  assumes env: "env_ok E" and inv: "srv_inv s" and c: "h_clnts s c \<noteq> None" and d: "h_clnts s d \<noteq> None"
    and m: "h_msgs s m = Some msg"
  obtains out s' where "deliver E c m d s = (out = Delivered, s')" and "deliver_effect m d msg out s s'"
proof -
  obtain cl where cl: "h_clnts s d = Some cl" using d by auto
  have dq: "dq_inv (c_queue cl)" by (rule srv_inv_parts(9) [OF inv cl])
  obtain rc q where push: "dime_deque_pushr (e_ok E (h_tick s) 0) (c_queue cl) m = (rc, q)"
    by (cases "dime_deque_pushr (e_ok E (h_tick s) 0) (c_queue cl) m")
  have q: "dq_inv q" "dq_list q = (if rc < 0 then dq_list (c_queue cl) else dq_list (c_queue cl) @ [m])"
    using dq.pushr_inv [OF dq, of "e_ok E (h_tick s) 0" m] dq.pushr_items [OF dq, of "e_ok E (h_tick s) 0" m]
    unfolding push by simp_all
  let ?cl = "cl\<lparr>c_queue := q\<rparr>"
  define s1 where "s1 = tick (set_clnt d ?cl s)"
  have s1: "srv_inv s1" "links s1 = links s" "h_fault s1 = h_fault s" "h_msgs s1 = h_msgs s"
    "queue_of s1 = (queue_of s)(d := dq_list q)" "waiting_of s1 = waiting_of s"
    "h_clnts s1 d = Some ?cl"
    using set_clnt_keeps [OF inv cl, of ?cl] set_clnt_view [OF cl, of ?cl] q(1) cl
    by (simp_all add: s1_def fun_upd_idem waiting_of_def)
  have c1: "h_clnts s1 c \<noteq> None" using links_clnt [OF s1(2)] c by simp
  have qd: "queue_of s d = dq_list (c_queue cl)" "waiting_of s d = c_waiting cl"
    by (simp_all add: queue_of_def waiting_of_def cl)
  have run: "deliver E c m d s =
      (if rc < 0 then (False, fail_errno E c (free_if_unused m s1))
       else if c_waiting cl then
         (case notify E d s1 of
            (False, s) \<Rightarrow> (False, s)
          | (True, s) \<Rightarrow>
              (case h_clnts s d of
                 None \<Rightarrow> (False, fault s)
               | Some cl \<Rightarrow> (True, add_refs 1 m (set_clnt d (cl\<lparr>c_waiting := False\<rparr>) s))))
       else (True, add_refs 1 m s1))"
    by (simp add: deliver_def cl push s1_def)
  show thesis
  proof (cases "rc < 0")
    case True
    let ?s2 = "free_if_unused m s1"
    have m1: "h_msgs s1 m = Some msg" using m s1(4) by simp
    have s2: "srv_inv ?s2" unfolding free_if_unused_eq [OF m1]
      by (rule srv_inv_msg_upd [OF s1(1) m1]) (auto split: if_splits)
    have c2: "h_clnts ?s2 c \<noteq> None" using c1 by (simp add: free_if_unused_eq [OF m1])
    have same: "same_but_socks ?s2 (fail_errno E c ?s2)" by (rule fail_same(2) [OF env c2])
    have "deliver_effect m d msg Full s (fail_errno E c ?s2)"
      unfolding deliver_effect_def same_view [OF same]
      using srv_inv_same [OF s2 same] True q(2) s1 m qd
      by (simp add: free_if_unused_eq [OF m1] fun_upd_idem)
    then show thesis using that [of Full] run True by simp
  next
    case rc: False
    have q1: "queue_of s1 = (queue_of s)(d := queue_of s d @ [m])" using q(2) rc s1(5) qd(1) by simp
    show thesis
    proof (cases "c_waiting cl")
      case False
      have m1: "h_msgs s1 m = Some msg" using m s1(4) by simp
      have "srv_inv (add_refs 1 m s1)" unfolding add_refs_eq [OF m1]
        by (rule srv_inv_msg_upd [OF s1(1) m1]) auto
      then have "deliver_effect m d msg Delivered s (add_refs 1 m s1)"
        unfolding deliver_effect_def using s1 q1 False qd(2)
        by (simp add: add_refs_eq [OF m1] fun_upd_idem)
      then show thesis using that [of Delivered] run rc False by simp
    next
      case True
      obtain go s2 where n: "notify E d s1 = (go, s2)" by (cases "notify E d s1")
      have "h_clnts s1 d \<noteq> None" using s1(7) by simp
      then have same: "same_but_socks s1 s2" using notify_same [OF env, of s1 d] unfolding n by simp
      note v = same_view [OF same]
      have s2: "srv_inv s2" by (rule srv_inv_same [OF s1(1) same])
      obtain cl2 where cl2: "h_clnts s2 d = Some cl2" "same_clnt ?cl cl2"
        by (rule same_but_socks_get [OF same s1(7)])
      show thesis
      proof (cases go)
        case False
        then have "deliver E c m d s = (False, s2)" using run rc True n by simp
        moreover have "deliver_effect m d msg Broken s s2"
          unfolding deliver_effect_def v using s2 s1 q1 True qd(2) by simp
        ultimately show thesis using that [of Broken] by simp
      next
        case go: True
        let ?cl3 = "cl2\<lparr>c_waiting := False\<rparr>"
        let ?s3 = "set_clnt d ?cl3 s2"
        have s3: "srv_inv ?s3"
          by (rule set_clnt_keeps [OF s2 cl2(1)]) (use srv_inv_parts(9) [OF s2 cl2(1)] in simp_all)
        have v3: "links ?s3 = links s2" "queue_of ?s3 = queue_of s2" "waiting_of ?s3 = (waiting_of s2)(d := False)"
          using set_clnt_view [OF cl2(1), of ?cl3] cl2(1) by (simp_all add: fun_upd_idem queue_of_def)
        have m3: "h_msgs ?s3 m = Some msg" using m s1(4) v(4) by simp
        have "srv_inv (add_refs 1 m ?s3)" unfolding add_refs_eq [OF m3]
          by (rule srv_inv_msg_upd [OF s3 m3]) auto
        then have "deliver_effect m d msg Delivered s (add_refs 1 m ?s3)"
          unfolding deliver_effect_def using s1 q1 v v3 by (simp add: add_refs_eq [OF m3])
        moreover have "deliver E c m d s = (True, add_refs 1 m ?s3)" using run rc True n go cl2(1) by simp
        ultimately show thesis using that [of Delivered] by simp
      qed
    qed
  qed
qed

section \<open>The loop over the recipients\<close>

lemma deliver_refs:
  assumes eff: "deliver_effect m d msg out s s'" and inv: "srv_inv s"
    and refs: "refs_upto X {m} (queue_of s) (h_msgs s)" and m: "h_msgs s m = Some msg"
    and new: "m \<notin> set (queue_of s d)"
  shows "out = Delivered \<Longrightarrow> refs_upto X {m} (queue_of s') (h_msgs s')"
    and "out = Full \<Longrightarrow> refs_leak X s'"
proof -
  show "refs_upto X {m} (queue_of s') (h_msgs s')" if "out = Delivered"
    using refs_push [OF refs m new holders_few [OF inv]] eff that by (simp add: deliver_effect_def)
  show "refs_leak X s'" if "out = Full"
  proof -
    have "refs_upto X {} (queue_of s) (if m_refs msg = 0 then (h_msgs s)(m := None) else h_msgs s)"
      by (rule refs_finish [OF refs m holders_few(1) [OF inv]])
    moreover have "(if m_refs msg = 0 then (h_msgs s)(m := None) else h_msgs s) =
        (h_msgs s)(m := (if m_refs msg = 0 then None else Some msg))"
      using m by (simp add: fun_upd_idem)
    ultimately show ?thesis using eff that by (simp add: deliver_effect_def refs_leak_def)
  qed
qed

text \<open>The queues and flags after delivering \<open>m\<close> to all of \<open>ds\<close>.\<close>

definition queues_with :: "addr \<Rightarrow> addr set \<Rightarrow> (addr \<Rightarrow> addr list) \<Rightarrow> addr \<Rightarrow> addr list" where
  "queues_with m D Q = (\<lambda>x. if x \<in> D then Q x @ [m] else Q x)"

definition sent_to :: "addr \<Rightarrow> dime_rcmessage \<Rightarrow> addr list \<Rightarrow> dime_server \<Rightarrow> dime_server \<Rightarrow> bool" where
  "sent_to m msg ds s s' \<longleftrightarrow>
     queue_of s' = queues_with m (set ds) (queue_of s) \<and>
     waiting_of s' = (\<lambda>x. waiting_of s x \<and> x \<notin> set ds) \<and>
     h_msgs s' = (h_msgs s)(m \<mapsto> msg\<lparr>m_refs := m_refs msg + of_nat (length ds)\<rparr>)"

lemma foreach_deliver:
  assumes env: "env_ok E"
  shows "srv_inv s \<Longrightarrow> h_clnts s c \<noteq> None \<Longrightarrow> \<forall>d \<in> set ds. h_clnts s d \<noteq> None \<Longrightarrow> h_msgs s m = Some msg \<Longrightarrow>
    refs_upto X {m} (queue_of s) (h_msgs s) \<Longrightarrow> distinct ds \<Longrightarrow> \<forall>d \<in> set ds. m \<notin> set (queue_of s d) \<Longrightarrow>
    foreach (deliver E c m) ds s = (go, s') \<Longrightarrow>
    srv_inv s' \<and> links s' = links s \<and> h_fault s' = h_fault s \<and>
    (go \<longrightarrow> sent_to m msg ds s s' \<and> refs_upto X {m} (queue_of s') (h_msgs s')) \<and>
    (\<not> go \<longrightarrow> refs_leak X s' \<or> (\<exists>d \<in> set ds. waiting_of s d))"
proof (induction ds arbitrary: s msg)
  case Nil
  then show ?case by (simp add: sent_to_def queues_with_def fun_upd_idem)
next
  case (Cons d ds)
  have d: "h_clnts s d \<noteq> None" "m \<notin> set (queue_of s d)" using Cons.prems(3,7) by simp_all
  obtain out s1 where run: "deliver E c m d s = (out = Delivered, s1)" and eff: "deliver_effect m d msg out s s1"
    by (rule deliver_cases [OF env Cons.prems(1,2) d(1) Cons.prems(4)])
  note e = eff [unfolded deliver_effect_def]
  show ?case
  proof (cases "out = Delivered")
    case True
    let ?msg = "msg\<lparr>m_refs := m_refs msg + 1\<rparr>"
    have s1: "srv_inv s1" "links s1 = links s" "h_fault s1 = h_fault s"
      "queue_of s1 = (queue_of s)(d := queue_of s d @ [m])" "waiting_of s1 = (waiting_of s)(d := False)"
      "h_msgs s1 = (h_msgs s)(m \<mapsto> ?msg)"
      using e True by simp_all
    note cl = links_clnt [OF s1(2)]
    have refs: "refs_upto X {m} (queue_of s1) (h_msgs s1)"
      by (rule deliver_refs(1) [OF eff Cons.prems(1,5,4) d(2) True])
    have m1: "h_msgs s1 m = Some ?msg" using s1(6) by simp
    have new: "\<forall>x \<in> set ds. m \<notin> set (queue_of s1 x)" using Cons.prems(6,7) s1(4) by auto
    have rest: "foreach (deliver E c m) ds s1 = (go, s')" using Cons.prems(8) run True by simp
    note IH = Cons.IH [OF s1(1) _ _ m1 refs _ new rest]
    have IH': "srv_inv s' \<and> links s' = links s1 \<and> h_fault s' = h_fault s1 \<and>
      (go \<longrightarrow> sent_to m ?msg ds s1 s' \<and> refs_upto X {m} (queue_of s') (h_msgs s')) \<and>
      (\<not> go \<longrightarrow> refs_leak X s' \<or> (\<exists>d \<in> set ds. waiting_of s1 d))"
      by (rule IH) (use Cons.prems(2,3,6) cl in simp_all)
    have "sent_to m msg (d # ds) s s'" if "sent_to m ?msg ds s1 s'"
      using that s1(4-6) Cons.prems(6) by (auto simp: sent_to_def queues_with_def fun_eq_iff add.assoc)
    moreover have "\<exists>x \<in> set (d # ds). waiting_of s x" if "\<exists>x \<in> set ds. waiting_of s1 x"
      using that s1(5) by (auto split: if_splits)
    ultimately show ?thesis using IH' s1(2,3) by auto
  next
    case False
    then have r: "go = False" "s' = s1" using Cons.prems(8) run by simp_all
    have "refs_leak X s1 \<or> waiting_of s d"
    proof (cases out)
      case Full
      then show ?thesis using deliver_refs(2) [OF eff Cons.prems(1,5,4) d(2)] by simp
    next
      case Broken
      then show ?thesis using e by simp
    qed (use False in simp)
    then show ?thesis using e r by auto
  qed
qed

text \<open>
  Nobody waits: the loop delivers to some of the recipients, to all unless it stops, and never changes
  what a message says.
\<close>

lemma foreach_deliver_partial:
  assumes env: "env_ok E"
  shows "srv_inv s \<Longrightarrow> h_clnts s c \<noteq> None \<Longrightarrow> \<forall>d \<in> set ds. h_clnts s d \<noteq> None \<Longrightarrow> h_msgs s m = Some msg \<Longrightarrow>
    distinct ds \<Longrightarrow> \<forall>d \<in> set ds. \<not> waiting_of s d \<Longrightarrow> foreach (deliver E c m) ds s = (go, s') \<Longrightarrow>
    \<exists>D \<subseteq> set ds. queue_of s' = queues_with m D (queue_of s) \<and> waiting_of s' = waiting_of s \<and>
      (\<forall>x. x \<noteq> m \<longrightarrow> h_msgs s' x = h_msgs s x) \<and>
      (\<forall>msg'. h_msgs s' m = Some msg' \<longrightarrow> m_jsondata msg' = m_jsondata msg \<and> m_bindata msg' = m_bindata msg)"
proof (induction ds arbitrary: s msg)
  case Nil
  then show ?case by (auto simp: queues_with_def)
next
  case (Cons d ds)
  have d: "h_clnts s d \<noteq> None" "\<not> waiting_of s d" using Cons.prems(3,6) by simp_all
  obtain out s1 where run: "deliver E c m d s = (out = Delivered, s1)" and eff: "deliver_effect m d msg out s s1"
    by (rule deliver_cases [OF env Cons.prems(1,2) d(1) Cons.prems(4)])
  note e = eff [unfolded deliver_effect_def]
  have idle: "waiting_of s1 = waiting_of s" using e d(2) by (simp add: fun_upd_idem)
  show ?case
  proof (cases "out = Delivered")
    case True
    let ?msg = "msg\<lparr>m_refs := m_refs msg + 1\<rparr>"
    have s1: "srv_inv s1" "links s1 = links s" "queue_of s1 = (queue_of s)(d := queue_of s d @ [m])"
      "h_msgs s1 = (h_msgs s)(m \<mapsto> ?msg)"
      using e True by simp_all
    have m1: "h_msgs s1 m = Some ?msg" using s1(4) by simp
    have rest: "foreach (deliver E c m) ds s1 = (go, s')" using Cons.prems(7) run True by simp
    have ex: "h_clnts s1 c \<noteq> None" "\<forall>x \<in> set ds. h_clnts s1 x \<noteq> None"
      using Cons.prems(2,3) links_clnt [OF s1(2)] by simp_all
    have still: "distinct ds" "\<forall>x \<in> set ds. \<not> waiting_of s1 x" using Cons.prems(5,6) idle by simp_all
    obtain D where D: "D \<subseteq> set ds" "queue_of s' = queues_with m D (queue_of s1)" "waiting_of s' = waiting_of s1"
      "\<forall>x. x \<noteq> m \<longrightarrow> h_msgs s' x = h_msgs s1 x"
      "\<forall>msg'. h_msgs s' m = Some msg' \<longrightarrow> m_jsondata msg' = m_jsondata msg \<and> m_bindata msg' = m_bindata msg"
      using Cons.IH [OF s1(1) ex m1 still rest] by auto
    have "d \<notin> D" using D(1) Cons.prems(5) by auto
    then have "queue_of s' = queues_with m (insert d D) (queue_of s)"
      unfolding D(2) s1(3) by (auto simp: queues_with_def)
    moreover have "\<forall>x. x \<noteq> m \<longrightarrow> h_msgs s' x = h_msgs s x" using D(4) s1(4) by simp
    ultimately show ?thesis using D(1,3,5) idle by (intro exI [of _ "insert d D"]) auto
  next
    case False
    then have out: "out = Full" using e d(2) by (cases out) auto
    have s': "s' = s1" using Cons.prems(7) run False by simp
    have "queue_of s' = queues_with m {} (queue_of s)" using e out s' by (simp add: queues_with_def)
    moreover have "h_msgs s' = (h_msgs s)(m := (if m_refs msg = 0 then None else Some msg))" using e out s' by simp
    ultimately show ?thesis using idle s' by (intro exI [of _ "{}"]) (auto split: if_splits)
  qed
qed

section \<open>Creating the message\<close>

lemma new_message_ok:
  assumes env: "env_ok E" and inv: "srv_inv s" and bin: "length bin \<le> ALLOC_MAX"
    and run: "new_message E j bin s = (r, s')"
  shows "srv_inv s' \<and> links s' = links s \<and> queue_of s' = queue_of s \<and> waiting_of s' = waiting_of s \<and>
    h_fault s' = h_fault s \<and>
    (case r of None \<Rightarrow> h_msgs s' = h_msgs s
     | Some m \<Rightarrow> \<exists>str. e_dumps E (h_tick s) j = Some str \<and> h_msgs s m = None \<and>
         h_msgs s' = (h_msgs s)(m \<mapsto> \<lparr>m_refs = 0, m_jsondata = str, m_bindata = bin\<rparr>))"
proof (cases "e_ok E (h_tick s) 0 \<and> e_dumps E (h_tick s) j \<noteq> None")
  case False
  then have "r = None" "s' = tick s" using run by (auto simp: new_message_def Let_def split: if_splits option.splits)
  then show ?thesis using inv by simp
next
  case True
  then obtain str where str: "e_dumps E (h_tick s) j = Some str" by auto
  let ?m = "h_next s"
  let ?msg = "\<lparr>m_refs = 0, m_jsondata = str, m_bindata = bin\<rparr>"
  have r: "r = Some ?m" "s' = (tick s)\<lparr>h_next := Suc ?m, h_msgs := (h_msgs s)(?m \<mapsto> ?msg)\<rparr>"
    using run True str by (auto simp: new_message_def Let_def)
  have nx: "srv_inv ((tick s)\<lparr>h_next := Suc ?m\<rparr>)" using srv_inv_next [of "tick s"] inv by simp
  have "msg_ok ?msg" using env str bin by (auto simp: env_ok_def msg_ok_def)
  then have "srv_inv ((tick s)\<lparr>h_next := Suc ?m, h_msgs := (h_msgs s)(?m \<mapsto> ?msg)\<rparr>)"
    using msgs_old [OF inv] by (intro srv_inv_msgs [OF nx]) (auto simp: less_Suc_eq split: if_splits)
  moreover have "h_msgs s ?m = None" using srv_inv_parts(11) [OF inv, of ?m] by simp
  moreover have "links s' = links s" "queue_of s' = queue_of s" "waiting_of s' = waiting_of s"
    unfolding r by (simp_all add: links_def queue_of_def waiting_of_def fun_eq_iff)
  ultimately show ?thesis using r str by simp
qed

lemma new_message_refs:
  assumes "refs_leak X s" and "h_msgs s m = None" and "m_refs msg = 0"
  shows "refs_upto X {m} (queue_of s) ((h_msgs s)(m \<mapsto> msg))" and "\<forall>d. m \<notin> set (queue_of s d)"
proof -
  note refs = assms(1) [unfolded refs_leak_def]
  have none: "holders (queue_of s) m = {}" "X m = 0" using refs_uptoD(2) [OF refs, of m] assms(2) by simp_all
  have "refs_upto X {m} ((queue_of s)(undefined := queue_of s undefined)) ((h_msgs s)(m \<mapsto> msg))"
    by (rule refs_change [OF refs refs_uptoD(1) [OF refs]]) (use none assms(3) in simp_all)
  then show "refs_upto X {m} (queue_of s) ((h_msgs s)(m \<mapsto> msg))" by simp
  show "\<forall>d. m \<notin> set (queue_of s d)" using none by (auto simp: holders_def)
qed

section \<open>\<^verbatim>\<open>dime_client_send\<close>\<close>

lemma view_search [simp]:
  "queue_of (s\<lparr>h_name2clnt := t\<rparr>) = queue_of s" "waiting_of (s\<lparr>h_name2clnt := t\<rparr>) = waiting_of s"
  by (simp_all add: queue_of_def waiting_of_def fun_eq_iff)

text \<open>What a successful delivery of \<open>j\<close> and \<open>bin\<close> to the clients in \<open>D\<close> leaves behind.\<close>

definition delivered_to :: "'j env \<Rightarrow> addr set \<Rightarrow> 'j \<Rightarrow> byte list \<Rightarrow> dime_server \<Rightarrow> dime_server \<Rightarrow> bool" where
  "delivered_to E D j bin s s' \<longleftrightarrow>
     (\<exists>m t str. e_dumps E t j = Some str \<and> h_msgs s m = None \<and>
        queue_of s' = queues_with m D (queue_of s) \<and>
        waiting_of s' = (\<lambda>x. waiting_of s x \<and> x \<notin> D) \<and>
        h_msgs s' = (if D = {} then h_msgs s
          else (h_msgs s)(m \<mapsto> \<lparr>m_refs = of_nat (card D), m_jsondata = str, m_bindata = bin\<rparr>)))"

text \<open>Some of the clients in \<open>D\<close> got the message, and nothing else has happened.\<close>

definition sent_partly :: "'j env \<Rightarrow> addr set \<Rightarrow> 'j \<Rightarrow> byte list \<Rightarrow> dime_server \<Rightarrow> dime_server \<Rightarrow> bool" where
  "sent_partly E D j bin s s' \<longleftrightarrow> waiting_of s' = waiting_of s \<and>
     (\<exists>D' m t. D' \<subseteq> D \<and> h_msgs s m = None \<and> queue_of s' = queues_with m D' (queue_of s) \<and>
        (\<forall>x. x \<noteq> m \<longrightarrow> h_msgs s' x = h_msgs s x) \<and>
        (\<forall>msg. h_msgs s' m = Some msg \<longrightarrow> e_dumps E t j = Some (m_jsondata msg) \<and> m_bindata msg = bin))"

lemma sent_to_nobody:
  assumes "srv_inv s" and "queue_of s' = queue_of s" and "waiting_of s' = waiting_of s" and "h_msgs s' = h_msgs s"
  shows "sent_partly E D j bin s s'"
proof -
  have "h_msgs s (h_next s) = None" using srv_inv_parts(11) [OF assms(1), of "h_next s"] by simp
  then show ?thesis using assms(2-4) unfolding sent_partly_def
    by (intro conjI exI [of _ "{}"] exI [of _ "h_next s"]) (auto simp: queues_with_def)
qed

lemma delivered_partly:
  assumes "delivered_to E D j bin s s'" and "\<forall>d \<in> D. \<not> waiting_of s d"
  shows "sent_partly E D j bin s s'"
proof -
  obtain m t str where m: "e_dumps E t j = Some str" "h_msgs s m = None"
    "queue_of s' = queues_with m D (queue_of s)" "waiting_of s' = (\<lambda>x. waiting_of s x \<and> x \<notin> D)"
    "h_msgs s' = (if D = {} then h_msgs s
       else (h_msgs s)(m \<mapsto> \<lparr>m_refs = of_nat (card D), m_jsondata = str, m_bindata = bin\<rparr>))"
    using assms(1) unfolding delivered_to_def by blast
  have "waiting_of s' = waiting_of s" using m(4) assms(2) by auto
  then show ?thesis using m unfolding sent_partly_def
    by (intro conjI exI [of _ D] exI [of _ m] exI [of _ t]) (auto split: if_splits)
qed

text \<open>What every command keeps, whatever its outcome.\<close>

definition kept :: "addr \<Rightarrow> dime_server \<Rightarrow> dime_server \<Rightarrow> bool" where
  "kept c s s' \<longleftrightarrow> srv_inv s' \<and> h_clnts s' c \<noteq> None \<and> membership s' = membership s"

lemma kept_same: "srv_inv s \<Longrightarrow> h_clnts s c \<noteq> None \<Longrightarrow> same_but_socks s s' \<Longrightarrow> kept c s s'"
  using srv_inv_same [of s s'] membership_same [of s s'] same_but_socks_None [of s s' c] by (simp add: kept_def)

lemma kept_links: "srv_inv s' \<Longrightarrow> h_clnts s c \<noteq> None \<Longrightarrow> links s' = links s \<Longrightarrow> kept c s s'"
  using links_eq(5) [of s' s] links_clnt [of s' s c] by (simp add: kept_def)

lemma kept_trans: "kept c s s' \<Longrightarrow> kept c s' s'' \<Longrightarrow> kept c s s''"
  by (simp add: kept_def)

lemma members_of_group:
  assumes inv: "srv_inv s" and g: "group_name s g = Some name" and gr: "h_groups s g = Some gr"
  shows "{d. (d, name) \<in> membership s} = set (g_clnts gr)"
proof -
  have "(d, name) \<in> membership s \<longleftrightarrow> d \<in> set (g_clnts gr)" for d
  proof
    assume "(d, name) \<in> membership s"
    then obtain g' where g': "member s d g'" "group_name s g' = Some name" by (auto simp: membership_def)
    have "g' = g" by (rule group_name_inj [OF inv g g'(2)])
    then show "d \<in> set (g_clnts gr)" using g'(1) gr by (simp add: member_def)
  next
    assume "d \<in> set (g_clnts gr)"
    then show "(d, name) \<in> membership s" using g gr by (auto simp: membership_def member_def)
  qed
  then show ?thesis by auto
qed

lemma length_few:
  assumes inv: "srv_inv s" and "distinct ds" and exist: "\<forall>d \<in> set ds. h_clnts s d \<noteq> None"
  shows "length ds < 2 ^ 32"
proof -
  have "set ds \<subseteq> dom (h_clnts s)" using exist by blast
  then have "card (set ds) \<le> card (dom (h_clnts s))" by (rule card_mono [OF clients_few(1) [OF inv]])
  then show ?thesis using clients_few(2) [OF inv] distinct_card [OF assms(2)] by simp
qed

lemma of_nat_zero: "n < 2 ^ 32 \<Longrightarrow> (of_nat n :: 32 word) = 0 \<longleftrightarrow> n = 0"
  by (auto simp: word_of_nat_eq_0_iff dest: dvd_imp_le)

text \<open>
  The result of a command that sends \<open>j\<close> and \<open>bin\<close> to \<open>D\<close>: on success every client in \<open>D\<close> got the
  message and the counts are exact; on failure, unless a client in \<open>D\<close> waits, they are exact too and
  some of the clients got the message.
\<close>

definition send_result ::
  "(addr \<Rightarrow> nat) \<Rightarrow> 'j env \<Rightarrow> addr set \<Rightarrow> 'j \<Rightarrow> byte list \<Rightarrow> addr \<Rightarrow> dime_server \<Rightarrow> int \<Rightarrow> dime_server \<Rightarrow> bool" where
  "send_result X E D j bin c s rc s' \<longleftrightarrow>
     kept c s s' \<and> rc \<in> {0, -1} \<and>
     (rc = 0 \<longrightarrow> refs_leak X s' \<and> delivered_to E D j bin s s') \<and>
     ((\<forall>d \<in> D. \<not> waiting_of s d) \<longrightarrow> refs_leak X s' \<and> sent_partly E D j bin s s')"

lemma send_result_fail:
  assumes "srv_inv s" and "refs_leak X s" and c: "h_clnts s c \<noteq> None"
    and s1: "srv_inv s1" "membership s1 = membership s" "queue_of s1 = queue_of s" "h_msgs s1 = h_msgs s"
      "h_clnts s1 c \<noteq> None" "waiting_of s1 = waiting_of s"
    and same: "same_but_socks s1 s2"
  shows "send_result X E D j bin c s (-1) s2"
  using kept_same [OF s1(1,5) same] same_view [OF same] assms(2) s1(2-4,6) sent_to_nobody [OF assms(1), of s2 E D j bin]
  by (simp add: send_result_def kept_def refs_leak_def)

text \<open>The loop over the recipients, from the creation of the message on.\<close>

lemma send_loop:
  assumes env: "env_ok E" and inv: "srv_inv s" and c: "h_clnts s c \<noteq> None" and refs: "refs_leak X s"
    and bin: "length bin \<le> ALLOC_MAX" and nm: "new_message E j bin s = (Some m, s1)"
    and ds: "distinct ds" "\<forall>d \<in> set ds. h_clnts s d \<noteq> None"
    and loop: "foreach (deliver E c m) ds s1 = (go, s2)"
  shows "srv_inv s2" and "links s2 = links s" and "h_fault s2 = h_fault s"
    and "\<not> go \<Longrightarrow> refs_leak X s2 \<or> (\<exists>d \<in> set ds. waiting_of s d)"
    and "go \<Longrightarrow> refs_upto X {m} (queue_of s2) (h_msgs s2) \<and> h_msgs s m = None \<and>
      queue_of s2 = queues_with m (set ds) (queue_of s) \<and> waiting_of s2 = (\<lambda>x. waiting_of s x \<and> x \<notin> set ds) \<and>
      (\<exists>t str. e_dumps E t j = Some str \<and>
        h_msgs s2 = (h_msgs s)(m \<mapsto> \<lparr>m_refs = of_nat (length ds), m_jsondata = str, m_bindata = bin\<rparr>))"
    and "\<forall>d \<in> set ds. \<not> waiting_of s d \<Longrightarrow> sent_partly E (set ds) j bin s s2"
proof -
  note n = new_message_ok [OF env inv bin nm]
  obtain str where str: "e_dumps E (h_tick s) j = Some str" "h_msgs s m = None"
    "h_msgs s1 = (h_msgs s)(m \<mapsto> \<lparr>m_refs = 0, m_jsondata = str, m_bindata = bin\<rparr>)"
    using n by auto
  let ?msg = "\<lparr>m_refs = 0, m_jsondata = str, m_bindata = bin\<rparr>"
  have s1: "srv_inv s1" "links s1 = links s" "queue_of s1 = queue_of s" "waiting_of s1 = waiting_of s"
    "h_fault s1 = h_fault s" "h_msgs s1 m = Some ?msg"
    using n str(3) by simp_all
  have ex: "h_clnts s1 c \<noteq> None" "\<forall>d \<in> set ds. h_clnts s1 d \<noteq> None" using links_clnt [OF s1(2)] c ds(2) by simp_all
  have refs1: "refs_upto X {m} (queue_of s1) (h_msgs s1)" "\<forall>d \<in> set ds. m \<notin> set (queue_of s1 d)"
    using new_message_refs [OF refs str(2), of ?msg] s1(3) str(3) by simp_all
  note fd = foreach_deliver [OF env s1(1) ex s1(6) refs1(1) ds(1) refs1(2) loop]
  show "srv_inv s2" "links s2 = links s" "h_fault s2 = h_fault s" using fd s1 by simp_all
  show "refs_leak X s2 \<or> (\<exists>d \<in> set ds. waiting_of s d)" if "\<not> go" using fd that s1(4) by simp
  show "refs_upto X {m} (queue_of s2) (h_msgs s2) \<and> h_msgs s m = None \<and>
      queue_of s2 = queues_with m (set ds) (queue_of s) \<and> waiting_of s2 = (\<lambda>x. waiting_of s x \<and> x \<notin> set ds) \<and>
      (\<exists>t str. e_dumps E t j = Some str \<and>
        h_msgs s2 = (h_msgs s)(m \<mapsto> \<lparr>m_refs = of_nat (length ds), m_jsondata = str, m_bindata = bin\<rparr>))" if "go"
    using fd that s1(3,4) str by (auto simp: sent_to_def)
  show "sent_partly E (set ds) j bin s s2" if idle: "\<forall>d \<in> set ds. \<not> waiting_of s d"
  proof -
    have idle1: "\<forall>d \<in> set ds. \<not> waiting_of s1 d" using idle s1(4) by simp
    obtain D where D: "D \<subseteq> set ds" "queue_of s2 = queues_with m D (queue_of s1)" "waiting_of s2 = waiting_of s1"
      "\<forall>x. x \<noteq> m \<longrightarrow> h_msgs s2 x = h_msgs s1 x"
      "\<forall>msg'. h_msgs s2 m = Some msg' \<longrightarrow> m_jsondata msg' = str \<and> m_bindata msg' = bin"
      using foreach_deliver_partial [OF env s1(1) ex s1(6) ds(1) idle1 loop] by auto
    then show ?thesis using s1(3,4) str unfolding sent_partly_def
      by (intro conjI exI [of _ D] exI [of _ m] exI [of _ "h_tick s"]) auto
  qed
qed

text \<open>After the loop: a message nobody got is freed, and the sender gets its reply.\<close>

lemma send_end:
  assumes env: "env_ok E" and inv: "srv_inv s" and c: "h_clnts s c \<noteq> None" and refs: "refs_leak X s"
    and bin: "length bin \<le> ALLOC_MAX" and nm: "new_message E j bin s = (Some m, s1)"
    and ds: "distinct ds" "\<forall>d \<in> set ds. h_clnts s d \<noteq> None"
    and loop: "foreach (deliver E c m) ds s1 = (True, s2)"
    and reply: "reply_ok E c (free_if_unused m s2) = (rc, s')"
  shows "send_result X E (set ds) j bin c s rc s'" and "h_fault s' = h_fault s"
    and "ds \<noteq> [] \<Longrightarrow> free_if_unused m s2 = s2 \<and> \<not> no_refs m s2"
proof -
  note l = send_loop(1-3) [OF env inv c refs bin nm ds loop] and lp = send_loop(5) [OF env inv c refs bin nm ds loop TrueI]
  obtain t str where str: "e_dumps E t j = Some str"
    "h_msgs s2 = (h_msgs s)(m \<mapsto> \<lparr>m_refs = of_nat (length ds), m_jsondata = str, m_bindata = bin\<rparr>)"
    using lp by blast
  let ?msg = "\<lparr>m_refs = of_nat (length ds), m_jsondata = str, m_bindata = bin\<rparr>" and ?s3 = "free_if_unused m s2"
  have m2: "h_msgs s2 m = Some ?msg" using str(2) by simp
  have zero: "m_refs ?msg = 0 \<longleftrightarrow> ds = []"
    using of_nat_zero [OF length_few [OF inv ds]] by simp
  have s3: "?s3 = s2\<lparr>h_msgs := (h_msgs s2)(m := (if ds = [] then None else Some ?msg))\<rparr>"
    unfolding free_if_unused_eq [OF m2] zero by simp
  have inv3: "srv_inv ?s3" unfolding s3 by (rule srv_inv_msg_upd [OF l(1) m2]) (auto split: if_splits)
  have ms3: "h_msgs ?s3 = (if ds = [] then h_msgs s else h_msgs s2)"
    unfolding s3 using str(2) lp by (simp add: fun_upd_idem)
  have view3: "links ?s3 = links s" "queue_of ?s3 = queue_of s2" "waiting_of ?s3 = waiting_of s2" "h_fault ?s3 = h_fault s"
    unfolding s3 using l(2,3) by simp_all
  have r2: "refs_upto X {m} (queue_of s2) (h_msgs s2)" using lp by (rule conjunct1)
  have "refs_upto X {} (queue_of s2) (if m_refs ?msg = 0 then (h_msgs s2)(m := None) else h_msgs s2)"
    by (rule refs_finish [OF r2 m2 holders_few(1) [OF l(1)]])
  then have refs3: "refs_leak X ?s3" unfolding refs_leak_def view3(2) zero s3 using m2 by (simp add: fun_upd_idem split: if_splits)
  have c3: "h_clnts ?s3 c \<noteq> None" using links_clnt [OF view3(1)] c by simp
  have same: "same_but_socks ?s3 s'" using reply_ok_same [OF env c3] unfolding reply by simp
  note v = same_view [OF same]
  have "card (set ds) = length ds" by (rule distinct_card [OF ds(1)])
  then have all: "delivered_to E (set ds) j bin s s'"
    unfolding delivered_to_def v view3 ms3 using lp str by auto
  moreover note delivered_partly [OF all]
  moreover have "kept c s s'"
    using kept_links [OF inv3 c view3(1)] kept_same [OF inv3 c3 same] by (rule kept_trans)
  moreover have "refs_leak X s'" using refs3 v by (simp add: refs_leak_def)
  moreover have "rc \<in> {0, -1}" using reply_ok_keeps [OF env inv3 c3] unfolding reply by simp
  ultimately show "send_result X E (set ds) j bin c s rc s'" by (simp add: send_result_def)
  show "h_fault s' = h_fault s" using v(5) view3(4) by simp
  show "?s3 = s2 \<and> \<not> no_refs m s2" if "ds \<noteq> []"
    using that zero m2 unfolding s3 by (simp add: fun_upd_idem no_refs_def)
qed

text \<open>A command whose only fault is the search of a table without a free slot.\<close>

definition safe_fault :: "dime_server \<Rightarrow> dime_server \<Rightarrow> bool" where
  "safe_fault s s' \<longleftrightarrow> (h_fault s' \<longrightarrow> h_fault s \<or> \<not> table_live (h_name2clnt s'))"

text \<open>The command once its group is found.\<close>

lemma send_to_group:
  assumes env: "env_ok E" and inv: "srv_inv s" and c: "h_clnts s c \<noteq> None" and refs: "refs_leak X s"
    and bin: "length bin \<le> ALLOC_MAX" and gr: "h_groups s g = Some gr" "g_clnts gr \<noteq> []"
    and run: "(case new_message E j bin s of
        (None, s) \<Rightarrow> (-1, fail_errno E c s)
      | (Some m, s) \<Rightarrow>
          (case foreach (deliver E c m) (g_clnts gr) s of
             (False, s) \<Rightarrow> (-1, s)
           | (True, s) \<Rightarrow> if no_refs m s then (-1, fault s) else reply_ok E c s)) = (rc, s')"
  shows "send_result X E (set (g_clnts gr)) j bin c s rc s' \<and> h_fault s' = h_fault s"
proof -
  have dist: "distinct (g_clnts gr)" using srv_inv_parts(6) [OF inv gr(1)] by (simp add: array_ok_def)
  have "h_clnts s d \<noteq> None" if "d \<in> set (g_clnts gr)" for d
    by (rule group_members_exist [OF inv gr(1) that]) simp
  then have ex: "\<forall>d \<in> set (g_clnts gr). h_clnts s d \<noteq> None" by blast
  obtain r s1 where nm: "new_message E j bin s = (r, s1)" by (cases "new_message E j bin s")
  note n = new_message_ok [OF env inv bin nm]
  have s1: "srv_inv s1" "links s1 = links s" "queue_of s1 = queue_of s" "h_fault s1 = h_fault s"
    "waiting_of s1 = waiting_of s" using n by simp_all
  have c1: "h_clnts s1 c \<noteq> None" using links_clnt [OF s1(2)] c by simp
  show ?thesis
  proof (cases r)
    case None
    then have r: "rc = -1" "s' = fail_errno E c s1" "h_msgs s1 = h_msgs s" using run nm n by simp_all
    note same = fail_same(2) [OF env c1]
    show ?thesis
      unfolding r(1,2)
      using send_result_fail [OF inv refs c s1(1) links_eq(5) [OF s1(2)] s1(3) r(3) c1 s1(5) same] same_view(5) [OF same] s1(4)
      by simp
  next
    case (Some m)
    note nm = nm [unfolded Some]
    obtain go s2 where loop: "foreach (deliver E c m) (g_clnts gr) s1 = (go, s2)"
      by (cases "foreach (deliver E c m) (g_clnts gr) s1")
    show ?thesis
    proof (cases go)
      case False
      note l = send_loop [OF env inv c refs bin nm dist ex loop]
      have r: "rc = -1" "s' = s2" using run nm loop False by simp_all
      have "refs_leak X s2 \<and> sent_partly E (set (g_clnts gr)) j bin s s2" if "\<forall>d \<in> set (g_clnts gr). \<not> waiting_of s d"
        using l(4) [OF False] l(6) that by blast
      then show ?thesis unfolding r using kept_links [OF l(1) c l(2)] l(3) by (simp add: send_result_def)
    next
      case True
      have loop: "foreach (deliver E c m) (g_clnts gr) s1 = (True, s2)" using loop True by simp
      obtain rc' s3 where reply: "reply_ok E c (free_if_unused m s2) = (rc', s3)"
        by (cases "reply_ok E c (free_if_unused m s2)")
      note e = send_end [OF env inv c refs bin nm dist ex loop reply]
      have "rc = rc'" "s' = s3" using run nm loop e(3) [OF gr(2)] reply by simp_all
      then show ?thesis using e(1,2) by simp
    qed
  qed
qed

lemma dime_client_send_ok:
  assumes env: "env_ok E" and inv: "srv_inv s" and c: "h_clnts s c \<noteq> None"
    and refs: "refs_leak X s" and bin: "length bin \<le> ALLOC_MAX" and run: "dime_client_send E c j bin s = (rc, s')"
    and D: "D = {d. \<exists>name. e_unpack_s E j ''name'' = Inr name \<and> (d, name) \<in> membership s}"
  shows "send_result X E D j bin c s rc s' \<and> safe_fault s s' \<and> (rc = 0 \<longrightarrow> D \<noteq> {})"
proof (cases "e_unpack_s E j ''name''")
  case (Inl msg)
  note same = fail_same(3) [OF env c]
  have "rc = -1" "s' = fail_cat E c ''JSON parsing error: '' msg s" using run Inl by (simp_all add: dime_client_send_def)
  then show ?thesis using send_result_fail [OF inv refs c inv refl refl refl c refl same] same_view(5) [OF same]
    by (simp add: safe_fault_def)
next
  case (Inr name)
  note unpack = Inr
  have D: "D = {d. (d, name) \<in> membership s}" using D Inr by simp
  show ?thesis
  proof (rule table_search_cases [OF srv_inv_parts(2) [OF inv], of name])
    assume dead: "dime_table_search (h_name2clnt s) name = None" "\<not> table_live (h_name2clnt s)"
    have r: "rc = -1" "s' = fault s" using run Inr dead(1) by (simp_all add: dime_client_send_def)
    have "queue_of (fault s) = queue_of s" by (simp add: queue_of_def fun_eq_iff)
    then have "refs_leak X (fault s)" using refs by (simp add: refs_leak_def) (simp add: fault_def)
    moreover have "sent_partly E D j bin s (fault s)"
      by (rule sent_to_nobody [OF inv]) (simp_all add: fault_def queue_of_def waiting_of_def fun_eq_iff)
    ultimately show ?thesis unfolding r using inv c dead(2)
      by (simp add: send_result_def kept_def safe_fault_def) (simp add: fault_def)
  next
    fix t
    assume t: "dime_table_search (h_name2clnt s) name = Some (table_map (h_name2clnt s) name, t)"
      "table_inv t" "table_map t = table_map (h_name2clnt s)"
    let ?s = "s\<lparr>h_name2clnt := t\<rparr>"
    have s: "srv_inv ?s" "h_clnts ?s c \<noteq> None" "h_fault ?s = h_fault s" "refs_leak X ?s"
      using srv_inv_search [OF inv t(2,3)] c refs by (simp_all add: refs_leak_def)
    have view: "send_result X E D j bin c s rc s'" if "send_result X E D j bin c ?s rc s'"
    proof -
      have hm: "h_msgs ?s = h_msgs s" by simp
      show ?thesis
        using that unfolding send_result_def kept_def delivered_to_def sent_partly_def membership_search view_search hm .
    qed
    have none: "send_result X E D j bin c ?s (-1) (fail_cat E c ''No such group exists: '' name ?s) \<and>
        safe_fault s (fail_cat E c ''No such group exists: '' name ?s)"
      using send_result_fail [OF s(1,4,2) s(1) refl refl refl s(2) refl fail_same(3) [OF env s(2)]]
        same_view(5) [OF fail_same(3) [OF env s(2)]] s(3) by (simp add: safe_fault_def)
    show ?thesis
    proof (cases "table_map (h_name2clnt s) name")
      case None
      then have "rc = -1" "s' = fail_cat E c ''No such group exists: '' name ?s"
        using run Inr t(1) by (simp_all add: dime_client_send_def)
      then show ?thesis using none view by simp
    next
      case (Some g)
      then have g: "group_name s g = Some name" using srv_inv_parts(4) [OF inv] by simp
      then obtain gr where gr: "h_groups s g = Some gr" by (auto simp: group_name_def)
      have D': "D = set (g_clnts gr)" unfolding D by (rule members_of_group [OF inv g gr])
      show ?thesis
      proof (cases "g_clnts gr = []")
        case True
        then have "rc = -1" "s' = fail_cat E c ''No such group exists: '' name ?s"
          using run Inr t(1) Some gr by (simp_all add: dime_client_send_def)
        then show ?thesis using none view by simp
      next
        case False
        have gr': "h_groups ?s g = Some gr" using gr by simp
        have "send_result X E (set (g_clnts gr)) j bin c ?s rc s' \<and> h_fault s' = h_fault ?s"
          by (rule send_to_group [OF env s(1,2,4) bin gr' False])
            (use run Inr t(1) Some gr False in \<open>simp add: dime_client_send_def Let_def\<close>)
        then show ?thesis using view s(3) False unfolding D' by (simp add: safe_fault_def)
      qed
    qed
  qed
qed

end
