(* ===== verification/Message_Bcast.thy ===== *)
theory Message_Bcast
  imports Message_Send
begin

text \<open>
  Walking over the tables of the server, and \<^verbatim>\<open>dime_client_broadcast\<close>, which walks over all clients
  and passes over the sender.
\<close>

section \<open>Walks\<close>

lemma table_walk_ok:
  assumes "table_inv t"
  obtains kvs where "table_walk t = Some (map snd kvs)" and "distinct (map fst kvs)" and "map_of kvs = table_map t"
  using that [of "table_entries (t_arr t)"] iter_run_all [OF assms] assms
  by (simp add: table_walk_def table_map_def table_inv_def keys_distinct_def)

lemma table_walk_values:
  assumes inv: "table_inv t" and inj: "\<And>k k' v. table_map t k = Some v \<Longrightarrow> table_map t k' = Some v \<Longrightarrow> k' = k"
  obtains vs where "table_walk t = Some vs" and "distinct vs" and "set vs = {v. \<exists>k. table_map t k = Some v}"
proof -
  obtain kvs where kvs: "table_walk t = Some (map snd kvs)" "distinct (map fst kvs)" "map_of kvs = table_map t"
    by (rule table_walk_ok [OF inv])
  have "set (map snd kvs) = ran (table_map t)" using ran_distinct [OF kvs(2)] kvs(3) by simp
  moreover have "inj_on snd (set kvs)"
  proof (rule inj_onI)
    fix x y
    assume xy: "x \<in> set kvs" "y \<in> set kvs" "snd x = snd y"
    have "table_map t (fst x) = Some (snd x)" "table_map t (fst y) = Some (snd y)"
      using map_of_is_SomeI [OF kvs(2)] xy(1,2) kvs(3) by (metis prod.collapse)+
    then have "fst y = fst x" using inj xy(3) by metis
    then show "x = y" using xy(3) by (simp add: prod_eq_iff)
  qed
  moreover have "distinct kvs" using kvs(2) by (simp add: distinct_map)
  ultimately show thesis using that [of "map snd kvs"] kvs(1) by (simp add: distinct_map ran_def)
qed

lemma walk_clients:
  assumes "srv_inv s"
  obtains ds where "table_walk (h_fd2clnt s) = Some ds" and "distinct ds" and "set ds = dom (h_clnts s)"
proof -
  note fd = srv_inv_parts(3) [OF assms]
  have inj: "k' = k" if "table_map (h_fd2clnt s) k = Some v" "table_map (h_fd2clnt s) k' = Some v" for k k' v
    using that unfolding fd by auto
  obtain vs where vs: "table_walk (h_fd2clnt s) = Some vs" "distinct vs"
    "set vs = {v. \<exists>k. table_map (h_fd2clnt s) k = Some v}"
    by (rule table_walk_values [OF srv_inv_parts(1) [OF assms] inj])
  have "set vs = dom (h_clnts s)" unfolding vs(3) fd by auto
  then show thesis using that vs by blast
qed

lemma walk_groups:
  assumes "srv_inv s"
  obtains gs where "table_walk (h_name2clnt s) = Some gs" and "distinct gs" and "set gs = dom (h_groups s)"
proof -
  note nm = srv_inv_parts(4) [OF assms]
  have inj: "k' = k" if "table_map (h_name2clnt s) k = Some v" "table_map (h_name2clnt s) k' = Some v" for k k' v
    using that unfolding nm by simp
  obtain vs where vs: "table_walk (h_name2clnt s) = Some vs" "distinct vs"
    "set vs = {v. \<exists>k. table_map (h_name2clnt s) k = Some v}"
    by (rule table_walk_values [OF srv_inv_parts(2) [OF assms] inj])
  have "set vs = dom (h_groups s)" unfolding vs(3) nm by (auto simp: group_name_def)
  then show thesis using that vs by blast
qed

section \<open>\<^verbatim>\<open>dime_client_broadcast\<close>\<close>

lemma same_fd_iff:
  assumes inv: "srv_inv s" and "h_clnts s c = Some cl" and "h_clnts s d = Some other"
  shows "c_fd cl \<noteq> c_fd other \<longleftrightarrow> d \<noteq> c"
proof -
  have "table_map (h_fd2clnt s) (c_fd cl) = Some c" "table_map (h_fd2clnt s) (c_fd other) = Some d"
    using srv_inv_parts(3) [OF inv] assms(2,3) by auto
  then show ?thesis using assms(2,3) by auto
qed

lemma foreach_deliver_other:
  assumes env: "env_ok E"
  shows "srv_inv s \<Longrightarrow> h_clnts s c \<noteq> None \<Longrightarrow> \<forall>d \<in> set ds. h_clnts s d \<noteq> None \<Longrightarrow> h_msgs s m = Some msg \<Longrightarrow>
    foreach (deliver_other E c m) ds s = foreach (deliver E c m) (filter (\<lambda>d. d \<noteq> c) ds) s"
proof (induction ds arbitrary: s msg)
  case Nil
  then show ?case by simp
next
  case (Cons d ds)
  obtain cl other where cl: "h_clnts s c = Some cl" "h_clnts s d = Some other" using Cons.prems(2,3) by auto
  have one: "deliver_other E c m d s = (if d \<noteq> c then deliver E c m d s else (True, s))"
    using same_fd_iff [OF Cons.prems(1) cl] by (simp add: deliver_other_def cl)
  show ?case
  proof (cases "d = c")
    case True
    then show ?thesis using one Cons.IH [OF Cons.prems(1,2) _ Cons.prems(4)] Cons.prems(3) by simp
  next
    case False
    have d: "h_clnts s d \<noteq> None" using cl by simp
    obtain out s1 where run: "deliver E c m d s = (out = Delivered, s1)" and eff: "deliver_effect m d msg out s s1"
      by (rule deliver_cases [OF env Cons.prems(1,2) d Cons.prems(4)])
    note e = eff [unfolded deliver_effect_def]
    show ?thesis
    proof (cases "out = Delivered")
      case True
      have s1: "srv_inv s1" "links s1 = links s" "h_msgs s1 m = Some (msg\<lparr>m_refs := m_refs msg + 1\<rparr>)"
        using e True by simp_all
      have "foreach (deliver_other E c m) ds s1 = foreach (deliver E c m) (filter (\<lambda>d. d \<noteq> c) ds) s1"
        by (rule Cons.IH [OF s1(1) _ _ s1(3)]) (use Cons.prems(2,3) links_clnt [OF s1(2)] in simp_all)
      then show ?thesis using one run True False by simp
    next
      case 2: False
      then show ?thesis using one run False by simp
    qed
  qed
qed

lemma dime_client_broadcast_ok:
  assumes env: "env_ok E" and inv: "srv_inv s" and c: "h_clnts s c \<noteq> None"
    and refs: "refs_leak X s" and bin: "length bin \<le> ALLOC_MAX" and run: "dime_client_broadcast E c j bin s = (rc, s')"
  shows "send_result X E (dom (h_clnts s) - {c}) j bin c s rc s' \<and> h_fault s' = h_fault s"
proof -
  obtain r s1 where nm: "new_message E j bin s = (r, s1)" by (cases "new_message E j bin s")
  note n = new_message_ok [OF env inv bin nm]
  have s1: "srv_inv s1" "links s1 = links s" "queue_of s1 = queue_of s" "h_fault s1 = h_fault s"
    "waiting_of s1 = waiting_of s" using n by simp_all
  have c1: "h_clnts s1 c \<noteq> None" using links_clnt [OF s1(2)] c by simp
  show ?thesis
  proof (cases r)
    case None
    then have r: "rc = -1" "s' = fail_errno E c s1" "h_msgs s1 = h_msgs s"
      using run nm n by (simp_all add: dime_client_broadcast_def)
    note same = fail_same(2) [OF env c1]
    show ?thesis
      unfolding r(1,2)
      using send_result_fail [OF inv refs c s1(1) links_eq(5) [OF s1(2)] s1(3) r(3) c1 s1(5) same] same_view(5) [OF same] s1(4)
      by simp
  next
    case (Some m)
    note nm = nm [unfolded Some]
    obtain msg where m1: "h_msgs s1 m = Some msg" using n Some by auto
    obtain ds where ds: "table_walk (h_fd2clnt s1) = Some ds" "distinct ds" "set ds = dom (h_clnts s1)"
      by (rule walk_clients [OF s1(1)])
    have dom: "dom (h_clnts s1) = dom (h_clnts s)" unfolding dom_def using links_clnt [OF s1(2)] by simp
    let ?ds = "filter (\<lambda>d. d \<noteq> c) ds"
    have D: "set ?ds = dom (h_clnts s) - {c}" using ds(3) dom by auto
    have dist: "distinct ?ds" using ds(2) by simp
    have ex1: "\<forall>d \<in> set ds. h_clnts s1 d \<noteq> None" and ex: "\<forall>d \<in> set ?ds. h_clnts s d \<noteq> None"
      using ds(3) dom by auto
    obtain go s2 where loop: "foreach (deliver E c m) ?ds s1 = (go, s2)"
      by (cases "foreach (deliver E c m) ?ds s1")
    have other: "foreach (deliver_other E c m) ds s1 = (go, s2)"
      using foreach_deliver_other [OF env s1(1) c1 ex1 m1] loop by simp
    show ?thesis
    proof (cases go)
      case False
      note l = send_loop [OF env inv c refs bin nm dist ex loop]
      have r: "rc = -1" "s' = s2" using run nm ds(1) other False by (simp_all add: dime_client_broadcast_def)
      have "refs_leak X s2 \<and> sent_partly E (dom (h_clnts s) - {c}) j bin s s2"
        if "\<forall>d \<in> dom (h_clnts s) - {c}. \<not> waiting_of s d"
        using l(4) [OF False] l(6) that unfolding D by blast
      then show ?thesis unfolding r using kept_links [OF l(1) c l(2)] l(3) by (simp add: send_result_def)
    next
      case True
      have loop: "foreach (deliver E c m) ?ds s1 = (True, s2)" using loop True by simp
      have reply: "reply_ok E c (free_if_unused m s2) = (rc, s')"
        using run nm ds(1) other True by (simp add: dime_client_broadcast_def)
      show ?thesis using send_end(1,2) [OF env inv c refs bin nm dist ex loop reply] unfolding D by simp
    qed
  qed
qed

end
