(* ===== verification/Message_Sync.thy ===== *)
theory Message_Sync
  imports Message_Bcast
begin

text \<open>
  Fetching: \<^verbatim>\<open>dime_client_sync\<close> takes the first messages of the client's queue, in order, and
  releases them; \<^verbatim>\<open>dime_client_wait\<close> and \<^verbatim>\<open>dime_client_devices\<close> answer from the state.
\<close>

section \<open>One turn of the loop\<close>

lemma popl_cap: "d_cap (snd (dime_deque_popl d)) = d_cap d"
  by (simp add: dime_deque_popl_def Let_def)

text \<open>After a pop there is room to put the element back.\<close>

lemma popl_then_pushl:
  assumes dq: "dq_inv d" and xs: "dq_list d = x # xs" and pop: "dime_deque_popl d = (r, d')"
  shows "r = Some x" and "dq_inv d'" and "dq_list d' = xs"
    and "dq_inv (snd (dime_deque_pushl ok d' x))" and "dq_list (snd (dime_deque_pushl ok d' x)) = x # xs"
proof -
  show r: "r = Some x" and d': "dq_inv d'" and l: "dq_list d' = xs"
    using dq.popl_cons [OF dq xs] dq.popl_inv [OF dq] pop by simp_all
  have "d_len d = Suc (length xs)" using length_dq_list [of d] xs by simp
  moreover have "d_len d' = length xs" using length_dq_list [of d'] l by simp
  ultimately have "d_len d' < d_cap d'" using dq_inv_bounds(5) [OF dq] popl_cap [of d] pop by simp
  then have "fst (dime_deque_pushl ok d' x) = 0" using dime_deque_pushl_rc [OF d', of ok x] by simp
  then show "dq_inv (snd (dime_deque_pushl ok d' x))" and "dq_list (snd (dime_deque_pushl ok d' x)) = x # xs"
    using dq.pushl_inv [OF d', of ok x] dq.pushl_items [OF d', of ok x] l by simp_all
qed

text \<open>Taking \<open>m\<close> off the queue, and pushing its text on the socket.\<close>

lemma sync_turn:
  assumes inv: "srv_inv s" and cl: "h_clnts s c = Some cl" and q: "queue_of s c = m # q"
    and msg: "h_msgs s m = Some msg"
  obtains rc s1 s0 queue where "dime_deque_popl (c_queue cl) = (Some m, queue)"
    and "s0 = set_clnt c (cl\<lparr>c_queue := queue\<rparr>) s"
    and "clnt_push_str E c (m_jsondata msg) (m_bindata msg) s0 = (rc, s1)"
    and "srv_inv s0" and "same_but_socks s0 s1" and "links s0 = links s" and "waiting_of s0 = waiting_of s"
    and "queue_of s0 = (queue_of s)(c := q)"
    and "sync_loop E c (Suc n) s =
      (if rc < 0 then
         (False, tick (set_clnt c (the (h_clnts s1 c)
            \<lparr>c_queue := snd (dime_deque_pushl (e_ok E (h_tick s1) 0) (c_queue (the (h_clnts s1 c))) m)\<rparr>) s1))
       else sync_loop E c n (free_if_unused m (add_refs (-1) m s1)))"
proof -
  have dq: "dq_inv (c_queue cl)" by (rule srv_inv_parts(9) [OF inv cl])
  have l: "dq_list (c_queue cl) = m # q" using q cl by (simp add: queue_of_def)
  obtain r queue where pop: "dime_deque_popl (c_queue cl) = (r, queue)" by (cases "dime_deque_popl (c_queue cl)")
  note p = popl_then_pushl(1-3) [OF dq l pop]
  let ?cl = "cl\<lparr>c_queue := queue\<rparr>"
  let ?s0 = "set_clnt c ?cl s"
  have s0: "srv_inv ?s0" using set_clnt_keeps [OF inv cl, of ?cl] p(2) by simp
  have v0: "links ?s0 = links s" "waiting_of ?s0 = waiting_of s" "queue_of ?s0 = (queue_of s)(c := q)"
    using set_clnt_view [OF cl, of ?cl] p(3) cl by (simp_all add: fun_upd_idem waiting_of_def)
  obtain rc s1 where push: "clnt_push_str E c (m_jsondata msg) (m_bindata msg) ?s0 = (rc, s1)"
    by (cases "clnt_push_str E c (m_jsondata msg) (m_bindata msg) ?s0")
  have "msg_ok msg" by (rule srv_inv_parts(10) [OF inv msg])
  then have same: "same_but_socks ?s0 s1"
    using clnt_push_str_same [of "m_jsondata msg" "m_bindata msg" ?s0 c E] unfolding push by (simp add: msg_ok_def)
  obtain cl1 where cl1: "h_clnts s1 c = Some cl1"
    by (rule same_but_socks_get [OF same, of c ?cl]) simp_all
  have "sync_loop E c (Suc n) s =
      (if rc < 0 then
         (False, tick (set_clnt c (the (h_clnts s1 c)
            \<lparr>c_queue := snd (dime_deque_pushl (e_ok E (h_tick s1) 0) (c_queue (the (h_clnts s1 c))) m)\<rparr>) s1))
       else sync_loop E c n (free_if_unused m (add_refs (-1) m s1)))"
    using cl pop p(1) msg push cl1 by simp
  then show thesis by (rule that [OF pop [unfolded p(1)] refl push s0 same v0(1,2,3)])
qed

text \<open>Releasing the message that was taken off.\<close>

lemma release_ok:
  assumes inv: "srv_inv s" and refs: "refs_upto X {} (Q(c := m # q)) (h_msgs s)" and Q: "queue_of s = Q(c := q)"
  shows "srv_inv (free_if_unused m (add_refs (-1) m s)) \<and> refs_leak X (free_if_unused m (add_refs (-1) m s)) \<and>
    links (free_if_unused m (add_refs (-1) m s)) = links s \<and>
    queue_of (free_if_unused m (add_refs (-1) m s)) = queue_of s \<and>
    waiting_of (free_if_unused m (add_refs (-1) m s)) = waiting_of s \<and>
    h_clnts (free_if_unused m (add_refs (-1) m s)) = h_clnts s \<and>
    h_tick (free_if_unused m (add_refs (-1) m s)) = h_tick s \<and>
    h_fault (free_if_unused m (add_refs (-1) m s)) = h_fault s \<and>
    (\<forall>x. x \<noteq> m \<longrightarrow> h_msgs (free_if_unused m (add_refs (-1) m s)) x = h_msgs s x)"
proof -
  let ?Q = "Q(c := m # q)"
  have sub: "holders ?Q m \<subseteq> insert c (holders (queue_of s) m)" by (auto simp: holders_def Q)
  have fin: "finite (holders ?Q m)" by (rule finite_subset [OF sub]) (simp add: holders_few(1) [OF inv])
  have q: "?Q c = m # q" by simp
  obtain msg where msg: "h_msgs s m = Some msg"
    and r: "refs_upto X {} (?Q(c := q))
      ((h_msgs s)(m := (if m_refs msg - 1 = 0 then None else Some (msg\<lparr>m_refs := m_refs msg - 1\<rparr>))))"
    by (rule refs_pop [OF refs q fin])
  let ?msg = "msg\<lparr>m_refs := m_refs msg - 1\<rparr>"
  have a: "add_refs (-1) m s = s\<lparr>h_msgs := (h_msgs s)(m \<mapsto> ?msg)\<rparr>"
    using add_refs_eq [OF msg, of "-1"] by simp
  have eq: "free_if_unused m (add_refs (-1) m s) =
      s\<lparr>h_msgs := (h_msgs s)(m := (if m_refs msg - 1 = 0 then None else Some ?msg))\<rparr>"
    unfolding a by (subst free_if_unused_eq [where msg = ?msg]) simp_all
  have "srv_inv (free_if_unused m (add_refs (-1) m s))"
    unfolding eq by (rule srv_inv_msg_upd [OF inv msg]) (auto split: if_splits)
  moreover have "refs_leak X (free_if_unused m (add_refs (-1) m s))"
    using r unfolding refs_leak_def eq by (simp add: Q)
  ultimately show ?thesis unfolding eq by simp
qed

section \<open>The loop\<close>

text \<open>Taking \<open>k\<close> messages off the queue of \<open>c\<close>.\<close>

definition took :: "(addr \<Rightarrow> nat) \<Rightarrow> addr \<Rightarrow> nat \<Rightarrow> dime_server \<Rightarrow> dime_server \<Rightarrow> bool" where
  "took X c k s s' \<longleftrightarrow>
     srv_inv s' \<and> refs_leak X s' \<and> links s' = links s \<and> waiting_of s' = waiting_of s \<and> h_fault s' = h_fault s \<and>
     queue_of s' = (queue_of s)(c := drop k (queue_of s c))"

lemma sync_undo:
  assumes inv: "srv_inv s" and cl: "h_clnts s c = Some cl" and q: "queue_of s c = m # q"
    and pop: "dime_deque_popl (c_queue cl) = (Some m, queue)"
    and same: "same_but_socks (set_clnt c (cl\<lparr>c_queue := queue\<rparr>) s) s1"
  shows "srv_inv (tick (set_clnt c (the (h_clnts s1 c)\<lparr>c_queue :=
      snd (dime_deque_pushl ok (c_queue (the (h_clnts s1 c))) m)\<rparr>) s1)) \<and>
    queue_of (tick (set_clnt c (the (h_clnts s1 c)\<lparr>c_queue :=
      snd (dime_deque_pushl ok (c_queue (the (h_clnts s1 c))) m)\<rparr>) s1)) = queue_of s \<and>
    links (tick (set_clnt c (the (h_clnts s1 c)\<lparr>c_queue :=
      snd (dime_deque_pushl ok (c_queue (the (h_clnts s1 c))) m)\<rparr>) s1)) = links s \<and>
    waiting_of (tick (set_clnt c (the (h_clnts s1 c)\<lparr>c_queue :=
      snd (dime_deque_pushl ok (c_queue (the (h_clnts s1 c))) m)\<rparr>) s1)) = waiting_of s"
proof -
  let ?cl = "cl\<lparr>c_queue := queue\<rparr>" and ?s0 = "set_clnt c (cl\<lparr>c_queue := queue\<rparr>) s"
  have dq: "dq_inv (c_queue cl)" by (rule srv_inv_parts(9) [OF inv cl])
  have l: "dq_list (c_queue cl) = m # q" using q cl by (simp add: queue_of_def)
  note p = popl_then_pushl(1-3) [OF dq l pop] popl_then_pushl(4,5) [OF dq l pop, of ok]
  have s0: "srv_inv ?s0" using set_clnt_keeps [OF inv cl, of ?cl] p(2) by simp
  have v0: "links ?s0 = links s" "waiting_of ?s0 = waiting_of s" "queue_of ?s0 = (queue_of s)(c := q)"
    using set_clnt_view [OF cl, of ?cl] p(3) cl by (simp_all add: fun_upd_idem waiting_of_def)
  obtain cl1 where cl1: "h_clnts s1 c = Some cl1" "same_clnt ?cl cl1"
    by (rule same_but_socks_get [OF same, of c ?cl]) simp_all
  have e: "c_queue cl1 = queue" using cl1(2) by (simp add: same_clnt_def)
  have s1: "srv_inv s1" by (rule srv_inv_same [OF s0 same])
  let ?cl2 = "cl1\<lparr>c_queue := snd (dime_deque_pushl ok queue m)\<rparr>"
  have inv2: "srv_inv (set_clnt c ?cl2 s1)" using set_clnt_keeps [OF s1 cl1(1), of ?cl2] p(4) by simp
  have "links (set_clnt c ?cl2 s1) = links s1" "waiting_of (set_clnt c ?cl2 s1) = waiting_of s1"
    "queue_of (set_clnt c ?cl2 s1) = (queue_of s1)(c := m # q)"
    using set_clnt_view [OF cl1(1), of ?cl2] p(5) cl1(1) by (simp_all add: fun_upd_idem waiting_of_def)
  then show ?thesis using inv2 same_view(1-3) [OF same] v0 q by (simp add: cl1(1) e fun_upd_idem)
qed

lemma sync_loop_ok:
  "srv_inv s \<Longrightarrow> refs_leak X s \<Longrightarrow> h_clnts s c \<noteq> None \<Longrightarrow> sync_loop E c n s = (go, s') \<Longrightarrow>
   \<exists>k. took X c k s s' \<and> (if go then k = min n (length (queue_of s c)) else k < min n (length (queue_of s c)))"
proof (induction n arbitrary: s)
  case 0
  then show ?case by (intro exI [of _ 0]) (auto simp: took_def)
next
  case (Suc n)
  obtain cl where cl: "h_clnts s c = Some cl" using Suc.prems(3) by auto
  have dq: "dq_inv (c_queue cl)" by (rule srv_inv_parts(9) [OF Suc.prems(1) cl])
  show ?case
  proof (cases "queue_of s c")
    case Nil
    then have "dime_deque_popl (c_queue cl) = (None, c_queue cl)"
      using dq.popl_empty [OF dq] cl by (simp add: queue_of_def)
    then have "go" "s' = s" using Suc.prems(4) cl by simp_all
    then show ?thesis using Suc.prems(1,2) Nil by (intro exI [of _ 0]) (simp add: took_def fun_upd_idem)
  next
    case (Cons m q)
    have "count_ok (X m) (m \<in> {}) (holders (queue_of s) m) (h_msgs s m)"
      using refs_uptoD(2) Suc.prems(2) unfolding refs_leak_def by blast
    moreover have "c \<in> holders (queue_of s) m" using Cons by (simp add: holders_def)
    ultimately obtain msg where msg: "h_msgs s m = Some msg" by (cases "h_msgs s m") auto
    obtain rc s1 s0 queue where pop: "dime_deque_popl (c_queue cl) = (Some m, queue)"
      and s0: "s0 = set_clnt c (cl\<lparr>c_queue := queue\<rparr>) s"
      and "clnt_push_str E c (m_jsondata msg) (m_bindata msg) s0 = (rc, s1)"
      and inv0: "srv_inv s0" and same: "same_but_socks s0 s1"
      and v0: "links s0 = links s" "waiting_of s0 = waiting_of s" "queue_of s0 = (queue_of s)(c := q)"
      and run: "sync_loop E c (Suc n) s =
        (if rc < 0 then
           (False, tick (set_clnt c (the (h_clnts s1 c)
              \<lparr>c_queue := snd (dime_deque_pushl (e_ok E (h_tick s1) 0) (c_queue (the (h_clnts s1 c))) m)\<rparr>) s1))
         else sync_loop E c n (free_if_unused m (add_refs (-1) m s1)))"
      by (rule sync_turn [OF Suc.prems(1) cl Cons msg])
    note v = same_view [OF same]
    have ms: "h_msgs s1 = h_msgs s" "h_fault s1 = h_fault s" using v(4,5) s0 by simp_all
    show ?thesis
    proof (cases "rc < 0")
      case True
      then have "go = False" "s' = tick (set_clnt c (the (h_clnts s1 c)
              \<lparr>c_queue := snd (dime_deque_pushl (e_ok E (h_tick s1) 0) (c_queue (the (h_clnts s1 c))) m)\<rparr>) s1)"
        using Suc.prems(4) run by simp_all
      then have "took X c 0 s s'"
        using sync_undo [OF Suc.prems(1) cl Cons pop same [unfolded s0]] Suc.prems(2) ms
        by (simp add: took_def refs_leak_def fun_upd_idem)
      then show ?thesis using \<open>go = False\<close> Cons by (intro exI [of _ 0]) simp
    next
      case False
      let ?s2 = "free_if_unused m (add_refs (-1) m s1)"
      have inv1: "srv_inv s1" by (rule srv_inv_same [OF inv0 same])
      have refs1: "refs_upto X {} ((queue_of s)(c := m # q)) (h_msgs s1)"
        using Suc.prems(2) Cons ms(1) by (simp add: refs_leak_def fun_upd_idem)
      have q1: "queue_of s1 = (queue_of s)(c := q)" using v(2) v0(3) by simp
      note rel = release_ok [OF inv1 refs1 q1]
      have c2: "h_clnts ?s2 c \<noteq> None"
        using rel same_but_socks_None [OF same, of c] s0 by simp
      have rest: "sync_loop E c n ?s2 = (go, s')" using Suc.prems(4) run False by simp
      obtain k where k: "took X c k ?s2 s'"
        "if go then k = min n (length (queue_of ?s2 c)) else k < min n (length (queue_of ?s2 c))"
        using Suc.IH [of ?s2] rel c2 rest by blast
      have q2: "queue_of ?s2 = (queue_of s)(c := q)" using rel q1 by simp
      have k1: "srv_inv s'" "refs_leak X s'" "links s' = links ?s2" "waiting_of s' = waiting_of ?s2"
        "h_fault s' = h_fault ?s2" "queue_of s' = (queue_of s)(c := drop k q)"
        using k(1) unfolding took_def q2 by simp_all
      have "took X c (Suc k) s s'"
        using k1 rel v(1,3) v0(1,2) ms(2) Cons by (simp add: took_def)
      moreover have "if go then Suc k = min (Suc n) (length (queue_of s c)) else Suc k < min (Suc n) (length (queue_of s c))"
        using k(2) q2 Cons by (auto split: if_splits)
      ultimately show ?thesis by blast
    qed
  qed
qed

section \<open>What goes out on the socket\<close>

definition sock_of :: "dime_server \<Rightarrow> addr \<Rightarrow> dime_socket" where
  "sock_of s c = c_sock (the (h_clnts s c))"

definition payload :: "dime_server \<Rightarrow> addr \<Rightarrow> byte list \<times> byte list" where
  "payload s m = (m_jsondata (the (h_msgs s m)), m_bindata (the (h_msgs s m)))"

text \<open>The bytes that one message takes on the wire of a socket.\<close>

definition framed :: "dime_socket \<Rightarrow> byte list \<times> byte list \<Rightarrow> byte list" where
  "framed sock p = ws_prefix sock p @ wire p"

lemma framed_cong: "s_ws a = s_ws b \<Longrightarrow> framed a = framed b"
  by (simp add: framed_def ws_prefix_def fun_eq_iff)

lemma length_framed: "length (framed sock p) \<le> 10 + length (wire p)"
  using length_ws_prefix [of sock p] by (simp add: framed_def)

lemma sync_push_success:
  assumes inv: "srv_inv s" and cl: "h_clnts s c = Some cl" and msg: "h_msgs s m = Some msg"
    and ok: "\<forall>t i. e_ok E t i"
    and room: "2 * (length (sent_bytes (c_sock cl)) + 10 + length (wire (payload s m))) \<le> ALLOC_MAX"
    and push: "clnt_push_str E c (m_jsondata msg) (m_bindata msg) (set_clnt c (cl\<lparr>c_queue := queue\<rparr>) s) = (rc, s1)"
  shows "\<not> rc < 0" and "sent_bytes (sock_of s1 c) = sent_bytes (c_sock cl) @ framed (c_sock cl) (payload s m)"
    and "s_ws (sock_of s1 c) = s_ws (c_sock cl)"
proof -
  have p: "payload s m = (m_jsondata msg, m_bindata msg)" using msg by (simp add: payload_def)
  have nul: "0 \<notin> set (fst (m_jsondata msg, m_bindata msg))" using srv_inv_parts(10) [OF inv msg] by (simp add: msg_ok_def)
  have ok': "\<forall>i. e_ok E (h_tick (set_clnt c (cl\<lparr>c_queue := queue\<rparr>) s)) i" using ok by blast
  obtain sock where sock: "dime_socket_push_str (e_errno E (h_tick (set_clnt c (cl\<lparr>c_queue := queue\<rparr>) s)))
      (e_ok E (h_tick (set_clnt c (cl\<lparr>c_queue := queue\<rparr>) s))) (c_sock cl) (m_jsondata msg) (m_bindata msg) =
      (int (length (ws_prefix (c_sock cl) (m_jsondata msg, m_bindata msg)) + length (wire (m_jsondata msg, m_bindata msg))), sock)"
    "sent_bytes sock = sent_bytes (c_sock cl) @ framed (c_sock cl) (payload s m)" "s_ws sock = s_ws (c_sock cl)"
    using push_str_success [OF srv_inv_parts(8) [OF inv cl] nul ok' room [unfolded p]] unfolding p framed_def by auto
  have s1: "rc = int (length (ws_prefix (c_sock cl) (m_jsondata msg, m_bindata msg)) + length (wire (m_jsondata msg, m_bindata msg)))"
    "h_clnts s1 c = Some (cl\<lparr>c_queue := queue, c_sock := sock\<rparr>)"
    using push sock(1) by (auto simp: clnt_push_str_def Let_def)
  then show "\<not> rc < 0" and "sent_bytes (sock_of s1 c) = sent_bytes (c_sock cl) @ framed (c_sock cl) (payload s m)"
    and "s_ws (sock_of s1 c) = s_ws (c_sock cl)"
    using sock(2,3) by (simp_all add: sock_of_def)
qed

lemma sync_loop_sends:
  assumes ok: "\<forall>t i. e_ok E t i"
  shows "srv_inv s \<Longrightarrow> refs_leak X s \<Longrightarrow> h_clnts s c \<noteq> None \<Longrightarrow>
   2 * (length (sent_bytes (sock_of s c)) + sum_list (map (\<lambda>m. 10 + length (wire (payload s m))) (take n (queue_of s c)))) \<le> ALLOC_MAX \<Longrightarrow>
   sync_loop E c n s = (go, s') \<Longrightarrow>
   go \<and> sent_bytes (sock_of s' c) = sent_bytes (sock_of s c) @
     concat (map (framed (sock_of s c) \<circ> payload s) (take n (queue_of s c))) \<and>
     s_ws (sock_of s' c) = s_ws (sock_of s c)"
proof (induction n arbitrary: s)
  case 0
  then show ?case by simp
next
  case (Suc n)
  obtain cl where cl: "h_clnts s c = Some cl" using Suc.prems(3) by auto
  have dq: "dq_inv (c_queue cl)" by (rule srv_inv_parts(9) [OF Suc.prems(1) cl])
  have sock: "sock_of s c = c_sock cl" by (simp add: sock_of_def cl)
  show ?case
  proof (cases "queue_of s c")
    case Nil
    then have "dime_deque_popl (c_queue cl) = (None, c_queue cl)"
      using dq.popl_empty [OF dq] cl by (simp add: queue_of_def)
    then show ?thesis using Suc.prems(5) cl Nil by simp
  next
    case (Cons m q)
    have "count_ok (X m) (m \<in> {}) (holders (queue_of s) m) (h_msgs s m)"
      using refs_uptoD(2) Suc.prems(2) unfolding refs_leak_def by blast
    moreover have "c \<in> holders (queue_of s) m" using Cons by (simp add: holders_def)
    ultimately obtain msg where msg: "h_msgs s m = Some msg" by (cases "h_msgs s m") auto
    obtain rc s1 s0 queue where pop: "dime_deque_popl (c_queue cl) = (Some m, queue)"
      and s0: "s0 = set_clnt c (cl\<lparr>c_queue := queue\<rparr>) s"
      and push: "clnt_push_str E c (m_jsondata msg) (m_bindata msg) s0 = (rc, s1)"
      and inv0: "srv_inv s0" and same: "same_but_socks s0 s1"
      and v0: "links s0 = links s" "waiting_of s0 = waiting_of s" "queue_of s0 = (queue_of s)(c := q)"
      and run: "sync_loop E c (Suc n) s =
        (if rc < 0 then
           (False, tick (set_clnt c (the (h_clnts s1 c)
              \<lparr>c_queue := snd (dime_deque_pushl (e_ok E (h_tick s1) 0) (c_queue (the (h_clnts s1 c))) m)\<rparr>) s1))
         else sync_loop E c n (free_if_unused m (add_refs (-1) m s1)))"
      by (rule sync_turn [OF Suc.prems(1) cl Cons msg])
    have room: "2 * (length (sent_bytes (c_sock cl)) + 10 + length (wire (payload s m))) \<le> ALLOC_MAX"
      using Suc.prems(4) Cons sock by simp
    note p = sync_push_success [OF Suc.prems(1) cl msg ok room push [unfolded s0]]
    note v = same_view [OF same]
    have ms: "h_msgs s1 = h_msgs s" using v(4) s0 by simp
    let ?s2 = "free_if_unused m (add_refs (-1) m s1)"
    have inv1: "srv_inv s1" by (rule srv_inv_same [OF inv0 same])
    have refs1: "refs_upto X {} ((queue_of s)(c := m # q)) (h_msgs s1)"
      using Suc.prems(2) Cons ms by (simp add: refs_leak_def fun_upd_idem)
    have q1: "queue_of s1 = (queue_of s)(c := q)" using v(2) v0(3) by simp
    note rel = release_ok [OF inv1 refs1 q1]
    have c2: "h_clnts ?s2 c \<noteq> None" using rel same_but_socks_None [OF same, of c] s0 by simp
    have q2: "queue_of ?s2 c = q" using rel q1 by simp
    have sock2: "sock_of ?s2 c = sock_of s1 c" using rel by (simp add: sock_of_def)
    have "m \<notin> set q" using refs_uptoD(1) [of X "{}" "queue_of s" "h_msgs s" c] Suc.prems(2) Cons by (simp add: refs_leak_def)
    then have pay: "map (f \<circ> payload ?s2) (take n q) = map (f \<circ> payload s) (take n q)" for f :: "_ \<Rightarrow> 'z"
      using rel ms by (intro map_cong) (auto simp: payload_def dest: in_set_takeD)
    have len: "sum_list (map (\<lambda>m. 10 + length (wire (payload ?s2 m))) (take n q)) =
        sum_list (map (\<lambda>m. 10 + length (wire (payload s m))) (take n q))"
      using pay [of "\<lambda>p. 10 + length (wire p)"] by (simp only: comp_def)
    have room2: "2 * (length (sent_bytes (sock_of ?s2 c)) +
        sum_list (map (\<lambda>m. 10 + length (wire (payload ?s2 m))) (take n (queue_of ?s2 c)))) \<le> ALLOC_MAX"
      using Suc.prems(4) Cons length_framed [of "c_sock cl" "payload s m"]
      unfolding sock2 p(2) q2 len sock by simp
    have rest: "sync_loop E c n ?s2 = (go, s')" using Suc.prems(5) run p(1) by simp
    have inv2: "srv_inv ?s2" "refs_leak X ?s2" using rel by blast+
    have ih: "go" "sent_bytes (sock_of s' c) = sent_bytes (sock_of ?s2 c) @
        concat (map (framed (sock_of ?s2 c) \<circ> payload ?s2) (take n q))" "s_ws (sock_of s' c) = s_ws (sock_of ?s2 c)"
      using Suc.IH [OF inv2 c2 room2 rest] unfolding q2 by blast+
    have "framed (sock_of ?s2 c) = framed (c_sock cl)" unfolding sock2 by (rule framed_cong [OF p(3)])
    then have "sent_bytes (sock_of s' c) = sent_bytes (c_sock cl) @ framed (c_sock cl) (payload s m) @
        concat (map (framed (c_sock cl) \<circ> payload s) (take n q))"
      using ih(2) pay [of "framed (c_sock cl)"] p(2) by (simp add: sock2)
    then show ?thesis using ih(1,3) Cons p(3) sock by (simp add: sock2 comp_def)
  qed
qed

section \<open>\<^verbatim>\<open>dime_client_sync\<close>\<close>

definition sync_limit :: "int \<Rightarrow> nat" where
  "sync_limit n = ssize_to_size (if n < 0 then -1 else n)"

lemma reply_ok_view:
  assumes "env_ok E" and "h_clnts s c \<noteq> None" and "reply_ok E c s = (rc, s')"
  shows "same_but_socks s s'" and "rc \<in> {0, -1}"
  using reply_ok_same [OF assms(1,2)] assms(3) by (auto simp: reply_ok_def split_beta Let_def split: if_splits)

lemma took_same:
  assumes "took X c k s s1" and same: "same_but_socks s1 s2"
  shows "took X c k s s2"
proof -
  have "refs_leak X s2" using assms(1) unfolding took_def refs_leak_def same_view [OF same] by blast
  then show ?thesis using assms(1) srv_inv_same [OF _ same] same_view [OF same] by (simp add: took_def)
qed

lemma dime_client_sync_ok:
  assumes env: "env_ok E" and inv: "srv_inv s" and c: "h_clnts s c \<noteq> None" and refs: "refs_leak X s"
    and n: "e_unpack_I E j ''n'' = Some n" and run: "dime_client_sync E c j s = (rc, s')"
  shows "\<exists>k. took X c k s s' \<and> k \<le> min (sync_limit n) (length (queue_of s c)) \<and> rc \<in> {0, -1} \<and>
    (rc = 0 \<longrightarrow> k = min (sync_limit n) (length (queue_of s c)))"
proof -
  obtain go s1 where loop: "sync_loop E c (sync_limit n) s = (go, s1)" by (cases "sync_loop E c (sync_limit n) s")
  obtain k where k: "took X c k s s1"
    "if go then k = min (sync_limit n) (length (queue_of s c)) else k < min (sync_limit n) (length (queue_of s c))"
    using sync_loop_ok [OF inv refs c loop] by blast
  show ?thesis
  proof (cases go)
    case True
    have c1: "h_clnts s1 c \<noteq> None" using links_clnt [of s1 s c] k(1) c by (simp add: took_def)
    have r: "reply_ok E c s1 = (rc, s')"
      using run n loop True by (simp add: dime_client_sync_def sync_limit_def)
    show ?thesis using took_same [OF k(1) reply_ok_view(1) [OF env c1 r]] reply_ok_view(2) [OF env c1 r] k(2) True
      by (intro exI [of _ k]) simp
  next
    case False
    then have "rc = -1" "s' = s1" using run n loop by (simp_all add: dime_client_sync_def sync_limit_def)
    then show ?thesis using k False by (intro exI [of _ k]) simp
  qed
qed

end
