(* ===== verification/Client_Life.thy ===== *)
theory Client_Life
  imports Message_Sync
begin

text \<open>
  The remaining commands of \<^verbatim>\<open>server/client.c\<close> (wait, devices, handshake), and the creation and
  destruction of a client.
\<close>

section \<open>\<^verbatim>\<open>dime_client_wait\<close>\<close>

lemma dime_client_wait_ok:
  assumes env: "env_ok E" and inv: "srv_inv s" and c: "h_clnts s c \<noteq> None" and run: "dime_client_wait E c s = (rc, s')"
  shows "srv_inv s' \<and> links s' = links s \<and> queue_of s' = queue_of s \<and> h_msgs s' = h_msgs s \<and>
    h_fault s' = h_fault s \<and> rc \<in> {0, -1} \<and>
    waiting_of s' = (if queue_of s c = [] then (waiting_of s)(c := True) else waiting_of s) \<and>
    (queue_of s c = [] \<longrightarrow> rc = 0)"
proof -
  obtain cl where cl: "h_clnts s c = Some cl" using c by auto
  have len: "dime_deque_len (c_queue cl) > 0 \<longleftrightarrow> queue_of s c \<noteq> []"
    using cl by (simp add: queue_of_def dime_deque_len_def dq_list_empty_iff)
  show ?thesis
  proof (cases "queue_of s c = []")
    case True
    let ?cl = "cl\<lparr>c_waiting := True\<rparr>"
    have r: "rc = 0" "s' = set_clnt c ?cl s" using run True cl len by (simp_all add: dime_client_wait_def)
    have "srv_inv s'" unfolding r using set_clnt_keeps [OF inv cl, of ?cl] srv_inv_parts(9) [OF inv cl] by simp
    moreover have "links s' = links s" "queue_of s' = queue_of s" "waiting_of s' = (waiting_of s)(c := True)"
      unfolding r(2) using set_clnt_view [OF cl, of ?cl] cl by (simp_all add: fun_upd_idem queue_of_def)
    ultimately show ?thesis using r True by simp
  next
    case False
    obtain go s1 where n: "notify E c s = (go, s1)" by (cases "notify E c s")
    have r: "rc = (if go then 0 else -1)" "s' = s1"
      using run False cl len n by (cases go; simp add: dime_client_wait_def)+
    have same: "same_but_socks s s1" using notify_same [OF env c] unfolding n by simp
    show ?thesis using srv_inv_same [OF inv same] same_view [OF same] r False by simp
  qed
qed

section \<open>\<^verbatim>\<open>dime_client_devices\<close>\<close>

text \<open>How jansson builds arrays of strings.\<close>

definition json_arrays :: "'j env \<Rightarrow> bool" where
  "json_arrays E \<longleftrightarrow>
     (\<forall>t a. e_array E t = Some a \<longrightarrow> e_elems E a = []) \<and>
     (\<forall>t n x. e_string E t n = Some x \<longrightarrow> e_string_value E x = Some n) \<and>
     (\<forall>t a x a'. e_append E t a x = Some a' \<longrightarrow> e_elems E a' = e_elems E a @ [x])"

definition busy :: "dime_server \<Rightarrow> addr \<Rightarrow> bool" where
  "busy s g \<longleftrightarrow> (\<exists>gr. h_groups s g = Some gr \<and> g_clnts gr \<noteq> [])"

definition name_at :: "dime_server \<Rightarrow> addr \<Rightarrow> string" where
  "name_at s g = g_name (the (h_groups s g))"

lemma devices_loop_ok:
  assumes json: "json_arrays E"
  shows "\<forall>g \<in> set gs. h_groups s g \<noteq> None \<Longrightarrow> devices_loop E gs arr s = (r, s') \<Longrightarrow>
    same_but_socks s s' \<and>
    (\<forall>arr'. r = Some arr' \<longrightarrow> map (e_string_value E) (e_elems E arr') =
       map (e_string_value E) (e_elems E arr) @ map (\<lambda>g. Some (name_at s g)) (filter (busy s) gs))"
proof (induction gs arbitrary: arr s)
  case Nil
  then show ?case by auto
next
  case (Cons g gs)
  obtain gr where gr: "h_groups s g = Some gr" using Cons.prems(1) by auto
  have rest: "\<forall>g \<in> set gs. h_groups s g \<noteq> None" using Cons.prems(1) by simp
  show ?case
  proof (cases "g_clnts gr = []")
    case True
    then have "devices_loop E gs arr s = (r, s')" "\<not> busy s g" using Cons.prems(2) gr by (simp_all add: busy_def)
    then show ?thesis using Cons.IH [OF rest] by simp
  next
    case False
    then have b: "busy s g" "name_at s g = g_name gr" using gr by (simp_all add: busy_def name_at_def)
    show ?thesis
    proof (cases "e_string E (h_tick s) (g_name gr)")
      case None
      then show ?thesis using Cons.prems(2) gr False by auto
    next
      case (Some str)
      note str = Some
      show ?thesis
      proof (cases "e_append E (h_tick s) arr str")
        case None
        then show ?thesis using Cons.prems(2) gr False str by auto
      next
        case (Some arr1)
        have run: "devices_loop E gs arr1 (tick s) = (r, s')" using Cons.prems(2) gr False str Some by simp
        have el: "e_elems E arr1 = e_elems E arr @ [str]" "e_string_value E str = Some (g_name gr)"
          using json str Some unfolding json_arrays_def by blast+
        have "busy (tick s) = busy s" "name_at (tick s) = name_at s"
          by (simp_all add: busy_def name_at_def fun_eq_iff)
        then have "same_but_socks (tick s) s' \<and> (\<forall>arr'. r = Some arr' \<longrightarrow> map (e_string_value E) (e_elems E arr') =
            map (e_string_value E) (e_elems E arr1) @ map (\<lambda>g. Some (name_at s g)) (filter (busy s) gs))"
          using Cons.IH [OF _ run] rest by simp
        then show ?thesis using same_but_socks_trans [OF same_tick] b el by simp
      qed
    qed
  qed
qed

lemma busy_names:
  assumes inv: "srv_inv s" and gs: "distinct gs" "set gs = dom (h_groups s)"
  shows "distinct (map (name_at s) (filter (busy s) gs))"
    and "set (map (name_at s) (filter (busy s) gs)) = snd ` membership s"
proof -
  have named: "group_name s g = Some (name_at s g)" if "g \<in> set gs" for g
    using that gs(2) by (auto simp: group_name_def name_at_def)
  have "inj_on (name_at s) (set (filter (busy s) gs))"
  proof (rule inj_onI)
    fix g h
    assume "g \<in> set (filter (busy s) gs)" "h \<in> set (filter (busy s) gs)" "name_at s g = name_at s h"
    then show "g = h" using group_name_inj [OF inv, of h "name_at s h" g] named [of g] named [of h] by simp
  qed
  then show "distinct (map (name_at s) (filter (busy s) gs))" using gs(1) by (simp add: distinct_map)
  have "n \<in> set (map (name_at s) (filter (busy s) gs)) \<longleftrightarrow> (\<exists>c. (c, n) \<in> membership s)" for n
  proof
    assume "n \<in> set (map (name_at s) (filter (busy s) gs))"
    then obtain g where g: "g \<in> set gs" "busy s g" "n = name_at s g" by auto
    then obtain gr where gr: "h_groups s g = Some gr" "g_clnts gr \<noteq> []" by (auto simp: busy_def)
    have "member s (hd (g_clnts gr)) g" using gr by (simp add: member_def)
    then show "\<exists>c. (c, n) \<in> membership s" using named [OF g(1)] g(3) by (auto simp: membership_def)
  next
    assume "\<exists>c. (c, n) \<in> membership s"
    then obtain c g where g: "member s c g" "group_name s g = Some n" by (auto simp: membership_def)
    then have "g \<in> set gs" "busy s g" using gs(2) by (auto simp: member_def busy_def)
    then show "n \<in> set (map (name_at s) (filter (busy s) gs))" using named [of g] g(2) by auto
  qed
  then show "set (map (name_at s) (filter (busy s) gs)) = snd ` membership s" by force
qed

lemma dime_client_devices_ok:
  assumes env: "env_ok E" and json: "json_arrays E" and inv: "srv_inv s" and c: "h_clnts s c \<noteq> None"
    and run: "dime_client_devices E c s = (rc, s')"
  shows "same_but_socks s s' \<and> rc \<in> {0, -1} \<and>
    (rc = 0 \<longrightarrow> (\<exists>names arr t j s1. distinct names \<and> set names = snd ` membership s \<and>
       map (e_string_value E) (e_elems E arr) = map Some names \<and>
       e_pack E t [(''status'', PInt 0), (''devices'', PObj arr)] = Some j \<and>
       same_but_socks s s1 \<and> clnt_push E c j s1 = (fst (clnt_push E c j s1), s') \<and> 0 \<le> fst (clnt_push E c j s1)))"
proof (cases "e_array E (h_tick s)")
  case None
  then have "rc = -1" "s' = fail_errno E c (tick s)" using run by (simp_all add: dime_client_devices_def)
  moreover have "same_but_socks s (fail_errno E c (tick s))"
    by (rule same_but_socks_trans [OF same_tick fail_same(2) [OF env]]) (simp add: c)
  ultimately show ?thesis by simp
next
  case (Some arr0)
  note arr0 = Some
  obtain gs where gs: "table_walk (h_name2clnt s) = Some gs" "distinct gs" "set gs = dom (h_groups s)"
    by (rule walk_groups [OF inv])
  obtain r s1 where loop: "devices_loop E gs arr0 (tick s) = (r, s1)" by (cases "devices_loop E gs arr0 (tick s)")
  have "\<forall>g \<in> set gs. h_groups (tick s) g \<noteq> None" using gs(3) by auto
  note l = devices_loop_ok [OF json this loop]
  have same1: "same_but_socks s s1" using l same_but_socks_trans [OF same_tick] by blast
  have c1: "h_clnts s1 c \<noteq> None" using same_but_socks_None [OF same1] c by simp
  have fail: "same_but_socks s (fail_errno E c s2)" if "same_but_socks s s2" for s2
    by (rule same_but_socks_trans [OF that fail_same(2) [OF env]]) (use same_but_socks_None [OF that] c in simp)
  show ?thesis
  proof (cases r)
    case None
    then have "rc = -1" "s' = fail_errno E c s1" using run arr0 gs(1) loop by (simp_all add: dime_client_devices_def)
    then show ?thesis using fail [OF same1] by simp
  next
    case (Some arr)
    note arr = Some
    let ?args = "[(''status'', PInt 0), (''devices'', PObj arr)]"
    have t1: "same_but_socks s (tick s1)" by (rule same_but_socks_trans [OF same1 same_tick])
    have ct: "h_clnts (tick s1) c \<noteq> None" using c1 by simp
    show ?thesis
    proof (cases "e_pack E (h_tick s1) ?args")
      case None
      then have "rc = -1" "s' = fail_errno E c (tick s1)"
        using run arr0 gs(1) loop arr by (simp_all add: dime_client_devices_def)
      then show ?thesis using fail [OF t1] by simp
    next
      case (Some j)
      obtain prc s2 where push: "clnt_push E c j (tick s1) = (prc, s2)" by (cases "clnt_push E c j (tick s1)")
      have same2: "same_but_socks s s2"
        using same_but_socks_trans [OF t1 clnt_push_same [OF env ct]] push by (metis snd_conv)
      have r: "rc = (if prc < 0 then -1 else 0)" "s' = (if prc < 0 then fail_errno E c s2 else s2)"
        using run arr0 gs(1) loop arr Some push by (simp_all add: dime_client_devices_def split: if_splits)
      let ?names = "map (name_at s) (filter (busy s) gs)"
      have "busy (tick s) = busy s" "name_at (tick s) = name_at s" by (simp_all add: busy_def name_at_def fun_eq_iff)
      moreover have "e_elems E arr0 = []" using json arr0 unfolding json_arrays_def by blast
      ultimately have names: "map (e_string_value E) (e_elems E arr) = map Some ?names"
        using l arr by (simp add: comp_def)
      show ?thesis
      proof (cases "prc < 0")
        case True
        then show ?thesis using fail [OF same2] r by simp
      next
        case False
        have "clnt_push E c j (tick s1) = (fst (clnt_push E c j (tick s1)), s')" "0 \<le> fst (clnt_push E c j (tick s1))"
          using push r(2) False by simp_all
        then have "distinct ?names \<and> set ?names = snd ` membership s \<and>
            map (e_string_value E) (e_elems E arr) = map Some ?names \<and>
            e_pack E (h_tick s1) ?args = Some j \<and> same_but_socks s (tick s1) \<and>
            clnt_push E c j (tick s1) = (fst (clnt_push E c j (tick s1)), s') \<and> 0 \<le> fst (clnt_push E c j (tick s1))"
          using names busy_names [OF inv gs(2,3)] Some t1 by blast
        moreover have "same_but_socks s s'" "rc \<in> {0, -1}" using r False same2 by simp_all
        ultimately show ?thesis by blast
      qed
    qed
  qed
qed

section \<open>\<^verbatim>\<open>dime_client_handshake\<close>\<close>

text \<open>The serialization the server is on after a client asked for \<open>i\<close>.\<close>

definition agree :: "dime_serialization \<Rightarrow> dime_serialization \<Rightarrow> dime_serialization" where
  "agree old i =
     (if old = DIME_NO_SERIALIZATION then i
      else if old = i \<or> old = DIME_DIMEB \<or> old = DIME_JSON then old else DIME_DIMEB)"

abbreviation with_serialization :: "dime_serialization \<Rightarrow> dime_server \<Rightarrow> dime_server" where
  "with_serialization x s \<equiv> s\<lparr>h_serialization := x\<rparr>"

lemma srv_inv_serialization [simp]: "srv_inv (with_serialization x s) = srv_inv s"
  by (simp add: srv_inv_def tables_ok_def groups_ok_def clnts_ok_def fresh_ok_def
    group_name_def member_def has_group_def)

lemma view_serialization [simp]:
  "queue_of (with_serialization x s) = queue_of s" "waiting_of (with_serialization x s) = waiting_of s"
  "membership (with_serialization x s) = membership s"
  by (simp_all add: queue_of_def waiting_of_def membership_def member_def group_name_def fun_eq_iff)

lemma refs_ok_serialization [simp]: "refs_leak X (with_serialization x s) = refs_leak X s"
  by (simp add: refs_leak_def)

lemma same_with_serialization:
  "same_but_socks s s' \<Longrightarrow> same_but_socks (with_serialization x s) (with_serialization x s')"
  by (simp add: same_but_socks_def)

lemma foreach_reregister:
  assumes "length str \<le> ALLOC_MAX"
  shows "\<forall>d \<in> set ds. h_clnts s d \<noteq> None \<Longrightarrow> foreach (reregister_one E c str) ds s = (go, s') \<Longrightarrow> same_but_socks s s'"
proof (induction ds arbitrary: s)
  case Nil
  then show ?case by simp
next
  case (Cons d ds)
  have d: "h_clnts s d \<noteq> None" using Cons.prems(1) by simp
  obtain go1 s1 where one: "reregister_one E c str d s = (go1, s1)" by (cases "reregister_one E c str d s")
  have "same_but_socks s (snd (clnt_push_str E d str [] s))" by (rule clnt_push_str_same [OF assms _ d]) simp
  then have same: "same_but_socks s s1"
    using one by (auto simp: reregister_one_def split_beta Let_def split: if_splits)
  show ?case
  proof (cases go1)
    case True
    have "same_but_socks s1 s'"
      by (rule Cons.IH) (use Cons.prems same_but_socks_None [OF same] one True in simp_all)
    then show ?thesis by (rule same_but_socks_trans [OF same])
  next
    case False
    then show ?thesis using Cons.prems(2) one same by simp
  qed
qed

lemma negotiate_ok:
  assumes env: "env_ok E" and inv: "srv_inv s" and run: "negotiate E c i s = (go, s')"
  shows "same_but_socks (with_serialization (if go then agree (h_serialization s) i else h_serialization s) s) s'"
proof -
  let ?o = "h_serialization s"
  have id: "with_serialization ?o s = s" by simp
  show ?thesis
  proof (cases "?o = DIME_NO_SERIALIZATION \<or> ?o = i \<or> ?o = DIME_DIMEB \<or> ?o = DIME_JSON")
    case True
    then have "go" "s' = with_serialization (agree ?o i) s"
      using run by (auto simp: negotiate_def agree_def split: if_splits)
    then show ?thesis by simp
  next
    case False
    let ?args = "[(''status'', PInt 1), (''meta'', PBool True), (''command'', PStr ''reregister''), (''serialization'', PStr ''dimeb'')]"
    have ag: "agree ?o i = DIME_DIMEB" using False by (simp add: agree_def)
    have run': "negotiate E c i s =
      (case e_pack E (h_tick s) ?args of
         None \<Rightarrow> (False, tick s)
       | Some meta \<Rightarrow>
           (case e_dumps E (h_tick s) meta of
              None \<Rightarrow> (False, tick s)
            | Some meta_str \<Rightarrow>
                (case table_walk (h_fd2clnt s) of
                   None \<Rightarrow> (False, fault s)
                 | Some ds \<Rightarrow>
                     (case foreach (reregister_one E c meta_str) ds (tick s) of
                        (False, s) \<Rightarrow> (False, s)
                      | (True, s) \<Rightarrow> (True, s\<lparr>h_serialization := DIME_DIMEB\<rparr>)))))"
      using False by (simp add: negotiate_def)
    show ?thesis
    proof (cases "e_pack E (h_tick s) ?args")
      case None
      then show ?thesis using run run' by auto
    next
      case (Some meta)
      note meta = Some
      show ?thesis
      proof (cases "e_dumps E (h_tick s) meta")
        case None
        then show ?thesis using run run' meta by auto
      next
        case (Some str)
        have len: "length str \<le> ALLOC_MAX" using env Some by (auto simp: env_ok_def)
        obtain ds where ds: "table_walk (h_fd2clnt s) = Some ds" "set ds = dom (h_clnts s)"
          by (rule walk_clients [OF inv])
        obtain go1 s1 where loop: "foreach (reregister_one E c str) ds (tick s) = (go1, s1)"
          by (cases "foreach (reregister_one E c str) ds (tick s)")
        have ex: "\<forall>d \<in> set ds. h_clnts (tick s) d \<noteq> None" using ds(2) by auto
        have same: "same_but_socks s s1"
          by (rule same_but_socks_trans [OF same_tick foreach_reregister [OF len ex loop]])
        have r: "go = go1" "s' = (if go1 then with_serialization DIME_DIMEB s1 else s1)"
          using run run' meta Some ds(1) loop by (auto split: bool.splits)
        show ?thesis using same same_with_serialization [OF same, of DIME_DIMEB] r ag by simp
      qed
    qed
  qed
qed

lemma dime_client_handshake_ok:
  assumes env: "env_ok E" and inv: "srv_inv s" and c: "h_clnts s c \<noteq> None"
    and run: "dime_client_handshake E c j s = (rc, s')"
  shows "\<exists>x. same_but_socks (with_serialization x s) s' \<and> rc \<in> {0, -1} \<and>
    (x = h_serialization s \<or> (\<exists>str tls i. e_unpack_sb E j ''serialization'' ''tls'' = Inr (str, tls) \<and>
        serialization_of str = Some i \<and> x = agree (h_serialization s) i)) \<and>
    (rc = 0 \<longrightarrow> (\<exists>str tls i. e_unpack_sb E j ''serialization'' ''tls'' = Inr (str, tls) \<and>
        serialization_of str = Some i \<and> x = agree (h_serialization s) i))"
proof -
  have same0: "same_but_socks (with_serialization (h_serialization s) s) s'" if "same_but_socks s s'"
    using that by simp
  show ?thesis
  proof (cases "e_unpack_sb E j ''serialization'' ''tls''")
    case (Inl msg)
    then have "rc = -1" "s' = fail_cat E c ''JSON parsing error: '' msg s"
      using run by (simp_all add: dime_client_handshake_def)
    then show ?thesis using same0 fail_same(3) [OF env c] by (intro exI [of _ "h_serialization s"]) simp
  next
    case (Inr p)
    obtain str tls where p: "e_unpack_sb E j ''serialization'' ''tls'' = Inr (str, tls)" using Inr by (cases p) simp
    show ?thesis
    proof (cases "serialization_of str")
      case None
      then have "rc = -1" "s' = s" using run p by (simp_all add: dime_client_handshake_def)
      then show ?thesis by (intro exI [of _ "h_serialization s"]) simp
    next
      case (Some i)
      obtain go s1 where neg: "negotiate E c i s = (go, s1)" by (cases "negotiate E c i s")
      note n = negotiate_ok [OF env inv neg]
      show ?thesis
      proof (cases go)
        case False
        then have "rc = -1" "s' = s1" using run p Some neg by (simp_all add: dime_client_handshake_def)
        then show ?thesis using n False by (intro exI [of _ "h_serialization s"]) simp
      next
        case True
        let ?x = "agree (h_serialization s) i"
        have same1: "same_but_socks (with_serialization ?x s) s1" using n True by simp
        have c1: "h_clnts s1 c \<noteq> None" using same_but_socks_None [OF same1] c by simp
        have inv1: "srv_inv s1" by (rule srv_inv_same [OF _ same1]) (simp add: inv)
        let ?tls = "tls \<and> h_tlsctx s1"
        let ?args = "[(''status'', PInt 0), (''serialization'', PStr (serialization_name (h_serialization s1) str)), (''tls'', PBool ?tls)]"
        have run1: "dime_client_handshake E c j s =
          (case e_pack E (h_tick s1) ?args of
             None \<Rightarrow> (-1, tick s1)
           | Some response \<Rightarrow>
               (let (rc, s) = clnt_push E c response (tick s1)
                in if rc < 0 then (-1, s) else if ?tls then start_tls E c s else (0, s)))"
          using p Some neg True by (simp add: dime_client_handshake_def Let_def)
        have same2: "same_but_socks s1 s' \<and> rc \<in> {0, -1}"
        proof (cases "e_pack E (h_tick s1) ?args")
          case None
          then show ?thesis using run run1 by auto
        next
          case (Some response)
          obtain prc s2 where push: "clnt_push E c response (tick s1) = (prc, s2)"
            by (cases "clnt_push E c response (tick s1)")
          have ct: "h_clnts (tick s1) c \<noteq> None" using c1 by simp
          have s2: "same_but_socks s1 s2"
            using same_but_socks_trans [OF same_tick clnt_push_same [OF env ct]] push by (metis snd_conv)
          show ?thesis
            using run run1 Some push s2 srv_inv_parts(12) [OF inv1] by (auto simp: Let_def split: if_splits)
        qed
        have "same_but_socks (with_serialization ?x s) s'" using same_but_socks_trans [OF same1] same2 by blast
        then show ?thesis using same2 p Some by blast
      qed
    qed
  qed
qed

end
