(* ===== verification/Websocket_Def.thy ===== *)
theory Websocket_Def
  imports Client_Def
begin

text \<open>
  \<^verbatim>\<open>dime_socket_init_ws\<close> of \<^verbatim>\<open>server/socket.c\<close>: the HTTP request that opens a WebSocket
  connection is read with blocking calls, parsed with the string functions of the C library, and
  answered.  The calls of the operating system and of OpenSSL (SHA-1, Base64) are parameters.
\<close>

section \<open>C strings\<close>

text \<open>\<^verbatim>\<open>strstr\<close>: where the first occurrence starts.\<close>

fun strstr :: "byte list \<Rightarrow> byte list \<Rightarrow> nat option" where
  "strstr pat [] = (if pat = [] then Some 0 else None)"
| "strstr pat (x # xs) =
     (if take (length pat) (x # xs) = pat then Some 0 else map_option Suc (strstr pat xs))"

text \<open>The strings that repeated calls of \<^verbatim>\<open>strtok_r\<close> return: the non-empty pieces between delimiters.\<close>

fun pieces :: "('a \<Rightarrow> bool) \<Rightarrow> 'a list \<Rightarrow> 'a list list" where
  "pieces d [] = [[]]"
| "pieces d (x # xs) =
     (if d x then [] # pieces d xs
      else (case pieces d xs of [] \<Rightarrow> [[x]] | t # ts \<Rightarrow> (x # t) # ts))"

definition strtok :: "('a \<Rightarrow> bool) \<Rightarrow> 'a list \<Rightarrow> 'a list list" where
  "strtok d xs = filter (\<lambda>t. t \<noteq> []) (pieces d xs)"

definition is_space :: "byte \<Rightarrow> bool" where
  "is_space b \<longleftrightarrow> b = 32 \<or> 9 \<le> b \<and> b \<le> 13"

definition is_digit :: "byte \<Rightarrow> bool" where
  "is_digit b \<longleftrightarrow> 48 \<le> b \<and> b \<le> 57"

text \<open>The conversion \<^verbatim>\<open>%d\<close>.\<close>

definition scan_d :: "byte list \<Rightarrow> (int \<times> byte list) option" where
  "scan_d bs =
     (let bs = dropWhile is_space bs;
          neg = (bs \<noteq> [] \<and> hd bs = 45);
          ds = (if bs \<noteq> [] \<and> (hd bs = 45 \<or> hd bs = 43) then tl bs else bs);
          digits = takeWhile is_digit ds;
          n = foldl (\<lambda>n b. 10 * n + (int (unat b) - 48)) 0 digits
      in if digits = [] then None else Some (if neg then - n else n, dropWhile is_digit ds))"

text \<open>A literal of the format.\<close>

definition scan_lit :: "byte list \<Rightarrow> byte list \<Rightarrow> byte list option" where
  "scan_lit lit bs = (if take (length lit) bs = lit then Some (drop (length lit) bs) else None)"

text \<open>\<^verbatim>\<open>sscanf(line, "%7s %*s HTTP/%d.%d", method, &major, &minor)\<close>; \<open>None\<close> unless it returns 3.\<close>

definition scan_request :: "byte list \<Rightarrow> (byte list \<times> int \<times> int) option" where
  "scan_request line =
     (let bs = dropWhile is_space line;
          word = takeWhile (\<lambda>b. \<not> is_space b) bs;
          method = take 7 word;
          bs = dropWhile is_space (drop (length method) bs);
          path = takeWhile (\<lambda>b. \<not> is_space b) bs;
          bs = dropWhile is_space (drop (length path) bs)
      in if method = [] \<or> path = [] then None
         else
           (case scan_lit (str_bytes ''HTTP/'') bs of
              None \<Rightarrow> None
            | Some bs \<Rightarrow>
                (case scan_d bs of
                   None \<Rightarrow> None
                 | Some (major, bs) \<Rightarrow>
                     (case scan_lit (str_bytes ''.'') bs of
                        None \<Rightarrow> None
                      | Some bs \<Rightarrow>
                          (case scan_d bs of None \<Rightarrow> None | Some (minor, _) \<Rightarrow> Some (method, major, minor))))))"

definition is_int :: "int \<Rightarrow> bool" where
  "is_int n \<longleftrightarrow> - (2 ^ 31) \<le> n \<and> n < 2 ^ 31"

section \<open>Environment\<close>

text \<open>
  \<open>w_nonblock b\<close> says whether \<^verbatim>\<open>fcntl\<close> could switch the descriptor; \<open>w_ok\<close> and \<open>w_ring\<close> grant the
  allocations; \<open>w_recv k room\<close> is the answer of the \<open>k\<close>-th \<^verbatim>\<open>recv\<close>, with no bytes when the peer has
  closed the connection.
\<close>

record ws_env =
  w_nonblock :: "bool \<Rightarrow> bool"
  w_ok :: "nat \<Rightarrow> bool"
  w_ring :: bool
  w_errno :: string
  w_recv :: "nat \<Rightarrow> nat \<Rightarrow> byte list option"
  w_send :: "byte list \<Rightarrow> bool"
  w_sha1 :: "byte list \<Rightarrow> byte list"
  w_base64 :: "byte list \<Rightarrow> byte list"

section \<open>Reading the request\<close>

definition CRLF :: "byte list" where
  "CRLF = [13, 10]"

text \<open>
  The reading loop: \<open>None\<close> when it has not ended within the fuel, \<open>Some None\<close> for \<^verbatim>\<open>return -1\<close>.  The
  text that \<^verbatim>\<open>strstr\<close> sees ends at the first NUL.
\<close>

fun ws_read :: "nat \<Rightarrow> ws_env \<Rightarrow> nat \<Rightarrow> size_t \<Rightarrow> byte list \<Rightarrow> byte list option option" where
  "ws_read 0 W k cap buf = None"
| "ws_read (Suc n) W k cap buf =
     (case w_recv W k (cap - length buf) of
        None \<Rightarrow> Some None
      | Some bs \<Rightarrow>
          (let buf = buf @ bs;
               ncap = cap * 3 div 2
           in if length buf \<ge> cap \<and> \<not> alloc_ok (w_ok W (Suc k)) ncap then Some None
              else if strstr (CRLF @ CRLF) (c_string buf) \<noteq> None then Some (Some (c_string buf))
              else ws_read n W (Suc k) (if length buf \<ge> cap then ncap else cap) buf))"

section \<open>Parsing it\<close>

text \<open>The header lines as pairs; \<open>None\<close> when one of them has no \<^verbatim>\<open>": "\<close>.\<close>

fun ws_headers :: "byte list list \<Rightarrow> (byte list \<times> byte list) list option" where
  "ws_headers [] = Some []"
| "ws_headers (line # lines) =
     (case strstr (str_bytes '': '') line of
        None \<Rightarrow> None
      | Some i \<Rightarrow> map_option ((#) (take i line, drop (i + 2) line)) (ws_headers lines))"

text \<open>A later header overrides an earlier one.\<close>

definition header_val :: "string \<Rightarrow> (byte list \<times> byte list) list \<Rightarrow> byte list option" where
  "header_val name hs = map_of (rev hs) (str_bytes name)"

definition ws_acceptable :: "(byte list \<times> byte list) list \<Rightarrow> bool" where
  "ws_acceptable hs \<longleftrightarrow>
     (case header_val ''Connection'' hs of None \<Rightarrow> False | Some v \<Rightarrow> strstr (str_bytes ''Upgrade'') v \<noteq> None) \<and>
     header_val ''Upgrade'' hs = Some (str_bytes ''websocket'') \<and>
     (case header_val ''Sec-WebSocket-Key'' hs of None \<Rightarrow> False | Some v \<Rightarrow> v \<noteq> []) \<and>
     header_val ''Sec-WebSocket-Version'' hs = Some (str_bytes ''13'')"

definition WS_GUID :: "byte list" where
  "WS_GUID = str_bytes ''258EAFA5-E914-47DA-95CA-C5AB0DC85B11''"

definition ws_response :: "ws_env \<Rightarrow> int \<Rightarrow> int \<Rightarrow> byte list \<Rightarrow> byte list" where
  "ws_response W major minor key =
     str_bytes ''HTTP/'' @ dec_int major @ str_bytes ''.'' @ dec_int minor @
     str_bytes '' 101 Switching Protocols'' @ CRLF @
     str_bytes ''Connection: Upgrade'' @ CRLF @
     str_bytes ''Upgrade: websocket'' @ CRLF @
     str_bytes ''Sec-WebSocket-Accept: '' @ w_base64 W (w_sha1 W (key @ WS_GUID)) @ CRLF @ CRLF"

text \<open>
  How the call ends: with a return value, the socket and what was sent; with undefined behaviour
  (\<^verbatim>\<open>sscanf\<close> on a null pointer, a number that is no \<^verbatim>\<open>int\<close>, a failed assertion); or, within the
  given fuel, not at all.
\<close>

datatype ws_outcome = Ws_Return int dime_socket "byte list" | Ws_Undefined | Ws_No_Return

definition ws_fail :: "string \<Rightarrow> dime_socket \<Rightarrow> ws_outcome" where
  "ws_fail msg sock = Ws_Return (-1) (set_err msg sock) []"

text \<open>
  \<^verbatim>\<open>ws.enabled\<close> is set before the buffer is initialized.  When that fails, \<open>no_ring\<close> is left: no block, and
  the capacity that is stored before \<^verbatim>\<open>malloc\<close> is called (the other fields keep what was there, here
  zeros); the caller destroys such a client without looking at them.
\<close>

definition no_ring :: dime_ringbuffer where
  "no_ring = \<lparr>r_len = 0, r_arr = [], r_cap = 1024, r_begin = 0, r_end = 0\<rparr>"

definition ws_reply :: "ws_env \<Rightarrow> dime_socket \<Rightarrow> byte list \<Rightarrow> ws_outcome" where
  "ws_reply W sock response =
     (if \<not> length response < 200 then Ws_Undefined
      else if \<not> w_send W response then ws_fail (w_errno W) sock
      else if \<not> w_nonblock W True then Ws_Return 0 (set_err (w_errno W) sock) response
      else
        (case dime_ringbuffer_init (w_ring W) of
           None \<Rightarrow> Ws_Return (-1) (set_err (w_errno W) (sock\<lparr>s_ws := Some no_ring\<rparr>)) response
         | Some ring \<Rightarrow> Ws_Return 0 (sock\<lparr>s_ws := Some ring\<rparr>) response))"

definition ws_answer :: "ws_env \<Rightarrow> dime_socket \<Rightarrow> byte list \<Rightarrow> ws_outcome" where
  "ws_answer W sock request =
     (case strtok (\<lambda>b. b = 13 \<or> b = 10) request of
        [] \<Rightarrow> Ws_Undefined
      | line # lines \<Rightarrow>
          (case scan_request line of
             None \<Rightarrow> ws_fail ''Invalid HTTP response'' sock
           | Some (method, major, minor) \<Rightarrow>
               if \<not> is_int major \<or> \<not> is_int minor then Ws_Undefined
               else if method \<noteq> str_bytes ''GET'' then ws_fail ''Invalid HTTP response'' sock
               else if \<not> is_int (major * 10) \<or> \<not> is_int (major * 10 + minor) then Ws_Undefined
               else if major * 10 + minor < 11 then ws_fail ''Invalid HTTP response'' sock
               else
                 (case ws_headers lines of
                    None \<Rightarrow> ws_fail ''Invalid HTTP response'' sock
                  | Some hs \<Rightarrow>
                      if \<not> ws_acceptable hs then ws_fail ''Invalid HTTP response'' sock
                      else ws_reply W sock
                             (ws_response W major minor (the (header_val ''Sec-WebSocket-Key'' hs))))))"

definition dime_socket_init_ws :: "nat \<Rightarrow> ws_env \<Rightarrow> dime_socket \<Rightarrow> ws_outcome" where
  "dime_socket_init_ws n W sock =
     (if \<not> w_nonblock W False then ws_fail (w_errno W) sock
      else if \<not> alloc_ok (w_ok W 0) 500 then ws_fail (w_errno W) sock
      else
        (case ws_read n W 0 500 [] of
           None \<Rightarrow> Ws_No_Return
         | Some None \<Rightarrow> ws_fail (w_errno W) sock
         | Some (Some request) \<Rightarrow> ws_answer W sock request))"

end
