(* ===== verification/Server_Def.thy ===== *)
theory Server_Def
  imports Message_Def Websocket_Def
begin

text \<open>
  \<^verbatim>\<open>server/server.c\<close>, in the build without \<^verbatim>\<open>DIME_USE_LIBEV\<close>: the hash functions of the two
  tables, the creation of a server, the dispatch of a message to its command, and the select loop
  with its accept, receive and send paths.  What the operating system answers in one turn of the
  loop (which descriptors are ready, what \<^verbatim>\<open>accept\<close>, \<^verbatim>\<open>recv\<close> and \<^verbatim>\<open>send\<close> return) is an argument.  Log
  lines, which are printed at a higher verbosity only, are left out.
\<close>

section \<open>Keys\<close>

text \<open>Descriptors are nonnegative \<^verbatim>\<open>int\<close>s, so their difference does not wrap.\<close>

definition cmp_fd :: "int \<Rightarrow> int \<Rightarrow> int" where
  "cmp_fd a b = b - a"

definition hash_fd :: "int \<Rightarrow> 64 word" where
  "hash_fd a = word_of_int a * 0x9E3779B97F4A7BB9"

text \<open>The sign of \<^verbatim>\<open>strcmp\<close>, which compares as \<^verbatim>\<open>unsigned char\<close>.\<close>

fun cmp_name :: "string \<Rightarrow> string \<Rightarrow> int" where
  "cmp_name [] [] = 0"
| "cmp_name [] (b # bs) = -1"
| "cmp_name (a # as) [] = 1"
| "cmp_name (a # as) (b # bs) =
     (if a = b then cmp_name as bs
      else if (of_char a :: nat) < of_char b then -1 else 1)"

text \<open>FNV-1a; a plain \<^verbatim>\<open>char\<close> is signed, so it is extended with its sign.\<close>

definition hash_name :: "string \<Rightarrow> 64 word" where
  "hash_name s = foldl (\<lambda>y ch. (y XOR scast (word_of_nat (of_char ch) :: byte)) * 1099511628211)
     0xCBF29CE484222325 s"

section \<open>The state of the loop\<close>

datatype dime_protocol = DIME_UNIX | DIME_TCP | DIME_WS

text \<open>
  The array \<^verbatim>\<open>fds\<close> of listening descriptors with its capacity, and the variables of
  \<^verbatim>\<open>dime_server_loop\<close>: the sets \<^verbatim>\<open>rfds[0]\<close> and \<^verbatim>\<open>wfds[0]\<close>, and \<^verbatim>\<open>maxfd\<close>.
\<close>

record dime_loop =
  l_srv :: dime_server
  l_fds :: "(int \<times> dime_protocol) list"
  l_fds_cap :: size_t
  l_pathnames :: "string list"
  l_pathnames_cap :: size_t
  l_rfds :: "int set"
  l_wfds :: "int set"
  l_maxfd :: int

definition FD_SETSIZE :: int where
  "FD_SETSIZE = 1024"

text \<open>The sizes of \<^verbatim>\<open>dime_server_fd_t\<close> and of a pointer.\<close>

definition FD_SIZE :: size_t where
  "FD_SIZE = 16"

text \<open>
  \<^verbatim>\<open>dime_server_init\<close>; \<^verbatim>\<open>main\<close> has cleared the structure before, and the code that would set
  \<^verbatim>\<open>tlsctx\<close> is commented out.
\<close>

definition dime_server_init :: "(nat \<Rightarrow> bool) \<Rightarrow> dime_loop option" where
  "dime_server_init ok =
     (case dime_table_init (ok 0) cmp_fd hash_fd of
        None \<Rightarrow> None
      | Some fd2clnt \<Rightarrow>
          (case dime_table_init (ok 1) cmp_name hash_name of
             None \<Rightarrow> None
           | Some name2clnt \<Rightarrow>
               if \<not> alloc_ok (ok 2) (8 * FD_SIZE) \<or> \<not> alloc_ok (ok 3) (8 * PTR_SIZE) then None
               else Some \<lparr>l_srv = \<lparr>h_err = '''', h_overrun = False, h_tlsctx = False,
                        h_serialization = DIME_NO_SERIALIZATION, h_fd2clnt = fd2clnt, h_name2clnt = name2clnt,
                        h_clnts = Map.empty, h_groups = Map.empty, h_msgs = Map.empty,
                        h_next = 0, h_tick = 0, h_fault = False\<rparr>,
                      l_fds = [], l_fds_cap = 8, l_pathnames = [], l_pathnames_cap = 8,
                      l_rfds = {}, l_wfds = {}, l_maxfd = -1\<rparr>))"

section \<open>Dispatch\<close>

definition dispatch :: "'j env \<Rightarrow> addr \<Rightarrow> 'j \<Rightarrow> byte list \<Rightarrow> dime_server \<Rightarrow> int \<times> dime_server" where
  "dispatch E c jsondata bindata s =
     (let cmd = (case e_unpack_s E jsondata ''command'' of Inl text \<Rightarrow> '''' | Inr cmd \<Rightarrow> cmd)
      in if cmd = ''handshake'' then dime_client_handshake E c jsondata s
         else if cmd = ''join'' then dime_client_join E c jsondata s
         else if cmd = ''leave'' then dime_client_leave E c jsondata s
         else if cmd = ''send'' then dime_client_send E c jsondata bindata s
         else if cmd = ''broadcast'' then dime_client_broadcast E c jsondata bindata s
         else if cmd = ''sync'' then dime_client_sync E c jsondata s
         else if cmd = ''wait'' then dime_client_wait E c s
         else if cmd = ''devices'' then dime_client_devices E c s
         else (-1, fail_text E c ''Unknown command'' s))"

text \<open>
  The loop over the complete messages of a client.  The Boolean is false when \<^verbatim>\<open>dime_server_loop\<close>
  returns; \<open>None\<close> when the fuel is used up.
\<close>

fun message_loop :: "nat \<Rightarrow> 'j env \<Rightarrow> addr \<Rightarrow> dime_server \<Rightarrow> (bool \<times> dime_server) option" where
  "message_loop 0 E c s = None"
| "message_loop (Suc n) E c s =
     (case h_clnts s c of
        None \<Rightarrow> Some (False, fault s)
      | Some cl \<Rightarrow>
          (case dime_socket_pop (e_loadb E) (e_errno E (h_tick s)) (e_ok E (h_tick s)) (c_sock cl) of
             None \<Rightarrow> None
           | Some (r, sock) \<Rightarrow>
               (let s1 = tick (set_clnt c (cl\<lparr>c_sock := sock\<rparr>) s)
                in case r of
                     Pop_Message siz jsondata bindata \<Rightarrow>
                       message_loop n E c (snd (dispatch E c jsondata bindata s1))
                   | Pop_Error \<Rightarrow> Some (False, err_copy (e_errno E (h_tick s)) s1)
                   | Pop_Incomplete \<Rightarrow> Some (True, s1)
                   | Pop_Out_Of_Bounds \<Rightarrow> Some (False, fault s1))))"

section \<open>One descriptor\<close>

text \<open>
  What the operating system answers while one descriptor is served: \<open>a_peer\<close> is the address that
  \<^verbatim>\<open>accept\<close> stores, and \<open>a_stack\<close> what is on the stack when \<^verbatim>\<open>dime_client_init\<close> prints it.
\<close>

record answers =
  a_readable :: bool
  a_writable :: bool
  a_accept :: int
  a_peer :: sockaddr
  a_stack :: "byte list"
  a_ws :: ws_env
  a_ws_fuel :: nat
  a_recv :: "size_t \<Rightarrow> byte list option"
  a_send :: "byte list \<Rightarrow> int"

definition fault_loop :: "dime_loop \<Rightarrow> dime_loop" where
  "fault_loop L = L\<lparr>l_srv := fault (l_srv L)\<rparr>"

text \<open>\<^verbatim>\<open>FD_SET\<close> writes outside of the set for a descriptor that does not fit.\<close>

definition watch :: "int \<Rightarrow> dime_loop \<Rightarrow> dime_loop" where
  "watch fd L =
     (if fd < FD_SETSIZE then L\<lparr>l_rfds := insert fd (l_rfds L), l_maxfd := max (l_maxfd L) (fd + 1)\<rparr>
      else fault_loop L)"

text \<open>
  Removing a client: from the table, from the sets, from its groups, and from memory.
\<close>

definition drop_client :: "addr \<Rightarrow> dime_loop \<Rightarrow> dime_loop" where
  "drop_client c L =
     (let s = l_srv L
      in case h_clnts s c of
           None \<Rightarrow> fault_loop L
         | Some cl \<Rightarrow>
             (case dime_table_remove (h_fd2clnt s) (c_fd cl) of
                None \<Rightarrow> fault_loop L
              | Some (r, tbl) \<Rightarrow>
                  (let s = dime_client_destroy c (s\<lparr>h_fd2clnt := tbl\<rparr>)
                   in L\<lparr>l_srv := s\<lparr>h_clnts := (h_clnts s)(c := None)\<rparr>,
                        l_rfds := l_rfds L - {c_fd cl}, l_wfds := l_wfds L - {c_fd cl}\<rparr>)))"

text \<open>
  Registering a new client.  When the insertion fails, the client is destroyed and its descriptor
  closed, but the code goes on and watches the closed descriptor.
\<close>

definition register_client :: "'j env \<Rightarrow> addr \<Rightarrow> dime_client \<Rightarrow> dime_loop \<Rightarrow> dime_loop" where
  "register_client E c cl L =
     (let s = l_srv L
      in case dime_table_insert (e_ok E (h_tick s)) (h_fd2clnt s) (c_fd cl) c of
           None \<Rightarrow> fault_loop L
         | Some (rc, tbl) \<Rightarrow>
             if rc < 0 then watch (c_fd cl) (L\<lparr>l_srv := tick (err_copy (e_errno E (h_tick s)) (s\<lparr>h_fd2clnt := tbl\<rparr>))\<rparr>)
             else watch (c_fd cl) (L\<lparr>l_srv := tick (set_clnt c cl (s\<lparr>h_fd2clnt := tbl\<rparr>))\<rparr>))"

text \<open>
  Accepting a connection.  The first Boolean says whether the turn goes on after it, the second
  whether the loop does.
\<close>

definition accept_client :: "'j env \<Rightarrow> answers \<Rightarrow> dime_protocol \<Rightarrow> dime_loop \<Rightarrow> bool \<times> bool \<times> dime_loop" where
  "accept_client E a protocol L =
     (let t = h_tick (l_srv L);
          s = tick (l_srv L);
          clear = L\<lparr>l_srv := s\<lparr>h_err := ''''\<rparr>\<rparr>;
          fd = a_accept a
      in if \<not> e_ok E t 0 then (False, False, clear)
         else if fd < 0 then (False, True, clear)
         else
           (case dime_client_init (\<lambda>i. e_ok E t (Suc i)) fd (a_stack a) (a_peer a) of
              Client_Failed \<Rightarrow> (False, False, clear)
            | Client_Undefined \<Rightarrow> (False, False, fault_loop clear)
            | Client_Ready cl \<Rightarrow>
                (let c = h_next s;
                     L = L\<lparr>l_srv := s\<lparr>h_next := Suc c\<rparr>\<rparr>
                 in if protocol = DIME_WS then
                      (case dime_socket_init_ws (a_ws_fuel a) (a_ws a) (c_sock cl) of
                         Ws_Return rc sock sent \<Rightarrow>
                           if rc < 0 then (False, True, L)
                           else (True, True, register_client E c (cl\<lparr>c_sock := sock\<rparr>) L)
                       | _ \<Rightarrow> (False, False, fault_loop L))
                    else (True, True, register_client E c cl L))))"

text \<open>Receiving from a client and handling its messages; the first Boolean says whether it is still there.\<close>

definition serve_input :: "'j env \<Rightarrow> answers \<Rightarrow> addr \<Rightarrow> nat \<Rightarrow> dime_loop \<Rightarrow> (bool \<times> bool \<times> dime_loop) option" where
  "serve_input E a c fuel L =
     (let s = l_srv L
      in case h_clnts s c of
           None \<Rightarrow> Some (False, False, fault_loop L)
         | Some cl \<Rightarrow>
             (let (n, sock) = dime_socket_recvpartial (e_errno E (h_tick s)) (e_ok E (h_tick s)) (a_recv a) (c_sock cl);
                  s = tick (set_clnt c (cl\<lparr>c_sock := sock\<rparr>) s)
              in if n \<le> 0 then Some (False, True, drop_client c (L\<lparr>l_srv := s\<rparr>))
                 else map_option (\<lambda>(go, s). (go, go, L\<lparr>l_srv := s\<rparr>)) (message_loop fuel E c s)))"

definition serve_output :: "'j env \<Rightarrow> answers \<Rightarrow> addr \<Rightarrow> dime_loop \<Rightarrow> bool \<times> dime_loop" where
  "serve_output E a c L =
     (let s = l_srv L
      in case h_clnts s c of
           None \<Rightarrow> (False, fault_loop L)
         | Some cl \<Rightarrow>
             (let (n, sock) = dime_socket_sendpartial (e_errno E (h_tick s)) (e_ok E (h_tick s) 0) (a_send a) (c_sock cl);
                  L = L\<lparr>l_srv := tick (set_clnt c (cl\<lparr>c_sock := sock\<rparr>) s)\<rparr>
              in (True, if n < 0 then drop_client c L else L)))"

text \<open>Looking a descriptor up, which may move entries of the table.\<close>

definition find_client :: "int \<Rightarrow> dime_loop \<Rightarrow> (addr option \<times> dime_loop) option" where
  "find_client i L =
     map_option (\<lambda>(r, tbl). (r, L\<lparr>l_srv := (l_srv L)\<lparr>h_fd2clnt := tbl\<rparr>\<rparr>))
       (dime_table_search (h_fd2clnt (l_srv L)) i)"

text \<open>The part of a turn that sends; \<open>known\<close> is the client that the part that receives has found.\<close>

definition serve_write :: "'j env \<Rightarrow> answers \<Rightarrow> int \<Rightarrow> addr option \<Rightarrow> dime_loop \<Rightarrow> bool \<times> dime_loop" where
  "serve_write E a i known L =
     (if \<not> a_writable a then (True, L)
      else
        (case known of
           Some c \<Rightarrow> serve_output E a c L
         | None \<Rightarrow>
             (case find_client i L of
                None \<Rightarrow> (False, fault_loop L)
              | Some (None, L) \<Rightarrow> (True, L)
              | Some (Some c, L) \<Rightarrow> serve_output E a c L)))"

text \<open>One turn of the loop over the descriptors; \<open>None\<close> when the fuel of the message loop is used up.\<close>

definition serve_fd :: "'j env \<Rightarrow> answers \<Rightarrow> nat \<Rightarrow> int \<Rightarrow> dime_loop \<Rightarrow> (bool \<times> dime_loop) option" where
  "serve_fd E a fuel i L =
     (if a_readable a then
        (case find_client i L of
           None \<Rightarrow> Some (False, fault_loop L)
         | Some (None, L) \<Rightarrow>
             (case map_of (l_fds L) i of
                None \<Rightarrow> Some (True, L)
              | Some protocol \<Rightarrow>
                  (case accept_client E a protocol L of
                     (False, go, L) \<Rightarrow> Some (go, L)
                   | (True, go, L) \<Rightarrow> Some (serve_write E a i None L)))
         | Some (Some c, L) \<Rightarrow>
             (case serve_input E a c fuel L of
                None \<Rightarrow> None
              | Some (False, go, L) \<Rightarrow> Some (go, L)
              | Some (True, go, L) \<Rightarrow> Some (serve_write E a i (Some c) L)))
      else Some (serve_write E a i None L))"

section \<open>The loop\<close>

text \<open>Watching a client for writing exactly when it has something to send.\<close>

definition refresh_one :: "int \<Rightarrow> dime_loop \<Rightarrow> dime_loop" where
  "refresh_one i L =
     (if i \<in> l_rfds L then
        (case find_client i L of
           None \<Rightarrow> fault_loop L
         | Some (None, L) \<Rightarrow> L
         | Some (Some c, L) \<Rightarrow>
             (case h_clnts (l_srv L) c of
                None \<Rightarrow> fault_loop L
              | Some cl \<Rightarrow>
                  if dime_socket_sendlen (c_sock cl) > 0 then L\<lparr>l_wfds := insert i (l_wfds L)\<rparr>
                  else L\<lparr>l_wfds := l_wfds L - {i}\<rparr>))
      else L)"

definition refresh_writers :: "dime_loop \<Rightarrow> dime_loop" where
  "refresh_writers L = fold refresh_one (map int [3..<nat (l_maxfd L)]) L"

text \<open>
  \<^verbatim>\<open>select\<close> fails on a descriptor that is not open; open are those the server listens on and
  those of its clients.
\<close>

definition open_fds :: "dime_loop \<Rightarrow> int set" where
  "open_fds L = fst ` set (l_fds L) \<union> {c_fd cl |c cl. h_clnts (l_srv L) c = Some cl}"

definition select_ok :: "dime_loop \<Rightarrow> bool" where
  "select_ok L \<longleftrightarrow> l_rfds L \<subseteq> open_fds L"

text \<open>
  What the system calls promise: \<^verbatim>\<open>accept\<close> fails or gives a descriptor that is not open, and \<^verbatim>\<open>recv\<close>
  does not write more than it has room for.
\<close>

definition answers_ok :: "answers \<Rightarrow> dime_loop \<Rightarrow> bool" where
  "answers_ok a L \<longleftrightarrow>
     (a_accept a < 0 \<or> a_accept a < 2 ^ 31 \<and> a_accept a \<notin> open_fds L) \<and>
     (\<forall>room bs. a_recv a room = Some bs \<longrightarrow> length bs \<le> room)"

text \<open>
  The steps of \<^verbatim>\<open>dime_server_loop\<close>: the turns of its two inner loops.  The reachable states are
  those between turns, while the loop runs.
\<close>

inductive loop_step :: "'j env \<Rightarrow> dime_loop \<Rightarrow> dime_loop \<Rightarrow> bool" for E :: "'j env" where
  serve: "\<lbrakk>a_readable a \<longrightarrow> i \<in> l_rfds L; a_writable a \<longrightarrow> i \<in> l_wfds L; answers_ok a L;
    serve_fd E a fuel i L = Some (True, L')\<rbrakk> \<Longrightarrow> loop_step E L L'"
| refresh: "loop_step E L (refresh_writers L)"

text \<open>
  The start of \<^verbatim>\<open>dime_server_loop\<close>: watching the descriptors and listening on them.  \<open>listens\<close> says where
  \<^verbatim>\<open>listen\<close> succeeds; after a failure, which comes before \<^verbatim>\<open>maxfd\<close> is updated, the Boolean is false for
  \<^verbatim>\<open>return -1\<close>.
\<close>

definition listen_fd :: "(int \<Rightarrow> bool) \<Rightarrow> int \<Rightarrow> dime_loop \<Rightarrow> bool \<times> dime_loop" where
  "listen_fd listens fd L =
     (if listens fd then (True, watch fd L) else (False, (watch fd L)\<lparr>l_maxfd := l_maxfd L\<rparr>))"

definition loop_start :: "(int \<Rightarrow> bool) \<Rightarrow> dime_loop \<Rightarrow> bool \<times> dime_loop" where
  "loop_start listens L =
     foreach (listen_fd listens) (map fst (l_fds L)) (L\<lparr>l_rfds := {}, l_wfds := {}, l_maxfd := -1\<rparr>)"

inductive reachable :: "'j env \<Rightarrow> dime_loop \<Rightarrow> bool" for E :: "'j env" where
  start: "\<lbrakk>dime_server_init ok = Some L; distinct (map fst fds); \<forall>fd \<in> fst ` set fds. 0 \<le> fd \<and> fd < 2 ^ 31;
    loop_start listens (L\<lparr>l_fds := fds\<rparr>) = (True, L0)\<rbrakk> \<Longrightarrow> reachable E L0"
| step: "\<lbrakk>reachable E L; loop_step E L L'\<rbrakk> \<Longrightarrow> reachable E L'"

inductive_cases loop_stepE: "loop_step E L L'"

end
