(* ===== verification/Client_Close.thy ===== *)
theory Client_Close
  imports Client_Life
begin

text \<open>
  Creating a client gives it well-formed buffers; destroying one takes it out of its groups and,
  unless its queue is full, releases the messages that were waiting for it.
\<close>

section \<open>\<^verbatim>\<open>dime_client_init\<close>\<close>

lemma dime_socket_init_inv: "dime_socket_init ok fd = Some sock \<Longrightarrow> sock_inv sock \<and> s_fd sock = fd \<and> sent_bytes sock = []"
  by (auto simp: dime_socket_init_def sock_inv_def dest: dime_ringbuffer_init_ok(1) dime_ringbuffer_init_ok(2)
    split: option.splits)

lemma dime_client_init_ok:
  assumes "dime_client_init ok fd tmp addr = Client_Ready cl"
  shows "c_fd cl = fd \<and> \<not> c_waiting cl \<and> c_groups cl = [] \<and> array_ok (c_groups cl) (c_groups_cap cl) \<and>
    sock_inv (c_sock cl) \<and> sent_bytes (c_sock cl) = [] \<and> dq_inv (c_queue cl) \<and> dq_list (c_queue cl) = []"
  using assms dime_socket_init_inv [of "\<lambda>i. ok (i + 2)" fd] dime_deque_init_ok
  by (auto simp: dime_client_init_def array_ok_def ALLOC_MAX_def split: if_splits option.splits)

section \<open>Leaving all groups\<close>

text \<open>\<open>gr'\<close> is \<open>gr\<close> without the client \<open>c\<close>.\<close>

definition without :: "addr \<Rightarrow> dime_group \<Rightarrow> dime_group \<Rightarrow> bool" where
  "without c gr gr' \<longleftrightarrow> g_name gr' = g_name gr \<and> array_ok (g_clnts gr') (g_clnts_cap gr') \<and>
     set (g_clnts gr') = set (g_clnts gr) - {c}"

lemma quit_group_eq:
  assumes gr: "h_groups s g = Some gr" and arr: "array_ok (g_clnts gr) (g_clnts_cap gr)"
  obtains gr' where "quit_group c g s = s\<lparr>h_groups := (h_groups s)(g \<mapsto> gr')\<rparr>" and "without c gr gr'"
proof (cases "first_index (\<lambda>c'. c' = c) (g_clnts gr)")
  case None
  then have "c \<notin> set (g_clnts gr)" by (auto simp: first_index_None)
  then have "without c gr gr" using arr by (simp add: without_def)
  moreover have "quit_group c g s = s\<lparr>h_groups := (h_groups s)(g \<mapsto> gr)\<rparr>"
    using None gr by (simp add: quit_group_def fun_upd_idem)
  ultimately show thesis using that by blast
next
  case (Some j)
  have j: "j < length (g_clnts gr)" "g_clnts gr ! j = c" using first_index_Some [OF Some] by simp_all
  let ?gr = "gr\<lparr>g_clnts := swap_remove j (g_clnts gr)\<rparr>"
  have "without c gr ?gr" using swap_remove_ok [OF j(1) arr] j(2) by (simp add: without_def)
  moreover have "quit_group c g s = s\<lparr>h_groups := (h_groups s)(g \<mapsto> ?gr)\<rparr>"
    using Some gr by (simp add: quit_group_def set_group_def)
  ultimately show thesis using that by blast
qed

lemma fold_quit_group:
  "\<forall>g \<in> set gs. h_groups s g \<noteq> None \<Longrightarrow> \<forall>g gr. h_groups s g = Some gr \<longrightarrow> array_ok (g_clnts gr) (g_clnts_cap gr) \<Longrightarrow>
   distinct gs \<Longrightarrow>
   \<exists>G. fold (quit_group c) gs s = s\<lparr>h_groups := G\<rparr> \<and>
     (\<forall>g. if g \<in> set gs then \<exists>gr gr'. h_groups s g = Some gr \<and> G g = Some gr' \<and> without c gr gr' else G g = h_groups s g)"
proof (induction gs arbitrary: s)
  case Nil
  then show ?case by (intro exI [of _ "h_groups s"]) simp
next
  case (Cons g gs)
  obtain gr where gr: "h_groups s g = Some gr" using Cons.prems(1) by auto
  have arr: "array_ok (g_clnts gr) (g_clnts_cap gr)" using Cons.prems(2) gr by blast
  obtain gr' where q: "quit_group c g s = s\<lparr>h_groups := (h_groups s)(g \<mapsto> gr')\<rparr>" and w: "without c gr gr'"
    by (rule quit_group_eq [OF gr arr])
  let ?s = "s\<lparr>h_groups := (h_groups s)(g \<mapsto> gr')\<rparr>"
  have 1: "\<forall>g \<in> set gs. h_groups ?s g \<noteq> None" using Cons.prems(1) by simp
  have 2: "\<forall>h x. h_groups ?s h = Some x \<longrightarrow> array_ok (g_clnts x) (g_clnts_cap x)"
    using Cons.prems(2) w by (auto simp: without_def)
  obtain G where G: "fold (quit_group c) gs ?s = ?s\<lparr>h_groups := G\<rparr>"
    "\<forall>h. if h \<in> set gs then \<exists>x x'. h_groups ?s h = Some x \<and> G h = Some x' \<and> without c x x' else G h = h_groups ?s h"
    using Cons.IH [OF 1 2] Cons.prems(3) by auto
  have "if h \<in> set (g # gs) then \<exists>x x'. h_groups s h = Some x \<and> G h = Some x' \<and> without c x x' else G h = h_groups s h" for h
  proof (cases "h = g")
    case True
    then have "G h = Some gr'" using G(2) [rule_format, of h] Cons.prems(3) by simp
    then show ?thesis using True gr w by simp
  next
    case False
    then have e: "h_groups ?s h = h_groups s h" by simp
    show ?thesis using G(2) [rule_format, of h] False unfolding e by simp
  qed
  moreover have "fold (quit_group c) (g # gs) s = s\<lparr>h_groups := G\<rparr>" using G(1) q by simp
  ultimately show ?case by blast
qed

section \<open>Releasing the messages\<close>

text \<open>The messages of \<open>ms'\<close> are messages of \<open>ms\<close>, with the same data.\<close>

definition fewer_msgs :: "(addr \<rightharpoonup> dime_rcmessage) \<Rightarrow> (addr \<rightharpoonup> dime_rcmessage) \<Rightarrow> bool" where
  "fewer_msgs ms ms' \<longleftrightarrow> (\<forall>m x'. ms' m = Some x' \<longrightarrow>
     (\<exists>x. ms m = Some x \<and> m_jsondata x' = m_jsondata x \<and> m_bindata x' = m_bindata x))"

lemma fewer_msgs_trans: "fewer_msgs a b \<Longrightarrow> fewer_msgs b c \<Longrightarrow> fewer_msgs a c"
  unfolding fewer_msgs_def by metis

lemma drop_message_step:
  assumes refs: "refs_upto X {} Q (h_msgs s)" and q: "Q c = m # q" and fin: "finite (holders Q m)"
  obtains ms where "drop_message (Some m) s = s\<lparr>h_msgs := ms\<rparr>" and "refs_upto X {} (Q(c := q)) ms"
    and "fewer_msgs (h_msgs s) ms"
proof -
  obtain msg where msg: "h_msgs s m = Some msg"
    and r: "refs_upto X {} (Q(c := q))
      ((h_msgs s)(m := (if m_refs msg - 1 = 0 then None else Some (msg\<lparr>m_refs := m_refs msg - 1\<rparr>))))"
    by (rule refs_pop [OF refs q fin])
  let ?msg = "msg\<lparr>m_refs := m_refs msg - 1\<rparr>"
  have a: "add_refs (-1) m s = s\<lparr>h_msgs := (h_msgs s)(m \<mapsto> ?msg)\<rparr>"
    using add_refs_eq [OF msg, of "-1"] by simp
  have eq: "drop_message (Some m) s =
      s\<lparr>h_msgs := (h_msgs s)(m := (if m_refs msg - 1 = 0 then None else Some ?msg))\<rparr>"
    unfolding drop_message_def option.case a by (subst free_if_unused_eq [where msg = ?msg]) simp_all
  have "fewer_msgs (h_msgs s) ((h_msgs s)(m := (if m_refs msg - 1 = 0 then None else Some ?msg)))"
    using msg by (auto simp: fewer_msgs_def split: if_splits)
  then show thesis using that eq r by blast
qed

lemma fold_drop_message:
  "refs_upto X {} (Q(c := ms)) (h_msgs s) \<Longrightarrow> \<forall>m. finite (holders Q m) \<Longrightarrow>
   \<exists>M. fold drop_message (map Some ms) s = s\<lparr>h_msgs := M\<rparr> \<and> refs_upto X {} (Q(c := [])) M \<and> fewer_msgs (h_msgs s) M"
proof (induction ms arbitrary: s)
  case Nil
  then show ?case by (intro exI [of _ "h_msgs s"]) (auto simp: fewer_msgs_def)
next
  case (Cons m ms)
  have "holders (Q(c := m # ms)) m \<subseteq> insert c (holders Q m)" by (auto simp: holders_def)
  then have fin: "finite (holders (Q(c := m # ms)) m)"
    by (rule finite_subset) (use Cons.prems(2) in simp)
  have head: "(Q(c := m # ms)) c = m # ms" by simp
  obtain M1 where M1: "drop_message (Some m) s = s\<lparr>h_msgs := M1\<rparr>"
    "refs_upto X {} ((Q(c := m # ms))(c := ms)) M1" "fewer_msgs (h_msgs s) M1"
    by (rule drop_message_step [OF Cons.prems(1) head fin])
  have refs1: "refs_upto X {} (Q(c := ms)) (h_msgs (s\<lparr>h_msgs := M1\<rparr>))" using M1(2) by simp
  obtain M where M: "fold drop_message (map Some ms) (s\<lparr>h_msgs := M1\<rparr>) = (s\<lparr>h_msgs := M1\<rparr>)\<lparr>h_msgs := M\<rparr>"
    "refs_upto X {} (Q(c := [])) M" "fewer_msgs (h_msgs (s\<lparr>h_msgs := M1\<rparr>)) M"
    using Cons.IH [OF refs1 Cons.prems(2)] by blast
  have "fewer_msgs M1 M" using M(3) by simp
  then have "fewer_msgs (h_msgs s) M" by (rule fewer_msgs_trans [OF M1(3)])
  moreover have "fold drop_message (map Some (m # ms)) s = s\<lparr>h_msgs := M\<rparr>" using M1(1) M(1) by simp
  ultimately show ?case using M(2) by blast
qed

end
