(* ===== verification/Command_Inv.thy ===== *)
theory Command_Inv
  imports Server_Def Client_Close
begin

text \<open>
  The invariant of the stores is kept by every command on every path, even when the reference
  counts are wrong: what is broken then is which messages exist, never the structure of the
  tables, the groups and the queues.
\<close>

section \<open>Loops\<close>

text \<open>\<open>Q\<close> holds as long as the loop goes on, \<open>P\<close> when it ends.\<close>

lemma foreach_cont:
  assumes "Q s" and "\<And>s. Q s \<Longrightarrow> P s"
    and "\<And>x s. x \<in> set xs \<Longrightarrow> Q s \<Longrightarrow> P (snd (f x s)) \<and> (fst (f x s) \<longrightarrow> Q (snd (f x s)))"
  shows "P (snd (foreach f xs s)) \<and> (fst (foreach f xs s) \<longrightarrow> Q (snd (foreach f xs s)))"
  using assms
proof (induction xs arbitrary: s)
  case Nil
  then show ?case by simp
next
  case (Cons x xs)
  obtain go s1 where f: "f x s = (go, s1)" by (cases "f x s")
  have s1: "P s1" "go \<longrightarrow> Q s1" using Cons.prems(3) [of x s] Cons.prems(1) f by simp_all
  show ?case
  proof (cases go)
    case True
    then have "Q s1" using s1(2) by simp
    then show ?thesis using Cons.IH [of s1] Cons.prems(2,3) f True by simp
  next
    case False
    then show ?thesis using s1 f by simp
  qed
qed

section \<open>Sending\<close>

definition alive :: "addr \<Rightarrow> dime_server \<Rightarrow> bool" where
  "alive c s \<longleftrightarrow> srv_inv s \<and> h_clnts s c \<noteq> None"

lemma alive_simps [simp]: "alive c (fault s) = alive c s" "alive c (tick s) = alive c s"
  by (simp_all add: alive_def)

lemma alive_same: "alive c s \<Longrightarrow> same_but_socks s s' \<Longrightarrow> alive c s'"
  using srv_inv_same same_but_socks_None by (auto simp: alive_def)

lemma alive_links: "alive c s \<Longrightarrow> srv_inv s' \<Longrightarrow> links s' = links s \<Longrightarrow> alive c s'"
  using links_clnt [of s' s c] by (auto simp: alive_def)

lemma alive_fail:
  assumes "env_ok E" and "alive c s"
  shows "alive c (fail_text E c text s)" and "alive c (fail_errno E c s)" and "alive c (fail_cat E c p text s)"
    and "alive c (snd (reply_ok E c s))"
  using alive_same [OF assms(2) fail_same(1) [OF assms(1)]] alive_same [OF assms(2) fail_same(2) [OF assms(1)]]
    alive_same [OF assms(2) fail_same(3) [OF assms(1)]] alive_same [OF assms(2) reply_ok_same [OF assms(1)]] assms(2)
  by (simp_all add: alive_def)

lemma deliver_alive:
  assumes env: "env_ok E" and inv: "srv_inv s" and c: "h_clnts s c \<noteq> None" and d: "h_clnts s d \<noteq> None"
    and m: "h_msgs s m \<noteq> None"
  shows "srv_inv (snd (deliver E c m d s)) \<and> links (snd (deliver E c m d s)) = links s \<and>
    (fst (deliver E c m d s) \<longrightarrow> h_msgs (snd (deliver E c m d s)) m \<noteq> None)"
proof -
  obtain msg where msg: "h_msgs s m = Some msg" using m by auto
  obtain out s' where "deliver E c m d s = (out = Delivered, s')" "deliver_effect m d msg out s s'"
    by (rule deliver_cases [OF env inv c d msg])
  then show ?thesis by (auto simp: deliver_effect_def)
qed

lemma foreach_deliver_alive:
  assumes env: "env_ok E" and s: "alive c s" "h_msgs s m \<noteq> None" and ds: "\<forall>d \<in> set ds. h_clnts s d \<noteq> None"
    and f: "\<And>d s. srv_inv s \<Longrightarrow> h_clnts s c \<noteq> None \<Longrightarrow> h_clnts s d \<noteq> None \<Longrightarrow>
      f d s = deliver E c m d s \<or> f d s = (True, s)"
    and loop: "foreach f ds s = (go, s')"
  shows "alive c s'" and "go \<Longrightarrow> h_msgs s' m \<noteq> None"
proof -
  let ?P = "\<lambda>s'. srv_inv s' \<and> links s' = links s"
  let ?Q = "\<lambda>s'. ?P s' \<and> h_msgs s' m \<noteq> None"
  have step: "?P (snd (f d x)) \<and> (fst (f d x) \<longrightarrow> ?Q (snd (f d x)))" if "d \<in> set ds" "?Q x" for d x
  proof -
    have x: "srv_inv x" "h_clnts x c \<noteq> None" "h_clnts x d \<noteq> None" "links x = links s" "h_msgs x m \<noteq> None"
      using that ds s(1) links_clnt [of x s] by (auto simp: alive_def)
    show ?thesis using deliver_alive [OF env x(1-3,5)] f [OF x(1-3)] x by auto
  qed
  have q: "?Q s" using s by (simp add: alive_def)
  have "?P s' \<and> (go \<longrightarrow> ?Q s')"
    using foreach_cont [of ?Q s ?P ds f, OF q _ step] loop by simp
  then show "alive c s'" and "go \<Longrightarrow> h_msgs s' m \<noteq> None" using alive_links [OF s(1)] by auto
qed

lemma free_if_unused_alive:
  assumes "alive c s" and "h_msgs s m \<noteq> None"
  shows "alive c (free_if_unused m s)"
proof -
  obtain msg where msg: "h_msgs s m = Some msg" using assms(2) by auto
  have "srv_inv (free_if_unused m s)" unfolding free_if_unused_eq [OF msg]
    by (rule srv_inv_msg_upd [OF _ msg]) (use assms(1) in \<open>auto simp: alive_def split: if_splits\<close>)
  then show ?thesis using assms(1) by (simp add: alive_def free_if_unused_eq [OF msg])
qed

lemma send_to_group_alive:
  assumes env: "env_ok E" and s: "alive c s" and bin: "length bin \<le> ALLOC_MAX" and gr: "h_groups s g = Some gr"
  shows "alive c (snd (case new_message E j bin s of
        (None, s) \<Rightarrow> (-1, fail_errno E c s)
      | (Some m, s) \<Rightarrow>
          (case foreach (deliver E c m) (g_clnts gr) s of
             (False, s) \<Rightarrow> (-1, s)
           | (True, s) \<Rightarrow> if no_refs m s then (-1, fault s) else reply_ok E c s)))"
proof -
  obtain r s1 where nm: "new_message E j bin s = (r, s1)" by (cases "new_message E j bin s")
  note n = new_message_ok [OF env _ bin nm]
  have s1: "alive c s1" "links s1 = links s" using n s alive_links [OF s, of s1] by (auto simp: alive_def)
  show ?thesis
  proof (cases r)
    case None
    then show ?thesis using alive_fail(2) [OF env s1(1)] by (simp add: nm)
  next
    case (Some m)
    then have m: "h_msgs s1 m \<noteq> None" using n s by (auto simp: alive_def)
    have ex: "\<forall>d \<in> set (g_clnts gr). h_clnts s1 d \<noteq> None"
      using group_members_exist [OF _ gr] s links_clnt [OF s1(2)] by (metis alive_def option.distinct(1))
    obtain go s2 where loop: "foreach (deliver E c m) (g_clnts gr) s1 = (go, s2)"
      by (cases "foreach (deliver E c m) (g_clnts gr) s1")
    have "alive c s2" by (rule foreach_deliver_alive [OF env s1(1) m ex _ loop]) simp
    then show ?thesis using alive_fail(4) [OF env, of c s2] by (cases go) (simp_all add: nm Some loop)
  qed
qed

lemma send_alive:
  assumes env: "env_ok E" and s: "alive c s" and bin: "length bin \<le> ALLOC_MAX"
  shows "alive c (snd (dime_client_send E c j bin s))"
proof (cases "e_unpack_s E j ''name''")
  case (Inl msg)
  then show ?thesis using alive_fail(3) [OF env s] by (simp add: dime_client_send_def)
next
  case (Inr name)
  have inv: "srv_inv s" using s by (simp add: alive_def)
  show ?thesis
  proof (rule table_search_cases [OF srv_inv_parts(2) [OF inv], of name])
    assume "dime_table_search (h_name2clnt s) name = None"
    then show ?thesis using s Inr by (simp add: dime_client_send_def)
  next
    fix t
    assume t: "dime_table_search (h_name2clnt s) name = Some (table_map (h_name2clnt s) name, t)"
      "table_inv t" "table_map t = table_map (h_name2clnt s)"
    let ?s = "s\<lparr>h_name2clnt := t\<rparr>"
    have s1: "alive c ?s" using srv_inv_search [OF inv t(2,3)] s by (simp add: alive_def)
    show ?thesis
    proof (cases "table_map (h_name2clnt s) name")
      case None
      then show ?thesis using alive_fail(3) [OF env s1] t(1) Inr by (simp add: dime_client_send_def)
    next
      case (Some g)
      then obtain gr where gr: "h_groups s g = Some gr"
        using srv_inv_parts(4) [OF inv, of name g] by (auto simp: group_name_def)
      then have gr': "h_groups ?s g = Some gr" by simp
      show ?thesis
        using alive_fail(3) [OF env s1] send_to_group_alive [OF env s1 bin gr', of j] t(1) Inr Some gr
        by (simp add: dime_client_send_def Let_def)
    qed
  qed
qed

lemma broadcast_alive:
  assumes env: "env_ok E" and s: "alive c s" and bin: "length bin \<le> ALLOC_MAX"
  shows "alive c (snd (dime_client_broadcast E c j bin s))"
proof -
  obtain r s1 where nm: "new_message E j bin s = (r, s1)" by (cases "new_message E j bin s")
  note n = new_message_ok [OF env _ bin nm]
  have s1: "alive c s1" "links s1 = links s" using n s alive_links [OF s, of s1] by (auto simp: alive_def)
  show ?thesis
  proof (cases r)
    case None
    then show ?thesis using alive_fail(2) [OF env s1(1)] by (simp add: nm dime_client_broadcast_def)
  next
    case (Some m)
    then have m: "h_msgs s1 m \<noteq> None" using n s by (auto simp: alive_def)
    have inv1: "srv_inv s1" using s1(1) by (simp add: alive_def)
    obtain ds where ds: "table_walk (h_fd2clnt s1) = Some ds" "set ds = dom (h_clnts s1)"
      by (rule walk_clients [OF inv1])
    have ex: "\<forall>d \<in> set ds. h_clnts s1 d \<noteq> None" unfolding ds(2) by auto
    obtain go s2 where loop: "foreach (deliver_other E c m) ds s1 = (go, s2)"
      by (cases "foreach (deliver_other E c m) ds s1")
    note l = foreach_deliver_alive [OF env s1(1) m ex _ loop]
    have s2: "alive c s2" by (rule l(1)) (auto simp: deliver_other_def)
    have m2: "h_msgs s2 m \<noteq> None" if go by (rule l(2) [OF _ that]) (auto simp: deliver_other_def)
    show ?thesis
      using s2 alive_fail(4) [OF env free_if_unused_alive [OF s2 m2]]
      by (cases go) (simp_all add: dime_client_broadcast_def nm Some ds(1) loop)
  qed
qed

section \<open>Synchronizing\<close>

lemma alive_push:
  assumes "env_ok E" and "alive c s"
  shows "alive c (snd (clnt_push E c j s))"
  using alive_same [OF assms(2) clnt_push_same [OF assms(1)]] assms(2) by (simp add: alive_def)

lemma release_alive:
  assumes "alive c s"
  shows "alive c (free_if_unused m (add_refs d m s))"
proof (cases "h_msgs s m")
  case None
  then have "free_if_unused m (add_refs d m s) = fault (fault s)"
    by (simp add: add_refs_def free_if_unused_def) (simp add: fault_def)
  then show ?thesis using assms by simp
next
  case (Some msg)
  let ?msg = "msg\<lparr>m_refs := m_refs msg + d\<rparr>"
  have "srv_inv (add_refs d m s)" unfolding add_refs_eq [OF Some]
    by (rule srv_inv_msg_upd [OF _ Some]) (use assms in \<open>auto simp: alive_def\<close>)
  then have a: "alive c (add_refs d m s)" using assms by (simp add: alive_def add_refs_eq [OF Some])
  then show ?thesis by (rule free_if_unused_alive) (simp add: add_refs_eq [OF Some])
qed

lemma sync_loop_alive:
  assumes env: "env_ok E"
  shows "alive c s \<Longrightarrow> alive c (snd (sync_loop E c n s))"
proof (induction n arbitrary: s)
  case 0
  then show ?case by simp
next
  case (Suc n)
  obtain cl where cl: "h_clnts s c = Some cl" and inv: "srv_inv s" using Suc.prems by (auto simp: alive_def)
  obtain r queue where pop: "dime_deque_popl (c_queue cl) = (r, queue)" by (cases "dime_deque_popl (c_queue cl)")
  have q: "dq_inv queue" using dime_deque_popl_step [OF srv_inv_parts(9) [OF inv cl]] pop by simp
  let ?s = "set_clnt c (cl\<lparr>c_queue := queue\<rparr>) s"
  have s0: "alive c ?s" using set_clnt_keeps [OF inv cl, of "cl\<lparr>c_queue := queue\<rparr>"] q by (simp add: alive_def)
  have undo: "alive c (tick (set_clnt c (x\<lparr>c_queue := snd (dime_deque_pushl ok (c_queue x) m)\<rparr>) s1))"
    if s1: "alive c s1" "h_clnts s1 c = Some x" for s1 x ok m
  proof -
    have "srv_inv s1" using s1(1) by (simp add: alive_def)
    then have "srv_inv (set_clnt c (x\<lparr>c_queue := snd (dime_deque_pushl ok (c_queue x) m)\<rparr>) s1)"
      using dime_deque_pushl_step [OF srv_inv_parts(9) [OF _ s1(2)], of ok m]
      by (intro set_clnt_keeps [OF _ s1(2)]) simp_all
    then show ?thesis by (simp add: alive_def)
  qed
  have "alive c (snd (let (rc, s) = clnt_push_str E c (m_jsondata msg) (m_bindata msg) ?s
      in if rc < 0 then
           (case h_clnts s c of None \<Rightarrow> (False, fault s)
            | Some cl \<Rightarrow> (False, tick (set_clnt c
                (cl\<lparr>c_queue := snd (dime_deque_pushl (e_ok E (h_tick s) 0) (c_queue cl) m)\<rparr>) s)))
         else sync_loop E c n (free_if_unused m (add_refs (-1) m s))))" if msg: "h_msgs s m = Some msg" for m msg
  proof -
    obtain rc s1 where push: "clnt_push_str E c (m_jsondata msg) (m_bindata msg) ?s = (rc, s1)"
      by (cases "clnt_push_str E c (m_jsondata msg) (m_bindata msg) ?s")
    have "msg_ok msg" by (rule srv_inv_parts(10) [OF inv msg])
    then have "same_but_socks ?s s1"
      using clnt_push_str_same [of "m_jsondata msg" "m_bindata msg" ?s c E] push by (simp add: msg_ok_def)
    then have s1: "alive c s1" by (rule alive_same [OF s0])
    then obtain x where x: "h_clnts s1 c = Some x" by (auto simp: alive_def)
    show ?thesis using undo [OF s1 x] Suc.IH [OF release_alive [OF s1]] by (simp add: push x)
  qed
  then show ?case using s0 Suc.prems by (simp add: cl pop Let_def split: option.split)
qed

section \<open>The other commands\<close>

lemma sync_alive:
  assumes env: "env_ok E" and s: "alive c s"
  shows "alive c (snd (dime_client_sync E c j s))"
proof (cases "e_unpack_I E j ''n''")
  case None
  then show ?thesis using s by (simp add: dime_client_sync_def)
next
  case (Some n)
  obtain go s1 where loop: "sync_loop E c (ssize_to_size (if n < 0 then -1 else n)) s = (go, s1)"
    by (cases "sync_loop E c (ssize_to_size (if n < 0 then -1 else n)) s")
  have s1: "alive c s1" using sync_loop_alive [OF env s, of "ssize_to_size (if n < 0 then -1 else n)"] loop by simp
  show ?thesis using s1 alive_fail(4) [OF env s1] loop
    by (cases go) (simp_all add: dime_client_sync_def Some split del: if_split)
qed

lemma wait_alive:
  assumes env: "env_ok E" and s: "alive c s"
  shows "alive c (snd (dime_client_wait E c s))"
proof -
  have "srv_inv s" "h_clnts s c \<noteq> None" using s by (simp_all add: alive_def)
  then show ?thesis using dime_client_wait_ok [OF env, of s c] alive_links [OF s] by (metis prod.collapse)
qed

lemma devices_loop_alive: "alive c s \<Longrightarrow> alive c (snd (devices_loop E gs arr s))"
  by (induction gs arbitrary: arr s) (auto split: option.split)

lemma devices_alive:
  assumes env: "env_ok E" and s: "alive c s"
  shows "alive c (snd (dime_client_devices E c s))"
proof (cases "e_array E (h_tick s)")
  case None
  then show ?thesis using alive_fail(2) [OF env, of c "tick s"] s by (simp add: dime_client_devices_def)
next
  case (Some arr)
  show ?thesis
  proof (cases "table_walk (h_name2clnt s)")
    case None
    then show ?thesis using s Some by (simp add: dime_client_devices_def)
  next
    case (Some gs)
    obtain r s1 where loop: "devices_loop E gs arr (tick s) = (r, s1)" by (cases "devices_loop E gs arr (tick s)")
    have s1: "alive c s1" using devices_loop_alive [of c "tick s" E gs arr] s loop by simp
    have push: "alive c (snd (let (rc, s) = clnt_push E c x (tick s1) in if rc < 0 then (-1, fail_errno E c s) else (0, s)))" for x
      using alive_push [OF env, of c "tick s1" x] s1 alive_fail(2) [OF env] by (simp add: split_beta Let_def)
    show ?thesis
      using s1 push alive_fail(2) [OF env, of c "tick s1"] alive_fail(2) [OF env s1] \<open>e_array E (h_tick s) = Some arr\<close> Some
      by (auto simp: dime_client_devices_def loop split: option.split)
  qed
qed

lemma handshake_alive:
  assumes env: "env_ok E" and s: "alive c s"
  shows "alive c (snd (dime_client_handshake E c j s))"
proof -
  have a: "srv_inv s" "h_clnts s c \<noteq> None" using s by (simp_all add: alive_def)
  obtain rc s' where run: "dime_client_handshake E c j s = (rc, s')" by (cases "dime_client_handshake E c j s")
  obtain x where x: "same_but_socks (with_serialization x s) s'"
    using dime_client_handshake_ok [OF env a run] by blast
  have "alive c (with_serialization x s)"
    using s by (simp add: alive_def)
  then show ?thesis using alive_same [OF _ x] run by simp
qed

lemma join_leave_alive:
  assumes env: "env_ok E" and s: "alive c s"
  shows "alive c (snd (dime_client_join E c j s))" and "alive c (snd (dime_client_leave E c j s))"
proof -
  have a: "srv_inv s" "h_clnts s c \<noteq> None" using s by (simp_all add: alive_def)
  show "alive c (snd (dime_client_join E c j s))"
    using dime_client_join_ok [OF env a, of j] by (metis alive_def prod.collapse)
  show "alive c (snd (dime_client_leave E c j s))"
    using dime_client_leave_ok [OF env a, of j] by (metis alive_def prod.collapse)
qed

lemma dispatch_alive:
  assumes env: "env_ok E" and s: "alive c s" and bin: "length bin \<le> ALLOC_MAX"
  shows "alive c (snd (dispatch E c j bin s))"
  using handshake_alive [OF env s] join_leave_alive [OF env s] send_alive [OF env s bin]
    broadcast_alive [OF env s bin] sync_alive [OF env s] wait_alive [OF env s] devices_alive [OF env s]
    alive_fail(1) [OF env s]
  by (simp add: dispatch_def Let_def)

end
