(* ===== verification/Observation.thy ===== *)
theory Observation
  imports Command_Inv
begin

text \<open>
  What the commands that change groups leave alone, as an interface: a view of the server that depends
  neither on groups, nor on error texts, nor on the out-buffers of sockets.  The input side of the
  clients is such a view (\<open>Server_Inv\<close>), and so are their mailboxes (\<open>Relay\<close>).
\<close>

lemma push_str_input:
  "s_rbuf (snd (dime_socket_push_str e ok sock str bin)) = s_rbuf sock"
  "s_ws (snd (dime_socket_push_str e ok sock str bin)) = s_ws sock"
  "s_loop (snd (dime_socket_push_str e ok sock str bin)) = s_loop sock"
  by (simp_all add: dime_socket_push_str_def Let_def split_beta set_err_def)

lemma push_input:
  "s_rbuf (snd (dime_socket_push d e ok sock j bin)) = s_rbuf sock"
  "s_ws (snd (dime_socket_push d e ok sock j bin)) = s_ws sock"
  "s_loop (snd (dime_socket_push d e ok sock j bin)) = s_loop sock"
  by (simp_all add: dime_socket_push_def push_str_input set_err_def split: option.split)

lemma snd_case_bool: "snd (case p of (True, s) \<Rightarrow> f s | (False, s) \<Rightarrow> g s) =
    (if fst p then snd (f (snd p)) else snd (g (snd p)))"
  by (cases p) (simp split: bool.split)

locale observation =
  fixes obs :: "dime_server \<Rightarrow> 'o"
  assumes obs_small:
      "obs (tick s) = obs s" "obs (fault s) = obs s" "obs (set_group g gr s) = obs s"
      "obs (err_copy msg s) = obs s" "obs (err_cat p msg s) = obs s"
      "obs (s\<lparr>h_name2clnt := t\<rparr>) = obs s" "obs (s\<lparr>h_next := n\<rparr>) = obs s" "obs (s\<lparr>h_groups := gs\<rparr>) = obs s"
    and obs_sock: "h_clnts s c = Some cl \<Longrightarrow> s_rbuf sock = s_rbuf (c_sock cl) \<Longrightarrow> s_ws sock = s_ws (c_sock cl) \<Longrightarrow>
      s_loop sock = s_loop (c_sock cl) \<Longrightarrow> obs (set_clnt c (cl\<lparr>c_sock := sock\<rparr>) s) = obs s"
    and obs_groups: "h_clnts s c = Some cl \<Longrightarrow>
      obs (set_clnt c (cl\<lparr>c_groups := gs', c_groups_cap := cap\<rparr>) s) = obs s"
begin

lemma obs_cap: "h_clnts s c = Some cl \<Longrightarrow> obs (set_clnt c (cl\<lparr>c_groups_cap := cap\<rparr>) s) = obs s"
  using obs_groups [of s c cl cap "c_groups cl"] by simp

lemma obs_list: "h_clnts s c = Some cl \<Longrightarrow> obs (set_clnt c (cl\<lparr>c_groups := xs\<rparr>) s) = obs s"
  using obs_groups [of s c cl "c_groups_cap cl" xs] by simp

section \<open>Pushing and reporting\<close>

lemma obs_push: "obs (snd (clnt_push E c j s)) = obs s" "obs (snd (clnt_push_str E c str bin s)) = obs s"
  by (auto simp: clnt_push_def clnt_push_str_def obs_small split_beta Let_def push_input push_str_input
    split: option.split intro!: obs_sock)

lemma obs_fail:
  "obs (respond E c args s) = obs s" "obs (fail_text E c msg s) = obs s"
  "obs (fail_errno E c s) = obs s" "obs (fail_cat E c p msg s) = obs s" "obs (snd (reply_ok E c s)) = obs s"
  by (auto simp: respond_def fail_text_def fail_errno_def fail_cat_def reply_ok_def obs_small obs_push split_beta Let_def
    split: option.split)

lemma obs_foreach:
  assumes "\<And>x s. obs (snd (f x s)) = obs s"
  shows "obs (snd (foreach f xs s)) = obs s"
  by (rule foreach_inv [of "\<lambda>s'. obs s' = obs s"]) (simp_all add: assms)

section \<open>Joining and leaving\<close>

lemma obs_new_group: "obs (snd (new_group E name s)) = obs s"
  by (auto simp: new_group_def Let_def obs_small split: option.split prod.split if_splits)

lemma obs_join_group: "obs (snd (join_group E c g s)) = obs s"
proof (cases "h_clnts s c = None \<or> h_groups s g = None")
  case True
  then show ?thesis by (auto simp: join_group_def obs_small split: option.split)
next
  case False
  then obtain cl gr where cl: "h_clnts s c = Some cl" "h_groups s g = Some gr" by auto
  have two: "obs (set_clnt c (cl\<lparr>c_groups_cap := cap\<rparr>) (tick s)) = obs s" for cap
    using obs_cap [of "tick s" c cl cap] cl by (simp add: obs_small)
  have three: "obs (set_clnt c (cl\<lparr>c_groups := xs, c_groups_cap := cap\<rparr>)
      (set_clnt c (cl\<lparr>c_groups_cap := cap\<rparr>) (tick s))) = obs s" for xs cap
    using obs_groups [of "set_clnt c (cl\<lparr>c_groups_cap := cap\<rparr>) (tick s)" c "cl\<lparr>c_groups_cap := cap\<rparr>" cap xs] two
    by simp
  show ?thesis by (simp add: join_group_def cl Let_def obs_small obs_fail two three split: option.split)
qed

lemma obs_join_one: "obs (snd (join_one E c v s)) = obs s"
proof -
  have new: "obs s1 = obs s" if "new_group E name (s\<lparr>h_name2clnt := t\<rparr>) = (r, s1)" for name t r s1
    using obs_new_group [of E name "s\<lparr>h_name2clnt := t\<rparr>"] that by (simp add: obs_small)
  have "obs (snd (case new_group E name (s\<lparr>h_name2clnt := t\<rparr>) of
      (None, s) \<Rightarrow> (False, fail_errno E c s) | (Some g, s) \<Rightarrow> join_group E c g s)) = obs s" for name t
    using new by (auto simp: obs_fail obs_join_group split: prod.split option.split)
  then show ?thesis by (auto simp: join_one_def obs_small obs_fail obs_join_group split: option.split)
qed

lemma obs_join: "obs (snd (dime_client_join E c j s)) = obs s"
  using obs_foreach [of "join_one E c" _ s, OF obs_join_one]
  by (auto simp: dime_client_join_def obs_fail snd_case_bool split: sum.split)

lemma obs_leave_one: "obs (snd (leave_one E c v s)) = obs s"
  by (auto simp: leave_one_def obs_small obs_fail Let_def split: option.split intro!: trans [OF obs_list])

lemma obs_leave: "obs (snd (dime_client_leave E c j s)) = obs s"
  using obs_foreach [of "leave_one E c" _ s, OF obs_leave_one]
  by (auto simp: dime_client_leave_def obs_fail snd_case_bool split: sum.split)

lemmas obs_simps = obs_small obs_push obs_fail obs_new_group obs_join_group obs_join_one obs_join obs_leave_one obs_leave

end

end
