(* ===== verification/Server_Inv.thy ===== *)
theory Server_Inv
  imports Observation
begin

text \<open>
  What every command keeps, whatever its outcome and even after a fault: the invariant of the
  stores, the table of descriptors, and the bytes that have been received and not yet been
  parsed.  The message loop ends because of the latter.
\<close>

section \<open>The input side of the clients\<close>

definition inputs :: "dime_server \<Rightarrow>
  bool \<times> (int, addr) dime_table \<times> (addr \<rightharpoonup> int \<times> dime_ringbuffer \<times> dime_ringbuffer option \<times> bool)" where
  "inputs s = (h_tlsctx s, h_fd2clnt s,
     \<lambda>c. map_option (\<lambda>cl. (c_fd cl, s_rbuf (c_sock cl), s_ws (c_sock cl), s_loop (c_sock cl))) (h_clnts s c))"

named_theorems input_simps \<open>commands leave the input side alone\<close>

lemma inputs_set_clnt:
  assumes "h_clnts s c = Some cl" and "c_fd cl' = c_fd cl" and "s_rbuf (c_sock cl') = s_rbuf (c_sock cl)"
    and "s_ws (c_sock cl') = s_ws (c_sock cl)" and "s_loop (c_sock cl') = s_loop (c_sock cl)"
  shows "inputs (set_clnt c cl' s) = inputs s"
  using assms by (auto simp: inputs_def set_clnt_def fun_eq_iff)

lemma inputs_small [input_simps]:
  "inputs (tick s) = inputs s" "inputs (fault s) = inputs s" "inputs (set_group g gr s) = inputs s"
  "inputs (err_copy msg s) = inputs s" "inputs (err_cat p msg s) = inputs s"
  "inputs (s\<lparr>h_name2clnt := t\<rparr>) = inputs s" "inputs (s\<lparr>h_msgs := ms\<rparr>) = inputs s"
  "inputs (s\<lparr>h_next := n\<rparr>) = inputs s" "inputs (s\<lparr>h_groups := gs\<rparr>) = inputs s"
  "inputs (s\<lparr>h_serialization := x\<rparr>) = inputs s"
  by (simp_all add: inputs_def tick_def fault_def set_group_def err_copy_def err_cat_def Let_def)

interpretation inp: observation inputs
  by unfold_locales
    (auto simp: inputs_def tick_def fault_def set_group_def err_copy_def err_cat_def Let_def set_clnt_def fun_eq_iff)

lemmas inputs_foreach = inp.obs_foreach

lemmas inputs_groups [input_simps] = inp.obs_push inp.obs_fail inp.obs_new_group inp.obs_join inp.obs_leave

section \<open>Messages\<close>

lemma inputs_refs [input_simps]:
  "inputs (free_if_unused m s) = inputs s" "inputs (add_refs d m s) = inputs s"
  by (simp_all add: free_if_unused_def add_refs_def input_simps split: option.split)

lemma inputs_new_message [input_simps]: "inputs (snd (new_message E j bin s)) = inputs s"
  by (auto simp: new_message_def Let_def inputs_def tick_def split: option.split)

lemma inputs_notify [input_simps]: "inputs (snd (notify E d s)) = inputs s"
  by (auto simp: notify_def input_simps split_beta Let_def split: option.split)

lemma inputs_get: "inputs s' = inputs s \<Longrightarrow> h_clnts s c = Some cl \<Longrightarrow>
    \<exists>cl'. h_clnts s' c = Some cl' \<and> c_fd cl' = c_fd cl \<and> s_rbuf (c_sock cl') = s_rbuf (c_sock cl) \<and>
      s_ws (c_sock cl') = s_ws (c_sock cl) \<and> s_loop (c_sock cl') = s_loop (c_sock cl)"
proof -
  assume a: "inputs s' = inputs s" "h_clnts s c = Some cl"
  let ?f = "\<lambda>cl. (c_fd cl, s_rbuf (c_sock cl), s_ws (c_sock cl), s_loop (c_sock cl))"
  have "(\<lambda>c. map_option ?f (h_clnts s' c)) = (\<lambda>c. map_option ?f (h_clnts s c))"
    using a(1) by (simp add: inputs_def)
  then have "map_option ?f (h_clnts s' c) = map_option ?f (h_clnts s c)" by (rule fun_cong)
  then show ?thesis using a(2) by (cases "h_clnts s' c") auto
qed

lemma inputs_deliver [input_simps]: "inputs (snd (deliver E c m d s)) = inputs s"
proof (cases "h_clnts s d")
  case None
  then show ?thesis by (simp add: deliver_def input_simps)
next
  case (Some cl)
  obtain rc q where push: "dime_deque_pushr (e_ok E (h_tick s) 0) (c_queue cl) m = (rc, q)"
    by (cases "dime_deque_pushr (e_ok E (h_tick s) 0) (c_queue cl) m")
  let ?s = "tick (set_clnt d (cl\<lparr>c_queue := q\<rparr>) s)"
  have s: "inputs ?s = inputs s" by (simp add: input_simps inputs_set_clnt [OF Some])
  obtain go s2 where n: "notify E d ?s = (go, s2)" by (cases "notify E d ?s")
  have s2: "inputs s2 = inputs s" using inputs_notify [of E d ?s] n s by simp
  have "inputs (set_clnt d (x\<lparr>c_waiting := False\<rparr>) s2) = inputs s" if "h_clnts s2 d = Some x" for x
    by (subst inputs_set_clnt [OF that]) (simp_all add: s2)
  then show ?thesis using s s2 n
    by (auto simp: deliver_def Some push Let_def input_simps split: bool.split option.split)
qed

lemma inputs_send [input_simps]: "inputs (snd (dime_client_send E c j bin s)) = inputs s"
proof -
  have loop: "inputs (snd (foreach (deliver E c m) ds s1)) = inputs s1" for m ds s1
    by (rule inputs_foreach) (rule inputs_deliver)
  have "inputs s2 = inputs s1" if "new_message E j bin s1 = (r, s2)" for r s1 s2
    using inputs_new_message [of E j bin s1] that by simp
  then have new: "inputs s2 = inputs s" if "new_message E j bin (s\<lparr>h_name2clnt := t\<rparr>) = (r, s2)" for r t s2
    using that by (metis inputs_small(6))
  have "inputs (snd (case new_message E j bin (s\<lparr>h_name2clnt := t\<rparr>) of
        (None, s) \<Rightarrow> (-1, fail_errno E c s)
      | (Some m, s) \<Rightarrow>
          (case foreach (deliver E c m) ds s of
             (False, s) \<Rightarrow> (-1, s)
           | (True, s) \<Rightarrow> if no_refs m s then (-1, fault s) else reply_ok E c s))) = inputs s" for t ds
    using new loop by (auto simp: snd_case_bool input_simps split: prod.split option.split)
  then show ?thesis by (auto simp: dime_client_send_def input_simps Let_def split: sum.split option.split)
qed

lemma inputs_broadcast [input_simps]: "inputs (snd (dime_client_broadcast E c j bin s)) = inputs s"
proof -
  have one: "inputs (snd (deliver_other E c m d s)) = inputs s" for m d s
    by (auto simp: deliver_other_def input_simps split: option.split)
  have loop: "inputs (snd (foreach (deliver_other E c m) ds s1)) = inputs s1" for m ds s1
    by (rule inputs_foreach) (rule one)
  have new: "inputs s1 = inputs s" if "new_message E j bin s = (r, s1)" for r s1
    using inputs_new_message [of E j bin s] that by simp
  show ?thesis using new loop
    by (auto simp: dime_client_broadcast_def snd_case_bool input_simps split: prod.split option.split)
qed

lemma inputs_sync_loop: "inputs (snd (sync_loop E c n s)) = inputs s"
proof (induction n arbitrary: s)
  case 0
  then show ?case by simp
next
  case (Suc n)
  show ?case
  proof (cases "h_clnts s c")
    case None
    then show ?thesis by (simp add: input_simps)
  next
    case (Some cl)
    obtain r queue where pop: "dime_deque_popl (c_queue cl) = (r, queue)" by (cases "dime_deque_popl (c_queue cl)")
    let ?s = "set_clnt c (cl\<lparr>c_queue := queue\<rparr>) s"
    have s0: "inputs ?s = inputs s" by (simp add: inputs_set_clnt [OF Some])
    have push: "inputs s1 = inputs s" if "clnt_push_str E c str bin ?s = (rc, s1)" for str bin rc s1
      using inp.obs_push(2) [of E c str bin ?s] that s0 by simp
    have undo: "inputs (set_clnt c (x\<lparr>c_queue := q\<rparr>) s1) = inputs s1" if "h_clnts s1 c = Some x" for s1 x q
      by (subst inputs_set_clnt [OF that]) simp_all
    show ?thesis
      using push undo s0 Suc.IH
      by (auto simp: Some pop input_simps Let_def split: option.split prod.split)
  qed
qed

lemma inputs_sync [input_simps]: "inputs (snd (dime_client_sync E c j s)) = inputs s"
  using inputs_sync_loop [of E c _ s]
  by (auto simp: dime_client_sync_def input_simps snd_case_bool split: option.split)

lemma inputs_wait [input_simps]: "inputs (snd (dime_client_wait E c s)) = inputs s"
  by (auto simp: dime_client_wait_def input_simps snd_case_bool split: option.split intro!: inputs_set_clnt)

lemma inputs_devices_loop: "inputs (snd (devices_loop E gs arr s)) = inputs s"
  by (induction gs arbitrary: arr s) (auto simp: input_simps split: option.split)

lemma inputs_devices [input_simps]: "inputs (snd (dime_client_devices E c s)) = inputs s"
proof -
  have "inputs s1 = inputs s" if "devices_loop E gs arr (tick s) = (r, s1)" for gs arr r s1
    using inputs_devices_loop [of E gs arr "tick s"] that by (simp add: input_simps)
  note [simp] = inputs_devices_loop
  show ?thesis
    by (auto simp: dime_client_devices_def input_simps split_beta Let_def split: option.split)
qed

section \<open>Handshake and dispatch\<close>

lemma inputs_negotiate [input_simps]: "inputs (snd (negotiate E c i s)) = inputs s"
proof -
  have "inputs (snd (foreach (reregister_one E c str) ds s1)) = inputs s1" for str ds s1
    by (rule inputs_foreach) (simp add: reregister_one_def split_beta input_simps)
  then show ?thesis
    by (auto simp: negotiate_def input_simps snd_case_bool split: option.split)
qed

lemma inputs_start_tls: "inputs (snd (start_tls E c s)) = inputs s"
  by (auto simp: start_tls_def input_simps Let_def same_input_def dest!: init_tls_same
    split: option.split tls_outcome.split intro!: inputs_set_clnt)

lemma inputs_handshake:
  assumes "env_ok E"
  shows "inputs (snd (dime_client_handshake E c j s)) = inputs s"
proof -
  have neg: "inputs s1 = inputs s" if "negotiate E c i s = (go, s1)" for i go s1
    using inputs_negotiate [of E c i s] that by simp
  have answer: "inputs (snd (case e_pack E (h_tick s1) args of
        None \<Rightarrow> (-1, tick s1)
      | Some response \<Rightarrow>
          (let (rc, s) = clnt_push E c response (tick s1)
           in if rc < 0 then (-1, s) else if tls then start_tls E c s else (0, s)))) = inputs s1" for args tls s1
    by (simp add: inputs_start_tls input_simps split_beta Let_def split: option.split)
  have "inputs (snd (case negotiate E c i s of
         (False, s) \<Rightarrow> (-1, s)
       | (True, s) \<Rightarrow>
           (let serialization = serialization_name (h_serialization s) str; tls = (tls \<and> h_tlsctx s)
            in case e_pack E (h_tick s) [(''status'', PInt 0), (''serialization'', PStr serialization), (''tls'', PBool tls)] of
                 None \<Rightarrow> (-1, tick s)
               | Some response \<Rightarrow>
                   (let (rc, s) = clnt_push E c response (tick s)
                    in if rc < 0 then (-1, s) else if tls then start_tls E c s else (0, s))))) = inputs s" for i str tls
  proof -
    obtain go s1 where n: "negotiate E c i s = (go, s1)" by (cases "negotiate E c i s")
    show ?thesis unfolding n Let_def using neg [OF n] answer [unfolded Let_def] by (cases go) simp_all
  qed
  then show ?thesis
    by (auto simp: dime_client_handshake_def input_simps split: sum.split option.split)
qed

lemma inputs_dispatch:
  assumes "env_ok E"
  shows "inputs (snd (dispatch E c j bin s)) = inputs s"
  by (simp add: dispatch_def Let_def input_simps inputs_handshake [OF assms])

section \<open>The message loop ends\<close>

text \<open>What the message loop keeps: the descriptors of the clients.\<close>

definition conns :: "dime_server \<Rightarrow> bool \<times> (addr \<rightharpoonup> int)" where
  "conns s = (h_tlsctx s, \<lambda>c. map_option c_fd (h_clnts s c))"

lemma conns_fd: "conns s' = conns s \<Longrightarrow> map_option c_fd (h_clnts s' c) = map_option c_fd (h_clnts s c)"
  unfolding conns_def by (metis Pair_inject)

lemma conns_inputs: "inputs s' = inputs s \<Longrightarrow> conns s' = conns s"
proof -
  assume a: "inputs s' = inputs s"
  have "map_option c_fd (h_clnts s' c) = map_option c_fd (h_clnts s c)" for c
  proof (cases "h_clnts s c")
    case None
    then have "h_clnts s' c = None" using inputs_get [OF a [symmetric], of c] by (cases "h_clnts s' c") auto
    then show ?thesis using None by simp
  next
    case (Some cl)
    then show ?thesis using inputs_get [OF a Some] by auto
  qed
  then show ?thesis using a by (simp add: conns_def inputs_def)
qed

lemma conns_small [simp]:
  "conns (tick s) = conns s" "conns (fault s) = conns s" "conns (err_copy msg s) = conns s"
  by (simp_all add: conns_def tick_def fault_def err_copy_def)

lemma conns_set_clnt: "h_clnts s c = Some cl \<Longrightarrow> c_fd cl' = c_fd cl \<Longrightarrow> conns (set_clnt c cl' s) = conns s"
  by (auto simp: conns_def set_clnt_def fun_eq_iff)

lemma set_sock_alive:
  assumes "alive c s" and "h_clnts s c = Some cl" and "sock_inv sock"
  shows "alive c (tick (set_clnt c (cl\<lparr>c_sock := sock\<rparr>) s))"
    and "conns (tick (set_clnt c (cl\<lparr>c_sock := sock\<rparr>) s)) = conns s"
proof -
  have inv: "srv_inv s" using assms(1) by (simp add: alive_def)
  show "alive c (tick (set_clnt c (cl\<lparr>c_sock := sock\<rparr>) s))"
    using set_clnt_inv(1) [OF inv assms(2), of "cl\<lparr>c_sock := sock\<rparr>"] srv_inv_parts(7,9) [OF inv assms(2)] assms(3)
    by (simp add: alive_def)
  show "conns (tick (set_clnt c (cl\<lparr>c_sock := sock\<rparr>) s)) = conns s"
    using conns_set_clnt [OF assms(2)] by simp
qed

lemma alive_err [simp]: "alive c (err_copy msg s) = alive c s"
  by (simp add: alive_def err_copy_def srv_inv_def tables_ok_def groups_ok_def clnts_ok_def fresh_ok_def
    group_name_def member_def has_group_def)

definition unread_of :: "dime_server \<Rightarrow> addr \<Rightarrow> nat" where
  "unread_of s c = (case h_clnts s c of None \<Rightarrow> 0 | Some cl \<Rightarrow> unread (c_sock cl))"

lemma unread_of_inputs: "inputs s' = inputs s \<Longrightarrow> h_clnts s c = Some cl \<Longrightarrow> unread_of s' c = unread (c_sock cl)"
  using inputs_get [of s' s c cl] by (auto simp: unread_of_def unread_def)

text \<open>One turn of the loop.\<close>

lemma message_turn:
  assumes env: "env_ok E" and s: "alive c s" and cl: "h_clnts s c = Some cl"
  obtains r sock where
    "dime_socket_pop (e_loadb E) (e_errno E (h_tick s)) (e_ok E (h_tick s)) (c_sock cl) = Some (r, sock)"
    and "alive c (tick (set_clnt c (cl\<lparr>c_sock := sock\<rparr>) s))"
    and "conns (tick (set_clnt c (cl\<lparr>c_sock := sock\<rparr>) s)) = conns s"
    and "\<And>siz j bin s'. r = Pop_Message siz j bin \<Longrightarrow>
      s' = snd (dispatch E c j bin (tick (set_clnt c (cl\<lparr>c_sock := sock\<rparr>) s))) \<Longrightarrow>
      alive c s' \<and> conns s' = conns s \<and> unread_of s' c + 12 \<le> unread_of s c"
proof -
  have sock: "sock_inv (c_sock cl)" using s by (auto simp: alive_def intro: srv_inv_parts(8) [OF _ cl])
  obtain r sock' where pop:
    "dime_socket_pop (e_loadb E) (e_errno E (h_tick s)) (e_ok E (h_tick s)) (c_sock cl) = Some (r, sock')"
    using pop_total [OF sock] by fastforce
  have sock': "sock_inv sock'" using pop_inv [OF sock pop] by simp
  let ?s = "tick (set_clnt c (cl\<lparr>c_sock := sock'\<rparr>) s)"
  note s1 = set_sock_alive [OF s cl sock']
  have "alive c s' \<and> conns s' = conns s \<and> unread_of s' c + 12 \<le> unread_of s c"
    if r: "r = Pop_Message siz j bin" and s': "s' = snd (dispatch E c j bin ?s)" for siz j bin s'
  proof -
    have bin: "length bin \<le> ALLOC_MAX" by (rule pop_bin_len [OF sock pop [unfolded r]])
    have i: "inputs s' = inputs ?s" unfolding s' by (rule inputs_dispatch [OF env])
    have "unread_of s' c = unread sock'" using unread_of_inputs [OF i, of c "cl\<lparr>c_sock := sock'\<rparr>"] by simp
    moreover have "unread sock' + 12 \<le> unread_of s c"
      using pop_unread [OF sock pop] r cl by (simp add: unread_of_def)
    ultimately show ?thesis
      using conns_inputs [OF i] s1(2) dispatch_alive [OF env s1(1) bin] s' by simp
  qed
  then show thesis using that [OF pop s1] by blast
qed

lemma message_loop_alive:
  assumes env: "env_ok E"
  shows "alive c s \<Longrightarrow> message_loop n E c s = Some (go, s') \<Longrightarrow> alive c s' \<and> conns s' = conns s"
proof (induction n arbitrary: s)
  case 0
  then show ?case by simp
next
  case (Suc n)
  obtain cl where cl: "h_clnts s c = Some cl" using Suc.prems(1) by (auto simp: alive_def)
  obtain r sock where pop:
    "dime_socket_pop (e_loadb E) (e_errno E (h_tick s)) (e_ok E (h_tick s)) (c_sock cl) = Some (r, sock)"
    and s1: "alive c (tick (set_clnt c (cl\<lparr>c_sock := sock\<rparr>) s))"
      "conns (tick (set_clnt c (cl\<lparr>c_sock := sock\<rparr>) s)) = conns s"
    and msg: "\<And>siz j bin s'. r = Pop_Message siz j bin \<Longrightarrow>
      s' = snd (dispatch E c j bin (tick (set_clnt c (cl\<lparr>c_sock := sock\<rparr>) s))) \<Longrightarrow>
      alive c s' \<and> conns s' = conns s \<and> unread_of s' c + 12 \<le> unread_of s c"
    by (rule message_turn [OF env Suc.prems(1) cl]) blast
  show ?case
  proof (cases r)
    case (Pop_Message siz j bin)
    let ?s = "snd (dispatch E c j bin (tick (set_clnt c (cl\<lparr>c_sock := sock\<rparr>) s)))"
    have "message_loop n E c ?s = Some (go, s')" using Suc.prems(2) cl pop Pop_Message by (simp add: Let_def)
    then show ?thesis using Suc.IH [of ?s] msg [OF Pop_Message refl] by simp
  qed (use Suc.prems(2) s1 cl pop in \<open>auto simp: Let_def\<close>)
qed

text \<open>Each message takes at least 12 of the bytes that have been received, so the loop ends.\<close>

lemma message_loop_ends:
  assumes env: "env_ok E"
  shows "alive c s \<Longrightarrow> unread_of s c < 12 * n \<Longrightarrow> message_loop n E c s \<noteq> None"
proof (induction n arbitrary: s)
  case 0
  then show ?case by simp
next
  case (Suc n)
  obtain cl where cl: "h_clnts s c = Some cl" using Suc.prems(1) by (auto simp: alive_def)
  obtain r sock where pop:
    "dime_socket_pop (e_loadb E) (e_errno E (h_tick s)) (e_ok E (h_tick s)) (c_sock cl) = Some (r, sock)"
    and msg: "\<And>siz j bin s'. r = Pop_Message siz j bin \<Longrightarrow>
      s' = snd (dispatch E c j bin (tick (set_clnt c (cl\<lparr>c_sock := sock\<rparr>) s))) \<Longrightarrow>
      alive c s' \<and> conns s' = conns s \<and> unread_of s' c + 12 \<le> unread_of s c"
    by (rule message_turn [OF env Suc.prems(1) cl]) blast
  show ?case
  proof (cases r)
    case (Pop_Message siz j bin)
    let ?s = "snd (dispatch E c j bin (tick (set_clnt c (cl\<lparr>c_sock := sock\<rparr>) s)))"
    have "message_loop n E c ?s \<noteq> None"
      using Suc.IH [of ?s] Suc.prems(2) msg [OF Pop_Message refl] by simp
    then show ?thesis using cl pop Pop_Message by (simp add: Let_def)
  qed (use cl pop in \<open>auto simp: Let_def\<close>)
qed

end
