(* ===== verification/Server_Close.thy ===== *)
theory Server_Close
  imports Server_Inv
begin

text \<open>
  Closing a connection: \<^verbatim>\<open>dime_client_destroy\<close> and the steps around it take a client out of the
  table, out of the watched descriptors and out of every group, and release its messages, except
  when its queue is full.
\<close>

section \<open>Destroying a client\<close>

lemma queue_iter:
  assumes "dq_inv q"
  shows "dime_deque_iter_run (Suc (d_cap q)) q (dime_deque_iter_init q) =
    Some (if dq_full q then [] else map Some (dq_list q))"
proof (cases "dq_full q")
  case True
  then show ?thesis using dime_deque_iter_full [OF assms] by simp
next
  case False
  have b: "d_begin q < d_cap q" "d_cap q < 2 ^ 63" "d_len q < d_cap q"
    using dq_inv_bounds [OF assms] False by (auto simp: dq_full_def)
  have "dime_deque_iter_run (Suc (d_cap q)) q (dime_deque_iter_init q) = Some (dq_cells q)"
    using dime_deque_iter_run_from [OF assms b(3), of 0 "Suc (d_cap q)" "dime_deque_iter_init q"] b
    by (simp add: dime_deque_iter_init_def wrap_inc_def sz_add_sub_one [simplified] dq_cells_def)
  then show ?thesis using False dq_cells_list [OF assms] by simp
qed

lemma fewer_msgs_refl [simp]: "fewer_msgs ms ms"
  by (simp add: fewer_msgs_def)

lemma fold_drop_message_any:
  "\<exists>M b. fold drop_message vs s = s\<lparr>h_msgs := M, h_fault := b\<rparr> \<and> fewer_msgs (h_msgs s) M"
proof (induction vs arbitrary: s)
  case Nil
  then show ?case by (intro exI [of _ "h_msgs s"] exI [of _ "h_fault s"]) simp
next
  case (Cons v vs)
  obtain M1 b1 where one: "drop_message v s = s\<lparr>h_msgs := M1, h_fault := b1\<rparr>" "fewer_msgs (h_msgs s) M1"
  proof (cases "v = None \<or> h_msgs s (the v) = None")
    case True
    then have "drop_message v s = s\<lparr>h_msgs := h_msgs s, h_fault := True\<rparr>"
      by (cases v) (auto simp: drop_message_def add_refs_def free_if_unused_def fault_def)
    then show thesis using that fewer_msgs_refl by blast
  next
    case False
    then obtain m msg where m: "v = Some m" "h_msgs s m = Some msg" by auto
    let ?msg = "msg\<lparr>m_refs := m_refs msg - 1\<rparr>"
    have "drop_message v s =
        s\<lparr>h_msgs := (h_msgs s)(m := (if m_refs msg - 1 = 0 then None else Some ?msg)), h_fault := h_fault s\<rparr>"
      using m by (simp add: drop_message_def add_refs_def free_if_unused_def)
    moreover have "fewer_msgs (h_msgs s) ((h_msgs s)(m := (if m_refs msg - 1 = 0 then None else Some ?msg)))"
      using m by (auto simp: fewer_msgs_def split: if_splits)
    ultimately show thesis using that by blast
  qed
  obtain M b where rest: "fold drop_message vs (s\<lparr>h_msgs := M1, h_fault := b1\<rparr>) =
      (s\<lparr>h_msgs := M1, h_fault := b1\<rparr>)\<lparr>h_msgs := M, h_fault := b\<rparr>"
    "fewer_msgs (h_msgs (s\<lparr>h_msgs := M1, h_fault := b1\<rparr>)) M"
    using Cons.IH [of "s\<lparr>h_msgs := M1, h_fault := b1\<rparr>"] by blast
  have "fewer_msgs (h_msgs s) M" using rest(2) by (intro fewer_msgs_trans [OF one(2)]) simp
  moreover have "fold drop_message (v # vs) s = s\<lparr>h_msgs := M, h_fault := b\<rparr>" using one(1) rest(1) by simp
  ultimately show ?case by blast
qed

text \<open>\<open>G\<close> are the groups of \<open>s\<close> with \<open>c\<close> taken out of those it is in.\<close>

definition groups_without :: "addr \<Rightarrow> dime_client \<Rightarrow> dime_server \<Rightarrow> (addr \<rightharpoonup> dime_group) \<Rightarrow> bool" where
  "groups_without c cl s G \<longleftrightarrow>
     (\<forall>g. if g \<in> set (c_groups cl) then \<exists>gr gr'. h_groups s g = Some gr \<and> G g = Some gr' \<and> without c gr gr'
      else G g = h_groups s g)"

lemma groups_without_get:
  assumes inv: "srv_inv s" and cl: "h_clnts s c = Some cl" and G: "groups_without c cl s G"
  shows "case (h_groups s g, G g) of
      (Some gr, Some gr') \<Rightarrow> without c gr gr' | (None, None) \<Rightarrow> True | _ \<Rightarrow> False"
proof (cases "g \<in> set (c_groups cl)")
  case True
  then obtain gr gr' where "h_groups s g = Some gr" "G g = Some gr'" "without c gr gr'"
    using G [unfolded groups_without_def, rule_format, of g] by auto
  then show ?thesis by simp
next
  case False
  then have same: "G g = h_groups s g" using G by (auto simp: groups_without_def)
  have "without c gr gr" if gr: "h_groups s g = Some gr" for gr
  proof -
    have "\<not> has_group s c g" using False cl by (simp add: has_group_def)
    then have "\<not> member s c g" using srv_inv_parts(5) [OF inv] by simp
    then have "c \<notin> set (g_clnts gr)" using gr by (simp add: member_def)
    then show ?thesis using srv_inv_parts(6) [OF inv gr] by (simp add: without_def)
  qed
  then show ?thesis using same by (cases "h_groups s g") simp_all
qed

lemma destroy_eq:
  assumes inv: "srv_inv s" and cl: "h_clnts s c = Some cl"
    and s0: "h_groups s0 = h_groups s" "h_clnts s0 c = Some cl" "h_msgs s0 = h_msgs s"
  obtains G M b where "dime_client_destroy c s0 = s0\<lparr>h_groups := G, h_msgs := M, h_fault := b\<rparr>"
    and "groups_without c cl s G" and "fewer_msgs (h_msgs s) M"
    and "dq_full (c_queue cl) \<Longrightarrow> M = h_msgs s \<and> b = h_fault s0"
    and "\<And>X. \<not> dq_full (c_queue cl) \<Longrightarrow> refs_leak X s \<Longrightarrow>
      refs_upto X {} ((queue_of s)(c := [])) M \<and> b = h_fault s0"
proof -
  have ex: "\<forall>g \<in> set (c_groups cl). h_groups s0 g \<noteq> None"
    unfolding s0 using client_groups_exist [OF inv cl] by (metis option.distinct(1))
  have arr: "\<forall>g gr. h_groups s0 g = Some gr \<longrightarrow> array_ok (g_clnts gr) (g_clnts_cap gr)"
    unfolding s0 using srv_inv_parts(6) [OF inv] by blast
  have dist: "distinct (c_groups cl)" using srv_inv_parts(7) [OF inv cl] by (simp add: array_ok_def)
  obtain G where G: "fold (quit_group c) (c_groups cl) s0 = s0\<lparr>h_groups := G\<rparr>" "groups_without c cl s G"
    using fold_quit_group [OF ex arr dist] unfolding groups_without_def s0 by blast
  let ?s = "s0\<lparr>h_groups := G\<rparr>"
  let ?vs = "if dq_full (c_queue cl) then [] else map Some (dq_list (c_queue cl))"
  have run: "dime_client_destroy c s0 = fold drop_message ?vs ?s"
    using queue_iter [OF srv_inv_parts(9) [OF inv cl]] by (simp add: dime_client_destroy_def s0(2) G(1))
  consider "dq_full (c_queue cl)" | X where "\<not> dq_full (c_queue cl) \<and> refs_leak X s"
    | "\<not> dq_full (c_queue cl) \<and> (\<nexists>X. refs_leak X s)" by blast
  then show thesis
  proof cases
    case 1
    then have "dime_client_destroy c s0 = s0\<lparr>h_groups := G, h_msgs := h_msgs s, h_fault := h_fault s0\<rparr>"
      using run by (simp flip: s0(3))
    then show thesis using that [where G = G and M = "h_msgs s" and b = "h_fault s0"] G(2) 1 by simp
  next
    case 2
    note True = 2
    have q: "queue_of s = (queue_of s)(c := dq_list (c_queue cl))"
      by (simp add: queue_of_def cl fun_eq_iff)
    have freed: "\<exists>M. fold drop_message (map Some (dq_list (c_queue cl))) ?s = ?s\<lparr>h_msgs := M\<rparr> \<and>
      refs_upto Y {} ((queue_of s)(c := [])) M \<and> fewer_msgs (h_msgs ?s) M" if "refs_leak Y s" for Y
    proof (rule fold_drop_message)
      show "refs_upto Y {} ((queue_of s)(c := dq_list (c_queue cl))) (h_msgs ?s)"
        using that q by (simp add: refs_leak_def s0)
    qed (use holders_few(1) [OF inv] in blast)
    obtain M where M: "fold drop_message (map Some (dq_list (c_queue cl))) ?s = ?s\<lparr>h_msgs := M\<rparr>"
      "fewer_msgs (h_msgs ?s) M"
      using freed True by blast
    have all: "refs_upto Y {} ((queue_of s)(c := [])) M" if leak: "refs_leak Y s" for Y
    proof -
      obtain M' where M': "?s\<lparr>h_msgs := M\<rparr> = ?s\<lparr>h_msgs := M'\<rparr>" "refs_upto Y {} ((queue_of s)(c := [])) M'"
        using freed [OF leak] M(1) by auto
      have "M = M'" using arg_cong [OF M'(1), of h_msgs] by simp
      then show ?thesis using M'(2) by simp
    qed
    have "dime_client_destroy c s0 = s0\<lparr>h_groups := G, h_msgs := M, h_fault := h_fault s0\<rparr>"
      using run M(1) True by simp
    then show thesis using that [where G = G and M = M and b = "h_fault s0"] G(2) M(2) all True s0(3) by simp
  next
    case 3
    obtain M b where M: "fold drop_message ?vs ?s = ?s\<lparr>h_msgs := M, h_fault := b\<rparr>" "fewer_msgs (h_msgs ?s) M"
      using fold_drop_message_any by blast

    have "dime_client_destroy c s0 = s0\<lparr>h_groups := G, h_msgs := M, h_fault := b\<rparr>"
      using run M(1) by simp
    then show thesis using that [where G = G and M = M and b = b] G(2) M(2) 3 s0(3) by simp
  qed
qed

section \<open>Closing a connection\<close>

text \<open>\<open>s'\<close> is \<open>s\<close> without the client \<open>c\<close>.\<close>

definition closed :: "addr \<Rightarrow> dime_client \<Rightarrow> dime_server \<Rightarrow> dime_server \<Rightarrow> bool" where
  "closed c cl s s' \<longleftrightarrow>
     srv_inv s' \<and> h_tlsctx s' = h_tlsctx s \<and> h_clnts s' = (h_clnts s)(c := None) \<and>
     table_map (h_fd2clnt s') = (table_map (h_fd2clnt s))(c_fd cl := None) \<and>
     table_live (h_fd2clnt s') = table_live (h_fd2clnt s) \<and> h_name2clnt s' = h_name2clnt s \<and> h_next s' = h_next s \<and>
     membership s' = membership s - {c} \<times> UNIV \<and> fewer_msgs (h_msgs s) (h_msgs s') \<and>
     (dq_full (c_queue cl) \<longrightarrow> h_msgs s' = h_msgs s \<and> h_fault s' = h_fault s) \<and>
     (\<not> dq_full (c_queue cl) \<longrightarrow> (\<forall>X. refs_leak X s \<longrightarrow> refs_leak X s' \<and> h_fault s' = h_fault s))"

lemma closed_inv:
  assumes inv: "srv_inv s" and cl: "h_clnts s c = Some cl" and G: "groups_without c cl s G"
    and t: "table_inv t" "table_map t = (table_map (h_fd2clnt s))(c_fd cl := None)"
    and M: "fewer_msgs (h_msgs s) M"
    and s': "s' = s\<lparr>h_fd2clnt := t, h_groups := G, h_msgs := M, h_fault := b, h_clnts := (h_clnts s)(c := None)\<rparr>"
  shows "srv_inv s'" and "membership s' = membership s - {c} \<times> UNIV"
proof -
  note get = groups_without_get [OF inv cl G]
  have names: "group_name s' = group_name s"
  proof
    fix g show "group_name s' g = group_name s g"
      using get [of g] by (auto simp: s' group_name_def without_def split: option.splits)
  qed
  have mem: "member s' d g \<longleftrightarrow> member s d g \<and> d \<noteq> c" for d g
    using get [of g] by (auto simp: s' member_def without_def split: option.splits)
  have has: "has_group s' d g \<longleftrightarrow> has_group s d g \<and> d \<noteq> c" for d g by (auto simp: s' has_group_def)
  show "membership s' = membership s - {c} \<times> UNIV" unfolding membership_def mem names by auto
  have arr: "array_ok (g_clnts gr') (g_clnts_cap gr')" if "G g = Some gr'" for g gr'
    using get [of g] that by (auto simp: without_def split: option.splits)
  have other: "c_fd x \<noteq> c_fd cl" if "h_clnts s d = Some x" "d \<noteq> c" for d x
    using same_fd_iff [OF inv cl that(1)] that(2) by auto
  have fd: "table_map t fd = Some d \<longleftrightarrow> (\<exists>x. d \<noteq> c \<and> h_clnts s d = Some x \<and> c_fd x = fd)" for fd d
    using srv_inv_parts(3) [OF inv, of fd d] other cl unfolding t(2) by auto
  have msgs: "msg_ok msg' \<and> m < h_next s" if m: "M m = Some msg'" for m msg'
  proof -
    obtain msg where "h_msgs s m = Some msg" "m_jsondata msg' = m_jsondata msg" "m_bindata msg' = m_bindata msg"
      using M m unfolding fewer_msgs_def by blast
    then show ?thesis using msgs_old [OF inv, of m msg] by (simp add: msg_ok_def)
  qed
  have none: "M a = None" "G a = None" "h_clnts s a = None" if "h_next s \<le> a" for a
    using msgs [of a] get [of a] srv_inv_parts(11) [OF inv that] that
    by (cases "M a"; auto split: option.splits)+
  show "srv_inv s'"
    unfolding srv_inv_def
  proof (intro conjI)
    show "tables_ok s'"
      unfolding tables_ok_def names using inv t(1) fd by (auto simp: s' srv_inv_def tables_ok_def)
    show "groups_ok s'"
      unfolding groups_ok_def mem has using srv_inv_parts(5,7) [OF inv] arr by (auto simp: s')
    show "clnts_ok s'"
      using inv msgs by (auto simp: s' srv_inv_def clnts_ok_def)
    show "fresh_ok s'" using none by (auto simp: s' fresh_ok_def)
    show "\<not> h_tlsctx s'" using srv_inv_parts(12) [OF inv] by (simp add: s')
  qed
qed

text \<open>
  A client with a full queue keeps its references when it is freed: they join the ones that nobody
  gives back.
\<close>

lemma closed_leak:
  assumes inv: "srv_inv s" and cl: "h_clnts s c = Some cl" and closed: "closed c cl s s'" and refs: "refs_leak X s"
  shows "refs_leak (\<lambda>m. X m + (if dq_full (c_queue cl) \<and> m \<in> set (queue_of s c) then 1 else 0)) s'"
    and "h_fault s' = h_fault s"
proof -
  show "h_fault s' = h_fault s" using closed refs by (auto simp: closed_def)
  show "refs_leak (\<lambda>m. X m + (if dq_full (c_queue cl) \<and> m \<in> set (queue_of s c) then 1 else 0)) s'"
  proof (cases "dq_full (c_queue cl)")
    case False
    then show ?thesis using closed refs by (auto simp: closed_def)
  next
    case True
    have q: "queue_of s' = (queue_of s)(c := [])" using closed by (auto simp: closed_def queue_of_def fun_eq_iff)
    have m: "h_msgs s' = h_msgs s" using closed True by (simp add: closed_def)
    let ?Y = "\<lambda>m. X m + (if m \<in> set (queue_of s c) then 1 else 0)"
    have "count_ok (?Y m) False (holders (queue_of s) m - {c}) (h_msgs s m)" for m
    proof -
      have c: "count_ok (X m) False (holders (queue_of s) m) (h_msgs s m)"
        using refs_uptoD(2) [OF refs [unfolded refs_leak_def], of m] by simp
      show ?thesis
      proof (cases "c \<in> holders (queue_of s) m")
        case True
        then have "card (holders (queue_of s) m) = Suc (card (holders (queue_of s) m - {c}))" and "m \<in> set (queue_of s c)"
          using card_Suc_Diff1 [OF holders_few(1) [OF inv, of m] True] by (simp_all add: holders_def)
        then show ?thesis using c True by (cases "h_msgs s m") auto
      qed (use c in \<open>simp add: holders_def\<close>)
    qed
    moreover have "holders (queue_of s') m = holders (queue_of s) m - {c}" for m by (auto simp: q holders_def)
    ultimately show ?thesis
      using refs_uptoD(1) [OF refs [unfolded refs_leak_def]] True by (simp add: refs_leak_def refs_upto_def m q)
  qed
qed

lemma drop_client_ok:
  assumes inv: "srv_inv (l_srv L)" and cl: "h_clnts (l_srv L) c = Some cl"
  obtains s' where "drop_client c L = L\<lparr>l_srv := s', l_rfds := l_rfds L - {c_fd cl}, l_wfds := l_wfds L - {c_fd cl}\<rparr>"
    and "closed c cl (l_srv L) s'"
proof -
  let ?s = "l_srv L"
  have here: "table_map (h_fd2clnt ?s) (c_fd cl) \<noteq> None \<or> table_live (h_fd2clnt ?s)"
    using srv_inv_parts(3) [OF inv, of "c_fd cl" c] cl by auto
  obtain t where t: "dime_table_remove (h_fd2clnt ?s) (c_fd cl) = Some (table_map (h_fd2clnt ?s) (c_fd cl), t)"
    "table_inv t" "table_map t = (table_map (h_fd2clnt ?s))(c_fd cl := None)" "table_live t = table_live (h_fd2clnt ?s)"
    by (rule dime_table_remove_ok [OF srv_inv_parts(1) [OF inv] here])
  let ?u = "?s\<lparr>h_fd2clnt := t\<rparr>"
  have s0: "h_groups ?u = h_groups ?s" "h_clnts ?u c = Some cl" "h_msgs ?u = h_msgs ?s" using cl by simp_all
  obtain G M b where d: "dime_client_destroy c ?u = ?u\<lparr>h_groups := G, h_msgs := M, h_fault := b\<rparr>"
    and G: "groups_without c cl ?s G" and M: "fewer_msgs (h_msgs ?s) M"
    and full: "dq_full (c_queue cl) \<Longrightarrow> M = h_msgs ?s \<and> b = h_fault ?u"
    and freed: "\<And>X. \<not> dq_full (c_queue cl) \<Longrightarrow> refs_leak X ?s \<Longrightarrow> refs_upto X {} ((queue_of ?s)(c := [])) M \<and> b = h_fault ?u"
    by (rule destroy_eq [OF inv cl s0]) blast
  define s' where "s' = ?s\<lparr>h_fd2clnt := t, h_groups := G, h_msgs := M, h_fault := b, h_clnts := (h_clnts ?s)(c := None)\<rparr>"
  have run: "drop_client c L = L\<lparr>l_srv := s', l_rfds := l_rfds L - {c_fd cl}, l_wfds := l_wfds L - {c_fd cl}\<rparr>"
    by (simp add: drop_client_def cl t(1) d s'_def Let_def)
  have q: "queue_of s' = (queue_of ?s)(c := [])" by (auto simp: s'_def queue_of_def fun_eq_iff)
  have f: "h_tlsctx s' = h_tlsctx ?s" "h_msgs s' = M" "h_fault s' = b" "h_clnts s' = (h_clnts ?s)(c := None)"
    "h_fd2clnt s' = t" "h_name2clnt s' = h_name2clnt ?s" "h_next s' = h_next ?s"
    by (simp_all add: s'_def)
  have "refs_leak X s' \<and> h_fault s' = h_fault ?s" if "\<not> dq_full (c_queue cl)" "refs_leak X ?s" for X
    using freed [OF that] q f(2,3) by (simp add: refs_leak_def)
  then have "closed c cl ?s s'"
    unfolding closed_def using closed_inv [OF inv cl G t(2,3) M s'_def] M full t(3,4) f by simp
  then show thesis using that run by blast
qed

end
