(* ===== verification/Server_Loop.thy ===== *)
theory Server_Loop
  imports Server_Close
begin

text \<open>
  The select loop: what each turn keeps, whatever the operating system answers, and the states
  that are reachable between turns.
\<close>

section \<open>The invariant of the loop\<close>

text \<open>
  A client's descriptor is not one the server listens on, and is watched unless it does not fit
  into the set; only watched descriptors are watched for writing; and as long as no allocation
  fails, every watched descriptor is open.
\<close>

definition clients_watched :: "dime_loop \<Rightarrow> bool" where
  "clients_watched L \<longleftrightarrow>
     (\<forall>c cl. h_clnts (l_srv L) c = Some cl \<longrightarrow>
        c_fd cl \<notin> fst ` set (l_fds L) \<and> (c_fd cl \<in> l_rfds L \<or> FD_SETSIZE \<le> c_fd cl))"

definition loop_inv :: "'j env \<Rightarrow> dime_loop \<Rightarrow> bool" where
  "loop_inv E L \<longleftrightarrow>
     srv_inv (l_srv L) \<and> \<not> h_tlsctx (l_srv L) \<and> clients_watched L \<and> l_wfds L \<subseteq> l_rfds L \<and>
     ((\<forall>t i. e_ok E t i) \<longrightarrow> select_ok L)"

lemma loop_inv_inv: "loop_inv E L \<Longrightarrow> srv_inv (l_srv L)"
  by (simp add: loop_inv_def)

lemma conns_open: "conns s' = conns s \<Longrightarrow>
    {c_fd cl |c cl. h_clnts s' c = Some cl} = {c_fd cl |c cl. h_clnts s c = Some cl}"
proof -
  assume a: "conns s' = conns s"
  have "(\<exists>cl. h_clnts s' c = Some cl \<and> c_fd cl = x) \<longleftrightarrow> (\<exists>cl. h_clnts s c = Some cl \<and> c_fd cl = x)" for c x
    using conns_fd [OF a, of c] by (cases "h_clnts s c"; cases "h_clnts s' c") auto
  then show ?thesis by (intro Collect_cong) metis
qed

text \<open>Changes of the server that keep the descriptors of the clients.\<close>

lemma loop_inv_srv:
  assumes L: "loop_inv E L" and s': "srv_inv s'" "conns s' = conns (l_srv L)"
  shows "loop_inv E (L\<lparr>l_srv := s'\<rparr>)"
proof -
  have "c_fd cl \<notin> fst ` set (l_fds L) \<and> (c_fd cl \<in> l_rfds L \<or> FD_SETSIZE \<le> c_fd cl)"
    if some: "h_clnts s' c = Some cl" for c cl
  proof -
    obtain x where "h_clnts (l_srv L) c = Some x" "c_fd x = c_fd cl"
      using conns_fd [OF s'(2), of c] some by (cases "h_clnts (l_srv L) c") auto
    then show ?thesis using L unfolding loop_inv_def clients_watched_def by metis
  qed
  then have "clients_watched (L\<lparr>l_srv := s'\<rparr>)" by (simp add: clients_watched_def)
  moreover have "h_tlsctx s' = h_tlsctx (l_srv L)" using s'(2) by (simp add: conns_def)
  ultimately show ?thesis
    using L s'(1) conns_open [OF s'(2)] by (simp add: loop_inv_def select_ok_def open_fds_def)
qed

lemma loop_inv_fault [simp]: "loop_inv E L \<Longrightarrow> loop_inv E (fault_loop L)"
  unfolding fault_loop_def by (rule loop_inv_srv) (simp_all add: loop_inv_def)

lemma loop_inv_alive:
  assumes "loop_inv E L" and "alive c s'" and "conns s' = conns (l_srv L)"
  shows "loop_inv E (L\<lparr>l_srv := s'\<rparr>)"
  by (rule loop_inv_srv [OF assms(1) _ assms(3)]) (use assms(2) in \<open>simp add: alive_def\<close>)

section \<open>Closing\<close>

lemma drop_client_inv:
  assumes L: "loop_inv E L" and cl: "h_clnts (l_srv L) c = Some cl"
  shows "loop_inv E (drop_client c L)"
proof -
  have inv: "srv_inv (l_srv L)" using L by (rule loop_inv_inv)
  obtain s' where d: "drop_client c L =
      L\<lparr>l_srv := s', l_rfds := l_rfds L - {c_fd cl}, l_wfds := l_wfds L - {c_fd cl}\<rparr>"
    and s': "closed c cl (l_srv L) s'"
    by (rule drop_client_ok [OF inv cl])
  have other: "c_fd x \<noteq> c_fd cl" if "h_clnts (l_srv L) b = Some x" "b \<noteq> c" for b x
    using same_fd_iff [OF inv cl that(1)] that(2) by auto
  have clnts: "h_clnts s' = (h_clnts (l_srv L))(c := None)" using s' by (simp add: closed_def)
  have "x \<in> open_fds (drop_client c L)" if x: "x \<in> open_fds L" "x \<noteq> c_fd cl" for x
  proof (cases "x \<in> fst ` set (l_fds L)")
    case True
    then show ?thesis by (simp add: d open_fds_def)
  next
    case False
    then obtain b y where y: "h_clnts (l_srv L) b = Some y" "x = c_fd y" using x(1) by (auto simp: open_fds_def)
    then have "h_clnts s' b = Some y" using x(2) cl by (auto simp: clnts)
    then show ?thesis using y(2) by (auto simp: d open_fds_def)
  qed
  then have "select_ok (drop_client c L)" if "select_ok L"
    using that by (auto simp: select_ok_def d)
  moreover have "clients_watched (drop_client c L)"
    using L other by (auto simp: d clnts clients_watched_def loop_inv_def)
  ultimately show ?thesis using L s' by (auto simp: loop_inv_def d closed_def)
qed

section \<open>Finding a client\<close>

lemma conns_search [simp]: "conns (s\<lparr>h_fd2clnt := t\<rparr>) = conns s"
  by (simp add: conns_def)

lemma srv_inv_search_fd:
  assumes "srv_inv s" and "table_inv t" and "table_map t = table_map (h_fd2clnt s)"
  shows "srv_inv (s\<lparr>h_fd2clnt := t\<rparr>)"
  using assms by (simp add: srv_inv_def tables_ok_def groups_ok_def clnts_ok_def fresh_ok_def
    group_name_def member_def has_group_def)

lemma find_client_cases:
  assumes L: "loop_inv E L"
  obtains (dead) "find_client i L = None"
  | (none) L' where "find_client i L = Some (None, L')" and "loop_inv E L'" and "l_fds L' = l_fds L"
      and "l_rfds L' = l_rfds L" and "l_wfds L' = l_wfds L" and "open_fds L' = open_fds L"
  | (found) c cl L' where "find_client i L = Some (Some c, L')" and "loop_inv E L'" and "l_fds L' = l_fds L"
      and "h_clnts (l_srv L') c = Some cl" and "c_fd cl = i"
      and "l_rfds L' = l_rfds L" and "l_wfds L' = l_wfds L" and "open_fds L' = open_fds L"
proof (rule table_search_cases [OF srv_inv_parts(1) [OF loop_inv_inv [OF L]], of i])
  assume "dime_table_search (h_fd2clnt (l_srv L)) i = None"
  then show thesis using dead by (simp add: find_client_def)
next
  fix t
  assume t: "dime_table_search (h_fd2clnt (l_srv L)) i = Some (table_map (h_fd2clnt (l_srv L)) i, t)"
    "table_inv t" "table_map t = table_map (h_fd2clnt (l_srv L))"
  let ?L = "L\<lparr>l_srv := (l_srv L)\<lparr>h_fd2clnt := t\<rparr>\<rparr>"
  have inv: "srv_inv (l_srv L)" by (rule loop_inv_inv [OF L])
  have L': "loop_inv E ?L" by (rule loop_inv_srv [OF L srv_inv_search_fd [OF inv t(2,3)]]) simp
  have run: "find_client i L = Some (table_map (h_fd2clnt (l_srv L)) i, ?L)" using t(1) by (simp add: find_client_def)
  have op: "open_fds ?L = open_fds L" by (simp add: open_fds_def)
  show thesis
  proof (cases "table_map (h_fd2clnt (l_srv L)) i")
    case None
    then show thesis using none [OF _ L'] run op by simp
  next
    case (Some c)
    then obtain cl where "h_clnts (l_srv L) c = Some cl" "c_fd cl = i" using srv_inv_parts(3) [OF inv] by blast
    then show thesis using found [OF _ L', of c cl] run Some op by simp
  qed
qed

section \<open>Accepting\<close>

lemma t_len_few:
  assumes inv: "srv_inv s"
  shows "t_len (h_fd2clnt s) \<le> 2 ^ 31"
proof -
  let ?t = "h_fd2clnt s"
  have t: "table_inv ?t" by (rule srv_inv_parts(1) [OF inv])
  have "t_len ?t = length (map fst (table_entries (t_arr ?t)))"
    using t by (simp add: table_inv_def length_table_entries)
  also have "\<dots> = card (dom (table_map ?t))"
    using t distinct_card [of "map fst (table_entries (t_arr ?t))"]
    by (simp add: table_map_def dom_map_of_conv_image_fst table_inv_def keys_distinct_def)
  also have "dom (table_map ?t) = (\<lambda>c. c_fd (the (h_clnts s c))) ` dom (h_clnts s)"
    using srv_inv_parts(3) [OF inv] by (force simp: dom_def image_iff)
  also have "card \<dots> \<le> card (dom (h_clnts s))" by (rule card_image_le [OF clients_few(1) [OF inv]])
  finally show ?thesis using clients_few(2) [OF inv] by simp
qed

lemma insert_client_cases:
  assumes inv: "srv_inv s" and fd: "table_map (h_fd2clnt s) fd = None"
  obtains (full) "dime_table_insert ok (h_fd2clnt s) fd c = Some (-1, h_fd2clnt s)" and "\<not> ok 0"
  | (inserted) t where "dime_table_insert ok (h_fd2clnt s) fd c = Some (0, t)" and "table_inv t"
      and "table_map t = (table_map (h_fd2clnt s))(fd \<mapsto> c)"
proof -
  let ?t = "h_fd2clnt s"
  note ins = dime_table_insert_ok [OF srv_inv_parts(1) [OF inv] fd, of ok c]
  show thesis
  proof (cases "t_len ?t = t_cap ?t \<and> \<not> alloc_ok (ok 0) (t_cap ?t * 64)")
    case True
    then have "t_cap ?t \<le> 2 ^ 31" using t_len_few [OF inv] by simp
    then have "\<not> ok 0" using True by (simp add: alloc_ok_def ALLOC_MAX_def)
    then show thesis using ins True full by simp
  next
    case False
    then obtain t where t: "dime_table_insert ok ?t fd c = Some (0, t)" "table_inv t"
        "table_map t = (table_map ?t)(fd \<mapsto> c)"
      using ins unfolding if_not_P [OF False] by blast
    then show thesis by (rule inserted)
  qed
qed

lemma open_fds_clnt: "h_clnts (l_srv L) c = Some cl \<Longrightarrow> c_fd cl \<in> open_fds L"
  by (auto simp: open_fds_def)

lemma open_fds_mono:
  assumes "l_fds L' = l_fds L" and "\<And>c cl. h_clnts (l_srv L) c = Some cl \<Longrightarrow> h_clnts (l_srv L') c = Some cl"
  shows "open_fds L \<subseteq> open_fds L'"
  unfolding open_fds_def assms(1) using assms(2) by blast

text \<open>A client as \<^verbatim>\<open>dime_client_init\<close> leaves it.\<close>

definition new_client_ok :: "dime_client \<Rightarrow> bool" where
  "new_client_ok cl \<longleftrightarrow> 0 \<le> c_fd cl \<and> c_fd cl < 2 ^ 31 \<and> c_groups cl = [] \<and>
     array_ok (c_groups cl) (c_groups_cap cl) \<and> sock_inv (c_sock cl) \<and> dq_inv (c_queue cl)"

lemma add_client_inv:
  assumes inv: "srv_inv s" and c: "h_clnts s c = None" "c < h_next s" and cl: "new_client_ok cl"
    and t: "table_inv t" "table_map t = (table_map (h_fd2clnt s))(c_fd cl \<mapsto> c)"
    and fd: "table_map (h_fd2clnt s) (c_fd cl) = None"
  shows "srv_inv (set_clnt c cl (s\<lparr>h_fd2clnt := t\<rparr>))"
proof -
  let ?s = "set_clnt c cl (s\<lparr>h_fd2clnt := t\<rparr>)"
  have names: "group_name ?s = group_name s" "member ?s = member s"
    by (simp_all add: group_name_def member_def fun_eq_iff)
  have has: "has_group ?s d g \<longleftrightarrow> has_group s d g" for d g
    using c(1) cl by (auto simp: has_group_def new_client_ok_def)
  have free: "c_fd x \<noteq> c_fd cl" if "h_clnts s d = Some x" for d x
    using srv_inv_parts(3) [OF inv, of "c_fd cl" d] fd that by auto
  have keys: "table_map t f = Some d \<longleftrightarrow> (\<exists>x. h_clnts ?s d = Some x \<and> c_fd x = f)" for f d
    using srv_inv_parts(3) [OF inv, of f d] free c(1) unfolding t(2) by auto
  show ?thesis
    unfolding srv_inv_def
  proof (intro conjI)
    show "tables_ok ?s" unfolding tables_ok_def names using inv t(1) keys by (simp add: srv_inv_def tables_ok_def)
    show "groups_ok ?s" unfolding groups_ok_def names has
      using srv_inv_parts(5-7) [OF inv] cl by (auto simp: new_client_ok_def)
    show "clnts_ok ?s" using inv cl by (auto simp: srv_inv_def clnts_ok_def new_client_ok_def)
    show "fresh_ok ?s" using srv_inv_parts(11) [OF inv] c(2) by (auto simp: fresh_ok_def)
    show "\<not> h_tlsctx ?s" using srv_inv_parts(12) [OF inv] by simp
  qed
qed

lemma watch_fields [simp]:
  "l_fds (watch fd L) = l_fds L" "l_wfds (watch fd L) = l_wfds L"
  "h_clnts (l_srv (watch fd L)) = h_clnts (l_srv L)" "h_tlsctx (l_srv (watch fd L)) = h_tlsctx (l_srv L)"
  "srv_inv (l_srv (watch fd L)) = srv_inv (l_srv L)" "open_fds (watch fd L) = open_fds L"
  "l_rfds (watch fd L) = (if fd < FD_SETSIZE then insert fd (l_rfds L) else l_rfds L)"
  by (simp_all add: watch_def fault_loop_def open_fds_def) (simp add: fault_def)

lemma register_client_inv:
  assumes L: "loop_inv E L" and c: "h_clnts (l_srv L) c = None" "c < h_next (l_srv L)" and cl: "new_client_ok cl"
    and fd: "c_fd cl \<notin> open_fds L"
  shows "loop_inv E (register_client E c cl L)"
proof -
  let ?s = "l_srv L"
  have inv: "srv_inv ?s" by (rule loop_inv_inv [OF L])
  have "\<nexists>d x. h_clnts ?s d = Some x \<and> c_fd x = c_fd cl" using fd by (auto simp: open_fds_def)
  then have none: "table_map (h_fd2clnt ?s) (c_fd cl) = None"
    using srv_inv_parts(3) [OF inv, of "c_fd cl"] by (metis not_None_eq)
  show ?thesis
  proof (rule insert_client_cases [OF inv none, of "e_ok E (h_tick ?s)" c])
    assume full: "dime_table_insert (e_ok E (h_tick ?s)) (h_fd2clnt ?s) (c_fd cl) c = Some (-1, h_fd2clnt ?s)"
      and no: "\<not> e_ok E (h_tick ?s) 0"
    let ?L = "L\<lparr>l_srv := tick (err_copy (e_errno E (h_tick ?s)) ?s)\<rparr>"
    have "srv_inv (err_copy msg ?s)" for msg using srv_inv_same [OF inv same_err(1)] .
    then have "loop_inv E ?L" using inv by (intro loop_inv_srv [OF L]) simp_all
    then have "loop_inv E (watch (c_fd cl) ?L)" using no by (auto simp: loop_inv_def clients_watched_def)
    then show ?thesis using full by (simp add: register_client_def Let_def)
  next
    fix t
    assume t: "dime_table_insert (e_ok E (h_tick ?s)) (h_fd2clnt ?s) (c_fd cl) c = Some (0, t)" "table_inv t"
      "table_map t = (table_map (h_fd2clnt ?s))(c_fd cl \<mapsto> c)"
    let ?u = "tick (set_clnt c cl (?s\<lparr>h_fd2clnt := t\<rparr>))"
    have s': "srv_inv ?u" using add_client_inv [OF inv c cl t(2,3) none] by simp
    have clnts: "h_clnts ?u = (h_clnts ?s)(c \<mapsto> cl)" by simp
    have tls: "h_tlsctx ?u = h_tlsctx ?s" by (simp add: tick_def set_clnt_def)
    have "c_fd cl \<in> open_fds (L\<lparr>l_srv := ?u\<rparr>)" by (rule open_fds_clnt [of _ c]) simp
    moreover have "open_fds L \<subseteq> open_fds (L\<lparr>l_srv := ?u\<rparr>)" by (rule open_fds_mono) (use c(1) in auto)
    moreover have "c_fd cl \<notin> fst ` set (l_fds L)" using fd by (simp add: open_fds_def)
    ultimately have "loop_inv E (watch (c_fd cl) (L\<lparr>l_srv := ?u\<rparr>))"
      using L s' tls by (auto simp: loop_inv_def clients_watched_def clnts select_ok_def)
    then show ?thesis using t(1) by (simp add: register_client_def Let_def)
  qed
qed

lemma ws_outcome_inv:
  assumes "dime_socket_init_ws n W sock = Ws_Return rc sock' sent" and "sock_inv sock" and "0 \<le> rc"
  shows "sock_inv sock'"
  using assms dime_ringbuffer_init_ok(1)
  by (auto simp: dime_socket_init_ws_def ws_answer_def ws_reply_def ws_fail_def sock_inv_def set_err_def
    split: if_splits option.splits list.splits prod.splits)

lemma accept_client_inv:
  assumes L: "loop_inv E L" and a: "answers_ok a L"
  shows "loop_inv E (snd (snd (accept_client E a protocol L)))"
proof -
  let ?s = "tick (l_srv L)" and ?t = "h_tick (l_srv L)"
  have inv: "srv_inv ?s" using loop_inv_inv [OF L] by simp
  have L0: "loop_inv E (L\<lparr>l_srv := ?s\<rparr>)" by (rule loop_inv_srv [OF L inv]) simp
  have clear: "loop_inv E (L\<lparr>l_srv := ?s\<lparr>h_err := ''''\<rparr>\<rparr>)"
  proof (rule loop_inv_srv [OF L])
    show "srv_inv (?s\<lparr>h_err := ''''\<rparr>)" using srv_inv_same [OF inv same_err(1), of "''''"] by (simp add: err_copy_def)
    show "conns (?s\<lparr>h_err := ''''\<rparr>) = conns (l_srv L)" by (simp add: conns_def tick_def)
  qed
  show ?thesis
  proof (cases "e_ok E ?t 0 \<and> \<not> a_accept a < 0 \<and> (\<exists>cl. dime_client_init (\<lambda>i. e_ok E ?t (Suc i)) (a_accept a) (a_stack a) (a_peer a) = Client_Ready cl)")
    case False
    then show ?thesis
      using clear loop_inv_fault [OF clear] by (auto simp: accept_client_def Let_def split: client_init.split)
  next
    case True
    then obtain cl where init: "dime_client_init (\<lambda>i. e_ok E ?t (Suc i)) (a_accept a) (a_stack a) (a_peer a) = Client_Ready cl" by auto
    note i = dime_client_init_ok [OF init]
    let ?c = "h_next ?s"
    let ?L = "L\<lparr>l_srv := ?s\<lparr>h_next := Suc ?c\<rparr>\<rparr>"
    have L': "loop_inv E ?L" by (rule loop_inv_srv [OF L srv_inv_next [OF inv]]) (simp add: conns_def tick_def)
    have c: "h_clnts (l_srv ?L) ?c = None" "?c < h_next (l_srv ?L)" using srv_inv_parts(11) [OF inv] by simp_all
    have ok: "new_client_ok (cl\<lparr>c_sock := sock\<rparr>)" if "sock_inv sock" for sock
      using i that a True by (auto simp: new_client_ok_def answers_ok_def)
    have fd: "c_fd (cl\<lparr>c_sock := sock\<rparr>) \<notin> open_fds ?L" for sock
      using a True i by (simp add: answers_ok_def open_fds_def)
    have reg: "loop_inv E (register_client E ?c (cl\<lparr>c_sock := sock\<rparr>) ?L)" if "sock_inv sock" for sock
      by (rule register_client_inv [OF L' c ok [OF that] fd])
    have same: "cl\<lparr>c_sock := c_sock cl\<rparr> = cl" by simp
    have ws: "sock_inv sock" if "dime_socket_init_ws n W (c_sock cl) = Ws_Return rc sock sent" "0 \<le> rc" for n W rc sock sent
      using ws_outcome_inv [OF that(1) _ that(2)] i by simp
    show ?thesis
      using True init L' reg ws i reg [of "c_sock cl", unfolded same] loop_inv_fault [OF L']
      by (auto simp: accept_client_def Let_def split: ws_outcome.split)
  qed
qed

section \<open>Receiving and sending\<close>

lemma recvpartial_inv:
  assumes "sock_inv sock" and "\<And>bs. recv RECVBUFLEN = Some bs \<Longrightarrow> length bs \<le> RECVBUFLEN"
  shows "sock_inv (snd (dime_socket_recvpartial e ok recv sock))"
proof (cases "recv RECVBUFLEN")
  case None
  then show ?thesis using assms(1) by (simp add: dime_socket_recvpartial_def sock_inv_def set_err_def)
next
  case (Some bs)
  have len: "length bs \<le> ALLOC_MAX" using assms(2) [OF Some] by (simp add: RECVBUFLEN_def ALLOC_MAX_def)
  have w: "rb_inv (snd (dime_ringbuffer_write k r bs))" if "rb_inv r" for k r
    using dime_ringbuffer_write_step [OF that len] by blast
  show ?thesis
    using assms(1) w [of "s_rbuf sock"]
    by (auto simp: dime_socket_recvpartial_def Some Let_def split_beta sock_inv_def set_err_def w split: option.split)
qed

text \<open>After a client's socket has been used.\<close>

lemma loop_inv_sock:
  assumes L: "loop_inv E L" and cl: "h_clnts (l_srv L) c = Some cl" and sock: "sock_inv sock"
  shows "loop_inv E (L\<lparr>l_srv := tick (set_clnt c (cl\<lparr>c_sock := sock\<rparr>) (l_srv L))\<rparr>)"
    and "alive c (tick (set_clnt c (cl\<lparr>c_sock := sock\<rparr>) (l_srv L)))"
    and "conns (tick (set_clnt c (cl\<lparr>c_sock := sock\<rparr>) (l_srv L))) = conns (l_srv L)"
proof -
  have "alive c (l_srv L)" using loop_inv_inv [OF L] cl by (simp add: alive_def)
  note s = set_sock_alive [OF this cl sock]
  show "alive c (tick (set_clnt c (cl\<lparr>c_sock := sock\<rparr>) (l_srv L)))"
    and "conns (tick (set_clnt c (cl\<lparr>c_sock := sock\<rparr>) (l_srv L))) = conns (l_srv L)" by (fact s)+
  then show "loop_inv E (L\<lparr>l_srv := tick (set_clnt c (cl\<lparr>c_sock := sock\<rparr>) (l_srv L))\<rparr>)"
    by (rule loop_inv_alive [OF L])
qed

lemma serve_input_inv:
  assumes env: "env_ok E" and L: "loop_inv E L" and cl: "h_clnts (l_srv L) c = Some cl"
    and recv: "\<And>bs. a_recv a RECVBUFLEN = Some bs \<Longrightarrow> length bs \<le> RECVBUFLEN"
    and run: "serve_input E a c fuel L = Some (here, go, L')"
  shows "loop_inv E L' \<and> (here \<longrightarrow> h_clnts (l_srv L') c \<noteq> None)"
proof -
  let ?s = "l_srv L"
  obtain n sock where r: "dime_socket_recvpartial (e_errno E (h_tick ?s)) (e_ok E (h_tick ?s)) (a_recv a) (c_sock cl) = (n, sock)"
    by (cases "dime_socket_recvpartial (e_errno E (h_tick ?s)) (e_ok E (h_tick ?s)) (a_recv a) (c_sock cl)")
  have sock: "sock_inv sock"
    using recvpartial_inv [OF srv_inv_parts(8) [OF loop_inv_inv [OF L] cl] recv] r by (metis snd_conv)
  let ?u = "tick (set_clnt c (cl\<lparr>c_sock := sock\<rparr>) ?s)"
  note u = loop_inv_sock [OF L cl sock]
  show ?thesis
  proof (cases "n \<le> 0")
    case True
    have "loop_inv E (drop_client c (L\<lparr>l_srv := ?u\<rparr>))"
      by (rule drop_client_inv [OF u(1), of _ "cl\<lparr>c_sock := sock\<rparr>"]) simp
    then show ?thesis using run cl r True by (auto simp: serve_input_def Let_def)
  next
    case False
    then obtain s' where s': "message_loop fuel E c ?u = Some (go, s')" "here = go" "L' = L\<lparr>l_srv := s'\<rparr>"
      using run cl r by (auto simp: serve_input_def Let_def)
    note m = message_loop_alive [OF env u(2) s'(1)]
    have "conns s' = conns ?s" using m u(3) by simp
    then show ?thesis using loop_inv_alive [OF L, of c s'] m s'(3) by (simp add: alive_def)
  qed
qed

lemma serve_output_inv:
  assumes L: "loop_inv E L" and cl: "h_clnts (l_srv L) c = Some cl"
  shows "loop_inv E (snd (serve_output E a c L))"
proof -
  let ?s = "l_srv L"
  obtain n sock where r: "dime_socket_sendpartial (e_errno E (h_tick ?s)) (e_ok E (h_tick ?s) 0) (a_send a) (c_sock cl) = (n, sock)"
    by (cases "dime_socket_sendpartial (e_errno E (h_tick ?s)) (e_ok E (h_tick ?s) 0) (a_send a) (c_sock cl)")
  have sock: "sock_inv sock"
    using sendpartial_inv [OF srv_inv_parts(8) [OF loop_inv_inv [OF L] cl]] r by (metis snd_conv)
  note u = loop_inv_sock [OF L cl sock]
  have "loop_inv E (drop_client c (L\<lparr>l_srv := tick (set_clnt c (cl\<lparr>c_sock := sock\<rparr>) ?s)\<rparr>))"
    by (rule drop_client_inv [OF u(1), of _ "cl\<lparr>c_sock := sock\<rparr>"]) simp
  then show ?thesis using u(1) cl r by (simp add: serve_output_def Let_def)
qed

lemma serve_write_inv:
  assumes L: "loop_inv E L" and known: "\<And>c. known = Some c \<Longrightarrow> h_clnts (l_srv L) c \<noteq> None"
  shows "loop_inv E (snd (serve_write E a i known L))"
proof (cases known)
  case (Some c)
  then show ?thesis using L known serve_output_inv [OF L, of c] by (auto simp: serve_write_def)
next
  case None
  show ?thesis
  proof (rule find_client_cases [OF L, of i])
    assume "find_client i L = None"
    then show ?thesis using None L by (simp add: serve_write_def)
  next
    fix L' assume "find_client i L = Some (None, L')" "loop_inv E L'"
    then show ?thesis using None L by (simp add: serve_write_def)
  next
    fix c cl L' assume "find_client i L = Some (Some c, L')" "loop_inv E L'" "h_clnts (l_srv L') c = Some cl"
    then show ?thesis using None L serve_output_inv [of E L' c cl] by (simp add: serve_write_def)
  qed
qed

lemma serve_fd_inv:
  assumes env: "env_ok E" and L: "loop_inv E L" and a: "answers_ok a L"
    and run: "serve_fd E a fuel i L = Some (go, L')"
  shows "loop_inv E L'"
proof (cases "a_readable a")
  case False
  then show ?thesis using run serve_write_inv [OF L, of None a i] by (auto simp: serve_fd_def prod_eq_iff)
next
  case True
  have wr: "loop_inv E L2" if "serve_write E a i known L1 = (go, L2)" "loop_inv E L1"
    "\<And>c. known = Some c \<Longrightarrow> h_clnts (l_srv L1) c \<noteq> None" for known L1 L2
    using serve_write_inv [OF that(2,3), of known a i] that(1) by (simp add: prod_eq_iff)
  show ?thesis
  proof (rule find_client_cases [OF L, of i])
    assume "find_client i L = None"
    then show ?thesis using True run L by (auto simp: serve_fd_def)
  next
    fix L1 assume f: "find_client i L = Some (None, L1)" "loop_inv E L1" "l_fds L1 = l_fds L" "open_fds L1 = open_fds L"
    have a1: "answers_ok a L1" using a f(4) by (simp add: answers_ok_def)
    show ?thesis
    proof (cases "map_of (l_fds L1) i")
      case None
      then show ?thesis using True run f by (simp add: serve_fd_def)
    next
      case (Some protocol)
      obtain more k L2 where acc: "accept_client E a protocol L1 = (more, k, L2)"
        by (cases "accept_client E a protocol L1")
      have L2: "loop_inv E L2" using accept_client_inv [OF f(2) a1, of protocol] acc by simp
      show ?thesis using run wr [of None L2 L'] L2 True f(1) Some acc by (cases more) (auto simp: serve_fd_def)
    qed
  next
    fix c cl L1 assume f: "find_client i L = Some (Some c, L1)" "loop_inv E L1" "h_clnts (l_srv L1) c = Some cl"
    obtain here k L2 where inp: "serve_input E a c fuel L1 = Some (here, k, L2)"
      using run True f(1) by (auto simp: serve_fd_def split: option.splits)
    have "loop_inv E L2 \<and> (here \<longrightarrow> h_clnts (l_srv L2) c \<noteq> None)"
      by (rule serve_input_inv [OF env f(2,3) _ inp]) (use a in \<open>simp add: answers_ok_def\<close>)
    then show ?thesis using run wr [of "Some c" L2 L'] True f(1) inp by (cases here) (auto simp: serve_fd_def)
  qed
qed

section \<open>The reachable states\<close>

lemma refresh_one_inv:
  assumes L: "loop_inv E L"
  shows "loop_inv E (refresh_one i L)"
proof (cases "i \<in> l_rfds L")
  case False
  then show ?thesis using L by (simp add: refresh_one_def)
next
  case True
  have upd: "loop_inv E (L1\<lparr>l_wfds := W\<rparr>)" if "loop_inv E L1" "W \<subseteq> l_rfds L1" for L1 W
    using that by (simp add: loop_inv_def clients_watched_def select_ok_def open_fds_def)
  show ?thesis
  proof (rule find_client_cases [OF L, of i])
    assume "find_client i L = None"
    then show ?thesis using True L by (simp add: refresh_one_def)
  next
    fix L1 assume "find_client i L = Some (None, L1)" "loop_inv E L1"
    then show ?thesis using True by (simp add: refresh_one_def)
  next
    fix c cl L1 assume f: "find_client i L = Some (Some c, L1)" "loop_inv E L1" "h_clnts (l_srv L1) c = Some cl"
      "l_rfds L1 = l_rfds L"
    have "l_wfds L1 \<subseteq> l_rfds L1" using f(2) by (simp add: loop_inv_def)
    then show ?thesis
      using True f upd [OF f(2), of "insert i (l_wfds L1)"] upd [OF f(2), of "l_wfds L1 - {i}"]
      by (auto simp: refresh_one_def)
  qed
qed

lemma refresh_writers_inv: "loop_inv E L \<Longrightarrow> loop_inv E (refresh_writers L)"
proof -
  have "loop_inv E L \<Longrightarrow> loop_inv E (fold refresh_one is L)" for "is"
    by (induction "is" arbitrary: L) (simp_all add: refresh_one_inv)
  then show "loop_inv E L \<Longrightarrow> loop_inv E (refresh_writers L)" by (simp add: refresh_writers_def)
qed

text \<open>The comparison functions decide equality.\<close>

lemma cmp_name_eq: "cmp_name a b = 0 \<longleftrightarrow> a = b"
  by (induction a b rule: cmp_name.induct) auto

lemma cmp_fd_eq: "cmp_fd a b = 0 \<longleftrightarrow> a = b"
  by (auto simp: cmp_fd_def)

lemma server_init_ok:
  assumes "dime_server_init ok = Some L"
  shows "srv_inv (l_srv L)" and "\<not> h_tlsctx (l_srv L)" and "h_clnts (l_srv L) = Map.empty" and "refs_ok (l_srv L)"
proof -
  obtain fd nm where t: "dime_table_init (ok 0) cmp_fd hash_fd = Some fd" "dime_table_init (ok 1) cmp_name hash_name = Some nm"
    and s: "l_srv L = \<lparr>h_err = '''', h_overrun = False, h_tlsctx = False,
        h_serialization = DIME_NO_SERIALIZATION, h_fd2clnt = fd, h_name2clnt = nm,
        h_clnts = Map.empty, h_groups = Map.empty, h_msgs = Map.empty, h_next = 0, h_tick = 0, h_fault = False\<rparr>"
    using assms by (auto simp: dime_server_init_def split: option.splits if_splits)
  note t1 = dime_table_init_ok [OF _ t(1)] and t2 = dime_table_init_ok [OF _ t(2)]
  have "table_inv fd" "table_map fd = Map.empty" "table_inv nm" "table_map nm = Map.empty"
    using t1(1,3) t2(1,3) cmp_fd_eq cmp_name_eq by auto
  then show "srv_inv (l_srv L)"
    by (simp add: s srv_inv_def tables_ok_def groups_ok_def clnts_ok_def fresh_ok_def group_name_def
      member_def has_group_def)
  show "\<not> h_tlsctx (l_srv L)" and "h_clnts (l_srv L) = Map.empty" by (simp_all add: s)
  show "refs_ok (l_srv L)" by (simp add: s refs_leak_def refs_upto_def queue_of_def holders_def)
qed

lemma fold_watch:
  "l_fds (fold watch fds L) = l_fds L \<and> l_wfds (fold watch fds L) = l_wfds L \<and>
   l_rfds (fold watch fds L) \<subseteq> l_rfds L \<union> set fds \<and>
   h_clnts (l_srv (fold watch fds L)) = h_clnts (l_srv L) \<and>
   h_tlsctx (l_srv (fold watch fds L)) = h_tlsctx (l_srv L) \<and>
   srv_inv (l_srv (fold watch fds L)) = srv_inv (l_srv L)"
proof (induction fds arbitrary: L)
  case Nil
  then show ?case by simp
next
  case (Cons fd fds)
  show ?case using Cons [of "watch fd L"] by (auto split: if_splits)
qed

text \<open>The state in which the loop starts to run.\<close>

definition watch_all :: "dime_loop \<Rightarrow> dime_loop" where
  "watch_all L = fold watch (map fst (l_fds L)) (L\<lparr>l_rfds := {}, l_wfds := {}, l_maxfd := -1\<rparr>)"

lemma foreach_listen: "foreach (listen_fd ls) fds L = (True, L') \<longleftrightarrow> (\<forall>fd \<in> set fds. ls fd) \<and> L' = fold watch fds L"
  by (induction fds arbitrary: L) (auto simp: listen_fd_def)

lemma loop_start_go: "loop_start ls L = (True, L') \<longleftrightarrow> (\<forall>fd \<in> fst ` set (l_fds L). ls fd) \<and> L' = watch_all L"
  by (simp add: loop_start_def foreach_listen watch_all_def)

lemma loop_start_inv:
  assumes "dime_server_init ok = Some L"
  shows "loop_inv E (watch_all (L\<lparr>l_fds := fds\<rparr>))"
  using server_init_ok [OF assms] fold_watch [of "map fst fds" "L\<lparr>l_fds := fds, l_rfds := {}, l_wfds := {}, l_maxfd := -1\<rparr>"]
  by (simp add: loop_inv_def watch_all_def clients_watched_def select_ok_def open_fds_def)

lemma reachable_loop_inv:
  assumes env: "env_ok E"
  shows "reachable E L \<Longrightarrow> loop_inv E L"
proof (induction rule: reachable.induct)
  case (start ok L fds ls L0)
  show ?case using loop_start_inv [OF start(1), of E fds] start(4) by (simp add: loop_start_go)
next
  case (step L L')
  show ?case
    by (rule loop_stepE [OF step(2)]) (use serve_fd_inv [OF env step(3)] refresh_writers_inv [OF step(3)] in blast)+
qed

end
