(* ===== verification/Client_Success.thy ===== *)
theory Client_Success
  imports Server_Inv
begin

text \<open>
  When commands succeed: with an allocator that never fails and buffers that are not close to the
  limit of the address space, every command whose request makes sense returns 0.
\<close>

section \<open>Pushing\<close>

text \<open>Nothing outside of the program fails, and no JSON text is longer than \<open>2 ^ 40\<close> bytes.\<close>

definition ample :: "'j env \<Rightarrow> bool" where
  "ample E \<longleftrightarrow> env_ok E \<and> (\<forall>t i. e_ok E t i) \<and> (\<forall>t args. e_pack E t args \<noteq> None) \<and>
     (\<forall>t j. \<exists>str. e_dumps E t j = Some str \<and> length str \<le> 2 ^ 40)"

lemma ample_env: "ample E \<Longrightarrow> env_ok E"
  by (simp add: ample_def)

text \<open>The bytes that are waiting to be sent to a client.\<close>

definition sent_len :: "dime_server \<Rightarrow> addr \<Rightarrow> nat" where
  "sent_len s c = (case h_clnts s c of None \<Rightarrow> 0 | Some cl \<Rightarrow> length (sent_bytes (c_sock cl)))"

text \<open>Only the out-buffer of \<open>c\<close> grows, by at most one message.\<close>

definition grown :: "addr \<Rightarrow> dime_server \<Rightarrow> dime_server \<Rightarrow> bool" where
  "grown c s s' \<longleftrightarrow> (\<forall>d. d \<noteq> c \<longrightarrow> sent_len s' d = sent_len s d) \<and> sent_len s' c \<le> sent_len s c + 2 ^ 41"

lemma grown_refl [simp]: "grown c s s"
  by (simp add: grown_def)

lemma sent_len_same [simp]:
  "sent_len (tick s) = sent_len s" "sent_len (s\<lparr>h_name2clnt := t\<rparr>) = sent_len s"
  "sent_len (s\<lparr>h_msgs := ms\<rparr>) = sent_len s" "sent_len (set_group g gr s) = sent_len s"
  "sent_len (s\<lparr>h_next := n\<rparr>) = sent_len s"
  by (simp_all add: sent_len_def fun_eq_iff)

lemma sent_len_set_clnt:
  "h_clnts s c = Some cl \<Longrightarrow> c_sock cl' = c_sock cl \<Longrightarrow> sent_len (set_clnt c cl' s) = sent_len s"
  by (auto simp: sent_len_def fun_eq_iff)

lemma c_string_id: "0 \<notin> set bs \<Longrightarrow> c_string bs = bs"
  by (auto simp: c_string_def takeWhile_eq_all_conv)

lemma push_str_succeeds:
  assumes E: "ample E" and s: "srv_inv s" "h_clnts s c \<noteq> None" "sent_len s c \<le> 2 ^ 45"
    and str: "length str \<le> 2 ^ 40" "0 \<notin> set str"
  obtains s' rc where "clnt_push_str E c str [] s = (rc, s')" and "\<not> rc < 0" and "grown c s s'"
proof -
  obtain cl where cl: "h_clnts s c = Some cl" using s(2) by auto
  have room: "2 * (length (sent_bytes (c_sock cl)) + 10 + length (wire (str, []))) \<le> ALLOC_MAX"
    using s(3) str(1) by (simp add: sent_len_def cl ALLOC_MAX_def)
  have ok: "\<forall>i. e_ok E (h_tick s) i" using E by (simp add: ample_def)
  have nul: "0 \<notin> set (fst (str, [] :: byte list))" using str(2) by simp
  obtain sock where p: "dime_socket_push_str (e_errno E (h_tick s)) (e_ok E (h_tick s)) (c_sock cl) str [] =
      (int (length (ws_prefix (c_sock cl) (str, [])) + length (wire (str, []))), sock)"
    "sent_bytes sock = sent_bytes (c_sock cl) @ ws_prefix (c_sock cl) (str, []) @ wire (str, [])"
    using push_str_success [OF srv_inv_parts(8) [OF s(1) cl] nul ok room] by auto
  let ?s = "tick (set_clnt c (cl\<lparr>c_sock := sock\<rparr>) s)"
  have run: "clnt_push_str E c str [] s =
      (int (length (ws_prefix (c_sock cl) (str, [])) + length (wire (str, []))), ?s)"
    using p(1) by (simp add: clnt_push_str_def cl Let_def)
  have "sent_len ?s d = (if d = c then length (sent_bytes sock) else sent_len s d)" for d
    by (simp add: sent_len_def)
  moreover have "length (sent_bytes sock) \<le> sent_len s c + 2 ^ 41"
    unfolding p(2) using length_ws_prefix [of "c_sock cl" "(str, [])"] str(1) by (simp add: sent_len_def cl)
  ultimately have "grown c s ?s" by (simp add: grown_def)
  then show thesis using that run by simp
qed

lemma push_succeeds:
  assumes E: "ample E" and s: "srv_inv s" "h_clnts s c \<noteq> None" "sent_len s c \<le> 2 ^ 45"
  obtains s' rc where "clnt_push E c j s = (rc, s')" and "\<not> rc < 0" and "grown c s s'"
proof -
  obtain cl where cl: "h_clnts s c = Some cl" using s(2) by auto
  obtain str where str: "e_dumps E (h_tick s) j = Some str" "length str \<le> 2 ^ 40" using E unfolding ample_def by blast
  have nul: "0 \<notin> set str" using E str(1) by (auto simp: ample_def env_ok_def)
  have "clnt_push E c j s = clnt_push_str E c str [] s"
    using str(1) by (simp add: clnt_push_def clnt_push_str_def cl dime_socket_push_def)
  then show thesis using push_str_succeeds [OF E s str(2) nul] that by metis
qed

lemma STATUS_OK_text: "length STATUS_OK \<le> 2 ^ 40" "0 \<notin> set STATUS_OK"
  by (simp_all only: STATUS_OK_def length_str_bytes) (simp_all add: str_bytes_def)

lemma reply_ok_succeeds:
  assumes E: "ample E" and s: "srv_inv s" "h_clnts s c \<noteq> None" "sent_len s c \<le> 2 ^ 45"
  shows "fst (reply_ok E c s) = 0" and "grown c s (snd (reply_ok E c s))"
  by (rule push_str_succeeds [OF E s STATUS_OK_text], simp add: reply_ok_def)+

section \<open>Delivering\<close>

lemma notify_succeeds:
  assumes E: "ample E" and s: "srv_inv s" "h_clnts s d \<noteq> None" "sent_len s d \<le> 2 ^ 45"
  obtains s' where "notify E d s = (True, s')" and "grown d s s'" and "h_clnts s' d \<noteq> None"
proof -
  obtain cl where cl: "h_clnts s d = Some cl" using s(2) by auto
  obtain j where j: "e_pack E (h_tick s) [(''status'', PInt 0), (''n'', PInt (int (dime_deque_len (c_queue cl))))] = Some j"
    using E unfolding ample_def by blast
  have t: "srv_inv (tick s)" "h_clnts (tick s) d \<noteq> None" "sent_len (tick s) d \<le> 2 ^ 45" using s by simp_all
  obtain s' rc where p: "clnt_push E d j (tick s) = (rc, s')" "\<not> rc < 0" "grown d (tick s) s'"
    by (rule push_succeeds [OF E t])
  have same: "same_but_socks (tick s) s'" using clnt_push_same [OF ample_env [OF E] t(2), of j] p(1) by simp
  have "notify E d s = (True, s')" using p by (simp add: notify_def cl j)
  moreover have "h_clnts s' d \<noteq> None" using same_but_socks_None [OF same] s(2) by simp
  ultimately show thesis using that p(3) by (simp add: grown_def)
qed

lemma deliver_succeeds:
  assumes E: "ample E" and s: "srv_inv s" and d: "h_clnts s d \<noteq> None" "sent_len s d \<le> 2 ^ 45"
    "length (queue_of s d) \<le> 2 ^ 42" and m: "h_msgs s m \<noteq> None"
  shows "fst (deliver E c m d s)" and "grown d s (snd (deliver E c m d s))"
proof -
  obtain cl where cl: "h_clnts s d = Some cl" using d by auto
  have dq: "dq_inv (c_queue cl)" by (rule srv_inv_parts(9) [OF s cl])
  obtain rc q where push: "dime_deque_pushr (e_ok E (h_tick s) 0) (c_queue cl) m = (rc, q)"
    by (cases "dime_deque_pushr (e_ok E (h_tick s) 0) (c_queue cl) m")
  have len: "d_len (c_queue cl) \<le> 2 ^ 42" using d(3) length_dq_list [of "c_queue cl"] by (simp add: queue_of_def cl)
  have rc: "rc = 0"
  proof (cases "d_len (c_queue cl) < d_cap (c_queue cl)")
    case True
    then show ?thesis using dime_deque_pushr_rc [OF dq, of "e_ok E (h_tick s) 0" m] push by simp
  next
    case False
    then have "d_cap (c_queue cl) \<le> 2 ^ 42" using len by simp
    then have "alloc_ok (e_ok E (h_tick s) 0) (3 * d_cap (c_queue cl) div 2 * 8)"
      using E by (simp add: alloc_ok_def ample_def ALLOC_MAX_def)
    then show ?thesis using dime_deque_pushr_rc [OF dq, of "e_ok E (h_tick s) 0" m] push by simp
  qed
  let ?s = "tick (set_clnt d (cl\<lparr>c_queue := q\<rparr>) s)"
  have q: "dq_inv q" using dime_deque_pushr_step [OF dq, of "e_ok E (h_tick s) 0" m] push by simp
  have inv: "srv_inv ?s" using set_clnt_keeps [OF s cl, of "cl\<lparr>c_queue := q\<rparr>"] q by simp
  have sl: "sent_len ?s = sent_len s" using sent_len_set_clnt [OF cl, of "cl\<lparr>c_queue := q\<rparr>"] by simp
  have refs: "sent_len (add_refs k m x) = sent_len x" for k x
    by (simp add: add_refs_def split: option.split) (simp add: sent_len_def fault_def fun_eq_iff)
  obtain s2 where n: "notify E d ?s = (True, s2)" "grown d ?s s2" "h_clnts s2 d \<noteq> None"
    by (rule notify_succeeds [OF E inv]) (use sl d in simp_all)
  then obtain x where x: "h_clnts s2 d = Some x" by auto
  have "sent_len (set_clnt d (x\<lparr>c_waiting := False\<rparr>) s2) = sent_len s2" by (rule sent_len_set_clnt [OF x]) simp
  then have "grown d s (add_refs 1 m (set_clnt d (x\<lparr>c_waiting := False\<rparr>) s2))"
    using n(2) sl by (simp add: grown_def refs)
  moreover have "grown d s (add_refs 1 m ?s)" using sl by (simp add: grown_def refs)
  ultimately show "fst (deliver E c m d s)" and "grown d s (snd (deliver E c m d s))"
    using n(1) x rc by (simp_all add: deliver_def cl push Let_def)
qed

text \<open>A client whose buffers are far from the limits.\<close>

definition roomy :: "dime_server \<Rightarrow> addr \<Rightarrow> bool" where
  "roomy s d \<longleftrightarrow> h_clnts s d \<noteq> None \<and> sent_len s d \<le> 2 ^ 44 \<and> length (queue_of s d) \<le> 2 ^ 42"

lemma foreach_deliver_succeeds:
  assumes E: "ample E"
  shows "alive c s \<Longrightarrow> h_msgs s m \<noteq> None \<Longrightarrow> distinct ds \<Longrightarrow> \<forall>d \<in> set ds. roomy s d \<Longrightarrow>
    fst (foreach (deliver E c m) ds s) \<and>
    sent_len (snd (foreach (deliver E c m) ds s)) x \<le> sent_len s x + (if x \<in> set ds then 2 ^ 41 else 0)"
proof (induction ds arbitrary: s)
  case Nil
  then show ?case by simp
next
  case (Cons d ds)
  obtain msg where msg: "h_msgs s m = Some msg" using Cons.prems(2) by auto
  have a: "srv_inv s" "h_clnts s c \<noteq> None" using Cons.prems(1) by (simp_all add: alive_def)
  have d: "h_clnts s d \<noteq> None" "sent_len s d \<le> 2 ^ 45" "length (queue_of s d) \<le> 2 ^ 42"
    using Cons.prems(4) by (simp_all add: roomy_def)
  obtain out s1 where run: "deliver E c m d s = (out = Delivered, s1)" and eff: "deliver_effect m d msg out s s1"
    by (rule deliver_cases [OF ample_env [OF E] a d(1) msg])
  have go: "out = Delivered" and g: "grown d s s1"
    using deliver_succeeds [OF E a(1) d, of m c] msg run by simp_all
  have s1: "srv_inv s1" "links s1 = links s" "queue_of s1 = (queue_of s)(d := queue_of s d @ [m])" "h_msgs s1 m \<noteq> None"
    using eff go by (simp_all add: deliver_effect_def)
  have "roomy s1 y" if "y \<in> set ds" for y
  proof -
    have "y \<noteq> d" "roomy s y" using that Cons.prems(3,4) by auto
    then show ?thesis using g s1(3) links_clnt [OF s1(2), of y] by (simp add: roomy_def grown_def)
  qed
  then have "fst (foreach (deliver E c m) ds s1) \<and>
    sent_len (snd (foreach (deliver E c m) ds s1)) x \<le> sent_len s1 x + (if x \<in> set ds then 2 ^ 41 else 0)"
    using Cons.IH [OF alive_links [OF Cons.prems(1) s1(1,2)] s1(4)] Cons.prems(3) by simp
  then show ?case using run go g Cons.prems(3) by (auto simp: grown_def)
qed

section \<open>Sending\<close>

lemma new_message_succeeds:
  assumes E: "ample E"
  obtains m s1 where "new_message E j bin s = (Some m, s1)" and "h_msgs s1 m \<noteq> None" and "sent_len s1 = sent_len s"
proof -
  obtain str where "e_dumps E (h_tick s) j = Some str" using E unfolding ample_def by blast
  moreover have "e_ok E (h_tick s) 0" using E by (simp add: ample_def)
  ultimately show thesis using that by (simp add: new_message_def Let_def)
qed

text \<open>From the creation of the message to the reply, for recipients with room.\<close>

lemma deliver_all_succeeds:
  assumes E: "ample E" and s: "alive c s" "sent_len s c \<le> 2 ^ 44" and bin: "length bin \<le> ALLOC_MAX"
    and ds: "distinct ds" "\<forall>d \<in> set ds. roomy s d"
  obtains m s1 s2 where "new_message E j bin s = (Some m, s1)" and "links s1 = links s" and "srv_inv s1"
    and "h_msgs s1 m \<noteq> None" and "foreach (deliver E c m) ds s1 = (True, s2)" and "alive c s2"
    and "sent_len s2 c \<le> 2 ^ 45" and "h_msgs s2 m \<noteq> None" and "\<forall>x. sent_len s2 x \<le> sent_len s x + 2 ^ 41"
proof -
  have env: "env_ok E" by (rule ample_env [OF E])
  obtain m s1 where nm: "new_message E j bin s = (Some m, s1)" "h_msgs s1 m \<noteq> None" "sent_len s1 = sent_len s"
    by (rule new_message_succeeds [OF E])
  have n: "srv_inv s1" "links s1 = links s" "queue_of s1 = queue_of s"
    using new_message_ok [OF env _ bin nm(1)] s(1) by (auto simp: alive_def)
  have a1: "alive c s1" by (rule alive_links [OF s(1) n(1,2)])
  have room: "\<forall>d \<in> set ds. roomy s1 d" using ds(2) n(3) nm(3) links_clnt [OF n(2)] by (simp add: roomy_def)
  obtain go s2 where loop: "foreach (deliver E c m) ds s1 = (go, s2)" by (cases "foreach (deliver E c m) ds s1")
  have all: "sent_len s2 x \<le> sent_len s x + 2 ^ 41" for x
    using foreach_deliver_succeeds [OF E a1 nm(2) ds(1) room, of x] loop nm(3) by (auto split: if_splits)
  have go: "go" "sent_len s2 c \<le> 2 ^ 45"
    using foreach_deliver_succeeds [OF E a1 nm(2) ds(1) room] loop s(2) all [of c] by auto
  have ex: "\<forall>d \<in> set ds. h_clnts s1 d \<noteq> None" using room by (simp add: roomy_def)
  note l = foreach_deliver_alive [OF env a1 nm(2) ex _ loop]
  have "alive c s2" "h_msgs s2 m \<noteq> None" using l go(1) by auto
  then show thesis using that nm(1,2) n(1,2) loop go all by simp
qed

lemma send_succeeds:
  assumes E: "ample E" and s: "alive c s" "sent_len s c \<le> 2 ^ 44" and bin: "length bin \<le> ALLOC_MAX"
    and refs: "refs_leak X s" and nm: "e_unpack_s E j ''name'' = Inr name"
    and d: "(d, name) \<in> membership s" and room: "\<forall>d. (d, name) \<in> membership s \<longrightarrow> roomy s d"
  shows "fst (dime_client_send E c j bin s) = 0"
    and "sent_len (snd (dime_client_send E c j bin s)) x \<le> sent_len s x + 2 ^ 42"
proof -
  have inv: "srv_inv s" using s(1) by (simp add: alive_def)
  obtain g gr where g: "group_name s g = Some name" "h_groups s g = Some gr"
    using d by (auto simp: membership_def group_name_def)
  have mem: "{d. (d, name) \<in> membership s} = set (g_clnts gr)" by (rule members_of_group [OF inv g])
  have tm: "table_map (h_name2clnt s) name = Some g" using srv_inv_parts(4) [OF inv] g(1) by simp
  obtain t where t: "dime_table_search (h_name2clnt s) name = Some (Some g, t)"
    "table_inv t" "table_map t = table_map (h_name2clnt s)"
    by (rule table_search_cases [OF srv_inv_parts(2) [OF inv], of name]) (use tm in auto)
  let ?s = "s\<lparr>h_name2clnt := t\<rparr>"
  have s1: "srv_inv ?s" "h_clnts ?s c \<noteq> None" "refs_leak X ?s"
    using srv_inv_search [OF inv t(2,3)] s(1) refs by (simp_all add: refs_leak_def alive_def)
  then have a1: "alive c ?s" by (simp add: alive_def)
  have ds: "distinct (g_clnts gr)" using srv_inv_parts(6) [OF inv g(2)] by (simp add: array_ok_def)
  have ne: "g_clnts gr \<noteq> []" using mem d by auto
  have room1: "\<forall>d \<in> set (g_clnts gr). roomy ?s d"
    using room unfolding mem [symmetric] by (simp add: roomy_def)
  have ex: "\<forall>d \<in> set (g_clnts gr). h_clnts ?s d \<noteq> None" using room1 by (simp add: roomy_def)
  have sl: "sent_len ?s c \<le> 2 ^ 44" using s(2) by simp
  obtain m s2 s3 where nm2: "new_message E j bin ?s = (Some m, s2)"
    and loop: "foreach (deliver E c m) (g_clnts gr) s2 = (True, s3)" and a3: "alive c s3" "sent_len s3 c \<le> 2 ^ 45"
    and grow: "\<forall>x. sent_len s3 x \<le> sent_len ?s x + 2 ^ 41"
    by (rule deliver_all_succeeds [OF E a1 sl bin ds room1])
  obtain rc s4 where reply: "reply_ok E c (free_if_unused m s3) = (rc, s4)"
    by (cases "reply_ok E c (free_if_unused m s3)")
  have un: "free_if_unused m s3 = s3" "\<not> no_refs m s3"
    using send_end(3) [OF ample_env [OF E] s1(1,2,3) bin nm2 ds ex loop reply ne] by simp_all
  have r: "fst (reply_ok E c s3) = 0" "grown c s3 (snd (reply_ok E c s3))"
    using reply_ok_succeeds [OF E, of s3 c] a3 by (simp_all add: alive_def)
  have run: "dime_client_send E c j bin s = reply_ok E c s3"
    using nm t(1) g(2) ne nm2 loop un by (simp add: dime_client_send_def Let_def)
  show "fst (dime_client_send E c j bin s) = 0" using r(1) run by simp
  have "sent_len (snd (reply_ok E c s3)) x \<le> sent_len s3 x + 2 ^ 41"
    using r(2) unfolding grown_def by (cases "x = c") simp_all
  moreover have "sent_len s3 x \<le> sent_len s x + 2 ^ 41" using grow by simp
  ultimately show "sent_len (snd (dime_client_send E c j bin s)) x \<le> sent_len s x + 2 ^ 42" unfolding run by simp
qed

lemma broadcast_succeeds:
  assumes E: "ample E" and s: "alive c s" and bin: "length bin \<le> ALLOC_MAX"
    and room: "\<forall>d \<in> dom (h_clnts s). roomy s d"
  shows "fst (dime_client_broadcast E c j bin s) = 0"
proof -
  have env: "env_ok E" by (rule ample_env [OF E])
  have inv: "srv_inv s" "h_clnts s c \<noteq> None" using s by (simp_all add: alive_def)
  obtain ds where ds: "table_walk (h_fd2clnt s) = Some ds" "distinct ds" "set ds = dom (h_clnts s)"
    by (rule walk_clients [OF inv(1)])
  let ?ds = "filter (\<lambda>d. d \<noteq> c) ds"
  have room1: "\<forall>d \<in> set ?ds. roomy s d" using room ds(3) by simp
  have sl: "sent_len s c \<le> 2 ^ 44" using room inv(2) by (auto simp: roomy_def)
  have dist: "distinct ?ds" using ds(2) by simp
  obtain m s1 s2 where nm: "new_message E j bin s = (Some m, s1)" "links s1 = links s" "srv_inv s1" "h_msgs s1 m \<noteq> None"
    and loop: "foreach (deliver E c m) ?ds s1 = (True, s2)" and a2: "alive c s2" "sent_len s2 c \<le> 2 ^ 45" "h_msgs s2 m \<noteq> None"
    by (rule deliver_all_succeeds [OF E s sl bin dist room1])
  obtain msg where msg: "h_msgs s1 m = Some msg" using nm(4) by auto
  have ex: "\<forall>d \<in> set ds. h_clnts s1 d \<noteq> None" "h_clnts s1 c \<noteq> None"
    using ds(3) links_clnt [OF nm(2)] inv(2) by auto
  have loop1: "foreach (deliver_other E c m) ds s1 = (True, s2)"
    using foreach_deliver_other [OF env nm(3) ex(2,1) msg] loop by simp
  have fr: "alive c (free_if_unused m s2)" by (rule free_if_unused_alive [OF a2(1,3)])
  have "sent_len (free_if_unused m s2) = sent_len s2"
    using a2(3) by (auto simp: free_if_unused_def)
  then have "fst (reply_ok E c (free_if_unused m s2)) = 0"
    using reply_ok_succeeds [OF E, of "free_if_unused m s2" c] fr a2(2) by (simp add: alive_def)
  then show ?thesis
    using nm(1) ds(1) links_eq(1) [OF nm(2)] loop1 by (simp add: dime_client_broadcast_def)
qed

section \<open>Joining\<close>

lemma t_len_card:
  assumes "table_inv t"
  shows "t_len t = card (dom (table_map t))" and "finite (dom (table_map t))"
proof -
  have "t_len t = length (map fst (table_entries (t_arr t)))"
    using assms by (simp add: table_inv_def length_table_entries)
  then show "t_len t = card (dom (table_map t))"
    using assms distinct_card [of "map fst (table_entries (t_arr t))"]
    by (simp add: table_map_def dom_map_of_conv_image_fst table_inv_def keys_distinct_def)
  show "finite (dom (table_map t))" by (simp add: table_map_def finite_dom_map_of)
qed

lemma client_groups_few:
  assumes inv: "srv_inv s" and cl: "h_clnts s c = Some cl"
  shows "length (c_groups cl) \<le> t_len (h_name2clnt s)"
proof -
  let ?nm = "\<lambda>g. g_name (the (h_groups s g))"
  have t: "table_inv (h_name2clnt s)" by (rule srv_inv_parts(2) [OF inv])
  have named: "group_name s g = Some (?nm g)" if g: "g \<in> set (c_groups cl)" for g
  proof -
    obtain gr where "h_groups s g = Some gr" by (rule client_groups_exist [OF inv cl g])
    then show ?thesis by (simp add: group_name_def)
  qed
  have inj: "inj_on ?nm (set (c_groups cl))"
  proof (rule inj_onI)
    fix x y assume xy: "x \<in> set (c_groups cl)" "y \<in> set (c_groups cl)" "?nm x = ?nm y"
    show "x = y"
      by (rule group_name_inj [OF inv named [OF xy(2)]]) (use named [OF xy(1)] xy(3) in simp)
  qed
  have sub: "?nm ` set (c_groups cl) \<subseteq> dom (table_map (h_name2clnt s))"
    using named srv_inv_parts(4) [OF inv] by blast
  have "length (c_groups cl) = card (set (c_groups cl))"
    using srv_inv_parts(7) [OF inv cl] by (simp add: array_ok_def distinct_card)
  also have "\<dots> = card (?nm ` set (c_groups cl))" by (simp add: card_image [OF inj])
  also have "\<dots> \<le> card (dom (table_map (h_name2clnt s)))" by (rule card_mono [OF t_len_card(2) [OF t] sub])
  finally show ?thesis using t_len_card(1) [OF t] by simp
qed

lemma array_room_succeeds:
  assumes "array_ok xs cap" and "length xs \<le> 2 ^ 41"
  shows "array_room True (length xs) cap \<noteq> None"
proof (cases "length xs \<ge> cap")
  case True
  then have cap: "cap \<le> 2 ^ 41" using assms by simp
  have "cap * 3 div 2 \<le> 2 * cap" by simp
  then have "cap * 3 div 2 \<le> 2 ^ 42" using cap by simp
  then show ?thesis using cap
    by (simp add: array_room_def Let_def sz_mul_def alloc_ok_def ALLOC_MAX_def PTR_SIZE_def)
next
  case False
  then show ?thesis by (simp add: array_room_def)
qed

lemma join_group_succeeds:
  assumes E: "ample E" and inv: "srv_inv s" and cl: "h_clnts s c = Some cl" and gr: "h_groups s g = Some gr"
    and few: "length (c_groups cl) \<le> 2 ^ 41"
  obtains s' where "join_group E c g s = (True, s')" and "h_name2clnt s' = h_name2clnt s" and "sent_len s' = sent_len s"
proof -
  have ok: "e_ok E t i" for t i using E by (simp add: ample_def)
  have arr: "array_ok (c_groups cl) (c_groups_cap cl)" "array_ok (g_clnts gr) (g_clnts_cap gr)"
    using srv_inv_parts(7) [OF inv cl] srv_inv_parts(6) [OF inv gr] by simp_all
  have "h_clnts s d \<noteq> None" if "d \<in> set (g_clnts gr)" for d
    by (rule group_members_exist [OF inv gr that]) simp
  then have "length (g_clnts gr) < 2 ^ 32" using length_few [OF inv] arr(2) by (simp add: array_ok_def)
  then have "length (g_clnts gr) \<le> 2 ^ 41" by simp
  then obtain k1 k2 where k: "array_room True (length (c_groups cl)) (c_groups_cap cl) = Some k1"
    "array_room True (length (g_clnts gr)) (g_clnts_cap gr) = Some k2"
    using array_room_succeeds [OF arr(1) few] array_room_succeeds [OF arr(2)] by auto
  let ?x = "cl\<lparr>c_groups_cap := k1\<rparr>" and ?y = "cl\<lparr>c_groups := c_groups cl @ [g], c_groups_cap := k1\<rparr>"
  let ?s = "set_group g (gr\<lparr>g_clnts := g_clnts gr @ [c], g_clnts_cap := k2\<rparr>) (set_clnt c ?y (set_clnt c ?x (tick s)))"
  have "join_group E c g s = (True, ?s)" by (simp add: join_group_def cl gr ok k Let_def)
  moreover have "sent_len ?s = sent_len s"
    using sent_len_set_clnt [of "tick s" c cl ?x] sent_len_set_clnt [of "set_clnt c ?x (tick s)" c ?x ?y] cl by simp
  ultimately show thesis using that by simp
qed

lemma insert_few_live:
  assumes inv: "table_inv t" and new: "table_map t k = None" and live: "table_live t" and few: "t_len t \<le> 2 ^ 40" and "ok 0"
  obtains t' where "dime_table_insert ok t k v = Some (0, t')" and "table_live t'" and "t_len t' = t_len t + 1"
proof -
  have n: "\<not> (t_len t = t_cap t \<and> \<not> alloc_ok (ok 0) (t_cap t * 64))"
    using few assms(5) by (auto simp: alloc_ok_def ALLOC_MAX_def)
  obtain t' where ins: "dime_table_insert ok t k v = Some (0, t')"
    "t_len t' = t_len t + 1" "t_cap t \<le> t_cap t'" "table_live t \<and> t_len t' < t_cap t' \<longrightarrow> table_live t'"
    "alloc_ok (ok 0) (t_cap t * 64) \<longrightarrow> 2 * t_len t \<le> t_cap t'"
    using dime_table_insert_ok [OF inv new, of ok v] unfolding if_not_P [OF n] by blast
  have "t_len t' < t_cap t'"
  proof (cases "t_len t + 1 < t_cap t")
    case True
    then show ?thesis using ins(2,3) by simp
  next
    case False
    then have "alloc_ok (ok 0) (t_cap t * 64)" using few assms(5) by (simp add: alloc_ok_def ALLOC_MAX_def)
    moreover have "32 \<le> t_cap t"
    proof -
      obtain b where "5 \<le> b" "t_cap t = 2 ^ b" using inv by (auto simp: table_inv_def table_shape_def)
      then show ?thesis using power_increasing [of 5 b "2 :: nat"] by simp
    qed
    ultimately show ?thesis using ins(2,5) False by simp
  qed
  then show thesis using that ins(1,2,4) live by simp
qed

lemma new_group_succeeds:
  assumes ok: "\<And>t i. e_ok E t i" and inv: "srv_inv s" and new: "table_map (h_name2clnt s) name = None"
    and live: "table_live (h_name2clnt s)" and few: "t_len (h_name2clnt s) \<le> 2 ^ 40"
  obtains g s' where "new_group E name s = (Some g, s')" and "table_live (h_name2clnt s')"
    and "t_len (h_name2clnt s') = t_len (h_name2clnt s) + 1" and "sent_len s' = sent_len s"
    and "h_next s' = Suc (h_next s)" and "h_fd2clnt s' = h_fd2clnt s"
proof -
  have t: "table_inv (h_name2clnt s)" by (rule srv_inv_parts(2) [OF inv])
  let ?t = "h_name2clnt s" and ?gr = "\<lparr>g_name = name, g_clnts = [], g_clnts_cap = 4\<rparr>"
  let ?s = "set_group (h_next s) ?gr ((tick s)\<lparr>h_next := Suc (h_next s)\<rparr>)"
  obtain tbl where ins: "dime_table_insert (e_ok E (h_tick ?s)) ?t name (h_next s) = Some (0, tbl)" "table_live tbl"
    "t_len tbl = t_len ?t + 1"
    by (rule insert_few_live [where ok = "e_ok E (h_tick ?s)" and v = "h_next s", OF t new live few ok])
  have "new_group E name s = (Some (h_next s), tick (?s\<lparr>h_name2clnt := tbl\<rparr>))"
    using ins(1) ok by (simp add: new_group_def Let_def)
  then show thesis using that ins(2,3) by simp
qed

lemma join_one_succeeds:
  assumes E: "ample E" and s: "alive c s" and v: "e_string_value E v = Some name" and new: "(c, name) \<notin> membership s"
    and live: "table_live (h_name2clnt s)" and few: "t_len (h_name2clnt s) \<le> 2 ^ 40"
  obtains s' where "join_one E c v s = (True, s')" and "table_live (h_name2clnt s')"
    and "t_len (h_name2clnt s') \<le> t_len (h_name2clnt s) + 1" and "sent_len s' = sent_len s"
proof -
  have inv: "srv_inv s" using s by (simp add: alive_def)
  obtain cl where cl: "h_clnts s c = Some cl" using s by (auto simp: alive_def)
  have no: "None \<notin> group_name s ` set (c_groups cl)" "Some name \<notin> group_name s ` set (c_groups cl)"
    using client_groups_named [OF inv cl] membership_client [OF inv cl, of name] new by auto
  obtain t where t: "dime_table_search (h_name2clnt s) name = Some (table_map (h_name2clnt s) name, t)"
    "table_inv t" "table_map t = table_map (h_name2clnt s)" "table_live t = table_live (h_name2clnt s)"
    by (rule table_search_cases [OF srv_inv_parts(2) [OF inv], of name]) (use live in auto)
  let ?s = "s\<lparr>h_name2clnt := t\<rparr>"
  have inv1: "srv_inv ?s" by (rule srv_inv_search [OF inv t(2,3)])
  have tl: "t_len t = t_len (h_name2clnt s)"
    using t_len_card(1) [OF t(2)] t_len_card(1) [OF srv_inv_parts(2) [OF inv]] t(3) by simp
  have few1: "length (c_groups cl) \<le> 2 ^ 41" using client_groups_few [OF inv cl] few by simp
  show thesis
  proof (cases "table_map (h_name2clnt s) name")
    case (Some g)
    then obtain gr where gr: "h_groups ?s g = Some gr"
      using srv_inv_parts(4) [OF inv, of name g] by (auto simp: group_name_def)
    obtain s' where j: "join_group E c g ?s = (True, s')" "h_name2clnt s' = h_name2clnt ?s" "sent_len s' = sent_len ?s"
      by (rule join_group_succeeds [OF E inv1 _ gr few1]) (use cl in auto)
    have "join_one E c v s = (True, s')" using v cl no t(1) Some j(1) by (simp add: join_one_def)
    then show thesis using that j live t(4) tl by simp
  next
    case None
    have none: "table_map (h_name2clnt ?s) name = None" "table_live (h_name2clnt ?s)" "t_len (h_name2clnt ?s) \<le> 2 ^ 40"
      using None t(3,4) live tl few by simp_all
    obtain g s1 where g: "new_group E name ?s = (Some g, s1)" "table_live (h_name2clnt s1)"
      "t_len (h_name2clnt s1) = t_len (h_name2clnt ?s) + 1" "sent_len s1 = sent_len ?s"
      by (rule new_group_succeeds [OF _ inv1 none]) (use E in \<open>auto simp: ample_def\<close>)
    have n: "srv_inv s1" "h_clnts s1 c = Some cl" "h_groups s1 g = Some \<lparr>g_name = name, g_clnts = [], g_clnts_cap = 4\<rparr>"
      using new_group_ok [OF inv1 none(1), of E] g(1) cl by simp_all
    obtain s' where j: "join_group E c g s1 = (True, s')" "h_name2clnt s' = h_name2clnt s1" "sent_len s' = sent_len s1"
      by (rule join_group_succeeds [OF E n few1])
    have "join_one E c v s = (True, s')" using v cl no t(1) None g(1) j(1) by (simp add: join_one_def)
    then show thesis using that j g tl by simp
  qed
qed

lemma foreach_join_succeeds:
  assumes E: "ample E"
  shows "alive c s \<Longrightarrow> map (e_string_value E) vs = map Some names \<Longrightarrow> distinct names \<Longrightarrow>
    {c} \<times> set names \<inter> membership s = {} \<Longrightarrow> table_live (h_name2clnt s) \<Longrightarrow>
    t_len (h_name2clnt s) + length names \<le> 2 ^ 40 \<Longrightarrow>
    fst (foreach (join_one E c) vs s) \<and> sent_len (snd (foreach (join_one E c) vs s)) = sent_len s"
proof (induction vs arbitrary: s names)
  case Nil
  then show ?case by simp
next
  case (Cons v vs)
  then obtain name rest where names: "names = name # rest" "e_string_value E v = Some name"
    "map (e_string_value E) vs = map Some rest"
    by (cases names) auto
  have new: "(c, name) \<notin> membership s" and few: "t_len (h_name2clnt s) \<le> 2 ^ 40"
    using Cons.prems(4,6) names(1) by auto
  obtain s1 where j: "join_one E c v s = (True, s1)" "table_live (h_name2clnt s1)"
    "t_len (h_name2clnt s1) \<le> t_len (h_name2clnt s) + 1" "sent_len s1 = sent_len s"
    by (rule join_one_succeeds [OF E Cons.prems(1) names(2) new Cons.prems(5) few])
  have a: "srv_inv s" "h_clnts s c \<noteq> None" using Cons.prems(1) by (simp_all add: alive_def)
  have t: "alive c s1" "membership s1 = insert (c, name) (membership s)"
    using join_one_turn [OF ample_env [OF E] a, of v] names(2) j(1) by (auto simp: turn_def alive_def)
  have "fst (foreach (join_one E c) vs s1) \<and> sent_len (snd (foreach (join_one E c) vs s1)) = sent_len s1"
    by (rule Cons.IH [OF t(1) names(3)]) (use Cons.prems j t(2) names(1) in auto)
  then show ?case using j(1,4) by simp
qed

lemma join_succeeds:
  assumes E: "ample E" and s: "alive c s" "sent_len s c \<le> 2 ^ 44" and nm: "e_unpack_o E j ''name'' = Inr arr"
    and req: "requested E j = map Some names" "distinct names" "{c} \<times> set names \<inter> membership s = {}"
    and live: "table_live (h_name2clnt s)" and few: "t_len (h_name2clnt s) + length names \<le> 2 ^ 40"
  shows "fst (dime_client_join E c j s) = 0"
proof -
  have vs: "map (e_string_value E) (e_elems E arr) = map Some names" using req(1) nm by (simp add: requested_def)
  obtain go s1 where loop: "foreach (join_one E c) (e_elems E arr) s = (go, s1)"
    by (cases "foreach (join_one E c) (e_elems E arr) s")
  have f: "go" "sent_len s1 = sent_len s"
    using foreach_join_succeeds [OF E s(1) vs req(2,3) live few] loop by simp_all
  have "alive c (snd (foreach (join_one E c) (e_elems E arr) s))"
    by (rule foreach_inv [of "alive c"])
      (use s(1) join_one_turn [OF ample_env [OF E]] in \<open>auto simp: alive_def turn_def\<close>)
  then have "alive c s1" using loop by simp
  then have "fst (reply_ok E c s1) = 0" using reply_ok_succeeds [OF E, of s1 c] f(2) s(2) by (simp add: alive_def)
  then show ?thesis using nm loop f(1) by (simp add: dime_client_join_def)
qed

section \<open>Leaving\<close>

lemma leave_one_succeeds:
  assumes s: "alive c s" and v: "e_string_value E v = Some name" and mem: "(c, name) \<in> membership s"
  shows "fst (leave_one E c v s)" and "sent_len (snd (leave_one E c v s)) = sent_len s"
proof -
  have inv: "srv_inv s" using s by (simp add: alive_def)
  obtain cl where cl: "h_clnts s c = Some cl" using s by (auto simp: alive_def)
  have no: "None \<notin> group_name s ` set (c_groups cl)" by (rule client_groups_named [OF inv cl])
  have "Some name \<in> group_name s ` set (c_groups cl)" using membership_client [OF inv cl, of name] mem by simp
  then obtain i where i: "first_index (\<lambda>g. group_name s g = Some name) (c_groups cl) = Some i"
    using first_index_None [of "\<lambda>g. group_name s g = Some name" "c_groups cl"]
    by (cases "first_index (\<lambda>g. group_name s g = Some name) (c_groups cl)") auto
  let ?g = "c_groups cl ! i"
  have "?g \<in> set (c_groups cl)" using first_index_Some [OF i] by simp
  then obtain gr where gr: "h_groups s ?g = Some gr" "c \<in> set (g_clnts gr)"
    by (rule client_groups_exist [OF inv cl])
  then obtain j where j: "first_index (\<lambda>c'. c' = c) (g_clnts gr) = Some j"
    using first_index_None [of "\<lambda>c'. c' = c" "g_clnts gr"] by (cases "first_index (\<lambda>c'. c' = c) (g_clnts gr)") auto
  let ?s = "set_clnt c (cl\<lparr>c_groups := swap_remove i (c_groups cl)\<rparr>)
      (set_group ?g (gr\<lparr>g_clnts := swap_remove j (g_clnts gr)\<rparr>) s)"
  have "leave_one E c v s = (True, ?s)" using v cl no i gr(1) j by (simp add: leave_one_def Let_def)
  moreover have "sent_len ?s = sent_len s"
    using sent_len_set_clnt [of "set_group ?g (gr\<lparr>g_clnts := swap_remove j (g_clnts gr)\<rparr>) s" c cl] cl by simp
  ultimately show "fst (leave_one E c v s)" and "sent_len (snd (leave_one E c v s)) = sent_len s" by simp_all
qed

lemma foreach_leave_succeeds:
  assumes env: "env_ok E"
  shows "alive c s \<Longrightarrow> map (e_string_value E) vs = map Some names \<Longrightarrow> distinct names \<Longrightarrow>
    {c} \<times> set names \<subseteq> membership s \<Longrightarrow>
    fst (foreach (leave_one E c) vs s) \<and> alive c (snd (foreach (leave_one E c) vs s)) \<and>
    sent_len (snd (foreach (leave_one E c) vs s)) = sent_len s"
proof (induction vs arbitrary: s names)
  case Nil
  then show ?case by simp
next
  case (Cons v vs)
  then obtain name rest where names: "names = name # rest" "e_string_value E v = Some name"
    "map (e_string_value E) vs = map Some rest"
    by (cases names) auto
  have mem: "(c, name) \<in> membership s" using Cons.prems(4) names(1) by auto
  obtain go s1 where j: "leave_one E c v s = (go, s1)" by (cases "leave_one E c v s")
  have go: "go" "sent_len s1 = sent_len s" using leave_one_succeeds [OF Cons.prems(1) names(2) mem] j by simp_all
  have a: "srv_inv s" "h_clnts s c \<noteq> None" using Cons.prems(1) by (simp_all add: alive_def)
  have t: "alive c s1" "membership s1 = membership s - {(c, name)}"
    using leave_one_turn [OF env a, of v] names(2) j go(1) by (auto simp: turn_def alive_def)
  have "fst (foreach (leave_one E c) vs s1) \<and> alive c (snd (foreach (leave_one E c) vs s1)) \<and>
      sent_len (snd (foreach (leave_one E c) vs s1)) = sent_len s1"
    by (rule Cons.IH [OF t(1) names(3)]) (use Cons.prems t(2) names(1) in auto)
  then show ?case using j go by simp
qed

lemma leave_succeeds:
  assumes E: "ample E" and s: "alive c s" "sent_len s c \<le> 2 ^ 44" and nm: "e_unpack_o E j ''name'' = Inr arr"
    and req: "requested E j = map Some names" "distinct names" "{c} \<times> set names \<subseteq> membership s"
  shows "fst (dime_client_leave E c j s) = 0"
proof -
  have vs: "map (e_string_value E) (e_elems E arr) = map Some names" using req(1) nm by (simp add: requested_def)
  obtain go s1 where loop: "foreach (leave_one E c) (e_elems E arr) s = (go, s1)"
    by (cases "foreach (leave_one E c) (e_elems E arr) s")
  have f: "go" "alive c s1" "sent_len s1 = sent_len s"
    using foreach_leave_succeeds [OF ample_env [OF E] s(1) vs req(2,3)] loop by simp_all
  then have "fst (reply_ok E c s1) = 0" using reply_ok_succeeds [OF E, of s1 c] s(2) by (simp add: alive_def)
  then show ?thesis using nm loop f(1) by (simp add: dime_client_leave_def)
qed

section \<open>Waiting, devices, handshake\<close>

lemma wait_succeeds:
  assumes E: "ample E" and s: "alive c s" "sent_len s c \<le> 2 ^ 44"
  shows "fst (dime_client_wait E c s) = 0"
proof -
  obtain cl where cl: "h_clnts s c = Some cl" using s by (auto simp: alive_def)
  obtain s' where "notify E c s = (True, s')"
    by (rule notify_succeeds [OF E, of s c]) (use s in \<open>auto simp: alive_def\<close>)
  then show ?thesis by (simp add: dime_client_wait_def cl)
qed

lemma devices_loop_succeeds:
  assumes "\<forall>t n. e_string E t n \<noteq> None" and "\<forall>t a x. e_append E t a x \<noteq> None"
  shows "\<forall>g \<in> set gs. h_groups s g \<noteq> None \<Longrightarrow>
    fst (devices_loop E gs arr s) \<noteq> None \<and> sent_len (snd (devices_loop E gs arr s)) = sent_len s"
proof (induction gs arbitrary: arr s)
  case Nil
  then show ?case by simp
next
  case (Cons g gs)
  obtain gr where gr: "h_groups s g = Some gr" using Cons.prems by auto
  obtain str where str: "e_string E (h_tick s) (g_name gr) = Some str" using assms(1) by blast
  obtain a where a: "e_append E (h_tick s) arr str = Some a" using assms(2) by blast
  show ?case using Cons.IH [of s arr] Cons.IH [of "tick s" a] Cons.prems gr str a by simp
qed

lemma devices_succeeds:
  assumes E: "ample E" and json: "\<forall>t. e_array E t \<noteq> None" "\<forall>t n. e_string E t n \<noteq> None"
      "\<forall>t a x. e_append E t a x \<noteq> None"
    and s: "alive c s" "sent_len s c \<le> 2 ^ 44"
  shows "fst (dime_client_devices E c s) = 0"
proof -
  have inv: "srv_inv s" using s(1) by (simp add: alive_def)
  obtain arr where arr: "e_array E (h_tick s) = Some arr" using json(1) by blast
  obtain gs where gs: "table_walk (h_name2clnt s) = Some gs" "set gs = dom (h_groups s)"
    by (rule walk_groups [OF inv])
  have ex: "\<forall>g \<in> set gs. h_groups (tick s) g \<noteq> None" unfolding gs(2) by auto
  obtain a s1 where loop: "devices_loop E gs arr (tick s) = (Some a, s1)" "sent_len s1 = sent_len s"
    using devices_loop_succeeds [OF json(2,3) ex, of arr] by (cases "devices_loop E gs arr (tick s)") auto
  have s1: "alive c (tick s1)" using devices_loop_alive [of c "tick s" E gs arr] s(1) loop(1) by simp
  obtain j where j: "e_pack E (h_tick s1) [(''status'', PInt 0), (''devices'', PObj a)] = Some j"
    using E unfolding ample_def by blast
  obtain s2 rc where "clnt_push E c j (tick s1) = (rc, s2)" "\<not> rc < 0"
    by (rule push_succeeds [OF E, of "tick s1" c]) (use s1 s(2) loop(2) in \<open>auto simp: alive_def\<close>)
  then show ?thesis using arr gs(1) loop(1) j by (simp add: dime_client_devices_def)
qed

lemma reregister_succeeds:
  assumes E: "ample E" and str: "length str \<le> 2 ^ 40" "0 \<notin> set str"
  shows "alive c s \<Longrightarrow> distinct ds \<Longrightarrow> \<forall>d \<in> set ds. h_clnts s d \<noteq> None \<and> sent_len s d \<le> 2 ^ 44 \<Longrightarrow>
    fst (foreach (reregister_one E c str) ds s) \<and> alive c (snd (foreach (reregister_one E c str) ds s)) \<and>
    sent_len (snd (foreach (reregister_one E c str) ds s)) c = sent_len s c"
proof (induction ds arbitrary: s)
  case Nil
  then show ?case by simp
next
  case (Cons d ds)
  show ?case
  proof (cases "d = c")
    case True
    then show ?thesis using Cons by (simp add: reregister_one_def)
  next
    case False
    have a: "srv_inv s" "h_clnts s d \<noteq> None" "sent_len s d \<le> 2 ^ 45" using Cons.prems by (simp_all add: alive_def)
    obtain s1 rc where p: "clnt_push_str E d str [] s = (rc, s1)" "\<not> rc < 0" "grown d s s1"
      by (rule push_str_succeeds [OF E a str])
    have len: "length str \<le> ALLOC_MAX" using str(1) by (simp add: ALLOC_MAX_def)
    have same: "same_but_socks s s1" using clnt_push_str_same [OF len _ a(2), of "[]" E] p(1) by simp
    have "sent_len s1 x = sent_len s x" if "x \<in> set ds \<or> x = c" for x
      using that Cons.prems(2) False p(3) by (auto simp: grown_def)
    then show ?thesis
      using Cons.IH [OF alive_same [OF Cons.prems(1) same]] Cons.prems(2,3) same_but_socks_None [OF same] p(1,2) False
      by (simp add: reregister_one_def)
  qed
qed

lemma handshake_succeeds:
  assumes E: "ample E" and s: "alive c s" and room: "\<forall>d \<in> dom (h_clnts s). sent_len s d \<le> 2 ^ 44"
    and tls: "\<not> h_tlsctx s"
    and un: "e_unpack_sb E j ''serialization'' ''tls'' = Inr (str, b)" "serialization_of str = Some i"
  shows "fst (dime_client_handshake E c j s) = 0"
proof -
  have inv: "srv_inv s" "h_clnts s c \<noteq> None" using s by (simp_all add: alive_def)
  obtain s1 where neg: "negotiate E c i s = (True, s1)" and a1: "alive c s1" "sent_len s1 c \<le> 2 ^ 44"
  proof (cases "h_serialization s \<noteq> DIME_NO_SERIALIZATION \<and> h_serialization s \<noteq> i \<and>
      h_serialization s \<noteq> DIME_DIMEB \<and> h_serialization s \<noteq> DIME_JSON")
    case False
    let ?s1 = "if h_serialization s = DIME_NO_SERIALIZATION then s\<lparr>h_serialization := i\<rparr> else s"
    have "negotiate E c i s = (True, ?s1)" using False by (auto simp: negotiate_def)
    moreover have "alive c ?s1" using s by (simp add: alive_def)
    moreover have "sent_len ?s1 c \<le> 2 ^ 44" using room inv(2) by (auto simp: sent_len_def)
    ultimately show thesis by (rule that)
  next
    case True
    obtain meta where meta: "e_pack E (h_tick s) [(''status'', PInt 1), (''meta'', PBool True),
        (''command'', PStr ''reregister''), (''serialization'', PStr ''dimeb'')] = Some meta"
      using E unfolding ample_def by blast
    obtain body where dump: "e_dumps E (h_tick s) meta = Some body" "length body \<le> 2 ^ 40"
      using E unfolding ample_def by blast
    have nul: "0 \<notin> set body" using E dump(1) by (auto simp: ample_def env_ok_def)
    obtain ds where ds: "table_walk (h_fd2clnt s) = Some ds" "distinct ds" "set ds = dom (h_clnts s)"
      by (rule walk_clients [OF inv(1)])
    have a: "alive c (tick s)" "\<forall>d \<in> set ds. h_clnts (tick s) d \<noteq> None \<and> sent_len (tick s) d \<le> 2 ^ 44"
      using s room ds(3) by auto
    obtain go s2 where loop: "foreach (reregister_one E c body) ds (tick s) = (go, s2)"
      by (cases "foreach (reregister_one E c body) ds (tick s)")
    have r: "go" "alive c s2" "sent_len s2 c = sent_len s c"
      using reregister_succeeds [OF E dump(2) nul a(1) ds(2) a(2)] loop by simp_all
    have "negotiate E c i s = (True, s2\<lparr>h_serialization := DIME_DIMEB\<rparr>)"
      using True meta dump(1) ds(1) loop r(1) by (simp add: negotiate_def)
    moreover have "alive c (s2\<lparr>h_serialization := DIME_DIMEB\<rparr>)" using r(2) by (simp add: alive_def)
    moreover have "sent_len (s2\<lparr>h_serialization := DIME_DIMEB\<rparr>) c \<le> 2 ^ 44"
      using room inv(2) r(3) by (auto simp: sent_len_def)
    ultimately show thesis by (rule that)
  qed
  have "conns s1 = conns s" using conns_inputs [of s1 s] inputs_negotiate [of E c i s] neg by simp
  then have t1: "\<not> h_tlsctx s1" using tls by (simp add: conns_def)
  obtain resp where resp: "e_pack E (h_tick s1) [(''status'', PInt 0),
      (''serialization'', PStr (serialization_name (h_serialization s1) str)), (''tls'', PBool False)] = Some resp"
    using E unfolding ample_def by blast
  obtain s2 rc where "clnt_push E c resp (tick s1) = (rc, s2)" "\<not> rc < 0"
    by (rule push_succeeds [OF E, of "tick s1" c]) (use a1 in \<open>auto simp: alive_def\<close>)
  then show ?thesis using un neg t1 resp by (simp add: dime_client_handshake_def Let_def)
qed

section \<open>Synchronizing\<close>

lemma sync_sends:
  assumes "ample E" and "srv_inv s" and "h_clnts s c \<noteq> None" and "refs_leak X s"
    and "e_unpack_I E j ''n'' = Some n"
    and "sent_len s c + sum_list (map (\<lambda>m. 10 + length (wire (payload s m))) (queue_of s c)) \<le> 2 ^ 45"
    and "dime_client_sync E c j s = (rc, s')"
  shows "rc = 0 \<and> sent_bytes (sock_of s' c) = sent_bytes (sock_of s c) @
    concat (map (framed (sock_of s c) \<circ> payload s) (take (sync_limit n) (queue_of s c))) @
    framed (sock_of s c) (STATUS_OK, [])"
proof -
  have env: "env_ok E" and ok: "\<forall>t i. e_ok E t i" using assms(1) by (simp_all add: ample_def)
  let ?n = "sync_limit n"
  let ?sizes = "map (\<lambda>m. 10 + length (wire (payload s m)))"
  obtain go s1 where loop: "sync_loop E c ?n s = (go, s1)" by (cases "sync_loop E c ?n s")
  have len: "length (sent_bytes (sock_of s c)) = sent_len s c"
    using assms(3) by (auto simp: sock_of_def sent_len_def split: option.splits)
  have "sum_list (?sizes (take ?n (queue_of s c))) \<le> sum_list (?sizes (queue_of s c))"
    by (metis append_take_drop_id le_add1 map_append sum_list_append)
  then have sum: "length (sent_bytes (sock_of s c)) + sum_list (?sizes (take ?n (queue_of s c))) \<le> 2 ^ 45"
    using assms(6) len by linarith
  then have room: "2 * (length (sent_bytes (sock_of s c)) + sum_list (?sizes (take ?n (queue_of s c)))) \<le> ALLOC_MAX"
    by (simp add: ALLOC_MAX_def)
  note l = sync_loop_sends [OF ok assms(2,4,3) room loop]
  have s1: "alive c s1" using sync_loop_alive [OF env, of c s ?n] loop assms(2,3) by (simp add: alive_def)
  obtain cl1 where cl1: "h_clnts s1 c = Some cl1" using s1 by (auto simp: alive_def)
  have k1: "c_sock cl1 = sock_of s1 c" by (simp add: sock_of_def cl1)
  have "length (concat (map (framed (sock_of s c) \<circ> payload s) (take ?n (queue_of s c)))) \<le>
      sum_list (?sizes (take ?n (queue_of s c)))"
    unfolding length_concat map_map
    by (rule sum_list_mono) (auto simp: framed_def length_ws_prefix)
  then have "length (sent_bytes (sock_of s1 c)) \<le> 2 ^ 45"
    using l sum unfolding length_append [symmetric] by simp
  then have room1: "2 * (length (sent_bytes (c_sock cl1)) + 10 + length (wire (STATUS_OK, []))) \<le> ALLOC_MAX"
    using STATUS_OK_text(1) by (simp add: k1 ALLOC_MAX_def)
  have nul: "0 \<notin> set (fst (STATUS_OK, [] :: byte list))" using STATUS_OK_text(2) by simp
  have ok1: "\<forall>i. e_ok E (h_tick s1) i" using ok by blast
  have inv1: "srv_inv s1" using s1 by (simp add: alive_def)
  obtain sock where p: "dime_socket_push_str (e_errno E (h_tick s1)) (e_ok E (h_tick s1)) (c_sock cl1) STATUS_OK [] =
      (int (length (ws_prefix (c_sock cl1) (STATUS_OK, [])) + length (wire (STATUS_OK, []))), sock)"
    "sent_bytes sock = sent_bytes (c_sock cl1) @ ws_prefix (c_sock cl1) (STATUS_OK, []) @ wire (STATUS_OK, [])"
    using push_str_success [OF srv_inv_parts(8) [OF inv1 cl1] nul ok1 room1] by auto
  have frame: "ws_prefix (c_sock cl1) x = ws_prefix (sock_of s c) x" for x
    using l k1 by (simp add: ws_prefix_def)
  have "reply_ok E c s1 = (0, tick (set_clnt c (cl1\<lparr>c_sock := sock\<rparr>) s1))"
    using p(1) by (simp add: reply_ok_def clnt_push_str_def cl1)
  then have "rc = 0" "s' = tick (set_clnt c (cl1\<lparr>c_sock := sock\<rparr>) s1)"
    using assms(5,7) l loop by (simp_all add: dime_client_sync_def sync_limit_def)
  then show ?thesis using p(2) frame k1 l by (simp add: sock_of_def framed_def)
qed

end
