(* ===== verification/Server_Demo.thy ===== *)
theory Server_Demo
  imports Server_Loop Client_Success
begin

text \<open>
  A concrete server on which the hypotheses of the theorems are discharged: two clients, one
  group with both of them, possibly one message in a queue, and a small model of JSON.
\<close>

section \<open>A model of JSON\<close>

datatype json = JStr string | JInt int | JBool bool | JArr "json list" | JObj "(string \<times> json) list"

fun field :: "json \<Rightarrow> string \<Rightarrow> json option" where
  "field (JObj kvs) k = map_of kvs k"
| "field _ k = None"

fun pack_value :: "json pack_arg \<Rightarrow> json" where
  "pack_value (PInt n) = JInt n"
| "pack_value (PStr s) = JStr s"
| "pack_value (PBool b) = JBool b"
| "pack_value (PObj j) = j"

fun elements :: "json \<Rightarrow> json list" where
  "elements (JArr xs) = xs"
| "elements _ = []"

fun string_value :: "json \<Rightarrow> string option" where
  "string_value (JStr s) = Some s"
| "string_value _ = None"

definition demo_env :: "json env" where
  "demo_env = \<lparr>
     e_ok = \<lambda>t i. True,
     e_errno = \<lambda>t. ''Cannot allocate memory'',
     e_loadb = \<lambda>bs. (if bs = [119] then Inr (JObj [(''command'', JStr ''wait'')]) else Inl ''invalid token''),
     e_dumps = \<lambda>t j. Some [123, 125],
     e_pack = \<lambda>t args. Some (JObj (map (\<lambda>(k, a). (k, pack_value a)) args)),
     e_unpack_sb = \<lambda>j a b. (case (field j a, field j b) of
        (Some (JStr s), Some (JBool t)) \<Rightarrow> Inr (s, t) | _ \<Rightarrow> Inl ''Object item not found''),
     e_unpack_o = \<lambda>j a. (case field j a of Some v \<Rightarrow> Inr v | None \<Rightarrow> Inl ''Object item not found''),
     e_unpack_s = \<lambda>j a. (case field j a of Some (JStr s) \<Rightarrow> Inr s | _ \<Rightarrow> Inl ''Object item not found''),
     e_unpack_I = \<lambda>j a. (case field j a of Some (JInt n) \<Rightarrow> Some n | _ \<Rightarrow> None),
     e_elems = elements,
     e_string_value = string_value,
     e_array = \<lambda>t. Some (JArr []),
     e_string = \<lambda>t s. Some (JStr s),
     e_append = \<lambda>t a x. Some (JArr (elements a @ [x])),
     e_tls = \<lambda>t. demo_tls\<rparr>"

lemma demo_env: "env_ok demo_env" "json_arrays demo_env" "e_ok demo_env t i" "ample demo_env"
  by (auto simp: env_ok_def json_arrays_def ample_def demo_env_def ALLOC_MAX_def sock_inv_def)

section \<open>Two clients and a group\<close>

definition demo_fds0 :: "(int, addr) dime_table" where
  "demo_fds0 = the (dime_table_init True cmp_fd hash_fd)"

definition demo_fds1 :: "(int, addr) dime_table" where
  "demo_fds1 = snd (the (dime_table_insert (\<lambda>_. True) demo_fds0 5 0))"

definition demo_fds :: "(int, addr) dime_table" where
  "demo_fds = snd (the (dime_table_insert (\<lambda>_. True) demo_fds1 6 1))"

definition demo_names0 :: "(string, addr) dime_table" where
  "demo_names0 = the (dime_table_init True cmp_name hash_name)"

definition demo_names :: "(string, addr) dime_table" where
  "demo_names = snd (the (dime_table_insert (\<lambda>_. True) demo_names0 ''g'' 2))"

lemma table_init_Some:
  "dime_table_init True cmp hash = Some (the (dime_table_init True cmp hash))"
  by (simp add: dime_table_init_def alloc_ok_def ALLOC_MAX_def ELEM_SIZE_def sz_mul_def)

lemma table_inv_cap:
  assumes "table_inv t"
  shows "32 \<le> t_cap t"
proof -
  obtain b where "5 \<le> b" "t_cap t = 2 ^ b" using assms by (auto simp: table_inv_def table_shape_def)
  then show ?thesis using power_increasing [of 5 b "2 :: nat"] by simp
qed

lemma insert_demo:
  assumes "table_inv t" and "table_live t" and "t_len t < 8" and "table_map t k = None"
  shows "table_inv (snd (the (dime_table_insert (\<lambda>_. True) t k v)))"
    and "table_live (snd (the (dime_table_insert (\<lambda>_. True) t k v)))"
    and "t_len (snd (the (dime_table_insert (\<lambda>_. True) t k v))) = t_len t + 1"
    and "table_map (snd (the (dime_table_insert (\<lambda>_. True) t k v))) = (table_map t)(k \<mapsto> v)"
proof -
  have n: "\<not> (t_len t = t_cap t \<and> \<not> alloc_ok True (t_cap t * 64))" using table_inv_cap [OF assms(1)] assms(3) by simp
  obtain t' where t': "dime_table_insert (\<lambda>_. True) t k v = Some (0, t')" "table_inv t'"
    "table_map t' = (table_map t)(k \<mapsto> v)" "t_len t' = t_len t + 1" "table_live t \<and> t_len t' < t_cap t' \<longrightarrow> table_live t'"
    using dime_table_insert_ok [OF assms(1,4), of "\<lambda>_. True" v] unfolding if_not_P [OF n] by blast
  moreover have "t_len t' < t_cap t'" using table_inv_cap [OF t'(2)] t'(4) assms(3) by simp
  ultimately show "table_inv (snd (the (dime_table_insert (\<lambda>_. True) t k v)))"
    and "table_live (snd (the (dime_table_insert (\<lambda>_. True) t k v)))"
    and "t_len (snd (the (dime_table_insert (\<lambda>_. True) t k v))) = t_len t + 1"
    and "table_map (snd (the (dime_table_insert (\<lambda>_. True) t k v))) = (table_map t)(k \<mapsto> v)"
    using assms(2) by simp_all
qed

lemma demo_fds: "table_inv demo_fds" "table_map demo_fds = [5 \<mapsto> 0, 6 \<mapsto> 1]" "table_live demo_fds"
proof -
  have init: "dime_table_init True cmp_fd hash_fd = Some demo_fds0"
    by (simp only: demo_fds0_def table_init_Some [symmetric])
  note i = dime_table_init_ok [OF _ init]
  have z: "table_inv demo_fds0" "table_live demo_fds0" "table_map demo_fds0 = Map.empty" "t_cap demo_fds0 = 32"
    "t_len demo_fds0 = 0"
    using i(1-4,7) cmp_fd_eq by auto
  have one: "table_inv demo_fds1" "table_live demo_fds1" "t_len demo_fds1 = 1" "table_map demo_fds1 = [5 \<mapsto> 0]"
    using insert_demo [OF z(1,2), of 5 0] z by (simp_all add: demo_fds1_def)
  show "table_inv demo_fds" "table_map demo_fds = [5 \<mapsto> 0, 6 \<mapsto> 1]" "table_live demo_fds"
    using insert_demo [OF one(1,2), of 6 1] one by (simp_all add: demo_fds_def)
qed

lemma demo_names: "table_inv demo_names" "table_map demo_names = [''g'' \<mapsto> 2]" "table_live demo_names"
proof -
  have init: "dime_table_init True cmp_name hash_name = Some demo_names0"
    by (simp only: demo_names0_def table_init_Some [symmetric])
  note i = dime_table_init_ok [OF _ init]
  have z: "table_inv demo_names0" "table_live demo_names0" "table_map demo_names0 = Map.empty" "t_cap demo_names0 = 32"
    "t_len demo_names0 = 0"
    using i(1-4,7) cmp_name_eq by auto
  show "table_inv demo_names" "table_map demo_names = [''g'' \<mapsto> 2]" "table_live demo_names"
    using insert_demo [OF z(1,2), of "''g''" 2] z by (simp_all add: demo_names_def)
qed

lemma demo_queue: "length ms \<le> 16 \<Longrightarrow> dq_list (deque_of ms) = ms"
  using deque_of_small by blast

text \<open>
  Client 0 is on descriptor 5; client 1 is on descriptor 6, with messages in its queue, and waits or not.
\<close>

definition demo_client0 :: dime_client where
  "demo_client0 = \<lparr>c_fd = 5, c_addr = [], c_waiting = False, c_groups = [2], c_groups_cap = 4, c_sock = demo_sock,
     c_queue = deque_of []\<rparr>"

definition demo_client1 :: "addr list \<Rightarrow> bool \<Rightarrow> dime_client" where
  "demo_client1 ms waits = \<lparr>c_fd = 6, c_addr = [], c_waiting = waits, c_groups = [2], c_groups_cap = 4, c_sock = demo_sock,
     c_queue = deque_of ms\<rparr>"

definition demo_srv :: "addr list \<Rightarrow> bool \<Rightarrow> dime_server" where
  "demo_srv ms waits = \<lparr>h_err = '''', h_overrun = False, h_tlsctx = False,
     h_serialization = DIME_MATLAB, h_fd2clnt = demo_fds, h_name2clnt = demo_names,
     h_clnts = [0 \<mapsto> demo_client0, 1 \<mapsto> demo_client1 ms waits],
     h_groups = [2 \<mapsto> \<lparr>g_name = ''g'', g_clnts = [0, 1], g_clnts_cap = 4\<rparr>],
     h_msgs = (\<lambda>m. if m \<in> set ms then Some \<lparr>m_refs = 1, m_jsondata = [123, 125], m_bindata = [7]\<rparr> else None),
     h_next = 100, h_tick = 0, h_fault = False\<rparr>"

lemma demo_srv_inv:
  assumes "length ms \<le> 16" and "\<forall>m \<in> set ms. m < 100"
  shows "srv_inv (demo_srv ms waits)"
  using assms demo_fds(1,2) demo_names(1,2) demo_queue [OF assms(1)] deque_of_inv demo_sock(1)
  by (auto simp: srv_inv_def tables_ok_def groups_ok_def clnts_ok_def fresh_ok_def group_name_def
    member_def has_group_def demo_srv_def demo_client0_def demo_client1_def array_ok_def ALLOC_MAX_def msg_ok_def
    split: if_splits)

lemma demo_srv_view:
  assumes "length ms \<le> 16"
  shows "queue_of (demo_srv ms waits) = (\<lambda>c. if c = 1 then ms else [])"
    and "waiting_of (demo_srv ms waits) = (\<lambda>c. c = 1 \<and> waits)"
    and "membership (demo_srv ms waits) = {(0, ''g''), (1, ''g'')}"
    and "\<not> h_fault (demo_srv ms waits)" and "h_clnts (demo_srv ms waits) 0 = Some demo_client0"
    and "h_clnts (demo_srv ms waits) 1 = Some (demo_client1 ms waits)"
    and "dom (h_clnts (demo_srv ms waits)) = {0, 1}"
  using demo_queue [OF assms] demo_queue [of "[]"]
  by (auto simp: queue_of_def waiting_of_def membership_def member_def group_name_def demo_srv_def
    demo_client0_def demo_client1_def fun_eq_iff split: if_splits)

lemma demo_srv_room:
  assumes "length ms \<le> 16"
  shows "sent_len (demo_srv ms waits) c = 0" and "c = 0 \<or> c = 1 \<Longrightarrow> roomy (demo_srv ms waits) c"
  using demo_sock(2,7) demo_srv_view(1) [OF assms, of waits] assms
  by (auto simp: sent_len_def roomy_def demo_srv_view [OF assms] demo_srv_def demo_client0_def demo_client1_def)

lemma demo_names_len: "t_len demo_names = 1"
  using t_len_card(1) [OF demo_names(1)] demo_names(2) by simp

lemma demo_srv_refs:
  assumes "length ms \<le> 16" and "distinct ms"
  shows "refs_ok (demo_srv ms waits)"
proof -
  have "holders (queue_of (demo_srv ms waits)) m = (if m \<in> set ms then {1} else {})" for m
    by (auto simp: holders_def demo_srv_view [OF assms(1)])
  moreover have "h_msgs (demo_srv ms waits) m =
      (if m \<in> set ms then Some \<lparr>m_refs = 1, m_jsondata = [123, 125], m_bindata = [7]\<rparr> else None)" for m
    by (simp add: demo_srv_def)
  ultimately show ?thesis using assms by (simp add: refs_leak_def refs_upto_def demo_srv_view [OF assms(1)])
qed

end
