(* ===== verification/Message_Told.thy ===== *)
theory Message_Told
  imports Client_Success
begin

text \<open>
  What \<^verbatim>\<open>dime_client_send\<close> and \<^verbatim>\<open>dime_client_broadcast\<close> push on the sockets when they succeed: the
  notification on those of the recipients that wait, the reply on that of the sender, and nothing else.
\<close>

section \<open>Pushes\<close>

text \<open>
  From the socket \<open>k\<close> to \<open>k'\<close>: a push of the JSON value \<^verbatim>\<open>{"status": 0, "n": n}\<close>, or of the text
  \<^verbatim>\<open>{"status":0}\<close>, that does not fail.
\<close>

definition notified :: "'j env \<Rightarrow> nat \<Rightarrow> dime_socket \<Rightarrow> dime_socket \<Rightarrow> bool" where
  "notified E n k k' \<longleftrightarrow> (\<exists>t t' answer r.
     e_pack E t [(''status'', PInt 0), (''n'', PInt (int n))] = Some answer \<and>
     dime_socket_push (e_dumps E t') (e_errno E t') (e_ok E t') k answer [] = (r, k') \<and> 0 \<le> r)"

definition acknowledged :: "'j env \<Rightarrow> dime_socket \<Rightarrow> dime_socket \<Rightarrow> bool" where
  "acknowledged E k k' \<longleftrightarrow> (\<exists>t r. dime_socket_push_str (e_errno E t) (e_ok E t) k STATUS_OK [] = (r, k') \<and> 0 \<le> r)"

text \<open>
  Of the clients in \<open>D\<close> those that wait are told how many messages they have; then \<open>c\<close> gets its reply.
\<close>

definition told_to :: "'j env \<Rightarrow> addr \<Rightarrow> addr set \<Rightarrow> dime_server \<Rightarrow> dime_server \<Rightarrow> bool" where
  "told_to E c D s s' \<longleftrightarrow> (\<forall>d. \<exists>k.
     (if d \<in> D \<and> waiting_of s d then notified E (length (queue_of s' d)) (sock_of s d) k else k = sock_of s d) \<and>
     (if d = c then acknowledged E k (sock_of s' d) else sock_of s' d = k))"

lemma sock_of_small [simp]:
  "sock_of (tick s) = sock_of s" "sock_of (s\<lparr>h_name2clnt := t\<rparr>) = sock_of s" "sock_of (s\<lparr>h_msgs := ms\<rparr>) = sock_of s"
  "sock_of (s\<lparr>h_next := n\<rparr>) = sock_of s" "sock_of (fault s) = sock_of s"
  "sock_of (set_clnt c cl s) = (sock_of s)(c := c_sock cl)"
  by (simp_all add: sock_of_def fault_def fun_eq_iff)

lemma sock_of_refs [simp]: "sock_of (add_refs k m s) = sock_of s" "sock_of (free_if_unused m s) = sock_of s"
  by (simp_all add: add_refs_def free_if_unused_def split: option.split)

lemma push_socks:
  assumes "h_clnts s d = Some cl" and "clnt_push E d j s = (rc, s')"
  shows "dime_socket_push (e_dumps E (h_tick s)) (e_errno E (h_tick s)) (e_ok E (h_tick s)) (sock_of s d) j [] =
    (rc, sock_of s' d)" and "x \<noteq> d \<Longrightarrow> sock_of s' x = sock_of s x"
  using assms by (auto simp: clnt_push_def Let_def sock_of_def split: prod.splits)

lemma reply_ok_socks:
  assumes "h_clnts s c \<noteq> None" and "reply_ok E c s = (0, s')"
  shows "acknowledged E (sock_of s c) (sock_of s' c)" and "x \<noteq> c \<Longrightarrow> sock_of s' x = sock_of s x"
proof -
  obtain cl where cl: "h_clnts s c = Some cl" using assms(1) by auto
  obtain rc k where p: "dime_socket_push_str (e_errno E (h_tick s)) (e_ok E (h_tick s)) (c_sock cl) STATUS_OK [] = (rc, k)"
    by fastforce
  have rc: "0 \<le> rc" and s': "s' = tick (set_clnt c (cl\<lparr>c_sock := k\<rparr>) s)"
    using assms(2) cl p by (auto simp: reply_ok_def clnt_push_str_def Let_def split: if_splits)
  have k: "sock_of s c = c_sock cl" by (simp add: sock_of_def cl)
  show "acknowledged E (sock_of s c) (sock_of s' c)"
    unfolding acknowledged_def k s' by (intro exI [of _ "h_tick s"] exI [of _ rc]) (simp add: p rc)
  show "x \<noteq> c \<Longrightarrow> sock_of s' x = sock_of s x" by (simp add: s')
qed

section \<open>The loop over the recipients\<close>

lemma notify_socks:
  assumes "h_clnts s d \<noteq> None" and "notify E d s = (True, s')"
  shows "notified E (length (queue_of s d)) (sock_of s d) (sock_of s' d)" and "x \<noteq> d \<Longrightarrow> sock_of s' x = sock_of s x"
proof -
  obtain cl where cl: "h_clnts s d = Some cl" using assms(1) by auto
  let ?args = "[(''status'', PInt 0), (''n'', PInt (int (dime_deque_len (c_queue cl))))]"
  obtain j where j: "e_pack E (h_tick s) ?args = Some j"
    using assms(2) cl by (auto simp: notify_def split: option.splits)
  obtain rc where p: "clnt_push E d j (tick s) = (rc, s')" "\<not> rc < 0"
    using assms(2) cl j by (auto simp: notify_def split: prod.splits if_splits)
  have t: "h_clnts (tick s) d = Some cl" using cl by simp
  have "length (queue_of s d) = dime_deque_len (c_queue cl)" by (simp add: queue_of_def cl dime_deque_len_def)
  then show "notified E (length (queue_of s d)) (sock_of s d) (sock_of s' d)"
    using j p push_socks(1) [OF t p(1)] unfolding notified_def by force
  show "x \<noteq> d \<Longrightarrow> sock_of s' x = sock_of s x" using push_socks(2) [OF t p(1)] by simp
qed

lemma deliver_socks:
  assumes inv: "srv_inv s" and d: "h_clnts s d \<noteq> None" and run: "deliver E c m d s = (True, s')"
  shows "if waiting_of s d then notified E (Suc (length (queue_of s d))) (sock_of s d) (sock_of s' d)
    else sock_of s' d = sock_of s d" and "x \<noteq> d \<Longrightarrow> sock_of s' x = sock_of s x"
proof -
  obtain cl where cl: "h_clnts s d = Some cl" using d by auto
  have dq: "dq_inv (c_queue cl)" by (rule srv_inv_parts(9) [OF inv cl])
  obtain rc q where push: "dime_deque_pushr (e_ok E (h_tick s) 0) (c_queue cl) m = (rc, q)"
    by (cases "dime_deque_pushr (e_ok E (h_tick s) 0) (c_queue cl) m")
  let ?s = "tick (set_clnt d (cl\<lparr>c_queue := q\<rparr>) s)"
  have rc: "\<not> rc < 0" using run cl push by (auto simp: deliver_def Let_def)
  have "dq_list q = dq_list (c_queue cl) @ [m]"
    using dq.pushr_items [OF dq, of "e_ok E (h_tick s) 0" m] rc unfolding push by simp
  then have len: "length (queue_of ?s d) = Suc (length (queue_of s d))" by (simp add: queue_of_def cl)
  have sock: "sock_of ?s = sock_of s" using cl by (auto simp: sock_of_def fun_eq_iff)
  have w: "waiting_of s d = c_waiting cl" by (simp add: waiting_of_def cl)
  have d': "h_clnts ?s d \<noteq> None" by simp
  have "(if waiting_of s d then notified E (Suc (length (queue_of s d))) (sock_of s d) (sock_of s' d)
      else sock_of s' d = sock_of s d) \<and> (\<forall>x. x \<noteq> d \<longrightarrow> sock_of s' x = sock_of s x)"
  proof (cases "c_waiting cl")
    case False
    then have "s' = add_refs 1 m ?s" using run cl push rc by (simp add: deliver_def Let_def)
    then show ?thesis using False w sock by simp
  next
    case True
    obtain s2 cl2 where n: "notify E d ?s = (True, s2)" "h_clnts s2 d = Some cl2"
      and s': "s' = add_refs 1 m (set_clnt d (cl2\<lparr>c_waiting := False\<rparr>) s2)"
      using run cl push rc True by (auto simp: deliver_def Let_def split: prod.splits bool.splits option.splits)
    have "sock_of s' = sock_of s2" using n(2) by (auto simp: s' sock_of_def fun_eq_iff)
    then show ?thesis using notify_socks [OF d' n(1), unfolded len sock] True w by simp
  qed
  then show "if waiting_of s d then notified E (Suc (length (queue_of s d))) (sock_of s d) (sock_of s' d)
    else sock_of s' d = sock_of s d" and "x \<noteq> d \<Longrightarrow> sock_of s' x = sock_of s x" by simp_all
qed

lemma foreach_deliver_socks:
  assumes env: "env_ok E"
  shows "srv_inv s \<Longrightarrow> h_clnts s c \<noteq> None \<Longrightarrow> \<forall>d \<in> set ds. h_clnts s d \<noteq> None \<Longrightarrow> h_msgs s m = Some msg \<Longrightarrow>
    distinct ds \<Longrightarrow> foreach (deliver E c m) ds s = (True, s') \<Longrightarrow>
    (if x \<in> set ds \<and> waiting_of s x then notified E (Suc (length (queue_of s x))) (sock_of s x) (sock_of s' x)
     else sock_of s' x = sock_of s x)"
proof (induction ds arbitrary: s msg)
  case Nil
  then show ?case by simp
next
  case (Cons d ds)
  have d: "h_clnts s d \<noteq> None" using Cons.prems(3) by simp
  obtain out s1 where run: "deliver E c m d s = (out = Delivered, s1)" and eff: "deliver_effect m d msg out s s1"
    by (rule deliver_cases [OF env Cons.prems(1,2) d Cons.prems(4)])
  have out: "out = Delivered" using run Cons.prems(6) by (cases "out = Delivered") simp_all
  then have one: "deliver E c m d s = (True, s1)" using run by simp
  have s1: "srv_inv s1" "links s1 = links s" "queue_of s1 = (queue_of s)(d := queue_of s d @ [m])"
    "waiting_of s1 = (waiting_of s)(d := False)" "h_msgs s1 m \<noteq> None"
    using eff out by (simp_all add: deliver_effect_def)
  obtain msg1 where m1: "h_msgs s1 m = Some msg1" using s1(5) by auto
  have "if x \<in> set ds \<and> waiting_of s1 x then notified E (Suc (length (queue_of s1 x))) (sock_of s1 x) (sock_of s' x)
     else sock_of s' x = sock_of s1 x"
    by (rule Cons.IH [OF s1(1) _ _ m1]) (use Cons.prems(2,3,5,6) one links_clnt [OF s1(2)] in simp_all)
  then show ?case
    using deliver_socks [OF Cons.prems(1) d one] s1(3,4) Cons.prems(5) by (cases "x = d") auto
qed

lemma new_message_socks: "new_message E j bin s = (r, s') \<Longrightarrow> sock_of s' = sock_of s"
  by (auto simp: new_message_def Let_def split: if_splits option.splits)

text \<open>From the creation of the message to the reply.\<close>

lemma told_all:
  assumes env: "env_ok E" and inv: "srv_inv s" and c: "h_clnts s c \<noteq> None" and bin: "length bin \<le> ALLOC_MAX"
    and nm: "new_message E j bin s = (Some m, s1)" and ds: "distinct ds" "\<forall>d \<in> set ds. h_clnts s d \<noteq> None"
    and loop: "foreach (deliver E c m) ds s1 = (True, s2)" and s3: "sock_of s3 = sock_of s2" "h_clnts s3 c \<noteq> None"
    and reply: "reply_ok E c s3 = (0, s')" and q: "\<And>d. d \<in> set ds \<Longrightarrow> length (queue_of s' d) = Suc (length (queue_of s d))"
  shows "told_to E c (set ds) s s'"
  unfolding told_to_def
proof (intro allI exI conjI)
  fix d
  note n = new_message_ok [OF env inv bin nm]
  obtain msg where msg: "h_msgs s1 m = Some msg" using n by auto
  have s1: "srv_inv s1" "links s1 = links s" "queue_of s1 = queue_of s" "waiting_of s1 = waiting_of s"
    using n by simp_all
  have ex: "h_clnts s1 c \<noteq> None" "\<forall>d \<in> set ds. h_clnts s1 d \<noteq> None" using links_clnt [OF s1(2)] c ds(2) by simp_all
  show "if d \<in> set ds \<and> waiting_of s d then notified E (length (queue_of s' d)) (sock_of s d) (sock_of s2 d)
      else sock_of s2 d = sock_of s d"
    using foreach_deliver_socks [OF env s1(1) ex msg ds(1) loop, of d] s1(3,4) new_message_socks [OF nm] q [of d]
    by (auto split: if_splits)
  show "if d = c then acknowledged E (sock_of s2 d) (sock_of s' d) else sock_of s' d = sock_of s2 d"
    using reply_ok_socks [OF s3(2) reply] s3(1) by auto
qed

section \<open>The bytes\<close>

text \<open>
  The same as bytes of the out-buffers: at most the text of the notification, and the reply, are appended.
\<close>

definition told_bytes :: "'j env \<Rightarrow> addr \<Rightarrow> addr set \<Rightarrow> dime_server \<Rightarrow> dime_server \<Rightarrow> bool" where
  "told_bytes E c D s s' \<longleftrightarrow> (\<forall>d \<in> dom (h_clnts s). \<exists>t t' answer str.
     e_pack E t [(''status'', PInt 0), (''n'', PInt (int (length (queue_of s' d))))] = Some answer \<and>
     e_dumps E t' answer = Some str \<and>
     sent_bytes (sock_of s' d) = sent_bytes (sock_of s d) @
       (if d \<in> D \<and> waiting_of s d then framed (sock_of s d) (str, []) else []) @
       (if d = c then framed (sock_of s d) (STATUS_OK, []) else []))"

lemma push_str_bytes:
  assumes E: "ample E" and k: "sock_inv k" "length (sent_bytes k) \<le> 2 ^ 45" and str: "length str \<le> 2 ^ 40" "0 \<notin> set str"
    and push: "dime_socket_push_str (e_errno E t) (e_ok E t) k str [] = (r, k')"
  shows "sent_bytes k' = sent_bytes k @ framed k (str, []) \<and> sock_inv k' \<and> s_ws k' = s_ws k \<and>
    length (sent_bytes k') \<le> length (sent_bytes k) + 2 ^ 41"
proof -
  have room: "2 * (length (sent_bytes k) + 10 + length (wire (str, []))) \<le> ALLOC_MAX"
    using k(2) str(1) by (simp add: ALLOC_MAX_def)
  have ok: "\<forall>i. e_ok E t i" using E by (simp add: ample_def)
  have nul: "0 \<notin> set (fst (str, [] :: byte list))" using str(2) by simp
  have "sent_bytes k' = sent_bytes k @ framed k (str, []) \<and> sock_inv k' \<and> s_ws k' = s_ws k"
    using push_str_success [OF k(1) nul ok room, of "e_errno E t"] push by (auto simp: framed_def)
  moreover have "length (framed k (str, [])) \<le> 2 ^ 41" using length_framed [of k "(str, [])"] str(1) by simp
  ultimately show ?thesis by simp
qed

lemma told_to_bytes:
  assumes E: "ample E" and inv: "srv_inv s" and told: "told_to E c D s s'"
    and room: "\<forall>d \<in> insert c D. sent_len s d \<le> 2 ^ 44"
  shows "told_bytes E c D s s'"
  unfolding told_bytes_def
proof
  fix d
  assume "d \<in> dom (h_clnts s)"
  then obtain cl where cl: "h_clnts s d = Some cl" by auto
  have k: "sock_inv (sock_of s d)" "length (sent_bytes (sock_of s d)) = sent_len s d"
    using srv_inv_parts(8) [OF inv cl] by (simp_all add: sock_of_def sent_len_def cl)
  let ?args = "[(''status'', PInt 0), (''n'', PInt (int (length (queue_of s' d))))]"
  have all: "\<exists>str. e_dumps E t j = Some str \<and> length str \<le> 2 ^ 40 \<and> 0 \<notin> set str" for t j
    using E unfolding ample_def env_ok_def by blast
  obtain k1 where k1: "if d \<in> D \<and> waiting_of s d then notified E (length (queue_of s' d)) (sock_of s d) k1 else k1 = sock_of s d"
    and k2: "if d = c then acknowledged E k1 (sock_of s' d) else sock_of s' d = k1"
    using told unfolding told_to_def by blast
  obtain t t' answer str where nt: "e_pack E t ?args = Some answer" "e_dumps E t' answer = Some str"
    and b1: "sent_bytes k1 = sent_bytes (sock_of s d) @ (if d \<in> D \<and> waiting_of s d then framed (sock_of s d) (str, []) else [])"
    and i1: "sock_inv k1" "s_ws k1 = s_ws (sock_of s d)" "d \<in> insert c D \<longrightarrow> length (sent_bytes k1) \<le> 2 ^ 45"
  proof (cases "d \<in> D \<and> waiting_of s d")
    case False
    have fine: "d \<in> insert c D \<longrightarrow> sent_len s d \<le> 2 ^ 45" using room by force
    obtain answer where "e_pack E 0 ?args = Some answer" using E unfolding ample_def by blast
    moreover obtain str where "e_dumps E 0 answer = Some str" using all by blast
    moreover have kd: "k1 = sock_of s d" using k1 False by (simp only: if_False)
    moreover have "d \<in> insert c D \<longrightarrow> length (sent_bytes k1) \<le> 2 ^ 45" unfolding kd k(2) by (rule fine)
    ultimately show thesis using that [of 0 answer 0 str] k(1) False by simp
  next
    case True
    then obtain t t' answer r where n: "e_pack E t ?args = Some answer"
      "dime_socket_push (e_dumps E t') (e_errno E t') (e_ok E t') (sock_of s d) answer [] = (r, k1)"
      using k1 by (auto simp: notified_def)
    obtain str where str: "e_dumps E t' answer = Some str" "length str \<le> 2 ^ 40" "0 \<notin> set str" using all by blast
    have p: "dime_socket_push_str (e_errno E t') (e_ok E t') (sock_of s d) str [] = (r, k1)"
      using n(2) str(1) by (simp add: dime_socket_push_def)
    have small: "sent_len s d \<le> 2 ^ 44" using room True by blast
    have "length (sent_bytes (sock_of s d)) \<le> 2 ^ 45" unfolding k(2) using small by simp
    note b = push_str_bytes [OF E k(1) this str(2,3) p, unfolded k(2)]
    have "sent_len s d + 2 ^ 41 \<le> 2 ^ 45" using small by simp
    then have "length (sent_bytes k1) \<le> 2 ^ 45" using b by (blast intro: order_trans)
    then show thesis using that [OF n(1) str(1)] True b by simp
  qed
  have "sent_bytes (sock_of s' d) = sent_bytes k1 @ (if d = c then framed (sock_of s d) (STATUS_OK, []) else [])"
  proof (cases "d = c")
    case True
    then obtain t r where "dime_socket_push_str (e_errno E t) (e_ok E t) k1 STATUS_OK [] = (r, sock_of s' d)"
      using k2 by (auto simp: acknowledged_def)
    then show ?thesis
      using push_str_bytes [OF E i1(1) _ STATUS_OK_text] i1(3) True framed_cong [OF i1(2)] by simp
  qed (use k2 in simp)
  then show "\<exists>t t' answer str. e_pack E t ?args = Some answer \<and> e_dumps E t' answer = Some str \<and>
     sent_bytes (sock_of s' d) = sent_bytes (sock_of s d) @
       (if d \<in> D \<and> waiting_of s d then framed (sock_of s d) (str, []) else []) @
       (if d = c then framed (sock_of s d) (STATUS_OK, []) else [])"
    using nt b1 by (intro exI [of _ t] exI [of _ t'] exI [of _ answer] exI [of _ str]) simp
qed

section \<open>The two commands\<close>

lemma send_told:
  assumes env: "env_ok E" and inv: "srv_inv s" and c: "h_clnts s c \<noteq> None" and refs: "refs_leak X s"
    and bin: "length bin \<le> ALLOC_MAX" and run: "dime_client_send E c j bin s = (0, s')"
    and D: "D = {d. \<exists>name. e_unpack_s E j ''name'' = Inr name \<and> (d, name) \<in> membership s}"
  shows "told_to E c D s s'"
proof -
  obtain name g t gr where name: "e_unpack_s E j ''name'' = Inr name"
    and t: "dime_table_search (h_name2clnt s) name = Some (Some g, t)"
    and gr: "h_groups s g = Some gr" "g_clnts gr \<noteq> []"
    using run by (auto simp: dime_client_send_def Let_def split: sum.splits option.splits prod.splits if_splits)
  let ?s = "s\<lparr>h_name2clnt := t\<rparr>"
  have t': "table_inv t" "table_map t = table_map (h_name2clnt s)" "table_map (h_name2clnt s) name = Some g"
    by (rule table_search_cases [OF srv_inv_parts(2) [OF inv], of name], use t in auto)+
  have s: "srv_inv ?s" "h_clnts ?s c \<noteq> None" "refs_leak X ?s"
    using srv_inv_search [OF inv t'(1,2)] c refs by (simp_all add: refs_leak_def)
  have "group_name s g = Some name" using srv_inv_parts(4) [OF inv] t'(3) by simp
  then have D': "D = set (g_clnts gr)" using members_of_group [OF inv _ gr(1)] D name by simp
  have dist: "distinct (g_clnts gr)" using srv_inv_parts(6) [OF inv gr(1)] by (simp add: array_ok_def)
  have "h_clnts ?s d \<noteq> None" if "d \<in> set (g_clnts gr)" for d
    using group_members_exist [OF inv gr(1) that] by auto
  then have ex: "\<forall>d \<in> set (g_clnts gr). h_clnts ?s d \<noteq> None" by blast
  have run': "(case new_message E j bin ?s of
        (None, s) \<Rightarrow> (-1, fail_errno E c s)
      | (Some m, s) \<Rightarrow>
          (case foreach (deliver E c m) (g_clnts gr) s of
             (False, s) \<Rightarrow> (-1, s)
           | (True, s) \<Rightarrow> if no_refs m s then (-1, fault s) else reply_ok E c s)) = (0, s')"
    using run name t gr by (simp add: dime_client_send_def Let_def)
  then obtain m s1 s2 where nm: "new_message E j bin ?s = (Some m, s1)"
    and loop: "foreach (deliver E c m) (g_clnts gr) s1 = (True, s2)" and reply: "reply_ok E c s2 = (0, s')"
    by (auto split: prod.splits option.splits bool.splits if_splits)
  note l = send_loop(1,2) [OF env s bin nm dist ex loop]
  have "send_result X E (set (g_clnts gr)) j bin c ?s 0 s'"
    using send_to_group [OF env s bin _ gr(2) run', of g] gr(1) by simp
  then obtain x where q: "queue_of s' = queues_with x (set (g_clnts gr)) (queue_of ?s)"
    by (auto simp: send_result_def delivered_to_def)
  have "told_to E c (set (g_clnts gr)) ?s s'"
    by (rule told_all [OF env s(1,2) bin nm dist ex loop refl _ reply])
      (use links_clnt [OF l(2)] s(2) q in \<open>simp_all add: queues_with_def\<close>)
  then show ?thesis unfolding told_to_def D' sock_of_small(2) view_search(2) .
qed

lemma broadcast_told:
  assumes env: "env_ok E" and inv: "srv_inv s" and c: "h_clnts s c \<noteq> None" and refs: "refs_leak X s"
    and bin: "length bin \<le> ALLOC_MAX" and run: "dime_client_broadcast E c j bin s = (0, s')"
  shows "told_to E c (dom (h_clnts s) - {c}) s s'"
proof -
  obtain m s1 where nm: "new_message E j bin s = (Some m, s1)"
    using run by (auto simp: dime_client_broadcast_def split: prod.splits option.splits)
  note n = new_message_ok [OF env inv bin nm]
  obtain msg where msg: "h_msgs s1 m = Some msg" using n by auto
  have s1: "srv_inv s1" "links s1 = links s" using n by simp_all
  obtain ds where ds: "table_walk (h_fd2clnt s1) = Some ds" "distinct ds" "set ds = dom (h_clnts s1)"
    by (rule walk_clients [OF s1(1)])
  let ?ds = "filter (\<lambda>d. d \<noteq> c) ds"
  have dom: "dom (h_clnts s1) = dom (h_clnts s)" unfolding dom_def using links_clnt [OF s1(2)] by simp
  have D: "set ?ds = dom (h_clnts s) - {c}" and dist: "distinct ?ds" using ds(2,3) dom by auto
  have ex: "\<forall>d \<in> set ?ds. h_clnts s d \<noteq> None" "\<forall>d \<in> set ds. h_clnts s1 d \<noteq> None" using ds(3) dom by auto
  have c1: "h_clnts s1 c \<noteq> None" using links_clnt [OF s1(2)] c by simp
  obtain s2 where "foreach (deliver_other E c m) ds s1 = (True, s2)" and reply: "reply_ok E c (free_if_unused m s2) = (0, s')"
    using run nm ds(1) by (auto simp: dime_client_broadcast_def split: prod.splits bool.splits)
  then have loop: "foreach (deliver E c m) ?ds s1 = (True, s2)"
    using foreach_deliver_other [OF env s1(1) c1 ex(2) msg] by simp
  note l = send_loop(2) [OF env inv c refs bin nm dist ex(1) loop]
  have "h_clnts s2 c \<noteq> None" using links_clnt [OF l] c by simp
  then have c3: "h_clnts (free_if_unused m s2) c \<noteq> None"
    by (simp add: free_if_unused_def split: option.split)
  have "send_result X E (set ?ds) j bin c s 0 s'" by (rule send_end(1) [OF env inv c refs bin nm dist ex(1) loop reply])
  then obtain x where q: "queue_of s' = queues_with x (set ?ds) (queue_of s)"
    by (auto simp: send_result_def delivered_to_def)
  have "told_to E c (set ?ds) s s'"
    by (rule told_all [OF env inv c bin nm dist ex(1) loop _ c3 reply]) (use q in \<open>simp_all add: queues_with_def\<close>)
  then show ?thesis unfolding D .
qed

end
