(* ===== verification/Client_Props.thy ===== *)
theory Client_Props
  imports Server_Demo Message_Told
begin

text \<open>
  The properties of the commands of \<^verbatim>\<open>server/client.c\<close>.
\<close>

abbreviation demo :: dime_server where
  "demo \<equiv> demo_srv [3] False"

lemma demo: "srv_inv demo" "refs_ok demo" "h_clnts demo 0 \<noteq> None" "h_clnts demo 1 \<noteq> None" "\<not> h_fault demo"
  using demo_srv_inv [of "[3]" False] demo_srv_refs [of "[3]" False] demo_srv_view [of "[3]" False] by simp_all

section \<open>Groups\<close>

text \<open>
  C11. \<^verbatim>\<open>dime_client_join\<close> keeps the structure of the server and changes the membership relation
  by adding the client to the groups that a prefix of the requested names denotes, all of them when
  it returns 0; the names of the prefix are strings, different from each other and of groups the
  client was not in.  With ample memory it returns 0 exactly when that holds of all requested names.
  It can only fault, by a search that does not end, when the table of groups has no free slot.
\<close>

theorem join_spec:
  assumes "env_ok E" and "srv_inv s" and "h_clnts s c \<noteq> None" and "dime_client_join E c j s = (rc, s')"
  shows "srv_inv s' \<and> h_msgs s' = h_msgs s \<and> rc \<in> {0, -1} \<and>
    (h_fault s' \<longrightarrow> h_fault s \<or> \<not> table_live (h_name2clnt s')) \<and>
    (\<exists>names rest. requested E j = map Some names @ rest \<and> (rc = 0 \<longrightarrow> rest = []) \<and>
       distinct names \<and> {c} \<times> set names \<inter> membership s = {} \<and>
       membership s' = membership s \<union> {c} \<times> set names) \<and>
    (ample E \<and> sent_len s c \<le> 2 ^ 44 \<and> table_live (h_name2clnt s) \<and>
       t_len (h_name2clnt s) + length (requested E j) \<le> 2 ^ 40 \<longrightarrow>
     (rc = 0 \<longleftrightarrow> (\<exists>arr names. e_unpack_o E j ''name'' = Inr arr \<and> requested E j = map Some names \<and>
        distinct names \<and> {c} \<times> set names \<inter> membership s = {})))"
proof -
  have unpack: "\<exists>arr. e_unpack_o E j ''name'' = Inr arr" if "rc = 0"
    using that assms(4) by (auto simp: dime_client_join_def split: sum.splits)
  have "rc = 0" if "ample E" "sent_len s c \<le> 2 ^ 44" "table_live (h_name2clnt s)"
    "t_len (h_name2clnt s) + length (requested E j) \<le> 2 ^ 40" "e_unpack_o E j ''name'' = Inr arr"
    "requested E j = map Some names" "distinct names" "{c} \<times> set names \<inter> membership s = {}" for arr names
    using join_succeeds [OF that(1) _ that(2,5-8,3)] assms(2-4) that(4,6) by (simp add: alive_def)
  then show ?thesis using dime_client_join_ok [OF assms] unpack by (metis append.right_neutral)
qed

theorem join_spec_witness:
  "\<exists>s'. dime_client_join demo_env 0 (JObj [(''name'', JArr [JStr ''h''])]) demo = (0, s') \<and>
     membership s' = {(0, ''g''), (1, ''g''), (0, ''h'')}"
proof -
  obtain rc s' where run: "dime_client_join demo_env 0 (JObj [(''name'', JArr [JStr ''h''])]) demo = (rc, s')"
    by fastforce
  let ?j = "JObj [(''name'', JArr [JStr ''h''])]"
  have req: "requested demo_env ?j = [Some ''h'']" "e_unpack_o demo_env ?j ''name'' = Inr (JArr [JStr ''h''])"
    by (simp_all add: requested_def demo_env_def)
  have nm: "h_name2clnt demo = demo_names" by (simp add: demo_srv_def)
  note spec = join_spec [OF demo_env(1) demo(1,3) run]
  have "\<exists>arr names. e_unpack_o demo_env ?j ''name'' = Inr arr \<and> requested demo_env ?j = map Some names \<and>
        distinct names \<and> {0} \<times> set names \<inter> membership demo = {}"
    unfolding req by (intro exI [of _ "JArr [JStr ''h'']"] exI [of _ "[''h'']"]) (simp add: demo_srv_view)
  then have rc: "rc = 0" using spec demo_env(4) demo_names(3) by (simp add: req demo_srv_room nm demo_names_len)
  obtain names rest where n: "[Some ''h''] = map Some names @ rest" "rc = 0 \<longrightarrow> rest = []"
    "membership s' = membership demo \<union> {0} \<times> set names"
    using spec [THEN conjunct2, THEN conjunct2, THEN conjunct2, THEN conjunct2, THEN conjunct1]
    unfolding req by (elim exE conjE) (rule that)
  then have "names = [''h'']" using rc by auto
  then show ?thesis using run rc n(3) by (auto simp: demo_srv_view)
qed

text \<open>
  C12. \<^verbatim>\<open>dime_client_leave\<close> is the reverse: a prefix of the requested names is taken out of the
  client's groups, all of them when it returns 0, and with room in the out-buffer it returns 0
  exactly when the names are strings, different from each other and of groups the client is in.
  It never faults.
\<close>

theorem leave_spec:
  assumes "env_ok E" and "srv_inv s" and "h_clnts s c \<noteq> None" and "dime_client_leave E c j s = (rc, s')"
  shows "srv_inv s' \<and> h_msgs s' = h_msgs s \<and> h_fault s' = h_fault s \<and> rc \<in> {0, -1} \<and>
    (\<exists>names rest. requested E j = map Some names @ rest \<and> (rc = 0 \<longrightarrow> rest = []) \<and>
       distinct names \<and> {c} \<times> set names \<subseteq> membership s \<and>
       membership s' = membership s - {c} \<times> set names) \<and>
    (ample E \<and> sent_len s c \<le> 2 ^ 44 \<longrightarrow>
     (rc = 0 \<longleftrightarrow> (\<exists>arr names. e_unpack_o E j ''name'' = Inr arr \<and> requested E j = map Some names \<and>
        distinct names \<and> {c} \<times> set names \<subseteq> membership s)))"
proof -
  have unpack: "\<exists>arr. e_unpack_o E j ''name'' = Inr arr" if "rc = 0"
    using that assms(4) by (auto simp: dime_client_leave_def split: sum.splits)
  have "rc = 0" if "ample E" "sent_len s c \<le> 2 ^ 44" "e_unpack_o E j ''name'' = Inr arr"
    "requested E j = map Some names" "distinct names" "{c} \<times> set names \<subseteq> membership s" for arr names
    using leave_succeeds [OF that(1) _ that(2-6)] assms(2-4) by (simp add: alive_def)
  then show ?thesis using dime_client_leave_ok [OF assms] unpack by (metis append.right_neutral)
qed

theorem leave_spec_witness:
  "\<exists>s'. dime_client_leave demo_env 1 (JObj [(''name'', JArr [JStr ''g''])]) demo = (0, s') \<and>
     membership s' = {(0, ''g'')}"
proof -
  obtain rc s' where run: "dime_client_leave demo_env 1 (JObj [(''name'', JArr [JStr ''g''])]) demo = (rc, s')"
    by fastforce
  let ?j = "JObj [(''name'', JArr [JStr ''g''])]"
  have req: "requested demo_env ?j = [Some ''g'']" "e_unpack_o demo_env ?j ''name'' = Inr (JArr [JStr ''g''])"
    by (simp_all add: requested_def demo_env_def)
  note spec = leave_spec [OF demo_env(1) demo(1,4) run]
  have "\<exists>arr names. e_unpack_o demo_env ?j ''name'' = Inr arr \<and> requested demo_env ?j = map Some names \<and>
        distinct names \<and> {1} \<times> set names \<subseteq> membership demo"
    unfolding req by (intro exI [of _ "JArr [JStr ''g'']"] exI [of _ "[''g'']"]) (simp add: demo_srv_view)
  then have rc: "rc = 0" using spec demo_env(4) by (simp add: req demo_srv_room)
  obtain names rest where n: "[Some ''g''] = map Some names @ rest" "rc = 0 \<longrightarrow> rest = []"
    "membership s' = membership demo - {1} \<times> set names"
    using spec [THEN conjunct2, THEN conjunct2, THEN conjunct2, THEN conjunct2, THEN conjunct1]
    unfolding req by (elim exE conjE) (rule that)
  then have "names = [''g'']" using rc by auto
  then show ?thesis using run rc n(3) by (auto simp: demo_srv_view)
qed

section \<open>Messages\<close>

text \<open>
  C7. \<^verbatim>\<open>dime_client_send\<close>: when it returns 0, the group has members, each of them has the one new
  message with the given binary part at the end of its queue and waits no longer, and the reference
  count is the number of members.  On its socket, a member that was waiting has been pushed the status
  message with the length of its queue, then the sender the reply, and no other socket has changed.
  With ample memory and room in the buffers of the members it returns 0 exactly when the group
  has members, and then just the bytes of these messages are appended to the out-buffers.  When it fails,
  the structure of the server is kept, and the counts are exact unless a member was waiting.  Its only
  fault is a search that does not end.
\<close>

theorem send_spec:
  assumes "env_ok E" and "srv_inv s" and "h_clnts s c \<noteq> None" and "refs_ok s" and "length bin \<le> ALLOC_MAX"
    and "dime_client_send E c j bin s = (rc, s')"
    and "D = {d. \<exists>name. e_unpack_s E j ''name'' = Inr name \<and> (d, name) \<in> membership s}"
  shows "kept c s s' \<and> rc \<in> {0, -1} \<and> (h_fault s' \<longrightarrow> h_fault s \<or> \<not> table_live (h_name2clnt s')) \<and>
    (rc = 0 \<longrightarrow> D \<noteq> {} \<and> refs_ok s' \<and> delivered_to E D j bin s s' \<and> told_to E c D s s') \<and>
    ((\<forall>d \<in> D. \<not> waiting_of s d) \<longrightarrow> refs_ok s') \<and>
    (ample E \<and> sent_len s c \<le> 2 ^ 44 \<and> (\<forall>d \<in> D. roomy s d) \<longrightarrow>
     (rc = 0 \<longleftrightarrow> D \<noteq> {}) \<and> (rc = 0 \<longrightarrow> told_bytes E c D s s'))"
proof -
  have told: "told_to E c D s s'" if "rc = 0"
    by (rule send_told [OF assms(1-5) assms(6) [unfolded that] assms(7)])
  have bytes: "told_bytes E c D s s'" if "rc = 0" "ample E" "sent_len s c \<le> 2 ^ 44" "\<forall>d \<in> D. roomy s d"
    by (rule told_to_bytes [OF that(2) assms(2) told [OF that(1)]]) (use that(3,4) in \<open>simp add: roomy_def\<close>)
  have "rc = 0" if h: "ample E" "sent_len s c \<le> 2 ^ 44" "\<forall>d \<in> D. roomy s d" "D \<noteq> {}"
  proof -
    obtain name d where name: "e_unpack_s E j ''name'' = Inr name" "(d, name) \<in> membership s"
      using h(4) assms(7) by auto
    have "\<forall>d. (d, name) \<in> membership s \<longrightarrow> roomy s d" using h(3) name(1) assms(7) by simp
    then show ?thesis
      using send_succeeds [OF h(1) _ h(2) assms(5,4) name] assms(2,3,6) by (simp add: alive_def)
  qed
  then show ?thesis using dime_client_send_ok [OF assms] told bytes by (auto simp: send_result_def safe_fault_def)
qed

text \<open>The same server, with client 1 waiting and nothing in its queue.\<close>

abbreviation idle_demo :: dime_server where
  "idle_demo \<equiv> demo_srv [] True"

lemma idle_demo: "srv_inv idle_demo" "refs_ok idle_demo" "h_clnts idle_demo 0 \<noteq> None"
  using demo_srv_inv [of "[]" True] demo_srv_refs [of "[]" True] demo_srv_view [of "[]" True] by simp_all

lemma idle_demo_told:
  assumes "told_bytes demo_env 0 D idle_demo s'" and "1 \<in> D"
  shows "sent_bytes (sock_of s' 1) = wire ([123, 125], [])"
proof -
  have sock: "sock_of idle_demo 1 = demo_sock" by (simp add: sock_of_def demo_srv_def demo_client1_def)
  have w: "waiting_of idle_demo 1" and dom: "1 \<in> dom (h_clnts idle_demo)" by (simp_all add: demo_srv_view)
  obtain t' answer str where "e_dumps demo_env t' answer = Some str"
    and b: "sent_bytes (sock_of s' 1) = sent_bytes (sock_of idle_demo 1) @
      (if 1 \<in> D \<and> waiting_of idle_demo 1 then framed (sock_of idle_demo 1) (str, []) else []) @
      (if (1 :: addr) = 0 then framed (sock_of idle_demo 1) (STATUS_OK, []) else [])"
    using assms(1) dom unfolding told_bytes_def by blast
  then have "str = [123, 125]" by (simp add: demo_env_def)
  then show ?thesis using b w sock assms(2) demo_sock(2,4) by (simp add: framed_def ws_prefix_def)
qed

theorem send_spec_witness:
  "\<exists>s'. dime_client_send demo_env 0 (JObj [(''name'', JStr ''g'')]) [9] idle_demo = (0, s') \<and>
     refs_ok s' \<and> delivered_to demo_env {0, 1} (JObj [(''name'', JStr ''g'')]) [9] idle_demo s' \<and>
     waiting_of idle_demo 1 \<and> sent_bytes (sock_of s' 1) = wire ([123, 125], [])"
proof -
  let ?j = "JObj [(''name'', JStr ''g'')]"
  obtain rc s' where run: "dime_client_send demo_env 0 ?j [9] idle_demo = (rc, s')" by fastforce
  have bin: "length [9 :: byte] \<le> ALLOC_MAX" by (simp add: ALLOC_MAX_def)
  have D: "{0, 1} = {d. \<exists>name. e_unpack_s demo_env ?j ''name'' = Inr name \<and> (d, name) \<in> membership idle_demo}"
    by (auto simp: demo_env_def demo_srv_view)
  note spec = send_spec [OF demo_env(1) idle_demo(1,3,2) bin run D]
  have rc: "rc = 0" "told_bytes demo_env 0 {0, 1} idle_demo s'" using spec demo_env(4) by (simp_all add: demo_srv_room)
  have "waiting_of idle_demo 1" by (simp add: demo_srv_view)
  then show ?thesis using spec run rc(1) idle_demo_told [OF rc(2)] by simp
qed

text \<open>
  C10. \<^verbatim>\<open>dime_client_broadcast\<close> does the same for all clients but the sender, whom the loop passes
  over by its descriptor: those that wait are pushed the status message with the length of their queue.
  With ample memory and room in the buffers of all clients it always succeeds, also without other clients,
  and then keeps no message.  It never faults.
\<close>

theorem broadcast_spec:
  assumes "env_ok E" and "srv_inv s" and "h_clnts s c \<noteq> None" and "refs_ok s" and "length bin \<le> ALLOC_MAX"
    and "dime_client_broadcast E c j bin s = (rc, s')"
  shows "kept c s s' \<and> rc \<in> {0, -1} \<and> h_fault s' = h_fault s \<and>
    (rc = 0 \<longrightarrow> refs_ok s' \<and> delivered_to E (dom (h_clnts s) - {c}) j bin s s' \<and>
      told_to E c (dom (h_clnts s) - {c}) s s') \<and>
    ((\<forall>d. d \<noteq> c \<longrightarrow> \<not> waiting_of s d) \<longrightarrow> refs_ok s') \<and>
    (ample E \<and> (\<forall>d \<in> dom (h_clnts s). roomy s d) \<longrightarrow>
     rc = 0 \<and> told_bytes E c (dom (h_clnts s) - {c}) s s')"
proof -
  have told: "told_to E c (dom (h_clnts s) - {c}) s s'" if "rc = 0"
    by (rule broadcast_told [OF assms(1-5) assms(6) [unfolded that]])
  have bytes: "told_bytes E c (dom (h_clnts s) - {c}) s s'" if "rc = 0" "ample E" "\<forall>d \<in> dom (h_clnts s). roomy s d"
    by (rule told_to_bytes [OF that(2) assms(2) told [OF that(1)]]) (use that(3) assms(3) in \<open>auto simp: roomy_def\<close>)
  have "rc = 0" if "ample E" "\<forall>d \<in> dom (h_clnts s). roomy s d"
    using broadcast_succeeds [OF that(1) _ assms(5) that(2), of c j] assms(2,3,6) by (simp add: alive_def)
  then show ?thesis using dime_client_broadcast_ok [OF assms] told bytes by (auto simp: send_result_def)
qed

theorem broadcast_spec_witness:
  "\<exists>s'. dime_client_broadcast demo_env 0 (JObj []) [9] idle_demo = (0, s') \<and>
     refs_ok s' \<and> delivered_to demo_env {1} (JObj []) [9] idle_demo s' \<and>
     waiting_of idle_demo 1 \<and> sent_bytes (sock_of s' 1) = wire ([123, 125], [])"
proof -
  obtain rc s' where run: "dime_client_broadcast demo_env 0 (JObj []) [9] idle_demo = (rc, s')" by fastforce
  have bin: "length [9 :: byte] \<le> ALLOC_MAX" by (simp add: ALLOC_MAX_def)
  have dom: "dom (h_clnts idle_demo) = {0, 1}" by (simp add: demo_srv_view)
  note spec = broadcast_spec [OF demo_env(1) idle_demo(1,3,2) bin run, unfolded dom]
  have D: "{0, 1} - {0} = {1 :: addr}" by auto
  have rc: "rc = 0" "told_bytes demo_env 0 {1} idle_demo s'" using spec demo_env(4) by (simp_all add: demo_srv_room D)
  have "waiting_of idle_demo 1" by (simp add: demo_srv_view)
  then show ?thesis using spec run rc(1) D idle_demo_told [OF rc(2)] by simp
qed

text \<open>
  C5. \<^verbatim>\<open>dime_client_sync\<close> takes the first \<open>k\<close> messages out of the client's queue, and no others,
  where \<open>k\<close> is at most the requested number (a negative one stands for all) and exactly that, or the
  length of the queue, on success; the counts stay exact, and a message that could not be pushed is
  back at the front.
\<close>

theorem sync_spec:
  assumes "env_ok E" and "srv_inv s" and "h_clnts s c \<noteq> None" and "refs_ok s"
    and "e_unpack_I E j ''n'' = Some n" and "dime_client_sync E c j s = (rc, s')"
  shows "\<exists>k. srv_inv s' \<and> refs_ok s' \<and> links s' = links s \<and> waiting_of s' = waiting_of s \<and> h_fault s' = h_fault s \<and>
    queue_of s' = (queue_of s)(c := drop k (queue_of s c)) \<and>
    k \<le> min (if n < 0 then 2 ^ 64 - 1 else nat n mod 2 ^ 64) (length (queue_of s c)) \<and> rc \<in> {0, -1} \<and>
    (rc = 0 \<longrightarrow> k = min (if n < 0 then 2 ^ 64 - 1 else nat n mod 2 ^ 64) (length (queue_of s c)))"
proof -
  have lim: "sync_limit n = (if n < 0 then 2 ^ 64 - 1 else nat n mod 2 ^ 64)"
    by (simp add: sync_limit_def ssize_to_size_def nat_mod_distrib)
  show ?thesis using dime_client_sync_ok [OF assms(1-4,5,6)] unfolding lim took_def by blast
qed

theorem sync_spec_witness:
  "\<exists>rc s' k. dime_client_sync demo_env 1 (JObj [(''n'', JInt (-1))]) demo = (rc, s') \<and> refs_ok s' \<and>
     queue_of s' 1 = drop k [3]"
proof -
  let ?j = "JObj [(''n'', JInt (-1))]"
  obtain rc s' where run: "dime_client_sync demo_env 1 ?j demo = (rc, s')" by fastforce
  have n: "e_unpack_I demo_env ?j ''n'' = Some (-1)" by (simp add: demo_env_def)
  obtain k where "refs_ok s'" "queue_of s' = (queue_of demo)(1 := drop k (queue_of demo 1))"
    using sync_spec [OF demo_env(1) demo(1,4,2) n run] by blast
  then show ?thesis using run by (auto simp: demo_srv_view)
qed

text \<open>
  C9. With ample memory \<^verbatim>\<open>dime_client_sync\<close> returns 0 and appends to the out-buffer, after what is
  already there, the first messages of the queue, oldest first, each as its JSON text and binary
  part were sent, and then the reply.
\<close>

theorem sync_order:
  assumes "ample E" and "srv_inv s" and "h_clnts s c \<noteq> None" and "refs_ok s"
    and "e_unpack_I E j ''n'' = Some n" and "sent_len s c \<le> 2 ^ 44"
    and "sum_list (map (\<lambda>m. 10 + length (wire (payload s m))) (queue_of s c)) \<le> 2 ^ 44"
    and "dime_client_sync E c j s = (rc, s')"
  shows "rc = 0 \<and> sent_bytes (sock_of s' c) = sent_bytes (sock_of s c) @
    concat (map (framed (sock_of s c) \<circ> payload s) (take (sync_limit n) (queue_of s c))) @
    framed (sock_of s c) (STATUS_OK, [])"
  using sync_sends [OF assms(1-5) _ assms(8)] assms(6,7) by simp

theorem sync_order_witness:
  "\<exists>s'. dime_client_sync demo_env 1 (JObj [(''n'', JInt (-1))]) demo = (0, s') \<and>
     sent_bytes (sock_of s' 1) = wire ([123, 125], [7]) @ wire (STATUS_OK, [])"
proof -
  let ?j = "JObj [(''n'', JInt (-1))]"
  obtain rc s' where run: "dime_client_sync demo_env 1 ?j demo = (rc, s')" by fastforce
  have n: "e_unpack_I demo_env ?j ''n'' = Some (-1)" by (simp add: demo_env_def)
  have pay: "payload demo 3 = ([123, 125], [7])" by (simp add: payload_def demo_srv_def)
  have room: "sent_len demo 1 \<le> 2 ^ 44" by (simp add: demo_srv_room)
  have sum: "sum_list (map (\<lambda>m. 10 + length (wire (payload demo m))) (queue_of demo 1)) \<le> 2 ^ 44"
    by (simp add: demo_srv_view pay)
  have sock: "sock_of demo 1 = demo_sock" by (simp add: sock_of_def demo_srv_def demo_client1_def)
  have lim: "take (sync_limit (-1)) [3 :: addr] = [3]" by (simp add: sync_limit_def ssize_to_size_def)
  have "framed demo_sock x = wire x" for x using demo_sock(4) by (simp add: framed_def ws_prefix_def)
  then show ?thesis
    using sync_order [OF demo_env(4) demo(1,4,2) n room sum run] run demo_sock(2)
    by (simp add: sock [unfolded One_nat_def] demo_srv_view lim pay)
qed

section \<open>Waiting, devices, handshake\<close>

text \<open>
  \<^verbatim>\<open>dime_client_wait\<close> makes a client wait exactly when its queue is empty, and otherwise only
  tells it the length of the queue; queues, messages and links are untouched, and with ample memory
  it returns 0.
\<close>

theorem wait_spec:
  assumes "env_ok E" and "srv_inv s" and "h_clnts s c \<noteq> None" and "dime_client_wait E c s = (rc, s')"
  shows "srv_inv s' \<and> links s' = links s \<and> queue_of s' = queue_of s \<and> h_msgs s' = h_msgs s \<and> h_fault s' = h_fault s \<and>
    rc \<in> {0, -1} \<and> waiting_of s' = (if queue_of s c = [] then (waiting_of s)(c := True) else waiting_of s) \<and>
    (queue_of s c = [] \<or> ample E \<and> sent_len s c \<le> 2 ^ 44 \<longrightarrow> rc = 0)"
proof -
  have "rc = 0" if "ample E" "sent_len s c \<le> 2 ^ 44"
    using wait_succeeds [OF that(1) _ that(2)] assms(2-4) by (simp add: alive_def)
  then show ?thesis using dime_client_wait_ok [OF assms] by blast
qed

theorem wait_spec_witness:
  "\<exists>s'. dime_client_wait demo_env 0 demo = (0, s') \<and> waiting_of s' 0 \<and> \<not> waiting_of s' 1 \<and> queue_of s' = queue_of demo"
proof -
  obtain rc s' where run: "dime_client_wait demo_env 0 demo = (rc, s')" by fastforce
  show ?thesis using wait_spec [OF demo_env(1) demo(1,3) run] run by (simp add: demo_srv_view)
qed

text \<open>
  C20. \<^verbatim>\<open>dime_client_devices\<close> changes nothing but the out-buffer of the client; when it returns 0, the
  pushed response carries an array with the name of each group that has a member, once, and no
  other; with ample memory it returns 0.
\<close>

theorem devices_spec:
  assumes "env_ok E" and "json_arrays E" and "srv_inv s" and "h_clnts s c \<noteq> None"
    and "dime_client_devices E c s = (rc, s')"
  shows "same_but_socks s s' \<and> rc \<in> {0, -1} \<and>
    (rc = 0 \<longrightarrow> (\<exists>names arr t j s1. distinct names \<and> set names = snd ` membership s \<and>
       map (e_string_value E) (e_elems E arr) = map Some names \<and>
       e_pack E t [(''status'', PInt 0), (''devices'', PObj arr)] = Some j \<and>
       same_but_socks s s1 \<and> clnt_push E c j s1 = (fst (clnt_push E c j s1), s') \<and> 0 \<le> fst (clnt_push E c j s1))) \<and>
    (ample E \<and> sent_len s c \<le> 2 ^ 44 \<and> (\<forall>t n a x. e_array E t \<noteq> None \<and> e_string E t n \<noteq> None \<and> e_append E t a x \<noteq> None)
      \<longrightarrow> rc = 0)"
proof -
  have "rc = 0" if "ample E" "sent_len s c \<le> 2 ^ 44"
    "\<forall>t n a x. e_array E t \<noteq> None \<and> e_string E t n \<noteq> None \<and> e_append E t a x \<noteq> None"
    using devices_succeeds [OF that(1) _ _ _ _ that(2)] that(3) assms(3-5) by (simp add: alive_def)
  then show ?thesis using dime_client_devices_ok [OF assms] by blast
qed

theorem devices_spec_witness:
  "\<exists>s'. dime_client_devices demo_env 1 demo = (0, s') \<and> same_but_socks demo s'"
proof -
  obtain rc s' where run: "dime_client_devices demo_env 1 demo = (rc, s')" by fastforce
  have total: "e_array demo_env t \<noteq> None \<and> e_string demo_env t n \<noteq> None \<and> e_append demo_env t a x \<noteq> None" for t n a x
    by (simp add: demo_env_def)
  note spec = devices_spec [OF demo_env(1,2) demo(1,4) run]
  have "rc = 0"
    by (rule spec [THEN conjunct2, THEN conjunct2, THEN conjunct2, THEN mp])
      (use demo_env(4) total in \<open>simp add: demo_srv_room\<close>)
  then show ?thesis using spec [THEN conjunct1] run by blast
qed

text \<open>
  C19. \<^verbatim>\<open>dime_client_handshake\<close> only changes the serialization of the server and out-buffers.  The
  serialization changes by \<open>agree\<close>: the first client decides, a portable one (dimeb, json) stays for
  ever, and of two that differ and are not portable dimeb is the result.  Without a TLS context, with
  ample memory and room in all out-buffers it returns 0 exactly for a request whose serialization is known.
\<close>

theorem handshake_spec:
  assumes "env_ok E" and "srv_inv s" and "h_clnts s c \<noteq> None" and "dime_client_handshake E c j s = (rc, s')"
  shows "\<exists>x. same_but_socks (s\<lparr>h_serialization := x\<rparr>) s' \<and> rc \<in> {0, -1} \<and>
    (x = h_serialization s \<or> (\<exists>str tls i. e_unpack_sb E j ''serialization'' ''tls'' = Inr (str, tls) \<and>
        serialization_of str = Some i \<and> x = agree (h_serialization s) i)) \<and>
    (rc = 0 \<longrightarrow> (\<exists>str tls i. e_unpack_sb E j ''serialization'' ''tls'' = Inr (str, tls) \<and>
        serialization_of str = Some i \<and> x = agree (h_serialization s) i)) \<and>
    (ample E \<and> \<not> h_tlsctx s \<and> (\<forall>d \<in> dom (h_clnts s). sent_len s d \<le> 2 ^ 44) \<and>
      (\<exists>str tls i. e_unpack_sb E j ''serialization'' ''tls'' = Inr (str, tls) \<and> serialization_of str = Some i)
      \<longrightarrow> rc = 0)"
proof -
  have "rc = 0" if "ample E" "\<not> h_tlsctx s" "\<forall>d \<in> dom (h_clnts s). sent_len s d \<le> 2 ^ 44"
    "e_unpack_sb E j ''serialization'' ''tls'' = Inr (str, tls)" "serialization_of str = Some i" for str tls i
    using handshake_succeeds [OF that(1) _ that(3,2,4,5), of c] assms(2-4) by (simp add: alive_def)
  then have imp: "ample E \<and> \<not> h_tlsctx s \<and> (\<forall>d \<in> dom (h_clnts s). sent_len s d \<le> 2 ^ 44) \<and>
      (\<exists>str tls i. e_unpack_sb E j ''serialization'' ''tls'' = Inr (str, tls) \<and> serialization_of str = Some i)
      \<longrightarrow> rc = 0"
    by blast
  show ?thesis using dime_client_handshake_ok [OF assms] by (elim exE conjE) (intro exI conjI imp; assumption)
qed

theorem handshake_spec_witness:
  "\<exists>s'. dime_client_handshake demo_env 0 (JObj [(''serialization'', JStr ''pickle''), (''tls'', JBool False)]) demo = (0, s') \<and>
     h_serialization s' = DIME_DIMEB"
proof -
  let ?j = "JObj [(''serialization'', JStr ''pickle''), (''tls'', JBool False)]"
  obtain rc s' where run: "dime_client_handshake demo_env 0 ?j demo = (rc, s')" by fastforce
  have un: "e_unpack_sb demo_env ?j ''serialization'' ''tls'' = Inr (''pickle'', False)" by (simp add: demo_env_def)
  have ser: "serialization_of ''pickle'' = Some DIME_PICKLE" by (simp add: serialization_of_def)
  have "ample demo_env \<and> \<not> h_tlsctx demo \<and> (\<forall>d \<in> dom (h_clnts demo). sent_len demo d \<le> 2 ^ 44) \<and>
      (\<exists>str tls i. e_unpack_sb demo_env ?j ''serialization'' ''tls'' = Inr (str, tls) \<and> serialization_of str = Some i)"
  proof (intro conjI)
    show "\<not> h_tlsctx demo" by (simp add: demo_srv_def)
    show "\<exists>str tls i. e_unpack_sb demo_env ?j ''serialization'' ''tls'' = Inr (str, tls) \<and> serialization_of str = Some i"
      using un ser by blast
  qed (use demo_env(4) in \<open>simp_all add: demo_srv_room\<close>)
  then obtain x where rc: "rc = 0" and same: "same_but_socks (demo\<lparr>h_serialization := x\<rparr>) s'"
    and x: "\<exists>str tls i. e_unpack_sb demo_env ?j ''serialization'' ''tls'' = Inr (str, tls) \<and>
        serialization_of str = Some i \<and> x = agree (h_serialization demo) i"
    using handshake_spec [OF demo_env(1) demo(1,3) run] by blast
  have "x = DIME_DIMEB" using x ser unfolding un by (auto simp: agree_def demo_srv_def)
  moreover have "h_serialization s' = x" using same_view(1) [OF same] by (simp add: links_def)
  ultimately show ?thesis using run rc by simp
qed

end
