(* ===== verification/Server_Props.thy ===== *)
theory Server_Props
  imports Client_Props
begin

text \<open>
  What a failed notification leaves behind: a recipient that holds a message it was not counted for.
\<close>

section \<open>A message that is held but not counted\<close>

text \<open>The state after the delivery of \<open>m\<close> to a waiting client \<open>d\<close> that cannot be told.\<close>

lemma deliver_untold:
  assumes env: "env_ok E" and inv: "srv_inv s" and cl: "h_clnts s d = Some cl" and waits: "c_waiting cl"
    and empty: "queue_of s d = []"
    and pack: "e_pack E (Suc (h_tick s)) [(''status'', PInt 0), (''n'', PInt 1)] = None"
  obtains s1 where "deliver E c m d s = (False, s1)" and "srv_inv s1" and "links s1 = links s"
    and "queue_of s1 = (queue_of s)(d := [m])" and "h_msgs s1 = h_msgs s"
    and "\<And>b. b \<noteq> d \<Longrightarrow> h_clnts s1 b = h_clnts s b"
proof -
  have dq: "dq_inv (c_queue cl)" by (rule srv_inv_parts(9) [OF inv cl])
  obtain rc q where push: "dime_deque_pushr (e_ok E (h_tick s) 0) (c_queue cl) m = (rc, q)"
    by (cases "dime_deque_pushr (e_ok E (h_tick s) 0) (c_queue cl) m")
  have none: "dq_list (c_queue cl) = []" using empty by (simp add: queue_of_def cl)
  then have "d_len (c_queue cl) = 0" using length_dq_list [of "c_queue cl"] by simp
  then have rc: "rc = 0"
    using dime_deque_pushr_rc [OF dq, of "e_ok E (h_tick s) 0" m] push dq by (simp add: dq_inv_def)
  have q: "dq_inv q" "dq_list q = [m]"
    using dime_deque_pushr_step [OF dq, of "e_ok E (h_tick s) 0" m] push rc none by simp_all
  then have len: "dime_deque_len q = 1" using length_dq_list [of q] by (simp add: dime_deque_len_def)
  let ?u = "tick (set_clnt d (cl\<lparr>c_queue := q\<rparr>) s)"
  have tick: "h_tick ?u = Suc (h_tick s)" by (simp add: tick_def set_clnt_def)
  have n: "notify E d ?u = (False, fail_errno E d (tick ?u))"
    using pack len by (simp add: notify_def tick)
  have same: "same_but_socks ?u (fail_errno E d (tick ?u))" using notify_same [OF env, of ?u d] n by simp
  have u: "srv_inv ?u" using set_clnt_keeps [OF inv cl, of "cl\<lparr>c_queue := q\<rparr>"] q by simp
  note v = same_view [OF same] and w = set_clnt_view [OF cl, of "cl\<lparr>c_queue := q\<rparr>"]
  have other: "h_clnts (fail_errno E d (tick ?u)) b = h_clnts s b" if "b \<noteq> d" for b
    using that by (simp add: fail_errno_def fail_text_def respond_def clnt_push_def err_copy_def split_beta Let_def
      split: option.split)
  show thesis
    by (rule that [of "fail_errno E d (tick ?u)"])
      (use cl push rc waits n srv_inv_same [OF u same] v w q(2) other in \<open>simp_all add: deliver_def Let_def\<close>)
qed

text \<open>A successful sync of the last counted holder releases the message.\<close>

lemma last_holder_syncs:
  assumes s: "srv_inv s" and ok: "\<forall>t i. e_ok E t i" and q: "queue_of s b = [m]"
    and x: "h_msgs s m = Some x" and one: "m_refs x = 1"
    and room: "2 * (length (sent_bytes (sock_of s b)) + 10 + length (wire (payload s m))) \<le> ALLOC_MAX"
    and run: "sync_loop E b 1 s = (go, s')"
  shows "go" and "srv_inv s'" and "h_msgs s' m = None" and "queue_of s' = (queue_of s)(b := [])"
proof -
  obtain cb where cb: "h_clnts s b = Some cb" using q by (auto simp: queue_of_def split: option.splits)
  have qb: "queue_of s b = m # []" by (rule q)
  obtain rc u1 u0 queue where pop: "dime_deque_popl (c_queue cb) = (Some m, queue)"
    and u0: "u0 = set_clnt b (cb\<lparr>c_queue := queue\<rparr>) s"
    and push: "clnt_push_str E b (m_jsondata x) (m_bindata x) u0 = (rc, u1)"
    and same: "srv_inv u0" "same_but_socks u0 u1" "links u0 = links s" "queue_of u0 = (queue_of s)(b := [])"
    and loop: "sync_loop E b (Suc 0) s =
      (if rc < 0 then
         (False, tick (set_clnt b (the (h_clnts u1 b)
            \<lparr>c_queue := snd (dime_deque_pushl (e_ok E (h_tick u1) 0) (c_queue (the (h_clnts u1 b))) m)\<rparr>) u1))
       else sync_loop E b 0 (free_if_unused m (add_refs (-1) m u1)))"
    by (rule sync_turn [OF s cb qb x]) blast
  have sock: "sock_of s b = c_sock cb" by (simp add: sock_of_def cb)
  have rc: "\<not> rc < 0"
    by (rule sync_push_success(1) [OF s cb x ok _ push [unfolded u0]]) (use room sock in simp)
  have s': "go" "s' = free_if_unused m (add_refs (-1) m u1)" using loop run rc by simp_all
  have um: "h_msgs u1 m = Some x" using same_view(4) [OF same(2)] u0 x by simp
  have "alive b u1" using srv_inv_same [OF same(1,2)] same_but_socks_None [OF same(2), of b] u0 by (simp add: alive_def)
  then have "alive b s'" unfolding s'(2) by (rule release_alive)
  then show "go" "srv_inv s'" using s'(1) by (simp_all add: alive_def)
  show "h_msgs s' m = None" "queue_of s' = (queue_of s)(b := [])"
    unfolding s'(2) using one same_view(2) [OF same(2)] same(4)
    by (simp_all add: add_refs_eq [OF um] free_if_unused_def)
qed

text \<open>
  C16. When a waiting recipient cannot be told, \<^verbatim>\<open>dime_client_send\<close> and \<^verbatim>\<open>dime_client_broadcast\<close>
  return -1 with the message in its queue but without having counted it.  With one other holder \<open>b\<close>,
  the message has two holders and a count of one: the successful sync of \<open>b\<close> frees it, and the
  sync of the recipient then follows a dangling pointer.
\<close>

theorem untold_recipient_dangles:
  assumes env: "env_ok E" and ok: "\<forall>t i. e_ok E t i" and inv: "srv_inv s"
    and refs: "refs_upto (\<lambda>_. 0) {m} (queue_of s) (h_msgs s)"
    and d: "h_clnts s d \<noteq> None" "waiting_of s d" "queue_of s d = []"
    and b: "b \<noteq> d" "queue_of s b = [m]" "holders (queue_of s) m = {b}" and msg: "h_msgs s m \<noteq> None"
    and pack: "e_pack E (Suc (h_tick s)) [(''status'', PInt 0), (''n'', PInt 1)] = None"
    and room: "2 * (length (sent_bytes (sock_of s b)) + 10 + length (wire (payload s m))) \<le> ALLOC_MAX"
    and run: "deliver E c m d s = (go, s1)" "sync_loop E b 1 s1 = (gob, s2)" "sync_loop E d 1 s2 = (god, s3)"
  shows "\<not> go \<and> holders (queue_of s1) m = {b, d} \<and> m_refs (the (h_msgs s1 m)) = 1 \<and>
    gob \<and> h_msgs s2 m = None \<and> queue_of s2 d = [m] \<and> \<not> god \<and> h_fault s3"
proof -
  obtain cl where cl: "h_clnts s d = Some cl" using d(1) by auto
  obtain x where x: "h_msgs s m = Some x" using msg by auto
  have "unat (m_refs x) = 1" using refs_uptoD(2) [OF refs, of m] b(3) x by simp
  then have one: "m_refs x = 1" by (simp add: word_unat_eq_iff)
  have waits: "c_waiting cl" using d(2) cl by (simp add: waiting_of_def)
  obtain s1' where s1': "deliver E c m d s = (False, s1')" "srv_inv s1'" "links s1' = links s"
    "queue_of s1' = (queue_of s)(d := [m])" "h_msgs s1' = h_msgs s" "\<And>b. b \<noteq> d \<Longrightarrow> h_clnts s1' b = h_clnts s b"
    by (rule deliver_untold [OF env inv cl waits d(3) pack, where c = c and m = m]) blast
  have s1: "\<not> go" "s1 = s1'" using s1'(1) run(1) by auto
  note i1 = s1'(2-5) [folded s1(2)]
  have sock: "sock_of s1 b = sock_of s b" using s1'(6) [OF b(1)] s1(2) by (simp add: sock_of_def)
  have pay: "payload s1 m = payload s m" using i1(4) by (simp add: payload_def)
  have qb: "queue_of s1 b = [m]" using i1(3) b by simp
  have x1: "h_msgs s1 m = Some x" using i1(4) x by simp
  note s2 = last_holder_syncs [OF i1(1) ok qb x1 one room [folded sock pay] run(2)]
  have qd: "queue_of s2 d = [m]" using s2(4) i1(3) b(1) by simp
  obtain y where y: "h_clnts s2 d = Some y" "dq_list (c_queue y) = [m]"
    using qd by (auto simp: queue_of_def split: option.splits)
  obtain q2 where "dime_deque_popl (c_queue y) = (Some m, q2)"
    using dime_deque_popl_step [OF srv_inv_parts(9) [OF s2(2) y(1)]] y(2) by (auto simp: prod_eq_iff)
  then have "sync_loop E d (Suc 0) s2 = (False, fault (set_clnt d (y\<lparr>c_queue := q2\<rparr>) s2))"
    using y(1) s2(3) by (simp add: Let_def)
  then have "\<not> god" "h_fault s3" using run(3) by (auto simp: fault_def)
  moreover have "holders (queue_of s1) m = {b, d}" using b(3) i1(3) by (auto simp: holders_def)
  ultimately show ?thesis using s1(1) one x1 s2(1,3) qd by simp
qed

text \<open>Client 0 holds message 50; client 1 waits and cannot be told.\<close>

definition held :: dime_server where
  "held = (set_clnt 0 (demo_client0\<lparr>c_queue := deque_of [50]\<rparr>) (demo_srv [] True))
     \<lparr>h_msgs := [50 \<mapsto> \<lparr>m_refs = 1, m_jsondata = [123, 125], m_bindata = [7]\<rparr>]\<rparr>"

definition muted_env :: "json env" where
  "muted_env = demo_env\<lparr>e_pack := \<lambda>t args. None\<rparr>"

lemma muted_env: "env_ok muted_env" "e_ok muted_env t i" "e_pack muted_env t args = None"
  using demo_env(1,3) by (simp_all add: muted_env_def env_ok_def)

lemma held_view:
  "srv_inv held" "queue_of held = (\<lambda>c. if c = 0 then [50] else [])" "h_clnts held 1 = Some (demo_client1 [] True)"
  "waiting_of held 1" "sock_of held 0 = demo_sock"
  "h_msgs held 50 = Some \<lparr>m_refs = 1, m_jsondata = [123, 125], m_bindata = [7]\<rparr>"
proof -
  note v = demo_srv_view [of "[]" True, simplified]
  have q: "dq_inv (deque_of [50])" "dq_list (deque_of [50]) = [50]" by (rule deque_of_inv, rule demo_queue) simp_all
  have "srv_inv (demo_srv [] True)" by (rule demo_srv_inv) simp_all
  then have "srv_inv (set_clnt 0 (demo_client0\<lparr>c_queue := deque_of [50]\<rparr>) (demo_srv [] True))"
    by (rule set_clnt_keeps [OF _ v(5)]) (simp_all add: q)
  then show "srv_inv held" unfolding held_def
    by (rule srv_inv_msgs) (auto simp: demo_srv_def set_clnt_def msg_ok_def ALLOC_MAX_def split: if_splits)
  note w = set_clnt_view [OF v(5), of "demo_client0\<lparr>c_queue := deque_of [50]\<rparr>"]
  show "queue_of held = (\<lambda>c. if c = 0 then [50] else [])" using w(2) v(1) q(2) by (simp add: held_def fun_eq_iff)
  show "waiting_of held 1" using w(3) v(2) by (simp add: held_def demo_client0_def)
  show "h_clnts held 1 = Some (demo_client1 [] True)" using v(6) by (simp add: held_def set_clnt_def)
  show "sock_of held 0 = demo_sock" by (simp add: held_def sock_of_def demo_client0_def set_clnt_def)
  show "h_msgs held 50 = Some \<lparr>m_refs = 1, m_jsondata = [123, 125], m_bindata = [7]\<rparr>" by (simp add: held_def)
qed

theorem untold_recipient_dangles_witness:
  "\<exists>s1 s2 god s3. deliver muted_env 0 50 1 held = (False, s1) \<and> sync_loop muted_env 0 1 s1 = (True, s2) \<and>
     sync_loop muted_env 1 1 s2 = (god, s3) \<and> h_msgs s2 50 = None \<and> queue_of s2 1 = [50] \<and> h_fault s3"
proof -
  have who: "holders (queue_of held) m = (if m = 50 then {0} else {})" for m
    by (auto simp: holders_def held_view(2))
  have msgs: "h_msgs held m =
      (if m = 50 then Some \<lparr>m_refs = 1, m_jsondata = [123, 125], m_bindata = [7]\<rparr> else None)" for m
    by (simp add: held_def)
  have one: "holders (queue_of held) 50 = {0}" by (simp add: who)
  have refs: "refs_upto (\<lambda>_. 0) {50} (queue_of held) (h_msgs held)"
    unfolding refs_upto_def using who [unfolded held_view(2)] msgs by (simp add: held_view(2))
  have room: "2 * (length (sent_bytes (sock_of held 0)) + 10 + length (wire (payload held 50))) \<le> ALLOC_MAX"
    using demo_sock(2) by (simp add: held_view payload_def wire_def ALLOC_MAX_def)
  have there: "h_clnts held 1 \<noteq> None" by (simp only: held_view(3)) simp
  obtain go s1 where 1: "deliver muted_env 0 50 1 held = (go, s1)" by fastforce
  obtain gob s2 where 2: "sync_loop muted_env 0 1 s1 = (gob, s2)" by fastforce
  obtain god s3 where 3: "sync_loop muted_env 1 1 s2 = (god, s3)" by fastforce
  have "\<not> go \<and> gob \<and> h_msgs s2 50 = None \<and> queue_of s2 1 = [50] \<and> h_fault s3"
    using untold_recipient_dangles [OF muted_env(1) _ held_view(1) refs there held_view(4) _ _ _ one _ muted_env(3) room 1 2 3]
    by (simp add: muted_env held_view)
  then show ?thesis using 1 2 3 by auto
qed

end
