(* ===== verification/Loop_Props.thy ===== *)
theory Loop_Props
  imports Server_Demo Table_Map
begin

text \<open>
  The properties of the loop: the invariant of the reachable states, the loop over the messages of
  a client, closing a connection, and the ways in which one peer stops the server.
\<close>

section \<open>Accepting a client\<close>

lemma client_init_succeeds:
  assumes "\<forall>i. ok i" and "client_addr tmp addr fd \<noteq> None"
  shows "\<exists>cl. dime_client_init ok fd tmp addr = Client_Ready cl"
  using assms by (auto simp: dime_client_init_def dime_socket_init_def dime_ringbuffer_init_def
    dime_deque_init_def alloc_ok_def ALLOC_MAX_def PTR_SIZE_def sz_mul_def)

text \<open>A new client on a plain socket, while allocations succeed.\<close>

lemma accept_plain:
  assumes L: "loop_inv E L" and a: "answers_ok a L" "0 \<le> a_accept a" and ok: "\<forall>t i. e_ok E t i"
    and p: "protocol \<noteq> DIME_WS" and peer: "client_addr (a_stack a) (a_peer a) (a_accept a) \<noteq> None"
  obtains L' cl where "accept_client E a protocol L = (True, True, L')"
    and "h_clnts (l_srv L') = (h_clnts (l_srv L))(h_next (l_srv L) \<mapsto> cl)" and "c_fd cl = a_accept a"
    and "h_next (l_srv L') = Suc (h_next (l_srv L))"
proof -
  let ?s = "tick (l_srv L)" and ?t = "h_tick (l_srv L)" and ?c = "h_next (l_srv L)"
  let ?u = "?s\<lparr>h_next := Suc ?c\<rparr>"
  obtain cl where init: "dime_client_init (\<lambda>i. e_ok E ?t (Suc i)) (a_accept a) (a_stack a) (a_peer a) = Client_Ready cl"
    using client_init_succeeds [OF _ peer, of "\<lambda>i. e_ok E ?t (Suc i)"] ok by blast
  have fd: "c_fd cl = a_accept a" using dime_client_init_ok [OF init] by simp
  have inv: "srv_inv ?u" using loop_inv_inv [OF L] srv_inv_next [of ?s] by simp
  have "a_accept a \<notin> open_fds L" using a by (auto simp: answers_ok_def)
  then have "\<nexists>d x. h_clnts ?u d = Some x \<and> c_fd x = a_accept a" by (auto simp: open_fds_def)
  then have none: "table_map (h_fd2clnt ?u) (a_accept a) = None"
    using srv_inv_parts(3) [OF inv, of "a_accept a"] by (metis not_None_eq)
  obtain t where t: "dime_table_insert (e_ok E (h_tick ?u)) (h_fd2clnt ?u) (a_accept a) ?c = Some (0, t)"
    by (rule insert_client_cases [OF inv none, of "e_ok E (h_tick ?u)" ?c]) (use ok in auto)
  let ?L = "watch (a_accept a) (L\<lparr>l_srv := tick (set_clnt ?c cl (?u\<lparr>h_fd2clnt := t\<rparr>))\<rparr>)"
  have "accept_client E a protocol L = (True, True, register_client E ?c cl (L\<lparr>l_srv := ?u\<rparr>))"
    using init a(2) ok p by (simp add: accept_client_def Let_def)
  also have "register_client E ?c cl (L\<lparr>l_srv := ?u\<rparr>) = ?L" using t fd by (simp add: register_client_def Let_def)
  finally show thesis by (rule that) (use fd in \<open>simp_all add: watch_def fault_loop_def fault_def\<close>)
qed

section \<open>The reachable states\<close>

text \<open>
  C6. Between any two turns of \<^verbatim>\<open>dime_server_loop\<close>, whatever clients send and the operating system
  answers, the two tables, the clients and the groups agree with each other: the one table finds
  exactly the connected clients by their descriptors, the other exactly the groups by their names,
  and a client lists a group exactly when the group lists the client.  Every socket and queue is
  well-formed, a client's descriptor is watched unless it exceeds the set, it is not one the server
  listens on, and while allocations succeed every watched descriptor is open, so \<^verbatim>\<open>select\<close> works.
\<close>

theorem reachable_invariant:
  assumes "env_ok E" and "reachable E L" and "s = l_srv L"
  shows "(\<forall>fd c. table_map (h_fd2clnt s) fd = Some c \<longleftrightarrow> (\<exists>cl. h_clnts s c = Some cl \<and> c_fd cl = fd)) \<and>
    (\<forall>name g. table_map (h_name2clnt s) name = Some g \<longleftrightarrow> group_name s g = Some name) \<and>
    (\<forall>c g. member s c g \<longleftrightarrow> has_group s c g) \<and>
    (\<forall>c cl. h_clnts s c = Some cl \<longrightarrow> sock_inv (c_sock cl) \<and> dq_inv (c_queue cl) \<and>
       c_fd cl \<notin> fst ` set (l_fds L) \<and> (c_fd cl \<in> l_rfds L \<or> FD_SETSIZE \<le> c_fd cl)) \<and>
    l_wfds L \<subseteq> l_rfds L \<and> ((\<forall>t i. e_ok E t i) \<longrightarrow> l_rfds L \<subseteq> open_fds L)"
proof -
  have L: "loop_inv E L" by (rule reachable_loop_inv [OF assms(1,2)])
  then have s: "srv_inv s" using loop_inv_inv assms(3) by blast
  show ?thesis
    using L srv_inv_parts(3,4,5) [OF s] srv_inv_parts(8,9) [OF s] assms(3)
    unfolding loop_inv_def clients_watched_def select_ok_def by blast
qed

lemma server_init_succeeds: "dime_server_init (\<lambda>_. True) \<noteq> None"
proof -
  obtain fd :: "(int, addr) dime_table" and nm :: "(string, addr) dime_table"
    where "dime_table_init True cmp_fd hash_fd = Some fd" "dime_table_init True cmp_name hash_name = Some nm"
    using table_init_Some [of cmp_fd hash_fd] table_init_Some [of cmp_name hash_name] by (rule that)
  then show ?thesis by (simp add: dime_server_init_def alloc_ok_def ALLOC_MAX_def FD_SIZE_def PTR_SIZE_def)
qed

text \<open>A server that listens on descriptor 4, and the turn in which it accepts a client on 5.\<close>

definition first_loop :: dime_loop where
  "first_loop = watch_all ((the (dime_server_init (\<lambda>_. True)))\<lparr>l_fds := [(4, DIME_TCP)]\<rparr>)"

definition accept_answers :: answers where
  "accept_answers = \<lparr>a_readable = True, a_writable = False, a_accept = 5, a_peer = Sock_Unix, a_stack = [],
     a_ws = \<lparr>w_nonblock = \<lambda>_. True, w_ok = \<lambda>_. True, w_ring = True, w_errno = '''', w_recv = \<lambda>_ _. None,
       w_send = \<lambda>_. True, w_sha1 = (\<lambda>b. b), w_base64 = (\<lambda>b. b)\<rparr>,
     a_ws_fuel = 0, a_recv = \<lambda>_. None, a_send = \<lambda>_. -1\<rparr>"

lemma first_loop:
  "reachable demo_env first_loop" "l_fds first_loop = [(4, DIME_TCP)]" "4 \<in> l_rfds first_loop"
  "h_clnts (l_srv first_loop) = Map.empty" "table_live (h_fd2clnt (l_srv first_loop))" "h_next (l_srv first_loop) = 0"
proof -
  have i: "dime_server_init (\<lambda>_. True) = Some (the (dime_server_init (\<lambda>_. True)))"
    using server_init_succeeds by auto
  show "reachable demo_env first_loop" unfolding first_loop_def
    by (rule reachable.start [OF i, of "[(4, DIME_TCP)]" "\<lambda>_. True"]) (simp_all add: loop_start_go)
  show "l_fds first_loop = [(4, DIME_TCP)]" "4 \<in> l_rfds first_loop"
    by (simp_all add: first_loop_def watch_all_def watch_def FD_SETSIZE_def)
  have srv: "l_srv first_loop = l_srv (the (dime_server_init (\<lambda>_. True)))"
    by (simp add: first_loop_def watch_all_def watch_def FD_SETSIZE_def)
  show "h_clnts (l_srv first_loop) = Map.empty" unfolding srv by (rule server_init_ok(3) [OF i])
  obtain t where "dime_table_init True cmp_fd hash_fd = Some t" "h_fd2clnt (l_srv first_loop) = t"
    unfolding srv using i by (auto simp: dime_server_init_def split: option.splits if_splits)
  then show "table_live (h_fd2clnt (l_srv first_loop))" using dime_table_init_ok(2) cmp_fd_eq by blast
  show "h_next (l_srv first_loop) = 0"
    unfolding srv using i by (auto simp: dime_server_init_def split: option.splits if_splits)
qed

lemma accepted_turn:
  obtains L c cl L1 where "find_client 4 first_loop = Some (None, L1)" and "answers_ok accept_answers first_loop"
    and "serve_fd demo_env accept_answers 0 4 first_loop = Some (True, L)"
    and "h_clnts (l_srv L) = [c \<mapsto> cl]" and "c_fd cl = 5" and "h_next (l_srv L) = 1"
proof -
  let ?a = accept_answers
  have L: "loop_inv demo_env first_loop" by (rule reachable_loop_inv [OF demo_env(1) first_loop(1)])
  note inv = loop_inv_inv [OF L]
  have none: "table_map (h_fd2clnt (l_srv first_loop)) 4 = None"
    using srv_inv_parts(3) [OF inv, of 4] first_loop(4) by (metis empty_iff not_None_eq)
  have a: "answers_ok ?a first_loop"
    by (auto simp: answers_ok_def accept_answers_def open_fds_def first_loop(2,4))
  obtain t where "dime_table_search (h_fd2clnt (l_srv first_loop)) 4 = Some (None, t)"
    by (rule dime_table_search_ok [OF srv_inv_parts(1) [OF inv], of 4]) (use none first_loop(5) in auto)
  then obtain L1 where find: "find_client 4 first_loop = Some (None, L1)" by (simp add: find_client_def)
  have "loop_inv demo_env L1 \<and> l_fds L1 = l_fds first_loop \<and> open_fds L1 = open_fds first_loop"
    by (rule find_client_cases [OF L, of 4]) (use find in simp_all)
  moreover have "h_clnts (l_srv L1) = h_clnts (l_srv first_loop)" and n1: "h_next (l_srv L1) = h_next (l_srv first_loop)"
    using find by (auto simp: find_client_def)
  ultimately have L1: "loop_inv demo_env L1" "l_fds L1 = l_fds first_loop" "open_fds L1 = open_fds first_loop"
    "h_clnts (l_srv L1) = h_clnts (l_srv first_loop)" by simp_all
  have a1: "answers_ok ?a L1" using a by (simp add: answers_ok_def L1(3))
  obtain L' cl where acc: "accept_client demo_env ?a DIME_TCP L1 = (True, True, L')"
    and L': "h_clnts (l_srv L') = (h_clnts (l_srv L1))(h_next (l_srv L1) \<mapsto> cl)" "c_fd cl = a_accept ?a"
    "h_next (l_srv L') = Suc (h_next (l_srv L1))"
    by (rule accept_plain [OF L1(1) a1, of DIME_TCP]) (simp_all add: accept_answers_def demo_env(3) client_addr_def)
  have "serve_fd demo_env ?a 0 4 first_loop = Some (True, L')"
    using find acc L1(2) first_loop(2) by (simp add: serve_fd_def serve_write_def accept_answers_def)
  then show thesis
    by (rule that [OF find a]) (use L' L1(4) n1 first_loop(4,6) in \<open>simp_all add: accept_answers_def\<close>)
qed

lemma accepted_loop:
  obtains L c cl where "reachable demo_env L" and "h_clnts (l_srv L) = [c \<mapsto> cl]" and "c_fd cl = 5"
proof -
  obtain L c cl where a: "answers_ok accept_answers first_loop"
    and L: "serve_fd demo_env accept_answers 0 4 first_loop = Some (True, L)" "h_clnts (l_srv L) = [c \<mapsto> cl]" "c_fd cl = 5"
    by (rule accepted_turn) blast
  from L(1) have "loop_step demo_env first_loop L"
    by (rule loop_step.serve [rotated 3]) (use a first_loop(3) in \<open>simp_all add: accept_answers_def\<close>)
  then have "reachable demo_env L" by (rule reachable.step [OF first_loop(1)])
  then show thesis using L(2,3) by (rule that)
qed

theorem reachable_invariant_witness:
  "\<exists>L c. reachable demo_env L \<and> table_map (h_fd2clnt (l_srv L)) 5 = Some c \<and> l_rfds L \<subseteq> open_fds L"
proof -
  obtain L c cl where L: "reachable demo_env L" "h_clnts (l_srv L) = [c \<mapsto> cl]" "c_fd cl = 5"
    by (rule accepted_loop)
  have "table_map (h_fd2clnt (l_srv L)) 5 = Some c \<and> l_rfds L \<subseteq> open_fds L"
    using reachable_invariant [OF demo_env(1) L(1) refl] L(2,3) by (auto simp: demo_env(3))
  then show ?thesis using L(1) by blast
qed

section \<open>The messages of one client\<close>

lemma message_loop_more:
  "message_loop n E c s = Some res \<Longrightarrow> n \<le> m \<Longrightarrow> message_loop m E c s = Some res"
proof (induction n arbitrary: s m)
  case 0
  then show ?case by simp
next
  case (Suc n)
  then obtain k where m: "m = Suc k" "n \<le> k" by (cases m) auto
  show ?case
  proof (cases "h_clnts s c")
    case None
    then show ?thesis using Suc.prems m by simp
  next
    case (Some cl)
    show ?thesis
    proof (cases "dime_socket_pop (e_loadb E) (e_errno E (h_tick s)) (e_ok E (h_tick s)) (c_sock cl)")
      case None
      then show ?thesis using Suc.prems Some by simp
    next
      case pop: (Some rs)
      obtain r sock where rs: "rs = (r, sock)" by (cases rs)
      show ?thesis
        using Suc.prems(1) Suc.IH [OF _ m(2)] Some pop rs m(1) by (cases r) (simp_all add: Let_def)
    qed
  qed
qed

text \<open>
  C13. The loop in \<^verbatim>\<open>dime_server_loop\<close> that handles the complete messages of a client ends, whatever
  they are: it takes at most one turn for every 12 bytes received, its outcome does not depend on
  the fuel, and it keeps the structure of the server and the set of connections.
\<close>

theorem message_loop_total:
  assumes "env_ok E" and "srv_inv s" and "h_clnts s c = Some cl"
  shows "\<exists>go s'. (\<forall>n. unread (c_sock cl) < 12 * n \<longrightarrow> message_loop n E c s = Some (go, s')) \<and>
    srv_inv s' \<and> h_clnts s' c \<noteq> None \<and> conns s' = conns s"
proof -
  let ?n = "Suc (unread (c_sock cl) div 12)"
  have s: "alive c s" using assms(2,3) by (simp add: alive_def)
  have u: "unread_of s c = unread (c_sock cl)" by (simp add: unread_of_def assms(3))
  have least: "unread (c_sock cl) < 12 * n \<longleftrightarrow> ?n \<le> n" for n by linarith
  obtain go s' where run: "message_loop ?n E c s = Some (go, s')"
    using message_loop_ends [OF assms(1) s, of ?n] u least [of ?n] by auto
  then have "message_loop n E c s = Some (go, s')" if "unread (c_sock cl) < 12 * n" for n
    using message_loop_more that least by blast
  then show ?thesis using message_loop_alive [OF assms(1) s run] by (auto simp: alive_def)
qed

text \<open>Client 0 has received one complete message of 13 bytes.\<close>

definition talking :: dime_server where
  "talking = tick (set_clnt 0 (demo_client0\<lparr>c_sock := demo_sock\<lparr>s_rbuf := holding (wire ([119], []))\<rparr>\<rparr>) (demo_srv [] False))"

lemma talking:
  "srv_inv talking"
  "h_clnts talking 0 = Some (demo_client0\<lparr>c_sock := demo_sock\<lparr>s_rbuf := holding (wire ([119], []))\<rparr>\<rparr>)"
  "unread (demo_sock\<lparr>s_rbuf := holding (wire ([119], []))\<rparr>) = 13"
proof -
  have len: "length (wire ([119], [])) = 13" by (simp add: length_wire)
  have sock: "sock_inv (demo_sock\<lparr>s_rbuf := holding (wire ([119], []))\<rparr>)"
    "recv_bytes (demo_sock\<lparr>s_rbuf := holding (wire ([119], []))\<rparr>) = wire ([119], [])"
    using demo_recv [of "wire ([119], [])"] len by (simp_all add: ALLOC_MAX_def)
  note v = demo_srv_view(5) [of "[]" False, simplified]
  have "alive 0 (demo_srv [] False)" using demo_srv_inv [of "[]" False] v by (simp add: alive_def)
  then have "alive 0 talking" unfolding talking_def by (rule set_sock_alive(1) [OF _ v sock(1)])
  then show "srv_inv talking" by (simp add: alive_def)
  show "h_clnts talking 0 = Some (demo_client0\<lparr>c_sock := demo_sock\<lparr>s_rbuf := holding (wire ([119], []))\<rparr>\<rparr>)"
    by (simp add: talking_def)
  show "unread (demo_sock\<lparr>s_rbuf := holding (wire ([119], []))\<rparr>) = 13"
    using sock(2) len demo_sock by (simp add: unread_def)
qed

theorem message_loop_total_witness:
  "\<exists>go s'. message_loop 2 demo_env 0 talking = Some (go, s') \<and> srv_inv s' \<and> h_clnts s' 0 \<noteq> None"
  using message_loop_total [OF demo_env(1) talking(1,2)] talking(3) by fastforce

section \<open>Closing a connection\<close>

text \<open>
  C8. Closing the connection of a client takes it out of the table of clients, out of all groups and
  out of the sets of descriptors, changes nothing for the other clients, and releases exactly the
  messages that nobody else holds.  When the queue of the client is full, however, the iterator of
  \<^verbatim>\<open>dime_client_destroy\<close> passes over it, and its messages stay in memory for ever.
\<close>

theorem close_spec:
  assumes "srv_inv s" and "h_clnts s c = Some cl" and "l_srv L = s" and "l_srv (drop_client c L) = s'"
  shows "srv_inv s' \<and> h_clnts s' = (h_clnts s)(c := None) \<and>
    table_map (h_fd2clnt s') = (table_map (h_fd2clnt s))(c_fd cl := None) \<and>
    membership s' = membership s - {c} \<times> UNIV \<and>
    l_rfds (drop_client c L) = l_rfds L - {c_fd cl} \<and> l_wfds (drop_client c L) = l_wfds L - {c_fd cl} \<and>
    (refs_ok s \<and> \<not> dq_full (c_queue cl) \<longrightarrow> refs_ok s' \<and> h_fault s' = h_fault s \<and>
       (\<forall>m. h_msgs s' m = None \<longleftrightarrow> holders (queue_of s) m \<subseteq> {c})) \<and>
    (refs_ok s \<and> dq_full (c_queue cl) \<longrightarrow>
       (\<forall>m. holders (queue_of s) m = {c} \<longrightarrow> h_msgs s' m \<noteq> None \<and> holders (queue_of s') m = {}))"
proof -
  obtain u where u: "drop_client c L = L\<lparr>l_srv := u, l_rfds := l_rfds L - {c_fd cl}, l_wfds := l_wfds L - {c_fd cl}\<rparr>"
    "closed c cl (l_srv L) u"
    by (rule drop_client_ok [of L c cl]) (use assms in auto)
  have c: "closed c cl s s'" using u assms(3,4) by simp
  have q: "queue_of s' = (queue_of s)(c := [])" using c by (auto simp: closed_def queue_of_def fun_eq_iff)
  have h: "holders (queue_of s') m = holders (queue_of s) m - {c}" for m by (auto simp: q holders_def)
  have freed: "h_msgs s' m = None \<longleftrightarrow> holders (queue_of s) m \<subseteq> {c}" if "refs_ok s'" for m
    using refs_uptoD(2) [of "\<lambda>_. 0" "{}" "queue_of s'" "h_msgs s'" m] that
    unfolding refs_leak_def h by (cases "h_msgs s' m") auto
  have leak: "h_msgs s m \<noteq> None" if "refs_ok s" "holders (queue_of s) m = {c}" for m
    using refs_uptoD(2) [of "\<lambda>_. 0" "{}" "queue_of s" "h_msgs s" m] that unfolding refs_leak_def by (cases "h_msgs s m") auto
  have exact: "refs_ok s' \<and> h_fault s' = h_fault s" if "refs_ok s" "\<not> dq_full (c_queue cl)"
    using c that unfolding closed_def by blast
  have rest: "srv_inv s' \<and> h_clnts s' = (h_clnts s)(c := None) \<and>
    table_map (h_fd2clnt s') = (table_map (h_fd2clnt s))(c_fd cl := None) \<and>
    membership s' = membership s - {c} \<times> UNIV" "dq_full (c_queue cl) \<longrightarrow> h_msgs s' = h_msgs s"
    using c unfolding closed_def by blast+
  show ?thesis using rest u(1) exact freed leak h by simp
qed

text \<open>The loop around the two clients of the example.\<close>

definition demo_loop :: "addr list \<Rightarrow> dime_loop" where
  "demo_loop ms = \<lparr>l_srv = demo_srv ms False, l_fds = [(4, DIME_TCP)], l_fds_cap = 8, l_pathnames = [],
     l_pathnames_cap = 8, l_rfds = {4, 5, 6}, l_wfds = {}, l_maxfd = 7\<rparr>"

lemma demo_loop:
  assumes "length ms \<le> 16" and "\<forall>m \<in> set ms. m < 100" and "distinct ms"
  shows "srv_inv (demo_srv ms False)" and "refs_ok (demo_srv ms False)" and "l_srv (demo_loop ms) = demo_srv ms False"
    and "h_clnts (demo_srv ms False) 1 = Some (demo_client1 ms False)" and "c_fd (demo_client1 ms False) = 6"
    and "dq_full (c_queue (demo_client1 ms False)) \<longleftrightarrow> length ms = 16"
    and "holders (queue_of (demo_srv ms False)) m = (if m \<in> set ms then {1} else {})"
  using demo_srv_inv [OF assms(1,2)] demo_srv_refs [OF assms(1,3)] demo_srv_view [OF assms(1), of False]
    deque_of_small [OF assms(1)] deque_of_len [OF assms(1)]
  by (auto simp: demo_loop_def demo_client1_def dq_full_def holders_def)

theorem close_spec_witness:
  "h_msgs (l_srv (drop_client 1 (demo_loop [3]))) 3 = None \<and> l_rfds (drop_client 1 (demo_loop [3])) = {4, 5} \<and>
   membership (l_srv (drop_client 1 (demo_loop [3]))) = {(0, ''g'')} \<and>
   h_msgs (l_srv (drop_client 1 (demo_loop [20..<36]))) 21 \<noteq> None"
proof -
  have three: "length [3 :: nat] \<le> 16" "\<forall>m \<in> set [3 :: nat]. m < 100" "distinct [3 :: nat]" by simp_all
  have many: "length [20..<36] \<le> 16" "\<forall>m \<in> set [20..<36]. m < (100 :: nat)" "distinct [20..<36]" by simp_all
  note d = demo_loop [OF three] and f = demo_loop [OF many]
  have "h_msgs (l_srv (drop_client 1 (demo_loop [20..<36]))) 21 \<noteq> None"
    using close_spec [OF f(1,4,3) refl] f(2,6) f(7) [of 21] by simp
  moreover have "l_rfds (demo_loop [3]) - {6} = {4, 5}" by (auto simp: demo_loop_def)
  moreover have "membership (demo_srv [3] False) - {1} \<times> UNIV = {(0, ''g'')}"
    using demo_srv_view(3) [of "[3]" False] by auto
  ultimately show ?thesis
    using close_spec [OF d(1,4,3) refl] d(2,5,6) d(7) [of 3] by simp
qed

section \<open>One peer stops the server\<close>

text \<open>
  C31. A client that sends 12 bytes which do not start with the magic number makes
  \<^verbatim>\<open>dime_server_loop\<close> return: the server stops for everybody, with all clients still connected,
  instead of closing the one connection.
\<close>

theorem protocol_error_stops:
  assumes "srv_inv (l_srv L)" and "h_clnts (l_srv L) c = Some cl" and "c_fd cl = i" and "\<forall>t i. e_ok E t i"
    and plain: "s_ws (c_sock cl) = None" "s_zlib (c_sock cl) = None"
    and recv: "a_readable a" "a_recv a RECVBUFLEN = Some bs" "bs \<noteq> []"
    and room: "2 * (length (recv_bytes (c_sock cl)) + length bs) \<le> ALLOC_MAX"
    and bad: "12 \<le> length (recv_bytes (c_sock cl) @ bs)" "take 4 (recv_bytes (c_sock cl) @ bs) \<noteq> DIME_MAGIC"
  shows "\<exists>L'. serve_fd E a (Suc n) i L = Some (False, L') \<and> dom (h_clnts (l_srv L')) = dom (h_clnts (l_srv L))"
proof -
  let ?s = "l_srv L"
  have sock: "sock_inv (c_sock cl)" by (rule srv_inv_parts(8) [OF assms(1,2)])
  have "table_map (h_fd2clnt ?s) i = Some c" using srv_inv_parts(3) [OF assms(1)] assms(2,3) by blast
  then obtain t where "dime_table_search (h_fd2clnt ?s) i = Some (Some c, t)"
    by (metis dime_table_search_ok [OF srv_inv_parts(1) [OF assms(1)], of i] option.distinct(1))
  then have find: "find_client i L = Some (Some c, L\<lparr>l_srv := ?s\<lparr>h_fd2clnt := t\<rparr>\<rparr>)"
    by (simp add: find_client_def)
  obtain sk where sk: "dime_socket_recvpartial (e_errno E (h_tick ?s)) (e_ok E (h_tick ?s)) (\<lambda>_. Some bs) (c_sock cl) = (int (length bs), sk)"
    "sock_inv sk" "recv_bytes sk = recv_bytes (c_sock cl) @ bs" "s_ws sk = None"
    by (rule recvpartial_ok [OF sock plain _ room, of "e_ok E (h_tick ?s)" "e_errno E (h_tick ?s)"]) (use assms(4) in auto)
  have got: "dime_socket_recvpartial (e_errno E (h_tick ?s)) (e_ok E (h_tick ?s)) (a_recv a) (c_sock cl) = (int (length bs), sk)"
    using sk(1) unfolding dime_socket_recvpartial_def recv(2) option.case .
  let ?u = "tick (set_clnt c (cl\<lparr>c_sock := sk\<rparr>) (?s\<lparr>h_fd2clnt := t\<rparr>))"
  have pop: "dime_socket_pop l e ok sk = Some (Pop_Error, set_err ''Invalid DiME header'' sk)" for l :: "byte list \<Rightarrow> string + 'a" and e ok
    using bad parse_eq [OF sk(2)] sk(3,4) by (simp add: dime_socket_pop_def)
  obtain v where v: "message_loop (Suc n) E c ?u = Some (False, v)" "dom (h_clnts v) = dom (h_clnts ?s)"
    using pop assms(2) by (auto simp: Let_def err_copy_def set_clnt_def)
  have "serve_input E a c (Suc n) (L\<lparr>l_srv := ?s\<lparr>h_fd2clnt := t\<rparr>\<rparr>) = Some (False, False, L\<lparr>l_srv := v\<rparr>)"
    using assms(2) got v(1) recv(3) by (simp add: serve_input_def tick_def)
  then show ?thesis using find recv(1) v(2) by (auto simp: serve_fd_def)
qed

text \<open>Client 0 sends 12 zero bytes.\<close>

definition noise_answers :: answers where
  "noise_answers = accept_answers\<lparr>a_recv := \<lambda>_. Some (replicate 12 0)\<rparr>"

theorem protocol_error_stops_witness:
  "\<exists>L'. serve_fd demo_env noise_answers 1 5 (demo_loop [3]) = Some (False, L') \<and> dom (h_clnts (l_srv L')) = {0, 1}"
proof -
  have three: "length [3 :: nat] \<le> 16" "\<forall>m \<in> set [3 :: nat]. m < 100" "distinct [3 :: nat]" by simp_all
  note d = demo_loop [OF three] and v = demo_srv_view [OF three(1), of False]
  have c: "c_fd demo_client0 = 5" "c_sock demo_client0 = demo_sock" by (simp_all add: demo_client0_def)
  have a: "a_readable noise_answers" "a_recv noise_answers RECVBUFLEN = Some (replicate 12 0)"
    by (simp_all add: noise_answers_def accept_answers_def)
  have "replicate 4 (0 :: byte) = [0, 0, 0, 0]" by (simp add: numeral_eq_Suc)
  then have "replicate 4 0 \<noteq> DIME_MAGIC" by (simp add: DIME_MAGIC_def)
  then show ?thesis
    using protocol_error_stops [of "demo_loop [3]" 0 demo_client0 5 demo_env noise_answers "replicate 12 0" 0]
      d(1,3) v(5,7) c a demo_sock demo_env(3)
    by (simp add: ALLOC_MAX_def)
qed

text \<open>
  C32. When the table of clients is full and cannot grow, the new client is destroyed and its
  descriptor closed, but the turn goes on and watches the closed descriptor: the next
  \<^verbatim>\<open>select\<close> fails and the server stops.
\<close>

theorem refused_client_stops:
  assumes "table_inv (h_fd2clnt (l_srv L))" and "t_len (h_fd2clnt (l_srv L)) = t_cap (h_fd2clnt (l_srv L))"
    and "table_map (h_fd2clnt (l_srv L)) fd = None" and "\<forall>i. e_ok E (h_tick (l_srv L)) i"
    and "\<not> e_ok E (Suc (h_tick (l_srv L))) 0" and "a_accept a = fd" and "0 \<le> fd" and "fd < FD_SETSIZE"
    and "fd \<notin> open_fds L" and "protocol \<noteq> DIME_WS" and "client_addr (a_stack a) (a_peer a) fd \<noteq> None"
  shows "\<exists>L'. accept_client E a protocol L = (True, True, L') \<and> h_clnts (l_srv L') = h_clnts (l_srv L) \<and>
    fd \<in> l_rfds L' \<and> \<not> select_ok L'"
proof -
  let ?t = "h_fd2clnt (l_srv L)" and ?n = "h_tick (l_srv L)" and ?c = "h_next (l_srv L)"
  obtain cl where init: "dime_client_init (\<lambda>i. e_ok E ?n (Suc i)) fd (a_stack a) (a_peer a) = Client_Ready cl"
    using client_init_succeeds [OF _ assms(11), of "\<lambda>i. e_ok E ?n (Suc i)"] assms(4) by blast
  have fd: "c_fd cl = fd" using dime_client_init_ok [OF init] by simp
  have full: "dime_table_insert (e_ok E (Suc ?n)) ?t fd ?c = Some (-1, ?t)"
    using dime_table_insert_ok [OF assms(1,3), of "e_ok E (Suc ?n)" ?c] assms(2,5) by (simp add: alloc_ok_def)
  define M where "M = L\<lparr>l_srv := tick (err_copy (e_errno E (Suc ?n))
    ((tick (l_srv L))\<lparr>h_next := Suc ?c, h_fd2clnt := ?t\<rparr>))\<rparr>"
  have M: "h_clnts (l_srv M) = h_clnts (l_srv L)" "open_fds M = open_fds L"
    by (simp_all add: M_def open_fds_def tick_def err_copy_def)
  have "accept_client E a protocol L = (True, True, watch fd M)"
    using init full fd assms(4,6,7,10)
    by (simp add: accept_client_def register_client_def Let_def tick_def err_copy_def M_def)
  then show ?thesis using M assms(8,9) by (auto simp: select_ok_def)
qed

theorem refused_client_stops_witness:
  "\<exists>L'. accept_client (demo_env\<lparr>e_ok := \<lambda>t i. t = 0\<rparr>) (accept_answers\<lparr>a_accept := 40\<rparr>) DIME_TCP
     ((demo_loop [])\<lparr>l_srv := (demo_srv [] False)\<lparr>h_fd2clnt := full_table\<rparr>\<rparr>) = (True, True, L') \<and>
     40 \<in> l_rfds L' \<and> \<not> select_ok L'"
proof -
  let ?L = "(demo_loop [])\<lparr>l_srv := (demo_srv [] False)\<lparr>h_fd2clnt := full_table\<rparr>\<rparr>"
  have "table_map full_table 40 = None"
    unfolding table_map_def full_table_entries by (auto simp: map_of_eq_None_iff)
  moreover have "40 \<notin> open_fds ?L"
    by (auto simp: open_fds_def demo_loop_def demo_srv_def demo_client0_def demo_client1_def split: if_splits)
  moreover have "t_len full_table = t_cap full_table" by (simp add: full_table_def)
  ultimately show ?thesis
    using refused_client_stops [of ?L 40 "demo_env\<lparr>e_ok := \<lambda>t i. t = 0\<rparr>" "accept_answers\<lparr>a_accept := 40\<rparr>" DIME_TCP]
      full_table_inv by (simp add: demo_srv_def FD_SETSIZE_def client_addr_def accept_answers_def) blast
qed

end
