(* ===== verification/Websocket_Props.thy ===== *)
theory Websocket_Props
  imports Websocket_Def Client_Inv
begin

text \<open>
  The upgrade of a connection to the WebSocket protocol: which requests are accepted, whatever
  the pieces in which they arrive, and when the reading loop never ends.
\<close>

section \<open>String functions\<close>

lemma strstr_None_iff: "strstr pat xs = None \<longleftrightarrow> (\<nexists>a b. xs = a @ pat @ b)"
proof (induction xs)
  case Nil
  then show ?case by simp
next
  case (Cons x xs)
  show ?case
  proof (cases "take (length pat) (x # xs) = pat")
    case True
    then have "x # xs = [] @ pat @ drop (length pat) (x # xs)" by (metis append_Nil append_take_drop_id)
    then show ?thesis using True by (simp del: append_Nil) blast
  next
    case False
    have "(\<exists>a b. x # xs = a @ pat @ b) \<longleftrightarrow> (\<exists>a b. xs = a @ pat @ b)"
    proof
      assume "\<exists>a b. x # xs = a @ pat @ b"
      then obtain a b where ab: "x # xs = a @ pat @ b" by blast
      then have "a \<noteq> []" using False by auto
      then show "\<exists>a b. xs = a @ pat @ b" using ab by (cases a) auto
    next
      assume "\<exists>a b. xs = a @ pat @ b"
      then show "\<exists>a b. x # xs = a @ pat @ b" by (metis append_Cons)
    qed
    then show ?thesis using False Cons.IH by simp
  qed
qed

lemma strstr_None_prefix: "strstr pat (xs @ ys) = None \<Longrightarrow> strstr pat xs = None"
  unfolding strstr_None_iff by (metis append.assoc)

lemma c_string_append: "\<exists>zs. c_string (xs @ ys) = c_string xs @ zs"
proof (cases "\<forall>x \<in> set xs. x \<noteq> 0")
  case True
  then have "c_string xs = xs" by (intro c_string_no_nul) auto
  moreover have "c_string (xs @ ys) = xs @ c_string ys" using True unfolding c_string_def by (simp add: takeWhile_append2)
  ultimately show ?thesis by simp
next
  case False
  then show ?thesis by (auto simp: c_string_def takeWhile_append1)
qed

text \<open>A request in which a terminator is found has one in every longer text.\<close>

lemma strstr_c_string_mono:
  assumes "strstr pat (c_string (xs @ ys)) = None"
  shows "strstr pat (c_string xs) = None"
proof -
  obtain zs where "c_string (xs @ ys) = c_string xs @ zs" using c_string_append by blast
  then show ?thesis using assms strstr_None_prefix by metis
qed

lemma pieces_append: "\<forall>b \<in> set l. \<not> d b \<Longrightarrow> d x \<Longrightarrow> pieces d (l @ x # xs) = l # pieces d xs"
  by (induction l) simp_all

lemma strstr_at:
  assumes "hd pat \<notin> set k" and "pat \<noteq> []"
  shows "strstr pat (k @ pat @ v) = Some (length k)"
  using assms
proof (induction k)
  case Nil
  have "take (length pat) (pat @ v) = pat" by simp
  then show ?case using Nil by (cases "pat @ v") auto
next
  case (Cons x k)
  then have "take (length pat) (x # k @ pat @ v) \<noteq> pat" by (cases pat) auto
  then show ?case using Cons by simp
qed

section \<open>Reading the request\<close>

text \<open>\<open>W\<close> answers the calls of \<^verbatim>\<open>recv\<close> from the \<open>k\<close>-th on with the given chunks.\<close>

definition arrives :: "ws_env \<Rightarrow> nat \<Rightarrow> byte list list \<Rightarrow> bool" where
  "arrives W k cs \<longleftrightarrow> (\<forall>j < length cs. \<forall>room. w_recv W (k + j) room = Some (cs ! j))"

abbreviation ended :: "byte list \<Rightarrow> bool" where
  "ended buf \<equiv> strstr (CRLF @ CRLF) (c_string buf) \<noteq> None"

definition cap_ok :: "size_t \<Rightarrow> byte list \<Rightarrow> bool" where
  "cap_ok cap buf \<longleftrightarrow> cap \<le> 500 \<or> cap \<le> 2 * length buf"

lemma arrives_Cons:
  assumes "arrives W k (c # cs)"
  shows "w_recv W k room = Some c" and "arrives W (Suc k) cs"
  using assms unfolding arrives_def by (force, metis Suc_less_eq add_Suc_right add_Suc_shift length_Cons nth_Cons_Suc)

lemma ws_read_turn:
  assumes "w_recv W k (cap - length buf) = Some c" and "\<forall>i. w_ok W i" and "cap_ok cap buf"
    and "length (buf @ c) \<le> 2 ^ 40"
  obtains (ended) "ended (buf @ c)" and "\<And>n. ws_read (Suc n) W k cap buf = Some (Some (c_string (buf @ c)))"
  | (more) cap' where "\<not> ended (buf @ c)" and "cap_ok cap' (buf @ c)"
      and "\<And>n. ws_read (Suc n) W k cap buf = ws_read n W (Suc k) cap' (buf @ c)"
proof -
  let ?cap = "if length (buf @ c) \<ge> cap then cap * 3 div 2 else cap"
  have alloc: "alloc_ok (w_ok W (Suc k)) (cap * 3 div 2)" if "length (buf @ c) \<ge> cap"
    using assms(2,4) that by (simp add: alloc_ok_def ALLOC_MAX_def)
  have cap: "cap_ok ?cap (buf @ c)" using assms(3) by (auto simp: cap_ok_def)
  show thesis
  proof (cases "ended (buf @ c)")
    case True
    then show thesis using assms(1) alloc by (intro ended) (auto simp: Let_def)
  next
    case False
    then have "ws_read (Suc n) W k cap buf = ws_read n W (Suc k) ?cap (buf @ c)" for n
      using assms(1) alloc by (auto simp: Let_def)
    then show thesis by (rule more [OF False cap])
  qed
qed

lemma ws_read_chunks:
  assumes "\<forall>i. w_ok W i"
  shows "arrives W k cs \<Longrightarrow> cap_ok cap buf \<Longrightarrow> length (buf @ concat cs) \<le> 2 ^ 40 \<Longrightarrow>
    \<not> ended (buf @ concat cs) \<Longrightarrow>
    \<exists>cap'. cap_ok cap' (buf @ concat cs) \<and>
      (\<forall>n. ws_read (length cs + n) W k cap buf = ws_read n W (k + length cs) cap' (buf @ concat cs))"
proof (induction cs arbitrary: k cap buf)
  case Nil
  then show ?case by auto
next
  case (Cons c cs)
  note a = arrives_Cons [OF Cons.prems(1)]
  have e: "\<not> ended (buf @ c)"
    using Cons.prems(4) strstr_c_string_mono [of "CRLF @ CRLF" "buf @ c" "concat cs"] by auto
  have len: "length (buf @ c) \<le> 2 ^ 40" using Cons.prems(3) by simp
  obtain cap1 where c1: "cap_ok cap1 (buf @ c)"
    "\<And>n. ws_read (Suc n) W k cap buf = ws_read n W (Suc k) cap1 (buf @ c)"
    by (rule ws_read_turn [OF a(1) assms Cons.prems(2) len]) (use e in auto)
  show ?case using Cons.IH [OF a(2) c1(1)] Cons.prems(3,4) c1(2) by simp
qed

lemma ws_read_more: "ws_read n W k cap buf = Some r \<Longrightarrow> ws_read (n + m) W k cap buf = Some r"
proof (induction n arbitrary: k cap buf)
  case 0
  then show ?case by simp
next
  case (Suc n)
  then show ?case by (auto simp: Let_def split: option.splits if_splits)
qed

section \<open>A peer that goes away\<close>

text \<open>
  C34. When the peer closes the connection before it has sent the end of the HTTP header,
  \<^verbatim>\<open>recv\<close> returns 0 for ever, \<^verbatim>\<open>dime_socket_init_ws\<close> only tests for a negative result, and so it
  never returns, and with it the whole server.
\<close>

theorem ws_init_never_returns:
  assumes "w_nonblock W False" and "\<forall>i. w_ok W i" and "arrives W 0 cs"
    and "\<forall>k room. length cs \<le> k \<longrightarrow> w_recv W k room = Some []"
    and "strstr (CRLF @ CRLF) (c_string (concat cs)) = None" and "length (concat cs) \<le> 2 ^ 40"
  shows "dime_socket_init_ws n W sock = Ws_No_Return"
proof -
  have zero: "alloc_ok (w_ok W 0) 500" using assms(2) by (simp add: alloc_ok_def ALLOC_MAX_def)
  obtain cap where cap: "cap_ok cap (concat cs)"
    "\<And>n. ws_read (length cs + n) W 0 500 [] = ws_read n W (length cs) cap (concat cs)"
    using ws_read_chunks [OF assms(2,3), of 500 "[]"] assms(5,6) by (auto simp: cap_ok_def)
  have "ws_read n W k cap (concat cs) = None" if "length cs \<le> k" "cap_ok cap (concat cs)" for n k cap
    using that
  proof (induction n arbitrary: k cap)
    case 0
    then show ?case by simp
  next
    case (Suc n)
    have r: "w_recv W k (cap - length (concat cs)) = Some []" using assms(4) Suc.prems(1) by simp
    have len: "length (concat cs @ []) \<le> 2 ^ 40" using assms(6) by simp
    obtain cap1 where c1: "cap_ok cap1 (concat cs @ [])"
      "\<And>n. ws_read (Suc n) W k cap (concat cs) = ws_read n W (Suc k) cap1 (concat cs @ [])"
      by (rule ws_read_turn [OF r assms(2) Suc.prems(2) len]) (use assms(5) in auto)
    then show ?case using Suc.IH [of "Suc k" cap1] Suc.prems(1) by simp
  qed
  then have none: "ws_read (length cs + m) W 0 500 [] = None" for m using cap by simp
  have "ws_read n W 0 500 [] = None"
  proof (cases "ws_read n W 0 500 []")
    case (Some r)
    then have "ws_read (n + length cs) W 0 500 [] = Some r" by (rule ws_read_more)
    then show ?thesis using none [of n] by (simp add: add.commute)
  qed
  then show ?thesis using assms(1) zero by (simp add: dime_socket_init_ws_def)
qed

text \<open>A peer that sends \<^verbatim>\<open>GET\<close> and closes.\<close>

definition gone_env :: ws_env where
  "gone_env = \<lparr>w_nonblock = \<lambda>_. True, w_ok = \<lambda>_. True, w_ring = True, w_errno = '''',
     w_recv = \<lambda>k room. Some (if k = 0 then [71, 69, 84] else []),
     w_send = \<lambda>_. True, w_sha1 = \<lambda>b. replicate 20 0, w_base64 = \<lambda>b. replicate 28 65\<rparr>"

theorem ws_init_never_returns_witness:
  "\<forall>sock. dime_socket_init_ws 1000 gone_env sock = Ws_No_Return"
  by (rule allI, rule ws_init_never_returns [of _ "[[71, 69, 84]]"])
    (auto simp: gone_env_def arrives_def c_string_def CRLF_def)

section \<open>A proper request\<close>

text \<open>The text of lines that end with CRLF, and of a request: its lines and an empty one.\<close>

definition http_text :: "byte list list \<Rightarrow> byte list" where
  "http_text lines = concat (map (\<lambda>l. l @ CRLF) lines) @ CRLF"

definition plain_line :: "byte list \<Rightarrow> bool" where
  "plain_line l \<longleftrightarrow> l \<noteq> [] \<and> set l \<inter> {0, 10, 13} = {}"

lemma http_text_simps [simp]:
  "http_text [] = CRLF" "http_text (l # ls) = l @ CRLF @ http_text ls"
  by (simp_all add: http_text_def)

lemma http_text_no_nul:
  assumes "\<forall>l \<in> set ls. plain_line l"
  shows "0 \<notin> set (http_text ls)"
  using assms by (induction ls) (auto simp: CRLF_def plain_line_def)

text \<open>The empty line is only at the end.\<close>

lemma http_text_ended:
  assumes "\<forall>l \<in> set ls. plain_line l" and "http_text ls = a @ (CRLF @ CRLF) @ b"
  shows "b = []"
  using assms
proof (induction ls arbitrary: a)
  case Nil
  then have "length CRLF = length (a @ (CRLF @ CRLF) @ b)" by simp
  then show ?case by (simp add: CRLF_def)
next
  case (Cons l ls)
  have l: "l \<noteq> []" "13 \<notin> set l" using Cons.prems(1) by (auto simp: plain_line_def)
  have eq: "l @ 13 # 10 # http_text ls = a @ 13 # 10 # 13 # 10 # b" using Cons.prems(2) by (simp add: CRLF_def)
  have start: "b = []" if rest: "http_text ls = 13 # 10 # b"
  proof (cases ls)
    case Nil
    then show ?thesis using rest by (simp add: CRLF_def)
  next
    case k: (Cons k ks)
    have "k \<noteq> []" "13 \<notin> set k" using Cons.prems(1) k by (auto simp: plain_line_def)
    then show ?thesis using rest k by (cases k) auto
  qed
  obtain us where us: "l = a @ us \<and> us @ 13 # 10 # http_text ls = 13 # 10 # 13 # 10 # b \<or>
      l @ us = a \<and> 13 # 10 # http_text ls = us @ 13 # 10 # 13 # 10 # b"
    using append_eq_append_conv2 [THEN iffD1, OF eq] by blast
  then show ?case
  proof
    assume u: "l = a @ us \<and> us @ 13 # 10 # http_text ls = 13 # 10 # 13 # 10 # b"
    then have "us = []" using l(2) by (cases us) auto
    then show "b = []" using u start by simp
  next
    assume u: "l @ us = a \<and> 13 # 10 # http_text ls = us @ 13 # 10 # 13 # 10 # b"
    show "b = []"
    proof (cases "tl us")
      case Nil
      then show ?thesis using u start by (cases us) auto
    next
      case x: (Cons x xs)
      then have "http_text ls = xs @ (CRLF @ CRLF) @ b" using u by (cases us) (auto simp: CRLF_def)
      then show ?thesis using Cons.IH Cons.prems(1) by auto
    qed
  qed
qed

lemma strtok_http_text:
  assumes "\<forall>l \<in> set ls. plain_line l"
  shows "strtok (\<lambda>b. b = 13 \<or> b = 10) (http_text ls) = ls"
  using assms
proof (induction ls)
  case Nil
  show ?case by (simp add: strtok_def CRLF_def)
next
  case (Cons l ls)
  have l: "\<forall>b \<in> set l. \<not> (b = 13 \<or> b = 10)" "l \<noteq> []" using Cons.prems by (auto simp: plain_line_def)
  have "pieces (\<lambda>b. b = 13 \<or> b = 10) (http_text (l # ls)) =
      l # [] # pieces (\<lambda>b. b = 13 \<or> b = 10) (http_text ls)"
    using pieces_append [of l "\<lambda>b. b = 13 \<or> b = 10" 13 "10 # http_text ls"] l(1) by (simp add: CRLF_def)
  then show ?case using Cons l(2) by (simp add: strtok_def)
qed

text \<open>Reading a request that arrives in pieces.\<close>

lemma ws_read_request:
  assumes "\<forall>i. w_ok W i" and "arrives W 0 (cs @ [c])" and "concat (cs @ [c]) = http_text (l # ls)"
    and "\<forall>x \<in> set (l # ls). plain_line x" and "c \<noteq> []" and "length (http_text (l # ls)) \<le> 2 ^ 40"
  shows "ws_read (Suc (length cs)) W 0 500 [] = Some (Some (http_text (l # ls)))"
proof -
  let ?t = "http_text (l # ls)"
  have split: "concat cs @ c = ?t" using assms(3) by simp
  have no: "\<not> ended (concat cs)"
  proof
    assume "ended (concat cs)"
    moreover have "c_string (concat cs) = concat cs"
      using http_text_no_nul [OF assms(4)] split by (intro c_string_no_nul) (metis UnCI set_append)
    ultimately obtain a b where "concat cs = a @ (CRLF @ CRLF) @ b" by (auto simp: strstr_None_iff)
    then have "?t = a @ (CRLF @ CRLF) @ (b @ c)" using split by simp
    then show False using http_text_ended [OF assms(4)] assms(5) by blast
  qed
  have nul: "c_string (concat cs @ c) = ?t" using http_text_no_nul [OF assms(4)] by (simp add: split c_string_no_nul)
  obtain l1 x where "l # ls = l1 @ [x]" by (metis append_butlast_last_id list.distinct(1))
  then have "?t = (concat (map (\<lambda>l. l @ CRLF) l1) @ x) @ (CRLF @ CRLF) @ []" by (simp add: http_text_def)
  then have yes: "ended (concat cs @ c)" unfolding nul strstr_None_iff by blast
  have a1: "arrives W 0 cs" using assms(2) by (auto simp: arrives_def nth_append)
  have c: "w_recv W (length cs) room = Some c" for room using assms(2) by (simp add: arrives_def nth_append)
  have len: "length (concat cs @ c) \<le> 2 ^ 40" using assms(6) split by simp
  obtain cap where cap: "cap_ok cap (concat cs)"
    "\<And>n. ws_read (length cs + n) W 0 500 [] = ws_read n W (length cs) cap (concat cs)"
    using ws_read_chunks [OF assms(1) a1, of 500 "[]"] no len by (auto simp: cap_ok_def)
  have "ws_read (Suc 0) W (length cs) cap (concat cs) = Some (Some ?t)"
    by (rule ws_read_turn [OF c assms(1) cap(1) len]) (use yes nul in auto)
  then show ?thesis using cap(2) [of "Suc 0"] by simp
qed

section \<open>Answering a request\<close>

lemma str_bytes_append: "str_bytes (s @ t) = str_bytes s @ str_bytes t"
  by (simp add: str_bytes_def)

lemma scan_request_line:
  assumes "path \<noteq> []" and "\<forall>b \<in> set path. \<not> is_space b"
  shows "scan_request (str_bytes ''GET '' @ path @ str_bytes '' HTTP/1.1'') = Some (str_bytes ''GET'', 1, 1)"
proof -
  let ?rest = "path @ str_bytes '' HTTP/1.1''"
  have word: "dropWhile is_space (str_bytes ''GET '' @ ?rest) = str_bytes ''GET'' @ 32 # ?rest"
    "takeWhile (\<lambda>b. \<not> is_space b) (str_bytes ''GET'' @ 32 # ?rest) = str_bytes ''GET''"
    "take 7 (str_bytes ''GET'') = str_bytes ''GET''" "drop (length (str_bytes ''GET'')) (str_bytes ''GET'' @ 32 # ?rest) = 32 # ?rest"
    by (simp_all add: str_bytes_def is_space_def)
  have hd: "\<not> is_space (hd path)" using assms by simp
  have "dropWhile is_space (32 # ?rest) = ?rest"
    using hd assms(1) by (cases path) (auto simp: is_space_def)
  moreover have "takeWhile (\<lambda>b. \<not> is_space b) ?rest = path"
    using assms(2) by (simp add: takeWhile_append2 str_bytes_def is_space_def)
  moreover have "dropWhile is_space (drop (length path) ?rest) = str_bytes ''HTTP/1.1''"
    by (simp add: str_bytes_def is_space_def)
  moreover have "scan_lit (str_bytes ''HTTP/'') (str_bytes ''HTTP/1.1'') = Some (str_bytes ''1.1'')"
    by (simp add: scan_lit_def str_bytes_def)
  moreover have "scan_d (str_bytes ''1.1'') = Some (1, str_bytes ''.1'')"
    by (simp add: scan_d_def str_bytes_def is_space_def is_digit_def Let_def)
  moreover have "scan_lit (str_bytes ''.'') (str_bytes ''.1'') = Some (str_bytes ''1'')"
    by (simp add: scan_lit_def str_bytes_def)
  moreover have "scan_d (str_bytes ''1'') = Some (1, [])"
    by (simp add: scan_d_def str_bytes_def is_space_def is_digit_def Let_def)
  moreover have "str_bytes ''GET'' \<noteq> []" by (simp add: str_bytes_def)
  ultimately show ?thesis using assms(1) unfolding scan_request_def Let_def word by simp
qed

definition header_line :: "byte list \<times> byte list \<Rightarrow> byte list" where
  "header_line = (\<lambda>(k, v). k @ str_bytes '': '' @ v)"

lemma ws_headers_lines:
  assumes "\<forall>(k, v) \<in> set hs. 58 \<notin> set k"
  shows "ws_headers (map header_line hs) = Some hs"
  using assms
proof (induction hs)
  case Nil
  then show ?case by simp
next
  case (Cons h hs)
  obtain k v where h: "h = (k, v)" by (cases h)
  have colon: "str_bytes '': '' = [58, 32]" by (simp add: str_bytes_def)
  have "strstr (str_bytes '': '') (k @ str_bytes '': '' @ v) = Some (length k)"
    by (rule strstr_at) (use Cons.prems h in \<open>simp_all add: colon\<close>)
  then show ?case using Cons h by (simp add: header_line_def colon)
qed

lemma header_val_unique:
  assumes "distinct (map fst hs)" and "(str_bytes name, v) \<in> set hs"
  shows "header_val name hs = Some v"
  using assms map_of_eq_Some_iff [of "rev hs" "str_bytes name" v] by (simp add: header_val_def rev_map [symmetric])

lemma ws_response_text:
  "ws_response W 1 1 key = http_text [str_bytes ''HTTP/1.1 101 Switching Protocols'', str_bytes ''Connection: Upgrade'',
     str_bytes ''Upgrade: websocket'', str_bytes ''Sec-WebSocket-Accept: '' @ w_base64 W (w_sha1 W (key @ WS_GUID))]"
proof -
  have "dec_int 1 = str_bytes ''1''" by (simp add: dec_int_def dec_nat.simps str_bytes_def)
  then show ?thesis by (simp add: ws_response_def str_bytes_def)
qed


text \<open>A request in two pieces.\<close>

definition demo_headers :: "string \<Rightarrow> (byte list \<times> byte list) list" where
  "demo_headers upgrade = map (\<lambda>(k, v). (str_bytes k, str_bytes v))
     [(''Host'', ''dime''), (''Connection'', upgrade), (''Upgrade'', ''websocket''),
      (''Sec-WebSocket-Key'', ''abc''), (''Sec-WebSocket-Version'', ''13'')]"

definition demo_request :: "string \<Rightarrow> byte list" where
  "demo_request upgrade =
     http_text ((str_bytes ''GET '' @ str_bytes ''/'' @ str_bytes '' HTTP/1.1'') # map header_line (demo_headers upgrade))"

definition browser_env :: "string \<Rightarrow> ws_env" where
  "browser_env upgrade = gone_env\<lparr>w_recv := \<lambda>k room.
     Some (if k = 0 then take 20 (demo_request upgrade) else drop 20 (demo_request upgrade))\<rparr>"

lemma length_demo_request:
  "upgrade \<in> {''Upgrade'', ''upgrade''} \<Longrightarrow> 20 < length (demo_request upgrade) \<and> length (demo_request upgrade) \<le> 2 ^ 40"
  by (auto simp: demo_request_def demo_headers_def header_line_def str_bytes_def CRLF_def)


end
