(* ===== verification/Admin_Def.thy ===== *)
theory Admin_Def
  imports Server_Def
begin

text \<open>
  The rest of \<^verbatim>\<open>server/server.c\<close>: adding an endpoint to listen on, and tearing the server down.  What
  the operating system answers to \<^verbatim>\<open>socket\<close>, \<^verbatim>\<open>setsockopt\<close> and \<^verbatim>\<open>bind\<close> is an argument; the
  descriptors that are opened and closed on the way are part of the result.
\<close>

section \<open>Adding an endpoint\<close>

datatype sock_addr = Addr_Unix string | Addr_In6 nat | Addr_In nat

datatype fd_event = Fd_Opened int | Fd_Closed int

text \<open>
  \<open>d_ok\<close> grants the allocations; \<open>d_socket k\<close> is the result of the \<open>k\<close>-th call of \<^verbatim>\<open>socket\<close>,
  \<open>d_dual fd\<close> says whether \<^verbatim>\<open>IPV6_V6ONLY\<close> could be cleared, \<open>d_bind fd addr\<close> whether \<^verbatim>\<open>bind\<close> succeeds.
\<close>

record add_env =
  d_ok :: "nat \<Rightarrow> bool"
  d_errno :: string
  d_socket :: "nat \<Rightarrow> int"
  d_dual :: "int \<Rightarrow> bool"
  d_bind :: "int \<Rightarrow> sock_addr \<Rightarrow> bool"

text \<open>The values of \<^verbatim>\<open>enum dime_protocol\<close>.\<close>

definition protocol_of :: "int \<Rightarrow> dime_protocol option" where
  "protocol_of n =
     (if n = 0 then Some DIME_UNIX else if n = 1 then Some DIME_TCP else if n = 2 then Some DIME_WS else None)"

text \<open>The elsz of \<^verbatim>\<open>sun_path\<close>, whose last byte is set to NUL.\<close>

definition SUN_PATH_LEN :: nat where
  "SUN_PATH_LEN = 108"

text \<open>\<^verbatim>\<open>%d\<close>, as characters.\<close>

definition show_int :: "int \<Rightarrow> string" where
  "show_int n = map (\<lambda>b. char_of (unat b)) (dec_int n)"

definition srv_err :: "string \<Rightarrow> dime_loop \<Rightarrow> dime_loop" where
  "srv_err msg L = L\<lparr>l_srv := err_copy msg (l_srv L)\<rparr>"

text \<open>Room for one more element in an array: the new capacity, or \<open>None\<close> when \<^verbatim>\<open>realloc\<close> fails.\<close>

definition add_room :: "bool \<Rightarrow> size_t \<Rightarrow> nat \<Rightarrow> size_t \<Rightarrow> size_t option" where
  "add_room ok elsz len cap =
     (if len \<ge> cap then
        (let ncap = sz_mul cap 3 div 2 in if alloc_ok ok (sz_mul ncap elsz) then Some ncap else None)
      else Some cap)"

text \<open>The Unix socket: a new descriptor, or the error.\<close>

definition add_unix :: "add_env \<Rightarrow> string \<Rightarrow> dime_loop \<Rightarrow> int option \<times> fd_event list \<times> dime_loop" where
  "add_unix D pathname L =
     (let path = take (SUN_PATH_LEN - 1) pathname
      in if \<not> d_ok D 1 then (None, [], srv_err (d_errno D) L)
         else
           (case add_room (d_ok D 2) PTR_SIZE (length (l_pathnames L)) (l_pathnames_cap L) of
              None \<Rightarrow> (None, [], srv_err (d_errno D) L)
            | Some cap \<Rightarrow>
                (let L = L\<lparr>l_pathnames_cap := cap\<rparr>; fd = d_socket D 0
                 in if fd < 0 then (None, [], srv_err (d_errno D) L)
                    else if \<not> d_bind D fd (Addr_Unix path) then
                      (None, [Fd_Opened fd, Fd_Closed fd], srv_err (d_errno D) L)
                    else (Some fd, [Fd_Opened fd], L\<lparr>l_pathnames := l_pathnames L @ [path]\<rparr>))))"

text \<open>The TCP socket, on both versions of IP or, when the system refuses that, on IPv4.\<close>

definition add_inet :: "add_env \<Rightarrow> nat \<Rightarrow> dime_loop \<Rightarrow> int option \<times> fd_event list \<times> dime_loop" where
  "add_inet D port L =
     (let fd = d_socket D 0
      in if fd < 0 then (None, [], srv_err (d_errno D) L)
         else
           (let dual = d_dual D fd;
                fd' = (if dual then fd else d_socket D 1);
                addr = (if dual then Addr_In6 port else Addr_In port);
                es = (if dual then [Fd_Opened fd] else [Fd_Opened fd, Fd_Closed fd])
            in if \<not> dual \<and> fd' < 0 then (None, es, srv_err (d_errno D) L)
               else
                 (let es = (if dual then es else es @ [Fd_Opened fd'])
                  in if \<not> d_bind D fd' addr then (None, es @ [Fd_Closed fd'], srv_err (d_errno D) L)
                     else (Some fd', es, L))))"

text \<open>
  \<^verbatim>\<open>dime_server_add\<close>; of the variable arguments, \<open>pathname\<close> is read for the Unix protocol and \<open>port\<close>,
  cut to 16 bits, for the others.
\<close>

definition dime_server_add ::
  "add_env \<Rightarrow> int \<Rightarrow> string \<Rightarrow> nat \<Rightarrow> dime_loop \<Rightarrow> int \<times> fd_event list \<times> dime_loop" where
  "dime_server_add D protocol pathname port L =
     (case add_room (d_ok D 0) FD_SIZE (length (l_fds L)) (l_fds_cap L) of
        None \<Rightarrow> (-1, [], srv_err (d_errno D) L)
      | Some cap \<Rightarrow>
          (let L = L\<lparr>l_fds_cap := cap\<rparr>
           in case protocol_of protocol of
                None \<Rightarrow> (-1, [], srv_err (''Unknown connection protocol '' @ show_int protocol) L)
              | Some p \<Rightarrow>
                  (case if p = DIME_UNIX then add_unix D pathname L else add_inet D (port mod 2 ^ 16) L of
                     (None, es, L) \<Rightarrow> (-1, es, L)
                   | (Some fd, es, L) \<Rightarrow> (0, es, L\<lparr>l_fds := l_fds L @ [(fd, p)]\<rparr>))))"

section \<open>Tearing down\<close>

text \<open>\<^verbatim>\<open>dime_client_destroy(it.val); free(it.val);\<close>\<close>

definition free_client :: "addr \<Rightarrow> dime_server \<Rightarrow> dime_server" where
  "free_client c s = (let s = dime_client_destroy c s in s\<lparr>h_clnts := (h_clnts s)(c := None)\<rparr>)"

definition free_group :: "addr \<Rightarrow> dime_server \<Rightarrow> dime_server" where
  "free_group g s = (case h_groups s g of None \<Rightarrow> fault s | Some gr \<Rightarrow> s\<lparr>h_groups := (h_groups s)(g := None)\<rparr>)"

text \<open>
  \<^verbatim>\<open>dime_server_destroy\<close>: the paths that are unlinked, the descriptors of endpoints that are
  closed, and what is left in memory.
\<close>

definition dime_server_destroy :: "dime_loop \<Rightarrow> string list \<times> fd_event list \<times> dime_server" where
  "dime_server_destroy L =
     (l_pathnames L, map (Fd_Closed \<circ> fst) (l_fds L),
      (case table_walk (h_fd2clnt (l_srv L)) of
         None \<Rightarrow> fault (l_srv L)
       | Some cs \<Rightarrow>
           (let s = fold free_client cs (l_srv L)
            in case table_walk (h_name2clnt s) of None \<Rightarrow> fault s | Some gs \<Rightarrow> fold free_group gs s)))"

end
