(* ===== verification/Admin_Props.thy ===== *)
theory Admin_Props
  imports Admin_Def Loop_Props
begin

text \<open>
  Endpoints and the end of the server: adding one appends exactly it or changes nothing and leaks
  no descriptor, and tearing the server down releases everything.
\<close>

section \<open>Adding an endpoint\<close>

text \<open>The descriptors that are open after a sequence of events.\<close>

fun fd_effect :: "fd_event \<Rightarrow> int set \<Rightarrow> int set" where
  "fd_effect (Fd_Opened fd) fds = insert fd fds"
| "fd_effect (Fd_Closed fd) fds = fds - {fd}"

definition fds_after :: "fd_event list \<Rightarrow> int set \<Rightarrow> int set" where
  "fds_after es fds = fold fd_effect es fds"

text \<open>The arrays of endpoints and of paths have room for what they hold.\<close>

definition arrays_ok :: "dime_loop \<Rightarrow> bool" where
  "arrays_ok L \<longleftrightarrow> length (l_fds L) \<le> l_fds_cap L \<and> 8 \<le> l_fds_cap L \<and> l_fds_cap L * 16 \<le> ALLOC_MAX \<and>
     length (l_pathnames L) \<le> l_pathnames_cap L \<and> 8 \<le> l_pathnames_cap L \<and> l_pathnames_cap L * 8 \<le> ALLOC_MAX"

lemma add_room_ok:
  assumes "add_room ok elsz len cap = Some cap'" and "len \<le> cap" and "8 \<le> cap" and "cap * elsz \<le> ALLOC_MAX"
    and "0 < elsz" and "elsz \<le> 16"
  shows "len < cap'" and "8 \<le> cap'" and "cap' * elsz \<le> ALLOC_MAX" and "cap \<le> cap'"
proof -
  have "cap \<le> cap * elsz" using mult_le_mono2 [of 1 elsz cap] assms(5) by simp
  also note assms(4)
  finally have cap: "cap \<le> 2 ^ 47" by (simp add: ALLOC_MAX_def)
  have m: "sz_mul cap 3 = cap * 3" using cap by (simp add: sz_mul_def)
  have "cap * 3 div 2 * elsz \<le> 2 ^ 48 * 16" by (rule mult_le_mono) (use cap assms(6) in simp_all)
  then have m2: "sz_mul (cap * 3 div 2) elsz = cap * 3 div 2 * elsz" by (simp add: sz_mul_def)
  show "len < cap'" "8 \<le> cap'" "cap' * elsz \<le> ALLOC_MAX" "cap \<le> cap'"
    using assms m m2 by (auto simp: add_room_def Let_def alloc_ok_def split: if_splits)
qed

lemma add_room_succeeds:
  assumes "cap \<le> 2 ^ 40" and "elsz \<le> 16" and "ok"
  shows "add_room ok elsz len cap \<noteq> None"
proof -
  have m: "sz_mul cap 3 = cap * 3" using assms(1) by (simp add: sz_mul_def)
  have le: "cap * 3 div 2 * elsz \<le> 2 ^ 41 * 16" by (rule mult_le_mono) (use assms in simp_all)
  then have "sz_mul (cap * 3 div 2) elsz \<le> ALLOC_MAX" by (simp add: sz_mul_def ALLOC_MAX_def)
  then show ?thesis using m assms(3) by (simp add: add_room_def alloc_ok_def Let_def)
qed

text \<open>What the two kinds of sockets do to the descriptors and the server.\<close>

definition added :: "dime_loop \<Rightarrow> int set \<Rightarrow> string list \<Rightarrow> int option \<Rightarrow> fd_event list \<Rightarrow> dime_loop \<Rightarrow> bool" where
  "added L F paths r es L' \<longleftrightarrow>
     l_fds L' = l_fds L \<and> l_fds_cap L' = l_fds_cap L \<and> l_rfds L' = l_rfds L \<and> l_wfds L' = l_wfds L \<and>
     l_maxfd L' = l_maxfd L \<and>
     (case r of
        None \<Rightarrow> l_pathnames L' = l_pathnames L \<and> fds_after es F = F \<and> (\<exists>msg. l_srv L' = err_copy msg (l_srv L))
      | Some fd \<Rightarrow> 0 \<le> fd \<and> l_pathnames L' = l_pathnames L @ paths \<and> fds_after es F = insert fd F \<and> l_srv L' = l_srv L)"

lemma add_unix_ok:
  assumes "arrays_ok L" and "add_unix D pathname L = (r, es, L')" and "d_socket D 0 \<notin> F"
  shows "added L F [take 107 pathname] r es L'" and "arrays_ok L'"
proof -
  have run: "added L F [take 107 pathname] r es L' \<and> arrays_ok L'"
  proof (cases "add_room (d_ok D 2) PTR_SIZE (length (l_pathnames L)) (l_pathnames_cap L)")
    case None
    then show ?thesis
      using assms by (auto simp: add_unix_def added_def fds_after_def srv_err_def arrays_ok_def Let_def split: if_splits)
  next
    case (Some cap)
    note room = add_room_ok [OF Some]
    have c: "length (l_pathnames L) < cap" "8 \<le> cap" "cap * 8 \<le> ALLOC_MAX"
      using room assms(1) by (auto simp: arrays_ok_def PTR_SIZE_def)
    show ?thesis
      using assms Some c
      by (auto simp: add_unix_def added_def fds_after_def srv_err_def arrays_ok_def SUN_PATH_LEN_def Let_def
        split: if_splits)
  qed
  then show "added L F [take 107 pathname] r es L'" "arrays_ok L'" by simp_all
qed

lemma add_inet_ok:
  assumes "arrays_ok L" and "add_inet D port L = (r, es, L')" and "\<forall>k. d_socket D k \<notin> F"
  shows "added L F [] r es L'" and "arrays_ok L'"
  using assms by (auto simp: add_inet_def added_def fds_after_def srv_err_def arrays_ok_def Let_def split: if_splits)

lemma add_grants:
  assumes "\<forall>i. d_ok D i" and "\<forall>k. 0 \<le> d_socket D k" and "\<forall>fd addr. d_bind D fd addr" and "l_pathnames_cap L \<le> 2 ^ 40"
  shows "fst (add_unix D pathname L) \<noteq> None" and "fst (add_inet D port L) \<noteq> None"
proof -
  have s: "\<not> d_socket D k < 0" for k using assms(2) by (simp add: not_less)
  show "fst (add_unix D pathname L) \<noteq> None"
    using assms s add_room_succeeds [of "l_pathnames_cap L" PTR_SIZE "d_ok D 2" "length (l_pathnames L)"]
    by (auto simp: add_unix_def PTR_SIZE_def Let_def)
  show "fst (add_inet D port L) \<noteq> None" using assms s by (simp add: add_inet_def Let_def)
qed

text \<open>
  C29. \<^verbatim>\<open>dime_server_add\<close> appends exactly one endpoint (and for a Unix socket its path, cut to the 107
  bytes of \<^verbatim>\<open>sun_path\<close>), with one new descriptor open, or returns -1 with the endpoints, the paths and
  the open descriptors as they were and only the error text changed; the arrays keep room for their
  elements.  When the system grants everything it succeeds exactly for the three known protocols.
\<close>

theorem add_spec:
  assumes "arrays_ok L" and "dime_server_add D protocol pathname port L = (rc, es, L')" and "\<forall>k. d_socket D k \<notin> F"
  shows "arrays_ok L' \<and>
    (rc = 0 \<and> (\<exists>fd p. protocol_of protocol = Some p \<and> 0 \<le> fd \<and> l_fds L' = l_fds L @ [(fd, p)] \<and>
        l_pathnames L' = l_pathnames L @ (if p = DIME_UNIX then [take 107 pathname] else []) \<and>
        fds_after es F = insert fd F \<and> l_srv L' = l_srv L) \<or>
     rc = -1 \<and> l_fds L' = l_fds L \<and> l_pathnames L' = l_pathnames L \<and> fds_after es F = F \<and>
       (\<exists>msg. l_srv L' = err_copy msg (l_srv L))) \<and>
    ((\<forall>i. d_ok D i) \<and> (\<forall>k. 0 \<le> d_socket D k) \<and> (\<forall>fd addr. d_bind D fd addr) \<and>
       l_fds_cap L \<le> 2 ^ 40 \<and> l_pathnames_cap L \<le> 2 ^ 40 \<longrightarrow> (rc = 0 \<longleftrightarrow> protocol_of protocol \<noteq> None))"
proof (cases "add_room (d_ok D 0) FD_SIZE (length (l_fds L)) (l_fds_cap L)")
  case None
  then have "\<not> (d_ok D 0 \<and> l_fds_cap L \<le> 2 ^ 40)" using add_room_succeeds [of "l_fds_cap L" FD_SIZE "d_ok D 0" "length (l_fds L)"] by (auto simp: FD_SIZE_def)
  then show ?thesis
    using assms None by (auto simp: dime_server_add_def srv_err_def fds_after_def arrays_ok_def)
next
  case (Some cap)
  note room = add_room_ok [OF Some]
  let ?L = "L\<lparr>l_fds_cap := cap\<rparr>"
  have c: "length (l_fds L) < cap" "8 \<le> cap" "cap * 16 \<le> ALLOC_MAX"
    using room assms(1) by (auto simp: arrays_ok_def FD_SIZE_def)
  then have L: "arrays_ok ?L" using assms(1) by (simp add: arrays_ok_def)
  show ?thesis
  proof (cases "protocol_of protocol")
    case None
    then show ?thesis using assms(2) Some L by (auto simp: dime_server_add_def srv_err_def fds_after_def arrays_ok_def)
  next
    case p: (Some p)
    let ?run = "if p = DIME_UNIX then add_unix D pathname ?L else add_inet D (port mod 2 ^ 16) ?L"
    obtain r es1 L1 where run: "?run = (r, es1, L1)" by (cases ?run)
    have a: "added ?L F (if p = DIME_UNIX then [take 107 pathname] else []) r es1 L1" "arrays_ok L1"
      using run add_unix_ok [OF L, of D pathname r es1 L1 F] add_inet_ok [OF L, of D "port mod 2 ^ 16" r es1 L1 F] assms(3)
      by (cases "p = DIME_UNIX"; simp)+
    have fd: "length (l_fds L1) < l_fds_cap L1" using a(1) c(1) by (simp add: added_def)
    have res: "(rc, es, L') = (case r of None \<Rightarrow> (-1, es1, L1) | Some fd \<Rightarrow> (0, es1, L1\<lparr>l_fds := l_fds L1 @ [(fd, p)]\<rparr>))"
      using assms(2) Some p run by (cases r) (simp_all add: dime_server_add_def)
    have good: "r \<noteq> None" if "\<forall>i. d_ok D i" "\<forall>k. 0 \<le> d_socket D k" "\<forall>fd addr. d_bind D fd addr" "l_pathnames_cap L \<le> 2 ^ 40"
      using run add_grants(1) [OF that(1-3), of ?L pathname] add_grants(2) [OF that(1-3), of ?L "port mod 2 ^ 16"] that(4)
      by (auto split: if_splits)
    show ?thesis
      using res a fd good p by (cases r) (auto simp: added_def arrays_ok_def)
  qed
qed

text \<open>A system without IPv6 dual stack.\<close>

definition demo_add :: add_env where
  "demo_add = \<lparr>d_ok = \<lambda>_. True, d_errno = '''', d_socket = \<lambda>k. 7 + int k, d_dual = \<lambda>_. False, d_bind = \<lambda>_ _. True\<rparr>"

theorem add_spec_witness:
  "\<exists>es L' fd. dime_server_add demo_add 2 '''' 5001 (demo_loop []) = (0, es, L') \<and>
     l_fds L' = [(4, DIME_TCP), (fd, DIME_WS)] \<and> fds_after es {4, 5, 6} = {fd, 4, 5, 6}"
proof -
  have a: "arrays_ok (demo_loop [])" by (simp add: arrays_ok_def demo_loop_def ALLOC_MAX_def)
  have s: "\<forall>k. d_socket demo_add k \<notin> {4, 5, 6}" by (simp add: demo_add_def)
  obtain rc es L' where run: "dime_server_add demo_add 2 '''' 5001 (demo_loop []) = (rc, es, L')"
    by (cases "dime_server_add demo_add 2 '''' 5001 (demo_loop [])")
  have p: "protocol_of 2 = Some DIME_WS" by (simp add: protocol_of_def)
  have "rc = 0" using add_spec [OF a run s] p by (simp add: demo_add_def demo_loop_def)
  then show ?thesis using add_spec [OF a run s] p run by (auto simp: demo_loop_def)
qed

section \<open>Tearing down\<close>

text \<open>
  Freeing one client while the table of clients stays as it was: the state is that of a closed
  connection with another table.
\<close>

lemma free_client_step:
  assumes inv: "srv_inv V" and cl: "h_clnts V c = Some cl"
  obtains V' where "free_client c (V\<lparr>h_fd2clnt := T\<rparr>) = V'\<lparr>h_fd2clnt := T\<rparr>" and "closed c cl V V'"
proof -
  let ?s0 = "V\<lparr>h_fd2clnt := T\<rparr>"
  have here: "table_map (h_fd2clnt V) (c_fd cl) \<noteq> None \<or> table_live (h_fd2clnt V)"
    using srv_inv_parts(3) [OF inv, of "c_fd cl" c] cl by auto
  obtain t where t: "table_inv t" "table_map t = (table_map (h_fd2clnt V))(c_fd cl := None)"
    "table_live t = table_live (h_fd2clnt V)"
    by (rule dime_table_remove_ok [OF srv_inv_parts(1) [OF inv] here])
  have s0: "h_groups ?s0 = h_groups V" "h_clnts ?s0 c = Some cl" "h_msgs ?s0 = h_msgs V" using cl by simp_all
  obtain G M b where d: "dime_client_destroy c ?s0 = ?s0\<lparr>h_groups := G, h_msgs := M, h_fault := b\<rparr>"
    and G: "groups_without c cl V G" and M: "fewer_msgs (h_msgs V) M"
    and full: "dq_full (c_queue cl) \<Longrightarrow> M = h_msgs V \<and> b = h_fault ?s0"
    and freed: "\<And>X. \<not> dq_full (c_queue cl) \<Longrightarrow> refs_leak X V \<Longrightarrow> refs_upto X {} ((queue_of V)(c := [])) M \<and> b = h_fault ?s0"
    by (rule destroy_eq [OF inv cl s0]) blast
  define V' where "V' = V\<lparr>h_fd2clnt := t, h_groups := G, h_msgs := M, h_fault := b, h_clnts := (h_clnts V)(c := None)\<rparr>"
  have q: "queue_of V' = (queue_of V)(c := [])" by (auto simp: V'_def queue_of_def fun_eq_iff)
  have f: "h_tlsctx V' = h_tlsctx V" "h_msgs V' = M" "h_fault V' = b" "h_clnts V' = (h_clnts V)(c := None)" "h_fd2clnt V' = t"
    "h_name2clnt V' = h_name2clnt V" "h_next V' = h_next V"
    by (simp_all add: V'_def)
  have "refs_leak X V' \<and> h_fault V' = h_fault V" if "\<not> dq_full (c_queue cl)" "refs_leak X V" for X
    using freed [OF that] q f(2,3) by (simp add: refs_leak_def)
  then have "closed c cl V V'"
    unfolding closed_def using closed_inv [OF inv cl G t(1,2) M V'_def] M full t(2,3) f by simp
  moreover have "free_client c ?s0 = V'\<lparr>h_fd2clnt := T\<rparr>" by (simp add: free_client_def d Let_def V'_def)
  ultimately show thesis using that by blast
qed

text \<open>The messages that are in a full queue.\<close>

definition stuck :: "dime_server \<Rightarrow> addr set" where
  "stuck s = {m. \<exists>c cl. h_clnts s c = Some cl \<and> dq_full (c_queue cl) \<and> m \<in> set (queue_of s c)}"

lemma free_clients:
  assumes "srv_inv V" and "distinct cs" and "set cs = dom (h_clnts V)"
  shows "\<exists>V'. fold free_client cs (V\<lparr>h_fd2clnt := T\<rparr>) = V'\<lparr>h_fd2clnt := T\<rparr> \<and> srv_inv V' \<and> h_clnts V' = Map.empty \<and>
    (\<forall>X. refs_leak X V \<longrightarrow> h_fault V' = h_fault V \<and> (\<exists>Y. refs_leak Y V' \<and> (\<forall>m. Y m \<noteq> 0 \<longleftrightarrow> X m \<noteq> 0 \<or> m \<in> stuck V)))"
  using assms
proof (induction cs arbitrary: V)
  case Nil
  then have none: "h_clnts V c = None" for c by (cases "h_clnts V c") auto
  have "stuck V = {}" unfolding stuck_def none by simp
  then show ?case using Nil by auto
next
  case (Cons c cs)
  obtain cl where cl: "h_clnts V c = Some cl" using Cons.prems(3) by auto
  obtain V1 where V1: "free_client c (V\<lparr>h_fd2clnt := T\<rparr>) = V1\<lparr>h_fd2clnt := T\<rparr>" "closed c cl V V1"
    by (rule free_client_step [OF Cons.prems(1) cl])
  have c: "h_clnts V1 = (h_clnts V)(c := None)" "srv_inv V1" using V1(2) by (simp_all add: closed_def)
  have "set cs = dom (h_clnts V1)" using Cons.prems(2,3) c(1) by auto
  then obtain V' where V': "fold free_client cs (V1\<lparr>h_fd2clnt := T\<rparr>) = V'\<lparr>h_fd2clnt := T\<rparr>" "srv_inv V'" "h_clnts V' = Map.empty"
    "\<And>X. refs_leak X V1 \<Longrightarrow> h_fault V' = h_fault V1 \<and> (\<exists>Y. refs_leak Y V' \<and> (\<forall>m. Y m \<noteq> 0 \<longleftrightarrow> X m \<noteq> 0 \<or> m \<in> stuck V1))"
    using Cons.IH [OF c(2)] Cons.prems(2) by auto
  have q: "queue_of V1 = (queue_of V)(c := [])" using c(1) by (auto simp: queue_of_def fun_eq_iff)
  have stuck: "m \<in> stuck V \<longleftrightarrow> dq_full (c_queue cl) \<and> m \<in> set (queue_of V c) \<or> m \<in> stuck V1" for m
  proof -
    have "m \<in> stuck V1 \<longleftrightarrow> (\<exists>d x. d \<noteq> c \<and> h_clnts V d = Some x \<and> dq_full (c_queue x) \<and> m \<in> set (queue_of V d))"
      by (auto simp: stuck_def q c(1))
    moreover have "m \<in> stuck V \<longleftrightarrow> (\<exists>d x. (d = c \<or> d \<noteq> c) \<and> h_clnts V d = Some x \<and> dq_full (c_queue x) \<and> m \<in> set (queue_of V d))"
      by (auto simp: stuck_def)
    ultimately show ?thesis using cl by fastforce
  qed
  have "h_fault V' = h_fault V \<and> (\<exists>Y. refs_leak Y V' \<and> (\<forall>m. Y m \<noteq> 0 \<longleftrightarrow> X m \<noteq> 0 \<or> m \<in> stuck V))"
    if X: "refs_leak X V" for X
  proof -
    note leak = closed_leak [OF Cons.prems(1) cl V1(2) X]
    obtain Y where "h_fault V' = h_fault V1" "refs_leak Y V'"
      "\<And>m. Y m \<noteq> 0 \<longleftrightarrow> X m + (if dq_full (c_queue cl) \<and> m \<in> set (queue_of V c) then 1 else 0) \<noteq> 0 \<or> m \<in> stuck V1"
      using V'(4) [OF leak(1)] by blast
    then show ?thesis using leak(2) stuck by (intro conjI exI [of _ Y]) auto
  qed
  then show ?case using V1(1) V'(1-3) by auto
qed

lemma free_groups:
  assumes "distinct gs" and "set gs = dom (h_groups s)"
  shows "fold free_group gs s = s\<lparr>h_groups := Map.empty\<rparr>"
  using assms
proof (induction gs arbitrary: s)
  case Nil
  then show ?case by (cases s) auto
next
  case (Cons g gs)
  obtain gr where gr: "h_groups s g = Some gr" using Cons.prems(2) by auto
  have dom: "set gs = dom (h_groups (s\<lparr>h_groups := (h_groups s)(g := None)\<rparr>))" using Cons.prems by auto
  have "distinct gs" using Cons.prems(1) by simp
  then show ?case using Cons.IH [OF _ dom] gr by (simp add: free_group_def)
qed

text \<open>
  C30. \<^verbatim>\<open>dime_server_destroy\<close> unlinks every path, closes every endpoint and frees every client and
  every group.  In a state whose counts cover the queues, that is, in which every reference count is
  the number of queues that hold the message plus the references \<open>X\<close> that were leaked before, it
  touches no freed memory, and the messages that stay behind are exactly those with a leaked
  reference and those of the full queues, which it does not empty.  (Where the counts fell short of the
  queues, it follows the dangling pointers: C16 shows how that comes about.)
\<close>

theorem destroy_spec:
  assumes "srv_inv (l_srv L)" and "dime_server_destroy L = (paths, es, s')"
  shows "paths = l_pathnames L \<and> fds_after es (open_fds L) \<inter> fst ` set (l_fds L) = {} \<and>
    h_clnts s' = Map.empty \<and> h_groups s' = Map.empty \<and>
    (\<forall>X. refs_leak X (l_srv L) \<longrightarrow> h_fault s' = h_fault (l_srv L) \<and> dom (h_msgs s') = {m. X m \<noteq> 0} \<union> stuck (l_srv L))"
proof -
  let ?s = "l_srv L"
  obtain cs where cs: "table_walk (h_fd2clnt ?s) = Some cs" "distinct cs" "set cs = dom (h_clnts ?s)"
    by (rule walk_clients [OF assms(1)])
  have same: "?s\<lparr>h_fd2clnt := h_fd2clnt ?s\<rparr> = ?s" by simp
  obtain V where V: "fold free_client cs ?s = V\<lparr>h_fd2clnt := h_fd2clnt ?s\<rparr>" "srv_inv V" "h_clnts V = Map.empty"
    "\<And>X. refs_leak X ?s \<Longrightarrow> h_fault V = h_fault ?s \<and> (\<exists>Y. refs_leak Y V \<and> (\<forall>m. Y m \<noteq> 0 \<longleftrightarrow> X m \<noteq> 0 \<or> m \<in> stuck ?s))"
    using free_clients [OF assms(1) cs(2,3), of "h_fd2clnt ?s"] unfolding same by blast
  obtain gs where gs: "table_walk (h_name2clnt V) = Some gs" "distinct gs" "set gs = dom (h_groups V)"
    by (rule walk_groups [OF V(2)])
  have s': "s' = V\<lparr>h_fd2clnt := h_fd2clnt ?s, h_groups := Map.empty\<rparr>" and out: "paths = l_pathnames L" "es = map (Fd_Closed \<circ> fst) (l_fds L)"
    using assms(2) cs(1) V(1) gs free_groups [of gs "V\<lparr>h_fd2clnt := h_fd2clnt ?s\<rparr>"] by (auto simp: dime_server_destroy_def Let_def)
  have "h_msgs V m \<noteq> None \<longleftrightarrow> Y m \<noteq> 0" if "refs_leak Y V" for Y m
    using refs_uptoD(2) [of Y "{}" "queue_of V" "h_msgs V" m] that V(3)
    by (cases "h_msgs V m") (auto simp: refs_leak_def holders_def queue_of_def)
  then have left: "dom (h_msgs V) = {m. Y m \<noteq> 0}" if "refs_leak Y V" for Y using that unfolding dom_def by blast
  have "h_fault s' = h_fault ?s \<and> dom (h_msgs s') = {m. X m \<noteq> 0} \<union> stuck ?s" if X: "refs_leak X ?s" for X
  proof -
    obtain Y where Y: "refs_leak Y V" "\<And>m. Y m \<noteq> 0 \<longleftrightarrow> X m \<noteq> 0 \<or> m \<in> stuck ?s" using V(4) [OF X] by blast
    have "dom (h_msgs s') = {m. X m \<noteq> 0 \<or> m \<in> stuck ?s}" unfolding Y(2) [symmetric] left [OF Y(1), symmetric] s' by simp
    then show ?thesis using V(4) [OF X] by (auto simp: s')
  qed
  moreover have "fold fd_effect (map (Fd_Closed \<circ> fst) xs) F = F - fst ` set xs" for xs :: "(int \<times> dime_protocol) list" and F
    by (induction xs arbitrary: F) auto
  ultimately show ?thesis using s' out V(3) by (auto simp: fds_after_def)
qed

text \<open>A server with one message, in a queue that is not full, and nothing leaked.\<close>

theorem destroy_spec_witness:
  "\<exists>paths es s'. dime_server_destroy (demo_loop [3]) = (paths, es, s') \<and> h_clnts s' = Map.empty \<and> h_groups s' = Map.empty \<and>
     dom (h_msgs s') = {} \<and> h_fault s' = h_fault (l_srv (demo_loop [3])) \<and> fds_after es (open_fds (demo_loop [3])) \<inter> {4} = {}"
proof -
  have three: "length [3 :: nat] \<le> 16" "\<forall>m \<in> set [3 :: nat]. m < 100" "distinct [3 :: nat]" by simp_all
  note d = demo_loop [OF three]
  have srv: "srv_inv (l_srv (demo_loop [3]))" using d(1,3) by simp
  have "\<not> dq_full (c_queue demo_client0)" using deque_of_small [of "[] :: nat list"] deque_of_len [of "[] :: nat list"]
    by (simp add: demo_client0_def dq_full_def)
  then have nf: "stuck (l_srv (demo_loop [3])) = {}"
    using d(3,6) by (auto simp: stuck_def demo_srv_def split: if_splits)
  have refs: "refs_leak (\<lambda>_. 0) (l_srv (demo_loop [3]))" using d(2,3) by simp
  obtain paths es s' where run: "dime_server_destroy (demo_loop [3]) = (paths, es, s')"
    by (cases "dime_server_destroy (demo_loop [3])")
  have "l_fds (demo_loop [3]) = [(4, DIME_TCP)]" by (simp add: demo_loop_def)
  then show ?thesis using destroy_spec [OF srv run] refs nf run by auto
qed

end
