(* ===== verification/Main_Def.thy ===== *)
theory Main_Def
  imports Admin_Def
begin

text \<open>
  \<^verbatim>\<open>server/main.c\<close>: the options of the command line, the endpoints they ask for, and how \<^verbatim>\<open>main\<close>
  gets from them to \<^verbatim>\<open>dime_server_loop\<close>, on a system that is not Windows.  The handlers of signals and
  the initialization of OpenSSL are left out.
\<close>

section \<open>Options\<close>

text \<open>
  The fields of \<^verbatim>\<open>srv\<close> that \<^verbatim>\<open>main\<close> sets, and the array \<^verbatim>\<open>listens\<close>, whose elements are pointers into
  \<^verbatim>\<open>argv\<close>: their indices.
\<close>

record main_opts =
  o_tls :: bool
  o_daemon :: bool
  o_certname :: "string option"
  o_privkeyname :: "string option"
  o_verbosity :: "32 word"
  o_listens :: "nat list"

text \<open>
  How the options end: with the options, with the message about the usage, with the help text, or
  with a write outside of the array \<^verbatim>\<open>listens\<close>.
\<close>

datatype 'a parsed = Parsed 'a | Usage | Help | Overrun

text \<open>The element of \<^verbatim>\<open>argv\<close>, which ends with a null pointer.\<close>

definition arg :: "string list \<Rightarrow> nat \<Rightarrow> string option" where
  "arg argv i = (if i < length argv then Some (argv ! i) else None)"

text \<open>The letters of one argument; the Boolean is \<^verbatim>\<open>skip\<close>.\<close>

fun parse_flags :: "string list \<Rightarrow> nat \<Rightarrow> string \<Rightarrow> bool \<times> main_opts \<Rightarrow> (bool \<times> main_opts) parsed" where
  "parse_flags argv argi [] st = Parsed st"
| "parse_flags argv argi (ch # flags) (skip, opts) =
     (if ch = CHR ''c'' then
        if argi + 1 > length argv then Usage
        else parse_flags argv argi flags (True, opts\<lparr>o_tls := True, o_certname := arg argv (argi + 1)\<rparr>)
      else if ch = CHR ''d'' then parse_flags argv argi flags (skip, opts\<lparr>o_daemon := True\<rparr>)
      else if ch = CHR ''h'' then Help
      else if ch = CHR ''j'' then Usage
      else if ch = CHR ''k'' then
        if argi + 1 > length argv then Usage
        else parse_flags argv argi flags (True, opts\<lparr>o_tls := True, o_privkeyname := arg argv (argi + 1)\<rparr>)
      else if ch = CHR ''l'' then
        if argi + 1 > length argv then Usage
        else if length (o_listens opts) \<ge> (length argv + 1) div 2 then Overrun
        else parse_flags argv argi flags (True, opts\<lparr>o_listens := o_listens opts @ [argi + 1]\<rparr>)
      else if ch = CHR ''v'' then parse_flags argv argi flags (skip, opts\<lparr>o_verbosity := o_verbosity opts + 1\<rparr>)
      else Usage)"

function parse_args :: "string list \<Rightarrow> nat \<Rightarrow> main_opts \<Rightarrow> main_opts parsed" where
  "parse_args argv argi opts =
     (if argi < length argv then
        (case argv ! argi of
           [] \<Rightarrow> Usage
         | ch # flags \<Rightarrow>
             if ch \<noteq> CHR ''-'' then Usage
             else
               (case parse_flags argv argi flags (False, opts) of
                  Parsed (skip, opts) \<Rightarrow> parse_args argv (argi + (if skip then 2 else 1)) opts
                | Usage \<Rightarrow> Usage
                | Help \<Rightarrow> Help
                | Overrun \<Rightarrow> Overrun))
      else Parsed opts)"
  by pat_completeness auto
termination by (relation "measure (\<lambda>(argv, argi, opts). length argv - argi)") auto

declare parse_args.simps [simp del]

section \<open>Numbers\<close>

text \<open>\<^verbatim>\<open>isspace\<close>, and the value of a digit in a base up to 16.\<close>

definition char_space :: "char \<Rightarrow> bool" where
  "char_space c \<longleftrightarrow> c = CHR '' '' \<or> (of_char c :: nat) \<in> {9..13}"

definition digit_val :: "char \<Rightarrow> nat option" where
  "digit_val c =
     (let n = of_char c :: nat
      in if 48 \<le> n \<and> n \<le> 57 then Some (n - 48)
         else if 97 \<le> n \<and> n \<le> 102 then Some (n - 87)
         else if 65 \<le> n \<and> n \<le> 70 then Some (n - 55)
         else None)"

text \<open>The value of the longest prefix of digits of the base.\<close>

fun digits :: "nat \<Rightarrow> nat \<Rightarrow> string \<Rightarrow> nat" where
  "digits base acc [] = acc"
| "digits base acc (c # cs) =
     (case digit_val c of
        Some d \<Rightarrow> if d < base then digits base (acc * base + d) cs else acc
      | None \<Rightarrow> acc)"

definition is_digit_of :: "nat \<Rightarrow> string \<Rightarrow> bool" where
  "is_digit_of base cs = (case cs of [] \<Rightarrow> False | c # _ \<Rightarrow> (case digit_val c of None \<Rightarrow> False | Some d \<Rightarrow> d < base))"

text \<open>\<^verbatim>\<open>strtoul(s, NULL, 0)\<close>: a sign, the base from the prefix, saturation at \<^verbatim>\<open>ULONG_MAX\<close>.\<close>

definition strtoul0 :: "string \<Rightarrow> nat" where
  "strtoul0 s =
     (let s = dropWhile char_space s;
          neg = (s \<noteq> [] \<and> hd s = CHR ''-'');
          s = (if s \<noteq> [] \<and> (hd s = CHR ''-'' \<or> hd s = CHR ''+'') then tl s else s);
          hex = (take 2 s = ''0x'' \<or> take 2 s = ''0X'') \<and> is_digit_of 16 (drop 2 s);
          n = (if hex then digits 16 0 (drop 2 s)
               else if s \<noteq> [] \<and> hd s = CHR ''0'' then digits 8 0 s
               else digits 10 0 s)
      in if n \<ge> 2 ^ 64 then 2 ^ 64 - 1
         else if neg then (2 ^ 64 - n) mod 2 ^ 64
         else n)"

section \<open>Endpoints\<close>

text \<open>
  One element of \<^verbatim>\<open>listens\<close>: \<open>Endpoint_Undefined\<close> when \<^verbatim>\<open>strtok\<close> returns a null pointer that
  \<^verbatim>\<open>strcmp\<close> then reads.
\<close>

datatype endpoint_spec = Endpoint int string nat | Endpoint_Usage | Endpoint_Undefined

definition port_spec :: "int \<Rightarrow> string list \<Rightarrow> endpoint_spec" where
  "port_spec protocol rest =
     (case rest of
        [port_s] \<Rightarrow>
          (let port = strtoul0 port_s mod 2 ^ 16
           in if port = 0 then Endpoint_Usage else Endpoint protocol '''' port)
      | _ \<Rightarrow> Endpoint_Usage)"

definition endpoint_spec :: "string \<Rightarrow> endpoint_spec" where
  "endpoint_spec s =
     (case strtok (\<lambda>c. c = CHR '':'') s of
        [] \<Rightarrow> Endpoint_Undefined
      | ty # rest \<Rightarrow>
          if ty = ''unix'' \<or> ty = ''ipc'' then
            (case rest of [pathname] \<Rightarrow> Endpoint 0 pathname 0 | _ \<Rightarrow> Endpoint_Usage)
          else if ty = ''tcp'' then port_spec 1 rest
          else if ty = ''ws'' then port_spec 2 rest
          else Endpoint_Usage)"

text \<open>What \<^verbatim>\<open>strtok\<close> leaves of a string: the delimiter after the first token becomes its end.\<close>

definition strtok_cut :: "string \<Rightarrow> string" where
  "strtok_cut s =
     (let colons = takeWhile (\<lambda>c. c = CHR '':'') s;
          rest = dropWhile (\<lambda>c. c = CHR '':'') s
      in colons @ takeWhile (\<lambda>c. c \<noteq> CHR '':'') rest)"

datatype main_outcome = Main_Exit int | Main_Undefined | Main_Run dime_loop

text \<open>
  The loop over the endpoints; \<open>slots\<close> are the strings that \<^verbatim>\<open>listens\<close> points to, the \<open>k\<close>-th call of
  \<^verbatim>\<open>dime_server_add\<close> finds the answers \<open>D k\<close>.
\<close>

fun main_listen :: "(nat \<Rightarrow> add_env) \<Rightarrow> nat \<Rightarrow> nat list \<Rightarrow> string option list \<Rightarrow> dime_loop \<Rightarrow> main_outcome" where
  "main_listen D k [] slots L = Main_Run L"
| "main_listen D k (i # is) slots L =
     (case slots ! i of
        None \<Rightarrow> Main_Undefined
      | Some text \<Rightarrow>
          (case endpoint_spec text of
             Endpoint_Undefined \<Rightarrow> Main_Undefined
           | Endpoint_Usage \<Rightarrow> Main_Exit (-1)
           | Endpoint protocol pathname port \<Rightarrow>
               (case dime_server_add (D k) protocol pathname port L of
                  (rc, es, L) \<Rightarrow>
                    if rc < 0 then Main_Exit (-1)
                    else main_listen D (Suc k) is (slots[i := Some (strtok_cut text)]) L)))"

section \<open>The program\<close>

text \<open>
  The \<^verbatim>\<open>fork\<close> inside \<^verbatim>\<open>dime_server_init\<close>, with its result: \<open>None\<close> to go on, or the status with which
  the process ends.
\<close>

definition daemonize :: "bool \<Rightarrow> int \<Rightarrow> int option" where
  "daemonize daemon pid = (if \<not> daemon then None else if pid < 0 then Some (-1) else if pid \<noteq> 0 then Some 0 else None)"

definition no_opts :: main_opts where
  "no_opts = \<lparr>o_tls = False, o_daemon = False, o_certname = None, o_privkeyname = None, o_verbosity = 0, o_listens = []\<rparr>"

text \<open>
  \<^verbatim>\<open>main\<close> up to the call of \<^verbatim>\<open>dime_server_loop\<close>.  The slots are the arguments, the null pointer that
  ends them, and \<^verbatim>\<open>listens_default\<close>.  Without any argument, not even the name of the program, the
  array \<^verbatim>\<open>listens\<close> has no element.
\<close>

definition dime_main :: "(nat \<Rightarrow> bool) \<Rightarrow> int \<Rightarrow> (nat \<Rightarrow> add_env) \<Rightarrow> string list \<Rightarrow> main_outcome" where
  "dime_main ok pid D argv =
     (if argv = [] then Main_Undefined
      else case parse_args argv 1 no_opts of
        Usage \<Rightarrow> Main_Exit (-1)
      | Help \<Rightarrow> Main_Exit 0
      | Overrun \<Rightarrow> Main_Undefined
      | Parsed opts \<Rightarrow>
          (let listens = (if o_listens opts = [] then [length argv + 1] else o_listens opts)
           in case dime_server_init ok of
                None \<Rightarrow> Main_Exit (-1)
              | Some L \<Rightarrow>
                  (case daemonize (o_daemon opts) pid of
                     Some status \<Rightarrow> Main_Exit status
                   | None \<Rightarrow>
                       main_listen D 0 listens (map Some argv @ [None, Some ''unix:/tmp/dime.sock'']) L)))"

end
