(* ===== verification/Main_Props.thy ===== *)
theory Main_Props
  imports Main_Def Admin_Props Websocket_Props
begin

text \<open>
  The command line: options that name endpoints make the server listen on exactly those, and the
  command lines on which \<^verbatim>\<open>main\<close> leaves its arrays.
\<close>

section \<open>Ports in decimal\<close>

lemma unat_digit:
  assumes "k < 10"
  shows "unat (48 + word_of_nat k :: byte) = 48 + k"
proof -
  have "(48 + word_of_nat k :: byte) = word_of_nat (48 + k)" by simp
  then show ?thesis using assms unat_of_nat [of "48 + k", where 'a = 8] by (simp del: of_nat_add)
qed

definition dec_chars :: "nat \<Rightarrow> string" where
  "dec_chars n = map (\<lambda>b. char_of (unat b)) (dec_nat n)"

lemma digit_val_dec: "k < 10 \<Longrightarrow> digit_val (char_of (48 + k)) = Some k"
  by (simp add: digit_val_def Let_def)

lemma dec_chars_rec:
  "dec_chars n = (if n < 10 then [char_of (48 + n)] else dec_chars (n div 10) @ [char_of (48 + n mod 10)])"
  by (subst dec_chars_def, subst dec_nat.simps) (simp add: unat_digit dec_chars_def del: char_of_mod_256)

lemma digits_append:
  "\<forall>c \<in> set cs. \<exists>d. digit_val c = Some d \<and> d < base \<Longrightarrow>
   digits base acc (cs @ cs') = digits base (digits base acc cs) cs'"
  by (induction cs arbitrary: acc) auto

lemma dec_chars_digits: "\<forall>c \<in> set (dec_chars n). \<exists>d. digit_val c = Some d \<and> d < 10"
proof (induction n rule: less_induct)
  case (less n)
  have m: "n mod 10 < 10" "n < 10 \<or> n div 10 < n" by auto
  show ?case
    using less.IH [of "n div 10"] m digit_val_dec [of n] digit_val_dec [OF m(1)]
    by (subst dec_chars_rec) (auto simp del: char_of_mod_256)
qed

lemma digits_dec_chars: "digits 10 0 (dec_chars n) = n"
proof (induction n rule: less_induct)
  case (less n)
  have m: "n mod 10 < 10" by simp
  show ?case
  proof (cases "n < 10")
    case True
    then show ?thesis by (subst dec_chars_rec) (simp add: digit_val_dec)
  next
    case False
    then have "digits 10 0 (dec_chars (n div 10)) = n div 10" by (intro less.IH) simp
    then show ?thesis
      using False by (subst dec_chars_rec) (simp add: digits_append [OF dec_chars_digits] digit_val_dec [OF m])
  qed
qed

lemma hd_dec_chars:
  assumes "0 < n"
  shows "\<exists>d :: nat. hd (dec_chars n) = char_of (48 + d) \<and> 0 < d \<and> d < 10" and "dec_chars n \<noteq> []"
proof -
  have ne: "dec_chars n \<noteq> []" for n by (subst dec_chars_rec) simp
  show "\<exists>d :: nat. hd (dec_chars n) = char_of (48 + d) \<and> 0 < d \<and> d < 10"
    using assms
  proof (induction n rule: less_induct)
    case (less n)
    show ?case
    proof (cases "n < 10")
      case True
      then show ?thesis using less.prems by (subst dec_chars_rec) (auto intro!: exI [of _ n])
    next
      case False
      then have "0 < n div 10" "n div 10 < n" by simp_all
      then show ?thesis using less.IH [of "n div 10"] False ne by (subst dec_chars_rec) (simp add: hd_append)
    qed
  qed
  show "dec_chars n \<noteq> []" by (rule ne)
qed

lemma strtoul_dec_chars:
  assumes "0 < n" and "n < 2 ^ 64"
  shows "strtoul0 (dec_chars n) = n"
proof -
  obtain d :: nat and c cs where d: "dec_chars n = c # cs" "c = char_of (48 + d)" "0 < d" "d < 10"
    using hd_dec_chars [OF assms(1)] by (metis list.collapse)
  have v: "(of_char c :: nat) = 48 + d" using d by simp
  have ne: "\<not> char_space c" "c \<noteq> CHR ''-''" "c \<noteq> CHR ''+''" "c \<noteq> CHR ''0''"
    using v d(3) by (auto simp: char_space_def)
  show ?thesis using ne digits_dec_chars [of n] assms(2) by (simp add: strtoul0_def d(1) Let_def)
qed

section \<open>Endpoints as text\<close>

datatype endpoint = Ep_Unix string | Ep_Tcp nat | Ep_Ws nat

fun ep_text :: "endpoint \<Rightarrow> string" where
  "ep_text (Ep_Unix path) = ''unix:'' @ path"
| "ep_text (Ep_Tcp port) = ''tcp:'' @ dec_chars port"
| "ep_text (Ep_Ws port) = ''ws:'' @ dec_chars port"

fun ep_ok :: "endpoint \<Rightarrow> bool" where
  "ep_ok (Ep_Unix path) \<longleftrightarrow> path \<noteq> [] \<and> length path \<le> 107 \<and> CHR '':'' \<notin> set path"
| "ep_ok (Ep_Tcp port) \<longleftrightarrow> 0 < port \<and> port < 2 ^ 16"
| "ep_ok (Ep_Ws port) \<longleftrightarrow> 0 < port \<and> port < 2 ^ 16"

fun ep_protocol :: "endpoint \<Rightarrow> dime_protocol" where
  "ep_protocol (Ep_Unix path) = DIME_UNIX"
| "ep_protocol (Ep_Tcp port) = DIME_TCP"
| "ep_protocol (Ep_Ws port) = DIME_WS"

fun ep_paths :: "endpoint \<Rightarrow> string list" where
  "ep_paths (Ep_Unix path) = [path]"
| "ep_paths _ = []"

text \<open>The address that the endpoint stands for.\<close>

fun ep_addr :: "endpoint \<Rightarrow> sock_addr" where
  "ep_addr (Ep_Unix path) = Addr_Unix path"
| "ep_addr (Ep_Tcp port) = Addr_In6 port"
| "ep_addr (Ep_Ws port) = Addr_In6 port"

lemma strtok_two:
  assumes "\<forall>c \<in> set a. c \<noteq> x" and "\<forall>c \<in> set b. c \<noteq> x" and "a \<noteq> []" and "b \<noteq> []"
  shows "strtok (\<lambda>c. c = x) (a @ x # b) = [a, b]"
proof -
  have "pieces (\<lambda>c. c = x) b = [b]" using assms(2) by (induction b) simp_all
  then show ?thesis using pieces_append [of a "\<lambda>c. c = x" x b] assms by (simp add: strtok_def)
qed

lemma dec_chars_no_colon: "\<forall>c \<in> set (dec_chars n). c \<noteq> CHR '':''"
proof
  fix c assume "c \<in> set (dec_chars n)"
  then obtain d where "digit_val c = Some d" using dec_chars_digits by blast
  then show "c \<noteq> CHR '':''" by (auto simp: digit_val_def Let_def)
qed

lemma endpoint_spec_text:
  assumes "ep_ok e"
  obtains protocol path port where "endpoint_spec (ep_text e) = Endpoint protocol path port"
    and "protocol_of protocol = Some (ep_protocol e)"
    and "path = (case e of Ep_Unix path \<Rightarrow> path | _ \<Rightarrow> '''')" and "port = (case e of Ep_Unix _ \<Rightarrow> 0 | Ep_Tcp n \<Rightarrow> n | Ep_Ws n \<Rightarrow> n)"
proof (cases e)
  case (Ep_Unix path)
  have "strtok (\<lambda>c. c = CHR '':'') (''unix'' @ CHR '':'' # path) = [''unix'', path]"
    by (rule strtok_two) (use assms Ep_Unix in auto)
  then have "endpoint_spec (ep_text e) = Endpoint 0 path 0" unfolding endpoint_spec_def Ep_Unix by simp
  then show thesis by (rule that) (simp_all add: Ep_Unix protocol_of_def)
next
  case (Ep_Tcp n)
  have n: "strtoul0 (dec_chars n) = n" "dec_chars n \<noteq> []" using assms Ep_Tcp strtoul_dec_chars [of n] hd_dec_chars [of n] by simp_all
  have "strtok (\<lambda>c. c = CHR '':'') (''tcp'' @ CHR '':'' # dec_chars n) = [''tcp'', dec_chars n]"
    by (rule strtok_two) (use dec_chars_no_colon n in auto)
  then have "endpoint_spec (ep_text e) = Endpoint 1 '''' n"
    using assms n unfolding endpoint_spec_def Ep_Tcp by (simp add: port_spec_def)
  then show thesis by (rule that) (simp_all add: Ep_Tcp protocol_of_def)
next
  case (Ep_Ws n)
  have n: "strtoul0 (dec_chars n) = n" "dec_chars n \<noteq> []" using assms Ep_Ws strtoul_dec_chars [of n] hd_dec_chars [of n] by simp_all
  have "strtok (\<lambda>c. c = CHR '':'') (''ws'' @ CHR '':'' # dec_chars n) = [''ws'', dec_chars n]"
    by (rule strtok_two) (use dec_chars_no_colon n in auto)
  then have "endpoint_spec (ep_text e) = Endpoint 2 '''' n"
    using assms n unfolding endpoint_spec_def Ep_Ws by (simp add: port_spec_def)
  then show thesis by (rule that) (simp_all add: Ep_Ws protocol_of_def)
qed

section \<open>From the command line to the endpoints\<close>

text \<open>A system that opens a dual-stack socket and binds it to the address of the endpoint.\<close>

definition grants :: "add_env \<Rightarrow> endpoint \<Rightarrow> bool" where
  "grants D e \<longleftrightarrow> (\<forall>i. d_ok D i) \<and> 0 \<le> d_socket D 0 \<and> d_dual D (d_socket D 0) \<and> d_bind D (d_socket D 0) (ep_addr e)"

text \<open>The arrays are of moderate size.\<close>

definition moderate :: "dime_loop \<Rightarrow> bool" where
  "moderate L \<longleftrightarrow> l_fds_cap L \<le> 2 ^ 40 \<and> l_pathnames_cap L \<le> 2 ^ 40"

lemma add_room_moderate:
  assumes "cap \<le> 2 ^ 40" and "elsz \<le> 16" and "len \<le> 2 ^ 31" and "ok"
  obtains cap' where "add_room ok elsz len cap = Some cap'" and "cap' \<le> 2 ^ 40"
proof -
  obtain cap' where c: "add_room ok elsz len cap = Some cap'" using add_room_succeeds [OF assms(1,2,4)] by blast
  have "sz_mul cap 3 = cap * 3" using assms(1) by (simp add: sz_mul_def)
  then have "cap' \<le> 2 ^ 40" using c assms(1,3) by (auto simp: add_room_def Let_def split: if_splits)
  then show thesis using that c by blast
qed

lemma add_endpoint:
  assumes g: "grants D e" and e: "ep_ok e" and spec: "endpoint_spec (ep_text e) = Endpoint protocol path port"
    and m: "moderate L" and len: "length (l_fds L) \<le> 2 ^ 31" "length (l_pathnames L) \<le> 2 ^ 31"
  obtains es L' where "dime_server_add D protocol path port L = (0, es, L')"
    and "l_fds L' = l_fds L @ [(d_socket D 0, ep_protocol e)]" and "l_pathnames L' = l_pathnames L @ ep_paths e"
    and "l_srv L' = l_srv L" and "moderate L'"
proof -
  have p: "protocol_of protocol = Some (ep_protocol e)"
    "path = (case e of Ep_Unix path \<Rightarrow> path | _ \<Rightarrow> '''')" "port = (case e of Ep_Unix _ \<Rightarrow> 0 | Ep_Tcp n \<Rightarrow> n | Ep_Ws n \<Rightarrow> n)"
    by (rule endpoint_spec_text [OF e], use spec in simp)+
  obtain c1 where c1: "add_room (d_ok D 0) FD_SIZE (length (l_fds L)) (l_fds_cap L) = Some c1" "c1 \<le> 2 ^ 40"
    using add_room_moderate [of "l_fds_cap L" FD_SIZE "length (l_fds L)" "d_ok D 0"] m len(1) g
    by (auto simp: moderate_def FD_SIZE_def grants_def)
  obtain c2 where c2: "add_room (d_ok D 2) PTR_SIZE (length (l_pathnames L)) (l_pathnames_cap L) = Some c2" "c2 \<le> 2 ^ 40"
    using add_room_moderate [of "l_pathnames_cap L" PTR_SIZE "length (l_pathnames L)" "d_ok D 2"] m len(2) g
    by (auto simp: moderate_def PTR_SIZE_def grants_def)
  show thesis
  proof (cases e)
    case (Ep_Unix path')
    then show thesis
      using g e p c1 c2 m that by (simp add: dime_server_add_def add_unix_def grants_def Let_def moderate_def SUN_PATH_LEN_def)
  next
    case (Ep_Tcp n)
    then show thesis using g e p c1 m that by (simp add: dime_server_add_def add_inet_def grants_def Let_def moderate_def)
  next
    case (Ep_Ws n)
    then show thesis using g e p c1 m that by (simp add: dime_server_add_def add_inet_def grants_def Let_def moderate_def)
  qed
qed

text \<open>
  The loop over the endpoints, from the \<open>k\<close>-th on, up to the elements \<open>is\<close> that follow them.
\<close>

lemma main_listen_upto:
  assumes "\<forall>j < length eps. ep_ok (eps ! j) \<and> grants (D j) (eps ! j)" and "length eps \<le> 2 ^ 30"
  shows "k + n = length eps \<Longrightarrow> (\<forall>j \<in> {k..<length eps}. slots ! (2 + 2 * j) = Some (ep_text (eps ! j))) \<Longrightarrow>
    length (l_fds L) + n \<le> 2 ^ 31 \<Longrightarrow> length (l_pathnames L) + n \<le> 2 ^ 31 \<Longrightarrow> moderate L \<Longrightarrow>
    \<exists>L' slots'. main_listen D k (map (\<lambda>j. 2 + 2 * j) [k..<length eps] @ is) slots L = main_listen D (length eps) is slots' L' \<and>
      (\<forall>i \<ge> 2 + 2 * length eps. slots' ! i = slots ! i) \<and> l_srv L' = l_srv L \<and>
      map snd (l_fds L') = map snd (l_fds L) @ map ep_protocol (drop k eps) \<and>
      l_pathnames L' = l_pathnames L @ concat (map ep_paths (drop k eps))"
proof (induction n arbitrary: k slots L)
  case 0
  then show ?case by auto
next
  case (Suc n)
  then have k: "k < length eps" by simp
  then have up: "[k..<length eps] = k # [Suc k..<length eps]" and dr: "drop k eps = eps ! k # drop (Suc k) eps"
    by (simp_all add: upt_conv_Cons Cons_nth_drop_Suc)
  let ?e = "eps ! k"
  have e: "ep_ok ?e" "grants (D k) ?e" using assms(1) k by simp_all
  obtain protocol path port where spec: "endpoint_spec (ep_text ?e) = Endpoint protocol path port"
    by (rule endpoint_spec_text [OF e(1)])
  have len: "length (l_fds L) \<le> 2 ^ 31" "length (l_pathnames L) \<le> 2 ^ 31" using Suc.prems(3,4) by simp_all
  obtain es L1 where add: "dime_server_add (D k) protocol path port L = (0, es, L1)"
    and L1: "l_fds L1 = l_fds L @ [(d_socket (D k) 0, ep_protocol ?e)]" "l_pathnames L1 = l_pathnames L @ ep_paths ?e"
      "l_srv L1 = l_srv L" "moderate L1"
    by (rule add_endpoint [OF e(2,1) spec Suc.prems(5) len])
  let ?slots = "slots[2 + 2 * k := Some (strtok_cut (ep_text ?e))]"
  have "length (ep_paths ?e) \<le> 1" by (cases ?e) simp_all
  then have l1: "length (l_fds L1) + n \<le> 2 ^ 31" "length (l_pathnames L1) + n \<le> 2 ^ 31" using L1(1,2) Suc.prems(3,4) by simp_all
  have sl: "\<forall>j \<in> {Suc k..<length eps}. ?slots ! (2 + 2 * j) = Some (ep_text (eps ! j))" using Suc.prems(2) by auto
  have kn: "Suc k + n = length eps" using Suc.prems(1) by simp
  obtain L' slots' where L': "main_listen D (Suc k) (map (\<lambda>j. 2 + 2 * j) [Suc k..<length eps] @ is) ?slots L1 = main_listen D (length eps) is slots' L'"
    "\<forall>i \<ge> 2 + 2 * length eps. slots' ! i = ?slots ! i"
    "l_srv L' = l_srv L1" "map snd (l_fds L') = map snd (l_fds L1) @ map ep_protocol (drop (Suc k) eps)"
    "l_pathnames L' = l_pathnames L1 @ concat (map ep_paths (drop (Suc k) eps))"
    using Suc.IH [OF kn sl l1 L1(4)] by blast
  have "slots ! (2 + 2 * k) = Some (ep_text ?e)" using Suc.prems(2) k by simp
  then have "main_listen D k (map (\<lambda>j. 2 + 2 * j) [k..<length eps] @ is) slots L = main_listen D (length eps) is slots' L'"
    using spec add L'(1) unfolding up by simp
  moreover have "\<forall>i \<ge> 2 + 2 * length eps. slots' ! i = slots ! i" using L'(2) k by simp
  ultimately show ?case using L'(3-) L1 unfolding dr by (intro exI [of _ L'] exI [of _ slots']) simp
qed

text \<open>The options \<^verbatim>\<open>-l <e>\<close>, from the \<open>k\<close>-th on, up to the arguments that follow them.\<close>

lemma parse_listen_options:
  assumes "1 + 2 * m \<le> length argv" and "\<forall>j < m. argv ! (1 + 2 * j) = ''-l''"
  shows "k + n = m \<Longrightarrow> length (o_listens opts) = k \<Longrightarrow>
    parse_args argv (1 + 2 * k) opts =
      parse_args argv (1 + 2 * m) (opts\<lparr>o_listens := o_listens opts @ map (\<lambda>j. 2 + 2 * j) [k..<m]\<rparr>)"
proof (induction n arbitrary: k opts)
  case 0
  then show ?case by simp
next
  case (Suc n)
  then have k: "k < m" by simp
  let ?opts = "opts\<lparr>o_listens := o_listens opts @ [2 + 2 * k]\<rparr>"
  have flags: "parse_flags argv (1 + 2 * k) ''l'' (False, opts) = Parsed (True, ?opts)"
    using assms(1) k Suc.prems(2) by simp
  have here: "argv ! (1 + 2 * k) = CHR ''-'' # ''l''" using assms(2) k by simp
  have "parse_args argv (1 + 2 * k) opts = parse_args argv (1 + 2 * Suc k) ?opts"
    using assms(1) k here flags by (subst parse_args.simps) simp
  also have "\<dots> = parse_args argv (1 + 2 * m) (?opts\<lparr>o_listens := o_listens ?opts @ map (\<lambda>j. 2 + 2 * j) [Suc k..<m]\<rparr>)"
    by (rule Suc.IH) (use Suc.prems in simp_all)
  finally show ?case using k by (simp add: upt_conv_Cons)
qed

lemma parse_args_end: "length argv \<le> argi \<Longrightarrow> parse_args argv argi opts = Parsed opts"
  by (subst parse_args.simps) simp

lemma server_init_fields:
  assumes "dime_server_init ok = Some L"
  shows "l_fds L = []" and "l_pathnames L = []" and "moderate L"
  using assms by (auto simp: dime_server_init_def moderate_def split: option.splits if_splits)


lemma nth_option_args:
  "j < length eps \<Longrightarrow> concat (map (\<lambda>e. [''-l'', ep_text e]) eps) ! (2 * j) = ''-l'' \<and>
    concat (map (\<lambda>e. [''-l'', ep_text e]) eps) ! Suc (2 * j) = ep_text (eps ! j)"
proof (induction eps arbitrary: j)
  case Nil
  then show ?case by simp
next
  case (Cons e eps)
  then show ?case by (cases j) auto
qed

lemma length_option_args: "length (concat (map (\<lambda>e. [''-l'', ep_text e]) eps)) = 2 * length eps"
  by (induction eps) simp_all

text \<open>
  C28. For any list of endpoints, the command line \<^verbatim>\<open>dime -l <e1> -l <e2> ...\<close>, with their texts
  (\<^verbatim>\<open>unix:<path>\<close>, \<^verbatim>\<open>tcp:<port>\<close>, \<^verbatim>\<open>ws:<port>\<close>), makes \<^verbatim>\<open>main\<close> reach the loop with a well-formed server
  that listens on exactly these endpoints, in this order, bound to the addresses that the texts
  denote, and remembers exactly the paths to unlink.
\<close>

theorem main_listens:
  assumes "eps \<noteq> []" and "\<forall>e \<in> set eps. ep_ok e" and "length eps \<le> 2 ^ 30"
    and "\<forall>j < length eps. grants (D j) (eps ! j)"
  shows "\<exists>L. dime_main (\<lambda>_. True) pid D (''dime'' # concat (map (\<lambda>e. [''-l'', ep_text e]) eps)) = Main_Run L \<and>
    map snd (l_fds L) = map ep_protocol eps \<and> l_pathnames L = concat (map ep_paths eps) \<and>
    srv_inv (l_srv L) \<and> h_clnts (l_srv L) = Map.empty"
proof -
  let ?args = "concat (map (\<lambda>e. [''-l'', ep_text e]) eps)"
  let ?argv = "''dime'' # ?args" and ?m = "length eps"
  have len: "length ?argv = 1 + 2 * ?m" by (simp add: length_option_args)
  have "\<forall>j < ?m. ?argv ! (1 + 2 * j) = ''-l''" using nth_option_args by simp
  note parse = parse_listen_options [OF eq_refl [OF len [symmetric]] this, of 0 ?m no_opts]
  have opts: "parse_args ?argv 1 no_opts = Parsed (no_opts\<lparr>o_listens := map (\<lambda>j. 2 + 2 * j) [0..<?m]\<rparr>)"
    using parse by (simp add: no_opts_def parse_args_end length_option_args)
  obtain L0 where L0: "dime_server_init (\<lambda>_. True) = Some L0" using server_init_succeeds by auto
  note i = server_init_fields [OF L0] server_init_ok [OF L0]
  have slots: "\<forall>j \<in> {0..<?m}. (map Some ?argv @ [None, Some ''unix:/tmp/dime.sock'']) ! (2 + 2 * j) = Some (ep_text (eps ! j))"
    using nth_option_args length_option_args [of eps] by (auto simp: nth_append)
  have ok: "\<forall>j < ?m. ep_ok (eps ! j) \<and> grants (D j) (eps ! j)" using assms(2,4) by simp
  obtain L where L: "main_listen D 0 (map (\<lambda>j. 2 + 2 * j) [0..<?m]) (map Some ?argv @ [None, Some ''unix:/tmp/dime.sock'']) L0 = Main_Run L"
    "l_srv L = l_srv L0" "map snd (l_fds L) = map ep_protocol eps" "l_pathnames L = concat (map ep_paths eps)"
    using main_listen_upto [OF ok assms(3), of 0 ?m _ L0 "[]", OF _ slots] i assms(3) by auto
  have "dime_main (\<lambda>_. True) pid D ?argv = Main_Run L"
    using opts L0 L(1) assms(1) by (simp add: dime_main_def no_opts_def daemonize_def)
  then show ?thesis using L i by simp
qed

theorem main_listens_witness:
  "\<exists>L. dime_main (\<lambda>_. True) 0 (\<lambda>j. demo_add\<lparr>d_dual := \<lambda>_. True\<rparr>)
      [''dime'', ''-l'', ''tcp:5000'', ''-l'', ''unix:/run/dime''] = Main_Run L \<and>
    map snd (l_fds L) = [DIME_TCP, DIME_UNIX] \<and> l_pathnames L = [''/run/dime'']"
proof -
  let ?eps = "[Ep_Tcp 5000, Ep_Unix ''/run/dime'']"
  have "dec_chars 5000 = ''5000''" by (simp add: dec_chars_def dec_nat.simps char_of_def bit_iff_odd)
  moreover have "\<forall>j < length ?eps. grants (demo_add\<lparr>d_dual := \<lambda>_. True\<rparr>) (?eps ! j)"
    by (simp add: grants_def demo_add_def)
  ultimately show ?thesis
    using main_listens [of ?eps "\<lambda>j. demo_add\<lparr>d_dual := \<lambda>_. True\<rparr>" 0] by auto
qed

section \<open>Command lines on which the program is undefined\<close>

text \<open>
  The letters of one argument that read an argument after it or nothing: they are parsed unless the
  letters \<^verbatim>\<open>l\<close> overrun the array.
\<close>

lemma parse_flags_overrun:
  assumes "set flags \<subseteq> set ''cdklv''" and "argi + 1 \<le> length argv"
    and "(length argv + 1) div 2 < length (o_listens opts) + count_list flags CHR ''l''"
    and "length (o_listens opts) \<le> (length argv + 1) div 2"
  shows "parse_flags argv argi flags (skip, opts) = Overrun"
  using assms(1,3,4)
proof (induction flags arbitrary: skip opts)
  case Nil
  then show ?case by simp
next
  case (Cons ch flags)
  then have "ch \<in> set ''cdklv''" by simp
  then consider "ch = CHR ''c''" | "ch = CHR ''d''" | "ch = CHR ''k''" | "ch = CHR ''l''" | "ch = CHR ''v''" by auto
  then show ?case using Cons assms(2) by cases simp_all
qed

text \<open>An option \<^verbatim>\<open>-l\<close> after the endpoints \<open>eps\<close>, with the strings \<open>rest\<close> after it.\<close>

lemma main_last_option:
  assumes "\<forall>e \<in> set eps. ep_ok e" and "length eps \<le> 2 ^ 30" and "\<forall>j < length eps. grants (D j) (eps ! j)"
    and "length rest \<le> 1" and "\<forall>text \<in> set rest. endpoint_spec text = Endpoint_Undefined"
  shows "dime_main (\<lambda>_. True) pid D (''dime'' # concat (map (\<lambda>e. [''-l'', ep_text e]) eps) @ ''-l'' # rest) = Main_Undefined"
proof -
  let ?args = "concat (map (\<lambda>e. [''-l'', ep_text e]) eps)" and ?m = "length eps"
  let ?argv = "''dime'' # ?args @ ''-l'' # rest"
  let ?slots = "map Some ?argv @ [None, Some ''unix:/tmp/dime.sock'']"
  have len: "1 + 2 * ?m \<le> length ?argv" "length ?argv = 2 + 2 * ?m + length rest" by (simp_all add: length_option_args)
  have at: "?argv ! (1 + 2 * ?m) = CHR ''-'' # ''l''" by (simp add: nth_append length_option_args)
  have "\<forall>j < ?m. ?argv ! (1 + 2 * j) = ''-l''" using nth_option_args by (simp add: nth_append length_option_args)
  note parse = parse_listen_options [OF len(1) this, of 0 ?m no_opts]
  let ?is = "map (\<lambda>j. 2 + 2 * j) [0..<?m]"
  have flags: "parse_flags ?argv (1 + 2 * ?m) ''l'' (False, no_opts\<lparr>o_listens := ?is\<rparr>) = Parsed (True, no_opts\<lparr>o_listens := ?is @ [2 + 2 * ?m]\<rparr>)"
    using len(2) by simp
  have "parse_args ?argv (1 + 2 * ?m) (no_opts\<lparr>o_listens := ?is\<rparr>) = Parsed (no_opts\<lparr>o_listens := ?is @ [2 + 2 * ?m]\<rparr>)"
    using len(2) assms(4) at flags parse_args_end [of ?argv "Suc (Suc (Suc (2 * ?m)))"] by (subst parse_args.simps) simp
  then have opts: "parse_args ?argv 1 no_opts = Parsed (no_opts\<lparr>o_listens := ?is @ [2 + 2 * ?m]\<rparr>)"
    using parse by (simp add: no_opts_def)
  obtain L0 where L0: "dime_server_init (\<lambda>_. True) = Some L0" using server_init_succeeds by auto
  note i = server_init_fields [OF L0]
  have slots: "\<forall>j \<in> {0..<?m}. ?slots ! (2 + 2 * j) = Some (ep_text (eps ! j))"
    using nth_option_args length_option_args [of eps] by (auto simp: nth_append)
  have ok: "\<forall>j < ?m. ep_ok (eps ! j) \<and> grants (D j) (eps ! j)" using assms(1,3) by simp
  obtain L slots' where L: "main_listen D 0 (?is @ [2 + 2 * ?m]) ?slots L0 = main_listen D ?m [2 + 2 * ?m] slots' L"
    "\<forall>i \<ge> 2 + 2 * ?m. slots' ! i = ?slots ! i"
    using main_listen_upto [OF ok assms(2), of 0 ?m _ L0 "[2 + 2 * ?m]", OF _ slots] i assms(2) by auto
  have "slots' ! (2 + 2 * ?m) = (case rest of [] \<Rightarrow> None | text # _ \<Rightarrow> Some text)"
    using L(2) by (auto simp: nth_append length_option_args split: list.splits)
  then have "main_listen D ?m [2 + 2 * ?m] slots' L = Main_Undefined" using assms(5) by (cases rest) simp_all
  then show ?thesis using opts L0 L(1) by (simp add: dime_main_def no_opts_def daemonize_def)
qed

lemma strtok_colons:
  assumes "set cs \<subseteq> {CHR '':''}"
  shows "strtok (\<lambda>c. c = CHR '':'') cs = []"
proof -
  have "\<forall>p \<in> set (pieces (\<lambda>c. c = CHR '':'') cs). p = []"
    using assms by (induction cs) (auto split: list.splits)
  then show ?thesis by (simp add: strtok_def filter_empty_conv)
qed



end
