(* ===== verification/Ev_Def.thy ===== *)
theory Ev_Def
  imports Server_Def
begin

text \<open>
  \<^verbatim>\<open>server/server.c\<close> in the build with \<^verbatim>\<open>DIME_USE_LIBEV\<close>: the callbacks for a new connection and for
  a client that can be read or written, and the start of the loop.  Of libev itself the model has which
  watchers are started, and whether \<^verbatim>\<open>ev_unloop\<close> has been called.
\<close>

section \<open>State\<close>

text \<open>
  The clients whose \<^verbatim>\<open>rwatcher\<close> and \<^verbatim>\<open>wwatcher\<close> are started; those of the endpoints are never
  stopped.
\<close>

record dime_ev =
  v_srv :: dime_server
  v_fds :: "(int \<times> dime_protocol) list"
  v_reading :: "addr set"
  v_writing :: "addr set"
  v_stop :: bool

text \<open>
  The clients whose socket has started its \<^verbatim>\<open>wwatcher\<close>, as \<^verbatim>\<open>dime_socket_push_str\<close> does when it
  pushes into an empty out-buffer (\<open>start_wwatcher\<close>).
\<close>

definition started :: "dime_server \<Rightarrow> addr set" where
  "started s = {c. case h_clnts s c of None \<Rightarrow> False | Some cl \<Rightarrow> s_wwatcher (c_sock cl)}"

section \<open>Callbacks\<close>

definition fault_ev :: "dime_ev \<Rightarrow> dime_ev" where
  "fault_ev V = V\<lparr>v_srv := fault (v_srv V)\<rparr>"

text \<open>
  Both watchers are stopped, and the client is removed from the table, from its groups and from
  memory by the same calls as in the select loop.
\<close>

definition ev_close :: "addr \<Rightarrow> dime_ev \<Rightarrow> dime_ev" where
  "ev_close c V =
     V\<lparr>v_srv := l_srv (drop_client c \<lparr>l_srv = v_srv V, l_fds = v_fds V, l_fds_cap = 0, l_pathnames = [],
          l_pathnames_cap = 0, l_rfds = {}, l_wfds = {}, l_maxfd = 0\<rparr>),
       v_reading := v_reading V - {c}, v_writing := v_writing V - {c}\<rparr>"

text \<open>\<open>hup\<close> says that the event is both a read and a write event, as libev reports errors.\<close>

definition ev_client_writable :: "'j env \<Rightarrow> answers \<Rightarrow> bool \<Rightarrow> addr \<Rightarrow> dime_ev \<Rightarrow> dime_ev" where
  "ev_client_writable E a hup c V =
     (if hup then ev_close c V
      else
        (let s = v_srv V
         in case h_clnts s c of
              None \<Rightarrow> fault_ev V
            | Some cl \<Rightarrow>
                (let (n, sock) = dime_socket_sendpartial (e_errno E (h_tick s)) (e_ok E (h_tick s) 0) (a_send a) (c_sock cl);
                     V = V\<lparr>v_srv := tick (set_clnt c (cl\<lparr>c_sock := sock\<rparr>) s)\<rparr>
                 in if n < 0 then ev_close c V
                    else if dime_socket_sendlen sock = 0 then
                      V\<lparr>v_srv := set_clnt c (cl\<lparr>c_sock := sock\<lparr>s_wwatcher := False\<rparr>\<rparr>) (v_srv V), v_writing := v_writing V - {c}\<rparr>
                    else V)))"

text \<open>
  The loop over the complete messages.  When \<^verbatim>\<open>dime_socket_pop\<close> fails, \<^verbatim>\<open>ev_unloop\<close> only sets a flag,
  and the loop goes on.  \<open>None\<close> when the fuel is used up; the Boolean is the flag.
\<close>

fun ev_message_loop :: "nat \<Rightarrow> 'j env \<Rightarrow> addr \<Rightarrow> bool \<Rightarrow> dime_server \<Rightarrow> (bool \<times> dime_server) option" where
  "ev_message_loop 0 E c stop s = None"
| "ev_message_loop (Suc n) E c stop s =
     (case h_clnts s c of
        None \<Rightarrow> Some (stop, fault s)
      | Some cl \<Rightarrow>
          (case dime_socket_pop (e_loadb E) (e_errno E (h_tick s)) (e_ok E (h_tick s)) (c_sock cl) of
             None \<Rightarrow> None
           | Some (r, sock) \<Rightarrow>
               (let s1 = tick (set_clnt c (cl\<lparr>c_sock := sock\<rparr>) s)
                in case r of
                     Pop_Message siz jsondata bindata \<Rightarrow>
                       ev_message_loop n E c stop (snd (dispatch E c jsondata bindata s1))
                   | Pop_Error \<Rightarrow> ev_message_loop n E c True (err_copy (e_errno E (h_tick s)) s1)
                   | Pop_Incomplete \<Rightarrow> Some (stop, s1)
                   | Pop_Out_Of_Bounds \<Rightarrow> Some (stop, fault s1))))"

text \<open>The commands push to any client, and so start write watchers.\<close>

definition ev_client_readable ::
  "'j env \<Rightarrow> answers \<Rightarrow> nat \<Rightarrow> bool \<Rightarrow> addr \<Rightarrow> dime_ev \<Rightarrow> dime_ev option" where
  "ev_client_readable E a fuel hup c V =
     (if hup then Some (ev_close c V)
      else
        (let s = v_srv V
         in case h_clnts s c of
              None \<Rightarrow> Some (fault_ev V)
            | Some cl \<Rightarrow>
                (let (n, sock) = dime_socket_recvpartial (e_errno E (h_tick s)) (e_ok E (h_tick s)) (a_recv a) (c_sock cl);
                     s = tick (set_clnt c (cl\<lparr>c_sock := sock\<rparr>) s)
                 in if n \<le> 0 then Some (ev_close c (V\<lparr>v_srv := s\<rparr>))
                    else
                      map_option (\<lambda>(stop, s). V\<lparr>v_srv := s, v_writing := v_writing V \<union> started s, v_stop := stop\<rparr>)
                        (ev_message_loop fuel E c (v_stop V) s))))"

text \<open>
  A new connection.  After a failure of \<^verbatim>\<open>malloc\<close>, \<^verbatim>\<open>dime_client_init\<close> or \<^verbatim>\<open>dime_table_insert\<close> the callback
  calls \<^verbatim>\<open>ev_unloop\<close>, which returns, and goes on with a pointer that is null or freed.  A client that is
  in the table gets its loop, and its \<^verbatim>\<open>wwatcher\<close> is initialized, which means not started.
\<close>

definition ev_register :: "'j env \<Rightarrow> addr \<Rightarrow> dime_client \<Rightarrow> dime_ev \<Rightarrow> dime_ev" where
  "ev_register E c cl V =
     (let s = v_srv V
      in case dime_table_insert (e_ok E (h_tick s)) (h_fd2clnt s) (c_fd cl) c of
           None \<Rightarrow> fault_ev V
         | Some (rc, tbl) \<Rightarrow>
             if rc < 0 then
               fault_ev (V\<lparr>v_srv := err_copy (e_errno E (h_tick s)) (s\<lparr>h_fd2clnt := tbl\<rparr>), v_stop := True\<rparr>)
             else V\<lparr>v_srv := tick (set_clnt c (cl\<lparr>c_sock := (c_sock cl)\<lparr>s_loop := True, s_wwatcher := False\<rparr>\<rparr>)
                    (s\<lparr>h_fd2clnt := tbl\<rparr>)), v_reading := insert c (v_reading V)\<rparr>)"

definition ev_server_readable :: "'j env \<Rightarrow> answers \<Rightarrow> dime_protocol \<Rightarrow> dime_ev \<Rightarrow> dime_ev" where
  "ev_server_readable E a protocol V =
     (let t = h_tick (v_srv V);
          s = tick (v_srv V);
          fd = a_accept a;
          stop = (v_stop V \<or> \<not> e_ok E t 0)
      in if fd < 0 then V\<lparr>v_srv := s\<lparr>h_err := ''''\<rparr>, v_stop := stop\<rparr>
         else if \<not> e_ok E t 0 then fault_ev (V\<lparr>v_stop := True\<rparr>)
         else
           (case dime_client_init (\<lambda>i. e_ok E t (Suc i)) fd (a_stack a) (a_peer a) of
              Client_Failed \<Rightarrow> fault_ev (V\<lparr>v_stop := True\<rparr>)
            | Client_Undefined \<Rightarrow> fault_ev V
            | Client_Ready cl \<Rightarrow>
                (let c = h_next s;
                     V = V\<lparr>v_srv := s\<lparr>h_next := Suc c\<rparr>\<rparr>
                 in if protocol = DIME_WS then
                      (case dime_socket_init_ws (a_ws_fuel a) (a_ws a) (c_sock cl) of
                         Ws_Return rc sock sent \<Rightarrow>
                           if rc < 0 then V else ev_register E c (cl\<lparr>c_sock := sock\<rparr>) V
                       | _ \<Rightarrow> fault_ev V)
                    else ev_register E c cl V)))"

section \<open>The loop\<close>

definition ev_open_fds :: "dime_ev \<Rightarrow> int set" where
  "ev_open_fds V = fst ` set (v_fds V) \<union> {c_fd cl |c cl. h_clnts (v_srv V) c = Some cl}"

definition ev_answers_ok :: "answers \<Rightarrow> dime_ev \<Rightarrow> bool" where
  "ev_answers_ok a V \<longleftrightarrow>
     (a_accept a < 0 \<or> a_accept a < 2 ^ 31 \<and> a_accept a \<notin> ev_open_fds V) \<and>
     (\<forall>room bs. a_recv a room = Some bs \<longrightarrow> length bs \<le> room)"

text \<open>libev calls the callback of a watcher that is started, one at a time.\<close>

inductive ev_step :: "'j env \<Rightarrow> dime_ev \<Rightarrow> dime_ev \<Rightarrow> bool" for E :: "'j env" where
  connection: "\<lbrakk>protocol \<in> snd ` set (v_fds V); ev_answers_ok a V\<rbrakk> \<Longrightarrow>
    ev_step E V (ev_server_readable E a protocol V)"
| readable: "\<lbrakk>c \<in> v_reading V; ev_answers_ok a V; ev_client_readable E a fuel hup c V = Some V'\<rbrakk> \<Longrightarrow>
    ev_step E V V'"
| writable: "\<lbrakk>c \<in> v_writing V; ev_answers_ok a V\<rbrakk> \<Longrightarrow> ev_step E V (ev_client_writable E a hup c V)"

text \<open>
  \<^verbatim>\<open>dime_server_loop\<close> starts the watchers of the endpoints and listens on them; \<open>has_loop\<close> says that
  \<^verbatim>\<open>ev_default_loop\<close> succeeds, and \<open>listens\<close> where \<^verbatim>\<open>listen\<close> does.  The Boolean is false for \<^verbatim>\<open>return -1\<close>.
\<close>

definition ev_start :: "bool \<Rightarrow> string \<Rightarrow> (int \<Rightarrow> bool) \<Rightarrow> dime_loop \<Rightarrow> bool \<times> dime_ev" where
  "ev_start has_loop strerror listens L =
     (let V = \<lparr>v_srv = l_srv L, v_fds = l_fds L, v_reading = {}, v_writing = {}, v_stop = False\<rparr>
      in if \<not> has_loop then (False, V\<lparr>v_srv := err_copy ''Could not initialize libev'' (v_srv V)\<rparr>)
         else if \<exists>fd \<in> set (map fst (l_fds L)). \<not> listens fd
         then (False, V\<lparr>v_srv := err_copy strerror (v_srv V)\<rparr>)
         else (True, V))"

inductive ev_reachable :: "'j env \<Rightarrow> dime_ev \<Rightarrow> bool" for E :: "'j env" where
  start: "\<lbrakk>dime_server_init ok = Some L; ev_start has_loop msg listens (L\<lparr>l_fds := fds\<rparr>) = (True, V)\<rbrakk> \<Longrightarrow> ev_reachable E V"
| step: "\<lbrakk>ev_reachable E V; ev_step E V V'\<rbrakk> \<Longrightarrow> ev_reachable E V'"

end
