(* ===== verification/Ev_Props.thy ===== *)
theory Ev_Props
  imports Ev_Def Loop_Props
begin

text \<open>
  The callbacks of the libev build: no watcher of a freed client is left, no output is forgotten,
  and a malformed message keeps the callback busy for ever.
\<close>

section \<open>The invariant\<close>

text \<open>
  The read watchers are those of the clients; the write watchers are of clients, among them all
  whose socket has started one.  Every socket has the loop, so that its invariant says when that is.
\<close>

definition looped :: "dime_server \<Rightarrow> bool" where
  "looped s \<longleftrightarrow> (\<forall>c cl. h_clnts s c = Some cl \<longrightarrow> s_loop (c_sock cl))"

definition ev_inv :: "dime_ev \<Rightarrow> bool" where
  "ev_inv V \<longleftrightarrow> srv_inv (v_srv V) \<and> v_reading V = dom (h_clnts (v_srv V)) \<and>
     started (v_srv V) \<subseteq> v_writing V \<and> v_writing V \<subseteq> dom (h_clnts (v_srv V)) \<and>
     looped (v_srv V)"

lemma started_small [simp]:
  "started (tick s) = started s" "started (fault s) = started s" "started (err_copy msg s) = started s"
  "started (s\<lparr>h_next := n\<rparr>) = started s" "started (s\<lparr>h_err := e\<rparr>) = started s" "started (s\<lparr>h_fd2clnt := t\<rparr>) = started s"
  by (simp_all add: started_def tick_def fault_def err_copy_def)

lemma looped_small [simp]:
  "looped (tick s) = looped s" "looped (fault s) = looped s" "looped (err_copy msg s) = looped s"
  "looped (s\<lparr>h_next := n\<rparr>) = looped s" "looped (s\<lparr>h_err := e\<rparr>) = looped s" "looped (s\<lparr>h_fd2clnt := t\<rparr>) = looped s"
  by (simp_all add: looped_def tick_def fault_def err_copy_def)

lemma looped_set_clnt: "looped s \<Longrightarrow> s_loop (c_sock cl) \<Longrightarrow> looped (set_clnt c cl s)"
  by (auto simp: looped_def)

lemma started_set_clnt:
  "started (set_clnt c cl s) = (if s_wwatcher (c_sock cl) then insert c (started s) else started s - {c})"
  by (auto simp: started_def)

lemma ev_inv_fault [simp]: "ev_inv V \<Longrightarrow> ev_inv (fault_ev V)"
  by (simp add: ev_inv_def fault_ev_def)

lemma ev_inv_stop [simp]: "ev_inv (V\<lparr>v_stop := b\<rparr>) = ev_inv V"
  by (simp add: ev_inv_def)

lemma ev_close_inv:
  assumes V: "ev_inv V" and cl: "h_clnts (v_srv V) c = Some cl"
  shows "ev_inv (ev_close c V)"
proof -
  let ?L = "\<lparr>l_srv = v_srv V, l_fds = v_fds V, l_fds_cap = 0, l_pathnames = [],
    l_pathnames_cap = 0, l_rfds = {}, l_wfds = {}, l_maxfd = 0\<rparr>"
  obtain s' where s': "l_srv (drop_client c ?L) = s'" "closed c cl (v_srv V) s'"
    by (rule drop_client_ok [of ?L c cl]) (use V cl in \<open>simp_all add: ev_inv_def\<close>)
  have h: "srv_inv s'" "h_clnts s' = (h_clnts (v_srv V))(c := None)" using s'(2) by (simp_all add: closed_def)
  have "started s' = started (v_srv V) - {c}" by (auto simp: started_def h(2))
  then show ?thesis using V h s'(1) by (auto simp: ev_inv_def ev_close_def looped_def)
qed

text \<open>Using a client's socket for something that starts no write watcher.\<close>

lemma ev_inv_sock:
  assumes V: "ev_inv V" and cl: "h_clnts (v_srv V) c = Some cl" and sock: "sock_inv sock"
    and out: "s_wwatcher sock \<longrightarrow> c \<in> v_writing V" and loop: "s_loop sock = s_loop (c_sock cl)"
  shows "ev_inv (V\<lparr>v_srv := tick (set_clnt c (cl\<lparr>c_sock := sock\<rparr>) (v_srv V))\<rparr>)"
proof -
  have "alive c (v_srv V)" using V cl by (simp add: ev_inv_def alive_def)
  then have "srv_inv (tick (set_clnt c (cl\<lparr>c_sock := sock\<rparr>) (v_srv V)))"
    using set_sock_alive(1) [OF _ cl sock] by (simp add: alive_def)
  moreover have "s_loop sock" using V cl loop by (simp add: ev_inv_def looped_def)
  ultimately show ?thesis using V cl out by (auto simp: ev_inv_def started_set_clnt looped_set_clnt)
qed

text \<open>Sending and receiving leave the watcher and the loop of the socket alone.\<close>

lemma io_watcher:
  "dime_socket_sendpartial e ok send k = (n, k') \<Longrightarrow> s_loop k' = s_loop k \<and> s_wwatcher k' = s_wwatcher k"
  "dime_socket_recvpartial e oks recv k = (n, k') \<Longrightarrow> s_loop k' = s_loop k \<and> s_wwatcher k' = s_wwatcher k"
  by (auto simp: dime_socket_sendpartial_def dime_socket_recvpartial_def Let_def set_err_def
    split: if_splits option.splits prod.splits)

lemma ev_client_writable_inv:
  assumes V: "ev_inv V" and c: "c \<in> v_writing V"
  shows "ev_inv (ev_client_writable E a hup c V)"
proof -
  let ?s = "v_srv V"
  obtain cl where cl: "h_clnts ?s c = Some cl" using V c by (auto simp: ev_inv_def)
  obtain n sock where r: "dime_socket_sendpartial (e_errno E (h_tick ?s)) (e_ok E (h_tick ?s) 0) (a_send a) (c_sock cl) = (n, sock)"
    by fastforce
  have sock: "sock_inv sock"
    using sendpartial_inv [OF srv_inv_parts(8) [of ?s c cl]] V cl r by (metis ev_inv_def snd_conv)
  let ?V = "V\<lparr>v_srv := tick (set_clnt c (cl\<lparr>c_sock := sock\<rparr>) ?s)\<rparr>"
  have V1: "ev_inv ?V" by (rule ev_inv_sock [OF V cl sock]) (use c io_watcher(1) [OF r] in simp_all)
  have close: "ev_inv (ev_close c V)" "ev_inv (ev_close c ?V)"
    by (rule ev_close_inv [OF V cl], rule ev_close_inv [OF V1]) simp
  let ?k = "sock\<lparr>s_wwatcher := False\<rparr>"
  have "ev_inv (?V\<lparr>v_srv := set_clnt c (cl\<lparr>c_sock := ?k\<rparr>) (v_srv ?V), v_writing := v_writing V - {c}\<rparr>)"
    if "dime_socket_sendlen sock = 0"
  proof -
    have k: "sock_inv ?k" using sock that by (simp add: sock_inv_def watched_def dime_socket_sendlen_def)
    have inv: "srv_inv (v_srv ?V)" and loop: "looped (v_srv ?V)" using V1 by (simp_all add: ev_inv_def)
    have "same_but_socks (v_srv ?V) (set_clnt c (cl\<lparr>c_sock := ?k\<rparr>) (v_srv ?V))"
      by (rule same_set_sock [of _ _ "cl\<lparr>c_sock := sock\<rparr>"]) (simp_all add: same_clnt_def k)
    then have "srv_inv (set_clnt c (cl\<lparr>c_sock := ?k\<rparr>) (v_srv ?V))" by (rule srv_inv_same [OF inv])
    moreover have "h_clnts (v_srv ?V) c = Some (cl\<lparr>c_sock := sock\<rparr>)" by simp
    then have "s_loop (c_sock (cl\<lparr>c_sock := sock\<rparr>))" using loop unfolding looped_def by blast
    then have "looped (set_clnt c (cl\<lparr>c_sock := ?k\<rparr>) (v_srv ?V))" using looped_set_clnt [OF loop] by simp
    ultimately show ?thesis using V1 cl by (auto simp: ev_inv_def started_set_clnt)
  qed
  then show ?thesis using cl r close V1 by (simp add: ev_client_writable_def Let_def)
qed

text \<open>Popping and dispatching leave the loop of the sockets alone.\<close>

lemma unwrap_loop: "dime_socket_unwrap n e ok k ws = Some (r, k') \<Longrightarrow> s_loop k' = s_loop k"
proof (induction n arbitrary: k ws)
  case (Suc n)
  show ?case
  proof (cases "ws_in_header (dime_ringbuffer_peek ws 14)")
    case None
    then show ?thesis using Suc.prems by auto
  next
    case (Some p)
    obtain a b key where p: "p = (a, b, key)" by (cases p)
    have step: "s_loop k' = s_loop k" if "dime_socket_unwrap n e ok (k\<lparr>s_rbuf := rb\<rparr>) w = Some (r, k')" for rb w
      using Suc.IH [OF that] by simp
    show ?thesis using Suc.prems Some p
      by (auto simp: Let_def set_err_def split_beta split: if_splits dest: step)
  qed
qed simp

lemma pop_loop: "dime_socket_pop loadb e ok k = Some (r, k') \<Longrightarrow> s_loop k' = s_loop k"
proof -
  have parse: "s_loop (snd (dime_socket_parse loadb e ok k)) = s_loop k" for k
    by (simp add: dime_socket_parse_def Let_def set_err_def split: sum.split)
  assume pop: "dime_socket_pop loadb e ok k = Some (r, k')"
  show "s_loop k' = s_loop k"
  proof (cases "s_ws k")
    case None
    then show ?thesis using pop parse [of k] by (simp add: dime_socket_pop_def)
  next
    case (Some ws)
    let ?u = "dime_socket_unwrap (Suc (dime_ringbuffer_len ws)) e (\<lambda>i. ok (i + 2)) k ws"
    obtain w k1 where u: "?u = Some (w, k1)" using pop Some by (cases ?u) (auto simp: dime_socket_pop_def simp del: dime_socket_unwrap.simps)
    then show ?thesis using pop Some parse [of k1] unwrap_loop [OF u]
      by (cases w) (simp_all add: dime_socket_pop_def del: dime_socket_unwrap.simps)
  qed
qed

lemma looped_inputs:
  assumes "inputs s' = inputs s" and "looped s"
  shows "looped s'"
  unfolding looped_def
proof (intro allI impI)
  fix c cl assume "h_clnts s' c = Some cl"
  then show "s_loop (c_sock cl)" using inputs_get [OF assms(1) [symmetric]] assms(2) by (fastforce simp: looped_def)
qed

lemma ev_message_loop_alive:
  assumes env: "env_ok E"
  shows "alive c s \<Longrightarrow> ev_message_loop n E c stop s = Some (stop', s') \<Longrightarrow>
    alive c s' \<and> conns s' = conns s \<and> (looped s \<longrightarrow> looped s')"
proof (induction n arbitrary: s stop)
  case 0
  then show ?case by simp
next
  case (Suc n)
  obtain cl where cl: "h_clnts s c = Some cl" using Suc.prems(1) by (auto simp: alive_def)
  obtain r sock where pop:
    "dime_socket_pop (e_loadb E) (e_errno E (h_tick s)) (e_ok E (h_tick s)) (c_sock cl) = Some (r, sock)"
    and s1: "alive c (tick (set_clnt c (cl\<lparr>c_sock := sock\<rparr>) s))"
      "conns (tick (set_clnt c (cl\<lparr>c_sock := sock\<rparr>) s)) = conns s"
    and msg: "\<And>siz j bin s'. r = Pop_Message siz j bin \<Longrightarrow>
      s' = snd (dispatch E c j bin (tick (set_clnt c (cl\<lparr>c_sock := sock\<rparr>) s))) \<Longrightarrow>
      alive c s' \<and> conns s' = conns s \<and> unread_of s' c + 12 \<le> unread_of s c"
    by (rule message_turn [OF env Suc.prems(1) cl]) blast
  have loop: "looped (tick (set_clnt c (cl\<lparr>c_sock := sock\<rparr>) s))" if "looped s"
    using that cl pop_loop [OF pop] looped_set_clnt [OF that, of "cl\<lparr>c_sock := sock\<rparr>"] by (simp add: looped_def)
  show ?case
  proof (cases r)
    case (Pop_Message siz j bin)
    let ?s = "snd (dispatch E c j bin (tick (set_clnt c (cl\<lparr>c_sock := sock\<rparr>) s)))"
    have "ev_message_loop n E c stop ?s = Some (stop', s')" using Suc.prems(2) cl pop Pop_Message by (simp add: Let_def)
    moreover have "looped ?s" if "looped s" using looped_inputs [OF inputs_dispatch [OF env] loop [OF that]] .
    ultimately show ?thesis using Suc.IH [of ?s stop] msg [OF Pop_Message refl] by simp
  next
    case Pop_Error
    let ?s = "err_copy (e_errno E (h_tick s)) (tick (set_clnt c (cl\<lparr>c_sock := sock\<rparr>) s))"
    have "ev_message_loop n E c True ?s = Some (stop', s')" using Suc.prems(2) cl pop Pop_Error by (simp add: Let_def)
    then show ?thesis using Suc.IH [of ?s True] s1 loop by simp
  qed (use Suc.prems(2) s1 cl pop loop in \<open>auto simp: Let_def\<close>)
qed

lemma ev_client_readable_inv:
  assumes env: "env_ok E" and V: "ev_inv V" and c: "c \<in> v_reading V" and a: "ev_answers_ok a V"
    and run: "ev_client_readable E a fuel hup c V = Some V'"
  shows "ev_inv V'"
proof -
  let ?s = "v_srv V"
  obtain cl where cl: "h_clnts ?s c = Some cl" using V c by (auto simp: ev_inv_def)
  obtain n sock where r: "dime_socket_recvpartial (e_errno E (h_tick ?s)) (e_ok E (h_tick ?s)) (a_recv a) (c_sock cl) = (n, sock)"
    by fastforce
  have inv: "srv_inv ?s" using V by (simp add: ev_inv_def)
  have sock: "sock_inv sock"
    using recvpartial_inv [OF srv_inv_parts(8) [OF inv cl], of "a_recv a"] a r by (metis ev_answers_ok_def snd_conv)
  have "c \<in> v_writing V" if "s_wwatcher sock" using that V cl io_watcher(2) [OF r] by (auto simp: ev_inv_def started_def)
  note out = impI [OF this]
  let ?u = "tick (set_clnt c (cl\<lparr>c_sock := sock\<rparr>) ?s)"
  have V1: "ev_inv (V\<lparr>v_srv := ?u\<rparr>)"
    using ev_inv_sock [OF V cl sock out] io_watcher(2) [OF r] by simp
  have u: "alive c ?u" using set_sock_alive(1) [OF _ cl sock] inv cl by (simp add: alive_def)
  show ?thesis
  proof (cases "hup \<or> n \<le> 0")
    case True
    have "ev_inv (ev_close c V)" "ev_inv (ev_close c (V\<lparr>v_srv := ?u\<rparr>))"
      by (rule ev_close_inv [OF V cl], rule ev_close_inv [OF V1]) simp
    then show ?thesis using True run cl r by (auto simp: ev_client_readable_def Let_def split: if_splits)
  next
    case False
    then obtain stop s' where loop: "ev_message_loop fuel E c (v_stop V) ?u = Some (stop, s')"
      and V': "V' = V\<lparr>v_srv := s', v_writing := v_writing V \<union> started s', v_stop := stop\<rparr>"
      using run cl r by (auto simp: ev_client_readable_def Let_def)
    have s': "srv_inv s'" "conns s' = conns ?u" "looped s'"
      using ev_message_loop_alive [OF env u loop] V1 by (simp_all add: alive_def ev_inv_def)
    have "h_clnts s' d = None \<longleftrightarrow> h_clnts ?s d = None" for d
      using conns_fd [OF s'(2), of d] cl by (cases "h_clnts s' d"; cases "h_clnts ?s d") (auto split: if_splits)
    then have dom: "dom (h_clnts s') = dom (h_clnts ?s)" by (simp add: dom_def)
    have "started s' \<subseteq> dom (h_clnts s')" by (auto simp: started_def split: option.splits)
    then show ?thesis using V s'(1,3) dom unfolding V' by (auto simp: ev_inv_def)
  qed
qed

lemma client_init_idle:
  assumes "dime_client_init ok fd tmp addr = Client_Ready cl" and "0 \<le> fd" and "fd < 2 ^ 31"
  shows "new_client_ok cl" and "c_fd cl = fd" and "dime_socket_sendlen (c_sock cl) = 0"
proof -
  note i = dime_client_init_ok [OF assms(1)]
  then show "c_fd cl = fd" "new_client_ok cl" using assms by (auto simp: new_client_ok_def)
  show "dime_socket_sendlen (c_sock cl) = 0"
    using i length_rb_bytes [of "s_wbuf (c_sock cl)"] by (simp add: dime_socket_sendlen_def dime_ringbuffer_len_def)
qed

lemma ws_outcome_out:
  assumes "dime_socket_init_ws n W sock = Ws_Return rc sock' sent"
  shows "s_wbuf sock' = s_wbuf sock"
  using assms by (auto simp: dime_socket_init_ws_def ws_answer_def ws_reply_def ws_fail_def set_err_def
    split: if_splits option.splits list.splits prod.splits)

text \<open>Registering a new client that has nothing to send.\<close>

lemma ev_register_inv:
  assumes V: "ev_inv V" and s: "v_srv V = s" and c: "h_clnts s c = None" "c < h_next s" and cl: "new_client_ok cl"
    and idle: "dime_socket_sendlen (c_sock cl) = 0" and fd: "c_fd cl \<notin> ev_open_fds V"
  shows "ev_inv (ev_register E c cl V)"
proof -
  have inv: "srv_inv s" using V s by (simp add: ev_inv_def)
  have "\<nexists>d x. h_clnts s d = Some x \<and> c_fd x = c_fd cl" using fd s by (auto simp: ev_open_fds_def)
  then have none: "table_map (h_fd2clnt s) (c_fd cl) = None"
    using srv_inv_parts(3) [OF inv, of "c_fd cl"] by (metis not_None_eq)
  show ?thesis
  proof (rule insert_client_cases [OF inv none, of "e_ok E (h_tick s)" c])
    assume full: "dime_table_insert (e_ok E (h_tick s)) (h_fd2clnt s) (c_fd cl) c = Some (-1, h_fd2clnt s)"
    have same: "s\<lparr>h_fd2clnt := h_fd2clnt s\<rparr> = s" by simp
    have "srv_inv (err_copy msg s)" for msg using srv_inv_same [OF inv same_err(1)] .
    then have "ev_inv (V\<lparr>v_srv := err_copy msg s, v_stop := True\<rparr>)" for msg
      using V s by (auto simp: ev_inv_def err_copy_def )
    then show ?thesis using ev_inv_fault full same s by (simp add: ev_register_def Let_def)
  next
    fix t
    assume t: "dime_table_insert (e_ok E (h_tick s)) (h_fd2clnt s) (c_fd cl) c = Some (0, t)" "table_inv t"
      "table_map t = (table_map (h_fd2clnt s))(c_fd cl \<mapsto> c)"
    let ?cl = "cl\<lparr>c_sock := (c_sock cl)\<lparr>s_loop := True, s_wwatcher := False\<rparr>\<rparr>"
    have ok: "new_client_ok ?cl" using cl idle
      by (auto simp: new_client_ok_def sock_inv_def watched_def dime_socket_sendlen_def)
    have "srv_inv (set_clnt c ?cl (s\<lparr>h_fd2clnt := t\<rparr>))"
      using add_client_inv [OF inv c ok t(2)] t(3) none by simp
    then show ?thesis
      using V s t(1) by (auto simp: ev_inv_def started_set_clnt looped_set_clnt ev_register_def Let_def)
  qed
qed

lemma ev_server_readable_inv:
  assumes V: "ev_inv V" and a: "ev_answers_ok a V"
  shows "ev_inv (ev_server_readable E a protocol V)"
proof -
  let ?s = "tick (v_srv V)" and ?t = "h_tick (v_srv V)"
  have inv: "srv_inv ?s" using V by (simp add: ev_inv_def)
  have "srv_inv (?s\<lparr>h_err := ''''\<rparr>)" using srv_inv_same [OF inv same_err(1), of "''''"] by (simp add: err_copy_def)
  then have clear: "ev_inv (V\<lparr>v_srv := ?s\<lparr>h_err := ''''\<rparr>, v_stop := b\<rparr>)" for b using V by (simp add: ev_inv_def)
  show ?thesis
  proof (cases "\<not> a_accept a < 0 \<and> e_ok E ?t 0 \<and> (\<exists>cl. dime_client_init (\<lambda>i. e_ok E ?t (Suc i)) (a_accept a) (a_stack a) (a_peer a) = Client_Ready cl)")
    case False
    then show ?thesis using clear V by (auto simp: ev_server_readable_def Let_def split: client_init.split)
  next
    case True
    then obtain cl where init: "dime_client_init (\<lambda>i. e_ok E ?t (Suc i)) (a_accept a) (a_stack a) (a_peer a) = Client_Ready cl" by auto
    have range: "0 \<le> a_accept a" "a_accept a < 2 ^ 31" "a_accept a \<notin> ev_open_fds V" using True a by (auto simp: ev_answers_ok_def)
    note i = client_init_idle [OF init range(1,2)]
    let ?c = "h_next ?s"
    let ?W = "V\<lparr>v_srv := ?s\<lparr>h_next := Suc ?c\<rparr>\<rparr>"
    have W: "ev_inv ?W" using V srv_inv_next [OF inv] by (simp add: ev_inv_def)
    have reg: "ev_inv (ev_register E ?c (cl\<lparr>c_sock := sock\<rparr>) ?W)" if "sock_inv sock" "dime_socket_sendlen sock = 0" for sock
      by (rule ev_register_inv [OF W refl])
        (use i that range(3) srv_inv_parts(11) [OF inv] in \<open>auto simp: new_client_ok_def ev_open_fds_def\<close>)
    have ws: "sock_inv sock \<and> dime_socket_sendlen sock = 0" if "dime_socket_init_ws n X (c_sock cl) = Ws_Return rc sock sent" "0 \<le> rc" for n X rc sock sent
      using ws_outcome_inv [OF that(1) _ that(2)] ws_outcome_out [OF that(1)] i(1,3) by (simp add: new_client_ok_def dime_socket_sendlen_def)
    have "ev_inv (ev_register E ?c (cl\<lparr>c_sock := c_sock cl\<rparr>) ?W)" by (rule reg) (use i(1,3) in \<open>simp_all add: new_client_ok_def\<close>)
    then show ?thesis
      using True init W reg ws ev_inv_fault [OF W]
      by (auto simp: ev_server_readable_def Let_def split: ws_outcome.split)
  qed
qed

lemma ev_reachable_inv:
  assumes env: "env_ok E"
  shows "ev_reachable E V \<Longrightarrow> ev_inv V"
proof (induction rule: ev_reachable.induct)
  case (start ok L has_loop msg ls fds V)
  then show ?case using server_init_ok [OF start(1)]
    by (auto simp: ev_inv_def ev_start_def Let_def started_def looped_def split: if_splits)
next
  case (step V V')
  show ?case
    using step(2)
  proof cases
    case (connection protocol a)
    then show ?thesis using ev_server_readable_inv step(3) by blast
  next
    case (readable c a fuel hup)
    then show ?thesis using ev_client_readable_inv [OF env step(3)] by blast
  next
    case (writable c a hup)
    then show ?thesis using ev_client_writable_inv step(3) by blast
  qed
qed

text \<open>
  C17. In the libev build, after any sequence of events: the clients with a read watcher are exactly
  those in memory, no write watcher belongs to a client that has been freed, and every client whose
  out-buffer is not empty has its write watcher started, so no output is forgotten; the tables, the
  clients and the groups agree with each other as in the select loop.
\<close>

theorem ev_reachable_invariant:
  assumes "env_ok E" and "ev_reachable E V" and "s = v_srv V"
  shows "srv_inv s \<and> v_reading V = dom (h_clnts s) \<and> v_writing V \<subseteq> dom (h_clnts s) \<and>
    (\<forall>c cl. h_clnts s c = Some cl \<and> 0 < dime_socket_sendlen (c_sock cl) \<longrightarrow> c \<in> v_writing V)"
proof -
  note V = ev_reachable_inv [OF assms(1,2), unfolded ev_inv_def, folded assms(3)]
  have "c \<in> v_writing V" if "h_clnts s c = Some cl" "0 < dime_socket_sendlen (c_sock cl)" for c cl
  proof -
    have "s_wwatcher (c_sock cl)"
      using srv_inv_parts(8) [of s c cl] V that
      by (auto simp: sock_inv_def watched_def looped_def dime_socket_sendlen_def)
    then show ?thesis using V that(1) by (auto simp: started_def)
  qed
  then show ?thesis using V by blast
qed

text \<open>A server that listens on descriptor 4 accepts a client on 5.\<close>

lemma ev_accepted:
  obtains V c cl where "ev_reachable demo_env V" and "h_clnts (v_srv V) = [c \<mapsto> cl]"
proof -
  obtain L0 where L0: "dime_server_init (\<lambda>_. True) = Some L0" using server_init_succeeds by auto
  note i = server_init_ok [OF L0]
  let ?V = "snd (ev_start True ''EIO'' (\<lambda>_. True) (L0\<lparr>l_fds := [(4, DIME_TCP)]\<rparr>))" and ?a = accept_answers
  let ?s = "tick (v_srv ?V)" and ?E = demo_env
  let ?u = "?s\<lparr>h_next := Suc (h_next ?s)\<rparr>"
  have V: "ev_reachable ?E ?V" 
    by (rule ev_reachable.start [OF L0, of True "''EIO''" "\<lambda>_. True" "[(4, DIME_TCP)]"]) (simp add: ev_start_def)
  have h: "h_clnts (v_srv ?V) = Map.empty" using i(3) by (simp add: ev_start_def)
  have u: "srv_inv ?u" by (rule srv_inv_next) (use i(1) in \<open>simp add: ev_start_def\<close>)
  obtain cl where cl: "dime_client_init (\<lambda>i. e_ok ?E (h_tick (v_srv ?V)) (Suc i)) 5 [] Sock_Unix = Client_Ready cl"
    using client_init_succeeds [of "\<lambda>i. e_ok ?E (h_tick (v_srv ?V)) (Suc i)" "[]" Sock_Unix 5] demo_env(3)
    by (auto simp: client_addr_def)
  have fd: "c_fd cl = 5" using dime_client_init_ok [OF cl] by simp
  have "table_map (h_fd2clnt ?u) 5 \<noteq> Some d" for d using srv_inv_parts(3) [OF u, of 5 d] h by simp
  then have none: "table_map (h_fd2clnt ?u) 5 = None" by (cases "table_map (h_fd2clnt ?u) 5") simp_all
  obtain t where t: "dime_table_insert (e_ok ?E (h_tick ?u)) (h_fd2clnt ?u) 5 (h_next ?s) = Some (0, t)"
    by (rule insert_client_cases [OF u none, of "e_ok ?E (h_tick ?u)" "h_next ?s"]) (use demo_env(3) in auto)
  have "h_clnts (v_srv (ev_server_readable ?E ?a DIME_TCP ?V)) =
      [h_next ?s \<mapsto> cl\<lparr>c_sock := (c_sock cl)\<lparr>s_loop := True, s_wwatcher := False\<rparr>\<rparr>]"
    using cl t fd h by (simp add: ev_server_readable_def ev_register_def accept_answers_def Let_def demo_env(3) ev_start_def)
  moreover have "ev_step ?E ?V (ev_server_readable ?E ?a DIME_TCP ?V)"
    by (rule ev_step.connection) (use h in \<open>simp_all add: ev_start_def ev_answers_ok_def accept_answers_def ev_open_fds_def\<close>)
  ultimately show thesis using ev_reachable.step [OF V] that by blast
qed

theorem ev_reachable_invariant_witness:
  "\<exists>V c. ev_reachable demo_env V \<and> v_reading V = {c} \<and> v_writing V \<subseteq> {c}"
proof -
  obtain V c cl where V: "ev_reachable demo_env V" "h_clnts (v_srv V) = [c \<mapsto> cl]" by (rule ev_accepted)
  then show ?thesis using ev_reachable_invariant [OF demo_env(1) V(1) refl] by auto
qed

section \<open>Malformed input\<close>

text \<open>Parsing a message without the magic bytes changes only the error text of the socket.\<close>

lemma garbage_pop:
  assumes "sock_inv k" and "s_ws k = None" and "12 \<le> length (recv_bytes k)" and "take 4 (recv_bytes k) \<noteq> DIME_MAGIC"
  shows "\<exists>k'. dime_socket_pop loadb strerror ok k = Some (Pop_Error, k') \<and> sock_inv k' \<and> s_ws k' = None \<and>
    recv_bytes k' = recv_bytes k"
  using assms parse_eq [OF assms(1), of loadb strerror ok]
  by (auto simp: dime_socket_pop_def set_err_def sock_inv_def)

text \<open>
  C33. In the libev build, when a client without WebSocket has sent at least twelve bytes that do not
  begin with the four magic bytes, \<^verbatim>\<open>ev_client_readable\<close> never returns: \<^verbatim>\<open>ev_unloop\<close> only asks the
  loop of libev to stop, the bytes stay in the buffer, and the inner loop pops them again and again.
  No amount of fuel is enough.
\<close>

theorem ev_error_hangs:
  assumes "h_clnts s c = Some cl" and "sock_inv (c_sock cl)" and "s_ws (c_sock cl) = None"
    and "12 \<le> length (recv_bytes (c_sock cl))" and "take 4 (recv_bytes (c_sock cl)) \<noteq> DIME_MAGIC"
  shows "ev_message_loop n E c stop s = None"
  using assms
proof (induction n arbitrary: s cl stop)
  case 0
  then show ?case by simp
next
  case (Suc n)
  obtain k where k: "dime_socket_pop (e_loadb E) (e_errno E (h_tick s)) (e_ok E (h_tick s)) (c_sock cl) = Some (Pop_Error, k)"
      "sock_inv k" "s_ws k = None" "recv_bytes k = recv_bytes (c_sock cl)"
    using garbage_pop [OF Suc.prems(2-5)] by blast
  have "ev_message_loop n E c True (err_copy msg (tick (set_clnt c (cl\<lparr>c_sock := k\<rparr>) s))) = None" for msg
    by (rule Suc.IH [of _ "cl\<lparr>c_sock := k\<rparr>"]) (use Suc.prems(4,5) k in \<open>simp_all add: err_copy_def\<close>)
  then show ?case using Suc.prems(1) k(1) by (simp add: Let_def)
qed

theorem ev_error_hangs_witness:
  "\<forall>n. ev_message_loop n demo_env 0 False
     (set_clnt 0 (demo_client0\<lparr>c_sock := demo_sock\<lparr>s_rbuf := holding (replicate 12 0)\<rparr>\<rparr>) (demo_srv [] False)) = None"
proof -
  have k: "sock_inv (demo_sock\<lparr>s_rbuf := holding (replicate 12 0)\<rparr>)"
    "recv_bytes (demo_sock\<lparr>s_rbuf := holding (replicate 12 0)\<rparr>) = replicate 12 0"
    using demo_recv [of "replicate 12 0"] by (simp_all add: ALLOC_MAX_def)
  have "hd (take 4 (replicate 12 0)) \<noteq> hd DIME_MAGIC" by (simp add: DIME_MAGIC_def)
  then have magic: "take 4 (replicate 12 0) \<noteq> DIME_MAGIC" by metis
  show ?thesis
    by (intro allI, rule ev_error_hangs [of _ 0 "demo_client0\<lparr>c_sock := demo_sock\<lparr>s_rbuf := holding (replicate 12 0)\<rparr>\<rparr>"])
      (use k demo_sock(4) magic in simp_all)
qed

end
