(* ===== verification/Relay.thy ===== *)
theory Relay
  imports Client_Success
begin

text \<open>
  What the server promises, without its data structures: a relay that knows who is in which group, has an
  inbox of messages for every client, and knows who waits.  Every message that a client sends makes the
  step of the relay for its command, sender and data, except a \<^verbatim>\<open>send\<close> or \<^verbatim>\<open>broadcast\<close> that fails while one of its
  recipients waits.  Which requests succeed is part of the specification: \<open>granted\<close> and \<open>plenty\<close>.
\<close>

section \<open>The relay\<close>

type_synonym payload = "byte list \<times> byte list"

record relay =
  r_members :: "(addr \<times> string) set"
  r_inbox :: "addr \<Rightarrow> payload list"
  r_waiting :: "addr \<Rightarrow> bool"

text \<open>A message arrives at the clients in \<open>D\<close>, which no longer wait.\<close>

definition post :: "addr set \<Rightarrow> payload \<Rightarrow> relay \<Rightarrow> relay" where
  "post D p R = R\<lparr>r_inbox := \<lambda>d. if d \<in> D then r_inbox R d @ [p] else r_inbox R d,
     r_waiting := \<lambda>d. r_waiting R d \<and> d \<notin> D\<rparr>"

definition command_of :: "'j env \<Rightarrow> 'j \<Rightarrow> string" where
  "command_of E j = (case e_unpack_s E j ''command'' of Inl msg \<Rightarrow> '''' | Inr cmd \<Rightarrow> cmd)"

text \<open>The message that carries the JSON value \<open>j\<close> and the data \<open>bin\<close>.\<close>

definition carries :: "'j env \<Rightarrow> 'j \<Rightarrow> byte list \<Rightarrow> payload \<Rightarrow> bool" where
  "carries E j bin p \<longleftrightarrow> (\<exists>t. e_dumps E t j = Some (fst p)) \<and> snd p = bin"

text \<open>
  The step that a message of client \<open>c\<close> makes; \<open>ok\<close> says whether the command succeeds.  A command that
  fails has still done the first part of its work: joined or left the first groups, reached some of
  the recipients, fetched the first messages.
\<close>

inductive relay_step :: "'j env \<Rightarrow> addr \<Rightarrow> 'j \<Rightarrow> byte list \<Rightarrow> bool \<Rightarrow> addr set \<Rightarrow> relay \<Rightarrow> relay \<Rightarrow> bool"
  for E :: "'j env" and c :: addr and j :: 'j and bin :: "byte list" and ok :: bool and all :: "addr set" and R :: relay
where
  join: "\<lbrakk>command_of E j = ''join''; requested E j = map Some names @ rest; ok \<longrightarrow> rest = [];
    {c} \<times> set names \<inter> r_members R = {}\<rbrakk> \<Longrightarrow>
    relay_step E c j bin ok all R (R\<lparr>r_members := r_members R \<union> {c} \<times> set names\<rparr>)"
| leave: "\<lbrakk>command_of E j = ''leave''; requested E j = map Some names @ rest; ok \<longrightarrow> rest = [];
    {c} \<times> set names \<subseteq> r_members R\<rbrakk> \<Longrightarrow>
    relay_step E c j bin ok all R (R\<lparr>r_members := r_members R - {c} \<times> set names\<rparr>)"
| send: "\<lbrakk>command_of E j = ''send''; e_unpack_s E j ''name'' = Inr name; D \<subseteq> {d. (d, name) \<in> r_members R};
    D \<noteq> {}; ok \<longrightarrow> D = {d. (d, name) \<in> r_members R}; carries E j bin p\<rbrakk> \<Longrightarrow>
    relay_step E c j bin ok all R (post D p R)"
| broadcast: "\<lbrakk>command_of E j = ''broadcast''; D \<subseteq> all - {c}; ok \<longrightarrow> D = all - {c}; carries E j bin p\<rbrakk> \<Longrightarrow>
    relay_step E c j bin ok all R (post D p R)"
| sync: "\<lbrakk>command_of E j = ''sync''; e_unpack_I E j ''n'' = Some n; k \<le> min (sync_limit n) (length (r_inbox R c));
    ok \<longrightarrow> k = min (sync_limit n) (length (r_inbox R c))\<rbrakk> \<Longrightarrow>
    relay_step E c j bin ok all R (R\<lparr>r_inbox := (r_inbox R)(c := drop k (r_inbox R c))\<rparr>)"
| wait: "\<lbrakk>command_of E j = ''wait''; ok; r_inbox R c = []\<rbrakk> \<Longrightarrow>
    relay_step E c j bin ok all R (R\<lparr>r_waiting := (r_waiting R)(c := True)\<rparr>)"
| wait_told: "\<lbrakk>command_of E j = ''wait''; r_inbox R c \<noteq> []\<rbrakk> \<Longrightarrow> relay_step E c j bin ok all R R"
| failure: "\<not> ok \<Longrightarrow> relay_step E c j bin ok all R R"
| other: "command_of E j \<in> {''devices'', ''handshake''} \<Longrightarrow> relay_step E c j bin ok all R R"

text \<open>
  The requests that make sense, command by command: the ones that must be granted unless the resources
  of the server run out.
\<close>

definition granted :: "'j env \<Rightarrow> addr \<Rightarrow> 'j \<Rightarrow> relay \<Rightarrow> bool" where
  "granted E c j R \<longleftrightarrow>
     (let cmd = command_of E j
      in if cmd = ''join'' then
           (\<exists>arr names. e_unpack_o E j ''name'' = Inr arr \<and> requested E j = map Some names \<and> distinct names \<and>
              {c} \<times> set names \<inter> r_members R = {})
         else if cmd = ''leave'' then
           (\<exists>arr names. e_unpack_o E j ''name'' = Inr arr \<and> requested E j = map Some names \<and> distinct names \<and>
              {c} \<times> set names \<subseteq> r_members R)
         else if cmd = ''send'' then (\<exists>name d. e_unpack_s E j ''name'' = Inr name \<and> (d, name) \<in> r_members R)
         else if cmd = ''sync'' then e_unpack_I E j ''n'' \<noteq> None
         else if cmd = ''handshake'' then
           (\<exists>str tls i. e_unpack_sb E j ''serialization'' ''tls'' = Inr (str, tls) \<and> serialization_of str = Some i)
         else cmd \<in> {''broadcast'', ''wait'', ''devices''})"

text \<open>
  Enough of them: memory, room in the buffers and queues of the clients, a table of groups that is far from
  its limits, messages in the inbox of \<open>c\<close> that fit into its out-buffer; and no TLS, which \<^verbatim>\<open>dime_server_init\<close>
  never sets up.
\<close>

definition plenty :: "'j env \<Rightarrow> addr \<Rightarrow> 'j \<Rightarrow> dime_server \<Rightarrow> bool" where
  "plenty E c j s \<longleftrightarrow> ample E \<and> (\<forall>t. e_array E t \<noteq> None) \<and> (\<forall>t n. e_string E t n \<noteq> None) \<and>
     (\<forall>t a x. e_append E t a x \<noteq> None) \<and> \<not> h_tlsctx s \<and> (\<forall>d \<in> dom (h_clnts s). roomy s d) \<and>
     table_live (h_name2clnt s) \<and> t_len (h_name2clnt s) + length (requested E j) \<le> 2 ^ 40 \<and>
     sum_list (map (\<lambda>m. 10 + length (wire (payload s m))) (queue_of s c)) \<le> 2 ^ 44"

text \<open>What a message of \<open>c\<close> cannot do to the other clients, whatever it is.\<close>

lemma relay_isolation:
  assumes "relay_step E c j bin ok all R R'" and "d \<noteq> c"
  shows "(d, name) \<in> r_members R' \<longleftrightarrow> (d, name) \<in> r_members R"
    and "r_inbox R' d = r_inbox R d \<or> (\<exists>p. carries E j bin p \<and> r_inbox R' d = r_inbox R d @ [p])"
    and "r_waiting R' d \<Longrightarrow> r_waiting R d"
  using assms by (cases; auto simp: post_def)+

section \<open>The relay of a server\<close>

definition relay_of :: "dime_server \<Rightarrow> relay" where
  "relay_of s = \<lparr>r_members = membership s, r_inbox = \<lambda>c. map (payload s) (queue_of s c), r_waiting = waiting_of s\<rparr>"

lemma payload_same: "h_msgs s' = h_msgs s \<Longrightarrow> payload s' = payload s"
  by (simp add: payload_def fun_eq_iff)

lemma relay_same:
  assumes "membership s' = membership s" and "queue_of s' = queue_of s" and "waiting_of s' = waiting_of s"
    and "h_msgs s' = h_msgs s"
  shows "relay_of s' = relay_of s"
  using assms payload_same [OF assms(4)] by (simp add: relay_of_def)

lemma relay_same_socks: "same_but_socks s s' \<Longrightarrow> relay_of s' = relay_of s"
  using same_view [of s s'] membership_same [of s s'] by (intro relay_same) simp_all

lemma refs_same_socks: "same_but_socks s s' \<Longrightarrow> refs_leak X s \<Longrightarrow> refs_leak X s'"
  using same_view [of s s'] by (simp add: refs_leak_def)

text \<open>The mailboxes, which joining and leaving do not touch.\<close>

definition mail :: "dime_server \<Rightarrow> addr \<Rightarrow> (addr dime_deque \<times> bool) option" where
  "mail s c = map_option (\<lambda>cl. (c_queue cl, c_waiting cl)) (h_clnts s c)"

interpretation ml: observation mail
  by unfold_locales
    (auto simp: mail_def tick_def fault_def set_group_def err_copy_def err_cat_def Let_def set_clnt_def fun_eq_iff)

lemma mail_view:
  assumes "mail s' = mail s"
  shows "queue_of s' = queue_of s" and "waiting_of s' = waiting_of s"
proof -
  have m: "map_option (\<lambda>cl. (c_queue cl, c_waiting cl)) (h_clnts s' c) =
      map_option (\<lambda>cl. (c_queue cl, c_waiting cl)) (h_clnts s c)" for c
    using fun_cong [OF assms, of c] by (simp add: mail_def)
  have "queue_of s' c = queue_of s c \<and> waiting_of s' c = waiting_of s c" for c
    using m [of c] by (cases "h_clnts s c"; cases "h_clnts s' c") (simp_all add: queue_of_def waiting_of_def)
  then show "queue_of s' = queue_of s" and "waiting_of s' = waiting_of s" by (simp_all add: fun_eq_iff)
qed

lemma relay_members:
  assumes "mail s' = mail s" and "h_msgs s' = h_msgs s" and "membership s' = M"
  shows "relay_of s' = (relay_of s)\<lparr>r_members := M\<rparr>" and "refs_leak X s \<Longrightarrow> refs_leak X s'"
  using mail_view [OF assms(1)] payload_same [OF assms(2)] assms(2,3) by (simp_all add: relay_of_def refs_leak_def)

section \<open>Each command\<close>

lemma queued_exists:
  assumes "refs_leak X s" and "x \<in> set (queue_of s d)"
  shows "h_msgs s x \<noteq> None"
proof
  assume "h_msgs s x = None"
  then have "holders (queue_of s) x = {}" using refs_uptoD(2) [of X "{}" "queue_of s" "h_msgs s" x] assms(1) by (simp add: refs_leak_def)
  then show False using assms(2) by (auto simp: holders_def)
qed

lemma relay_post:
  assumes refs: "refs_leak X s" and m: "h_msgs s m = None" and q: "queue_of s' = queues_with m D (queue_of s)"
    and w: "waiting_of s' = (\<lambda>x. waiting_of s x \<and> x \<notin> D)" and same: "\<forall>x. x \<noteq> m \<longrightarrow> h_msgs s' x = h_msgs s x"
    and new: "D \<noteq> {} \<longrightarrow> payload s' m = p" and mem: "membership s' = membership s"
  shows "relay_of s' = post D p (relay_of s)"
proof -
  have "payload s' x = payload s x" if "x \<in> set (queue_of s d)" for x d
    using same queued_exists [OF refs that] m by (metis payload_def)
  then have old: "map (payload s') (queue_of s d) = map (payload s) (queue_of s d)" for d by simp
  have "map (payload s') (queue_of s' d) = (if d \<in> D then map (payload s) (queue_of s d) @ [p] else map (payload s) (queue_of s d))" for d
    using new old [of d] unfolding q queues_with_def by auto
  then show ?thesis using w mem by (simp add: relay_of_def post_def fun_eq_iff)
qed

lemma relay_delivered:
  assumes "refs_leak X s" and "delivered_to E D j bin s s'" and "membership s' = membership s"
  shows "\<exists>p. carries E j bin p \<and> relay_of s' = post D p (relay_of s)"
proof -
  obtain m t str where m: "e_dumps E t j = Some str" "h_msgs s m = None"
    "queue_of s' = queues_with m D (queue_of s)" "waiting_of s' = (\<lambda>x. waiting_of s x \<and> x \<notin> D)"
    "h_msgs s' = (if D = {} then h_msgs s
       else (h_msgs s)(m \<mapsto> \<lparr>m_refs = of_nat (card D), m_jsondata = str, m_bindata = bin\<rparr>))"
    using assms(2) unfolding delivered_to_def by blast
  have "relay_of s' = post D (str, bin) (relay_of s)"
    by (rule relay_post [OF assms(1) m(2-4) _ _ assms(3)]) (use m(5) in \<open>simp_all add: payload_def\<close>)
  moreover have "carries E j bin (str, bin)" using m(1) by (auto simp: carries_def)
  ultimately show ?thesis by blast
qed

lemma relay_partly:
  assumes refs: "refs_leak X s" "refs_leak X s'" and sent: "sent_partly E D j bin s s'" and idle: "\<forall>d \<in> D. \<not> waiting_of s d"
    and mem: "membership s' = membership s"
  shows "relay_of s' = relay_of s \<or> (\<exists>D' p. D' \<subseteq> D \<and> D' \<noteq> {} \<and> carries E j bin p \<and> relay_of s' = post D' p (relay_of s))"
proof -
  obtain D' m t where m: "D' \<subseteq> D" "h_msgs s m = None" "queue_of s' = queues_with m D' (queue_of s)"
    "\<forall>x. x \<noteq> m \<longrightarrow> h_msgs s' x = h_msgs s x"
    "\<forall>msg. h_msgs s' m = Some msg \<longrightarrow> e_dumps E t j = Some (m_jsondata msg) \<and> m_bindata msg = bin"
    "waiting_of s' = waiting_of s"
    using sent unfolding sent_partly_def by blast
  have w: "waiting_of s' = (\<lambda>x. waiting_of s x \<and> x \<notin> D')" using m(1,6) idle by (auto simp: fun_eq_iff)
  have p: "relay_of s' = post D' (payload s' m) (relay_of s)"
    by (rule relay_post [OF refs(1) m(2,3) w m(4) _ mem]) simp
  show ?thesis
  proof (cases "D' = {}")
    case True
    then have "relay_of s' = relay_of s" using p by (simp add: post_def)
    then show ?thesis ..
  next
    case False
    then obtain d where "d \<in> D'" by blast
    then have "m \<in> set (queue_of s' d)" unfolding m(3) by (simp add: queues_with_def)
    then obtain msg where "h_msgs s' m = Some msg" using queued_exists [OF refs(2)] by blast
    then have "carries E j bin (payload s' m)" using m(5) by (auto simp: carries_def payload_def)
    then show ?thesis using p m(1) False by blast
  qed
qed

text \<open>Fetching: what the remaining messages say does not change.\<close>

definition data_kept :: "dime_server \<Rightarrow> dime_server \<Rightarrow> bool" where
  "data_kept s s' \<longleftrightarrow> (\<forall>x. h_msgs s' x \<noteq> None \<longrightarrow> h_msgs s x \<noteq> None \<and> payload s' x = payload s x)"

lemma data_kept_trans: "data_kept s s' \<Longrightarrow> data_kept s' s'' \<Longrightarrow> data_kept s s''"
  unfolding data_kept_def by metis

lemma data_kept_same: "h_msgs s' = h_msgs s \<Longrightarrow> data_kept s s'"
  using payload_same [of s' s] by (simp add: data_kept_def)

lemma data_kept_release: "data_kept s (free_if_unused m (add_refs d m s))"
  by (auto simp: data_kept_def free_if_unused_def add_refs_def payload_def fault_def split: option.split)

text \<open>The messages are another thing that pushing and reporting leave alone.\<close>

interpretation msg: observation h_msgs
  by unfold_locales (simp_all add: tick_def fault_def set_group_def err_copy_def err_cat_def Let_def set_clnt_def)

lemma sync_loop_data: "data_kept s (snd (sync_loop E c n s))"
proof (induction n arbitrary: s)
  case 0
  then show ?case by (simp add: data_kept_same)
next
  case (Suc n)
  have push: "data_kept s s1" if "clnt_push_str E c str bin (set_clnt c cl s) = (rc, s1)" for str bin cl rc s1
    using msg.obs_push(2) [of E c str bin "set_clnt c cl s"] that by (intro data_kept_same) simp
  have go: "data_kept s (snd (sync_loop E c n (free_if_unused m (add_refs (-1) m s1))))"
    if "clnt_push_str E c str bin (set_clnt c cl s) = (rc, s1)" for str bin cl rc s1 m
    by (rule data_kept_trans [OF data_kept_trans [OF push [OF that] data_kept_release] Suc.IH])
  have stop: "data_kept s (fault s1)" "data_kept s (tick (set_clnt c cl' s1))"
    if "clnt_push_str E c str bin (set_clnt c cl s) = (rc, s1)" for str bin cl rc s1 cl'
    using data_kept_trans [OF push [OF that] data_kept_same] by (simp_all add: fault_def)
  have "data_kept s (fault s)" "data_kept s s" "data_kept s (fault (set_clnt c cl s))" for cl
    by (simp_all add: data_kept_same fault_def)
  then show ?case using go stop by (simp add: Let_def split: option.split prod.split)
qed

lemma sync_data: "data_kept s (snd (dime_client_sync E c j s))"
proof -
  have "data_kept s (snd (reply_ok E c (snd (sync_loop E c n s))))" for n
    by (rule data_kept_trans [OF sync_loop_data data_kept_same [OF msg.obs_fail(5)]])
  then show ?thesis using sync_loop_data [of s E c]
    by (simp add: dime_client_sync_def data_kept_same snd_case_bool split: option.split)
qed

lemma relay_fetch:
  assumes refs: "refs_leak X s" "refs_leak X s'" and data: "data_kept s s'" and q: "queue_of s' = (queue_of s)(c := drop k (queue_of s c))"
    and same: "waiting_of s' = waiting_of s" "membership s' = membership s"
  shows "relay_of s' = (relay_of s)\<lparr>r_inbox := (r_inbox (relay_of s))(c := drop k (r_inbox (relay_of s) c))\<rparr>"
proof -
  have "map (payload s') (queue_of s' d) = map (payload s) (queue_of s' d)" for d
    using data queued_exists [OF refs(2)] by (auto simp: data_kept_def)
  then have "(\<lambda>d. map (payload s') (queue_of s' d)) = (\<lambda>d. map (payload s) (queue_of s' d))" by (rule ext)
  then have "relay_of s' = (relay_of s)\<lparr>r_inbox := \<lambda>d. map (payload s) (queue_of s' d)\<rparr>"
    using same by (simp add: relay_of_def)
  moreover have "(\<lambda>d. map (payload s) (queue_of s' d)) =
      (r_inbox (relay_of s))(c := drop k (r_inbox (relay_of s) c))"
    unfolding q by (auto simp: relay_of_def fun_eq_iff drop_map)
  ultimately show ?thesis by simp
qed

text \<open>The hypotheses that the lemmas on the commands share, and what they conclude.\<close>

definition relayed :: "(addr \<Rightarrow> nat) \<Rightarrow> 'j env \<Rightarrow> addr \<Rightarrow> 'j \<Rightarrow> byte list \<Rightarrow> dime_server \<Rightarrow> int \<times> dime_server \<Rightarrow> bool" where
  "relayed X E c j bin s r \<longleftrightarrow>
     relay_step E c j bin (fst r = 0) (dom (h_clnts s)) (relay_of s) (relay_of (snd r)) \<and> refs_leak X (snd r)"

lemma relayed_nothing:
  assumes "refs_leak X s" and "same_but_socks s s'" and "rc \<noteq> 0 \<or> command_of E j \<in> {''devices'', ''handshake''}"
  shows "relayed X E c j bin s (rc, s')"
  using relay_same_socks [OF assms(2)] refs_same_socks [OF assms(2,1)] assms(3)
  by (auto simp: relayed_def intro: relay_step.failure relay_step.other)

lemma relayed_join:
  assumes env: "env_ok E" and inv: "srv_inv s" and c: "h_clnts s c \<noteq> None" and refs: "refs_leak X s"
    and cmd: "command_of E j = ''join''" and run: "dime_client_join E c j s = (rc, s')"
  shows "relayed X E c j bin s (rc, s')"
proof -
  obtain names rest where h: "requested E j = map Some names @ rest" "rc = 0 \<longrightarrow> rest = []"
    "{c} \<times> set names \<inter> membership s = {}" "membership s' = membership s \<union> {c} \<times> set names" "h_msgs s' = h_msgs s"
    using dime_client_join_ok [OF env inv c run] by blast
  have mail: "mail s' = mail s" using ml.obs_join [of E c j s] run by simp
  note m = relay_members [OF mail h(5,4)]
  have "relay_step E c j bin (rc = 0) (dom (h_clnts s)) (relay_of s)
      ((relay_of s)\<lparr>r_members := r_members (relay_of s) \<union> {c} \<times> set names\<rparr>)"
    by (rule relay_step.join [OF cmd h(1,2)]) (use h(3) in \<open>simp add: relay_of_def\<close>)
  then show ?thesis using m refs by (simp add: relayed_def relay_of_def)
qed

lemma relayed_leave:
  assumes env: "env_ok E" and inv: "srv_inv s" and c: "h_clnts s c \<noteq> None" and refs: "refs_leak X s"
    and cmd: "command_of E j = ''leave''" and run: "dime_client_leave E c j s = (rc, s')"
  shows "relayed X E c j bin s (rc, s')"
proof -
  obtain names rest where h: "requested E j = map Some names @ rest" "rc = 0 \<longrightarrow> rest = []"
    "{c} \<times> set names \<subseteq> membership s" "membership s' = membership s - {c} \<times> set names" "h_msgs s' = h_msgs s"
    using dime_client_leave_ok [OF env inv c run] by blast
  have mail: "mail s' = mail s" using ml.obs_leave [of E c j s] run by simp
  note m = relay_members [OF mail h(5,4)]
  have "relay_step E c j bin (rc = 0) (dom (h_clnts s)) (relay_of s)
      ((relay_of s)\<lparr>r_members := r_members (relay_of s) - {c} \<times> set names\<rparr>)"
    by (rule relay_step.leave [OF cmd h(1,2)]) (use h(3) in \<open>simp add: relay_of_def\<close>)
  then show ?thesis using m refs by (simp add: relayed_def relay_of_def)
qed

text \<open>The clients that a message is for.\<close>

definition recipients :: "'j env \<Rightarrow> addr \<Rightarrow> 'j \<Rightarrow> dime_server \<Rightarrow> addr set" where
  "recipients E c j s =
     (if command_of E j = ''send'' then {d. \<exists>name. e_unpack_s E j ''name'' = Inr name \<and> (d, name) \<in> membership s}
      else if command_of E j = ''broadcast'' then dom (h_clnts s) - {c} else {})"

text \<open>Sending, from what \<open>send_result\<close> says; \<open>step\<close> is the rule of the relay for the command.\<close>

lemma relayed_sent:
  assumes res: "send_result X E D j bin c s rc s'" and refs: "refs_leak X s" and ok: "rc = 0 \<or> (\<forall>d \<in> D. \<not> waiting_of s d)"
    and step: "\<And>D' p. D' \<subseteq> D \<Longrightarrow> rc \<noteq> 0 \<longrightarrow> D' \<noteq> {} \<Longrightarrow> rc = 0 \<longrightarrow> D' = D \<Longrightarrow> carries E j bin p \<Longrightarrow>
      relay_step E c j bin (rc = 0) (dom (h_clnts s)) (relay_of s) (post D' p (relay_of s))"
  shows "relayed X E c j bin s (rc, s')"
proof (cases "rc = 0")
  case True
  then have r: "refs_leak X s'" "delivered_to E D j bin s s'" "membership s' = membership s"
    using res by (simp_all add: send_result_def kept_def)
  obtain p where "carries E j bin p" "relay_of s' = post D p (relay_of s)"
    using relay_delivered [OF refs r(2,3)] by blast
  then show ?thesis using step [of D p] r(1) True by (simp add: relayed_def)
next
  case False
  then have idle: "\<forall>d \<in> D. \<not> waiting_of s d" using ok by simp
  then have r: "refs_leak X s'" "sent_partly E D j bin s s'" "membership s' = membership s"
    using res by (simp_all add: send_result_def kept_def)
  from relay_partly [OF refs r(1,2) idle r(3)] show ?thesis
  proof (elim disjE exE conjE)
    assume "relay_of s' = relay_of s"
    then show ?thesis using r(1) False by (simp add: relayed_def relay_step.failure)
  next
    fix D' p
    assume "D' \<subseteq> D" "D' \<noteq> {}" "carries E j bin p" "relay_of s' = post D' p (relay_of s)"
    then show ?thesis using step [of D' p] r(1) False by (simp add: relayed_def)
  qed
qed

lemma relayed_send:
  assumes env: "env_ok E" and inv: "srv_inv s" and c: "h_clnts s c \<noteq> None" and refs: "refs_leak X s"
    and bin: "length bin \<le> ALLOC_MAX" and ok: "rc = 0 \<or> (\<forall>d \<in> recipients E c j s. \<not> waiting_of s d)"
    and cmd: "command_of E j = ''send''" and run: "dime_client_send E c j bin s = (rc, s')"
  shows "relayed X E c j bin s (rc, s')"
proof -
  let ?D = "{d. \<exists>name. e_unpack_s E j ''name'' = Inr name \<and> (d, name) \<in> membership s}"
  have r: "send_result X E ?D j bin c s rc s'" "rc = 0 \<longrightarrow> ?D \<noteq> {}"
    using dime_client_send_ok [OF env inv c refs bin run refl] by simp_all
  have ok': "rc = 0 \<or> (\<forall>d \<in> ?D. \<not> waiting_of s d)" using ok cmd by (simp add: recipients_def)
  show ?thesis
  proof (rule relayed_sent [OF r(1) refs ok'])
    fix D' p
    assume D': "D' \<subseteq> ?D" "rc \<noteq> 0 \<longrightarrow> D' \<noteq> {}" "rc = 0 \<longrightarrow> D' = ?D" and p: "carries E j bin p"
    then have ne: "D' \<noteq> {}" using r(2) by blast
    then obtain name where name: "e_unpack_s E j ''name'' = Inr name" using D'(1) by blast
    have D: "?D = {d. (d, name) \<in> r_members (relay_of s)}" by (simp add: name relay_of_def)
    show "relay_step E c j bin (rc = 0) (dom (h_clnts s)) (relay_of s) (post D' p (relay_of s))"
      using relay_step.send [OF cmd name D'(1) [unfolded D] ne D'(3) [unfolded D] p] .
  qed
qed

lemma relayed_broadcast:
  assumes env: "env_ok E" and inv: "srv_inv s" and c: "h_clnts s c \<noteq> None" and refs: "refs_leak X s"
    and bin: "length bin \<le> ALLOC_MAX" and ok: "rc = 0 \<or> (\<forall>d \<in> recipients E c j s. \<not> waiting_of s d)"
    and cmd: "command_of E j = ''broadcast''" and run: "dime_client_broadcast E c j bin s = (rc, s')"
  shows "relayed X E c j bin s (rc, s')"
proof -
  have r: "send_result X E (dom (h_clnts s) - {c}) j bin c s rc s'"
    using dime_client_broadcast_ok [OF env inv c refs bin run] by simp
  have ok': "rc = 0 \<or> (\<forall>d \<in> dom (h_clnts s) - {c}. \<not> waiting_of s d)" using ok cmd by (simp add: recipients_def)
  show ?thesis by (rule relayed_sent [OF r refs ok']) (rule relay_step.broadcast [OF cmd])
qed

lemma relayed_sync:
  assumes env: "env_ok E" and inv: "srv_inv s" and c: "h_clnts s c \<noteq> None" and refs: "refs_leak X s"
    and cmd: "command_of E j = ''sync''" and run: "dime_client_sync E c j s = (rc, s')"
  shows "relayed X E c j bin s (rc, s')"
proof (cases "e_unpack_I E j ''n''")
  case None
  then have "rc = -1" "s' = s" using run by (simp_all add: dime_client_sync_def)
  then show ?thesis using refs by (simp add: relayed_def relay_step.failure)
next
  case (Some n)
  obtain k where k: "took X c k s s'" "k \<le> min (sync_limit n) (length (queue_of s c))"
    "rc = 0 \<longrightarrow> k = min (sync_limit n) (length (queue_of s c))"
    using dime_client_sync_ok [OF env inv c refs Some run] by blast
  have t: "refs_leak X s'" "queue_of s' = (queue_of s)(c := drop k (queue_of s c))" "waiting_of s' = waiting_of s"
    "membership s' = membership s"
    using k(1) links_eq(5) [of s' s] by (simp_all add: took_def)
  have "data_kept s s'" using sync_data [of s E c j] run by simp
  note f = relay_fetch [OF refs t(1) this t(2-4)]
  have "relay_step E c j bin (rc = 0) (dom (h_clnts s)) (relay_of s)
      ((relay_of s)\<lparr>r_inbox := (r_inbox (relay_of s))(c := drop k (r_inbox (relay_of s) c))\<rparr>)"
    by (rule relay_step.sync [OF cmd Some]) (use k in \<open>simp_all add: relay_of_def\<close>)
  then show ?thesis using f t(1) by (simp add: relayed_def)
qed

lemma relayed_wait:
  assumes env: "env_ok E" and inv: "srv_inv s" and c: "h_clnts s c \<noteq> None" and refs: "refs_leak X s"
    and cmd: "command_of E j = ''wait''" and run: "dime_client_wait E c s = (rc, s')"
  shows "relayed X E c j bin s (rc, s')"
proof -
  have h: "queue_of s' = queue_of s" "h_msgs s' = h_msgs s" "links s' = links s"
    "waiting_of s' = (if queue_of s c = [] then (waiting_of s)(c := True) else waiting_of s)"
    "queue_of s c = [] \<longrightarrow> rc = 0"
    using dime_client_wait_ok [OF env inv c run] by simp_all
  have refs': "refs_leak X s'" using refs h(1,2) by (simp add: refs_leak_def)
  show ?thesis
  proof (cases "queue_of s c = []")
    case True
    have "relay_step E c j bin (rc = 0) (dom (h_clnts s)) (relay_of s)
        ((relay_of s)\<lparr>r_waiting := (r_waiting (relay_of s))(c := True)\<rparr>)"
      by (rule relay_step.wait [OF cmd]) (use h(5) True in \<open>simp_all add: relay_of_def\<close>)
    moreover have "relay_of s' = (relay_of s)\<lparr>r_waiting := (r_waiting (relay_of s))(c := True)\<rparr>"
      using h(1,4) payload_same [OF h(2)] links_eq(5) [OF h(3)] True by (simp add: relay_of_def)
    ultimately show ?thesis using refs' by (simp add: relayed_def)
  next
    case False
    have "relay_of s' = relay_of s" by (rule relay_same) (use h links_eq(5) [OF h(3)] False in simp_all)
    moreover have "relay_step E c j bin (rc = 0) (dom (h_clnts s)) (relay_of s) (relay_of s)"
      by (rule relay_step.wait_told [OF cmd]) (use False in \<open>simp add: relay_of_def\<close>)
    ultimately show ?thesis using refs' by (simp add: relayed_def)
  qed
qed

section \<open>Any message\<close>

lemma dispatch_relayed:
  assumes "env_ok E" and "json_arrays E" and "srv_inv s" and "h_clnts s c \<noteq> None" and "refs_leak X s"
    and "length bin \<le> ALLOC_MAX" and "dispatch E c j bin s = (rc, s')"
    and "rc = 0 \<or> (\<forall>d \<in> recipients E c j s. \<not> waiting_of s d)"
  shows "srv_inv s' \<and> relayed X E c j bin s (rc, s')"
proof -
  note h = assms(1,3-5)
  have cmd: "(case e_unpack_s E j ''command'' of Inl msg \<Rightarrow> '''' | Inr cmd \<Rightarrow> cmd) = command_of E j"
    by (simp add: command_of_def)
  note d = assms(7) [unfolded dispatch_def Let_def cmd]
  consider "command_of E j = ''join''" | "command_of E j = ''leave''" | "command_of E j = ''send''"
    | "command_of E j = ''broadcast''" | "command_of E j = ''sync''" | "command_of E j = ''wait''"
    | "command_of E j = ''devices''" | "command_of E j = ''handshake''"
    | "command_of E j \<notin> {''join'', ''leave'', ''send'', ''broadcast'', ''sync'', ''wait'', ''devices'', ''handshake''}"
    by blast
  then have "relayed X E c j bin s (rc, s')"
  proof cases
    case 1
    then show ?thesis using d relayed_join [OF h] by simp
  next
    case 2
    then show ?thesis using d relayed_leave [OF h] by simp
  next
    case 3
    then show ?thesis using d relayed_send [OF h assms(6,8)] by simp
  next
    case 4
    then show ?thesis using d relayed_broadcast [OF h assms(6,8)] by simp
  next
    case 5
    then show ?thesis using d relayed_sync [OF h] by simp
  next
    case 6
    then show ?thesis using d relayed_wait [OF h] by simp
  next
    case 7
    then have "same_but_socks s s'" using d dime_client_devices_ok [OF assms(1-4)] by simp
    then show ?thesis by (rule relayed_nothing [OF assms(5)]) (use 7 in simp)
  next
    case 8
    then have run: "dime_client_handshake E c j s = (rc, s')" using d by simp
    obtain x where same: "same_but_socks (with_serialization x s) s'"
      using dime_client_handshake_ok [OF assms(1,3,4) run] by (elim exE conjE) (rule that)
    have "relay_of (with_serialization x s) = relay_of s" by (rule relay_same) simp_all
    then have "relay_of s' = relay_of s" "refs_leak X s'"
      using relay_same_socks [OF same] refs_same_socks [OF same] assms(5) by simp_all
    then show ?thesis using 8 by (simp add: relayed_def relay_step.other)
  next
    case 9
    then have "s' = fail_text E c ''Unknown command'' s" "rc = -1" using d by auto
    then show ?thesis by (simp add: relayed_nothing [OF assms(5) fail_same(1) [OF assms(1,4)]])
  qed
  moreover have "srv_inv s'" using dispatch_alive [OF assms(1) _ assms(6), where c = c and s = s and j = j] assms(3,4,7)
    by (simp add: alive_def)
  ultimately show ?thesis by blast
qed

section \<open>Success\<close>

text \<open>Only requests that make sense succeed.\<close>

lemma dispatch_granted:
  assumes "env_ok E" and "srv_inv s" and "h_clnts s c \<noteq> None" and "refs_leak X s"
    and "length bin \<le> ALLOC_MAX" and "dispatch E c j bin s = (0, s')"
  shows "granted E c j (relay_of s)"
proof -
  note h = assms(1-3)
  have cmd: "(case e_unpack_s E j ''command'' of Inl msg \<Rightarrow> '''' | Inr cmd \<Rightarrow> cmd) = command_of E j"
    by (simp add: command_of_def)
  note d = assms(6) [unfolded dispatch_def Let_def cmd]
  have m: "r_members (relay_of s) = membership s" by (simp add: relay_of_def)
  consider "command_of E j = ''join''" | "command_of E j = ''leave''" | "command_of E j = ''send''"
    | "command_of E j = ''sync''" | "command_of E j = ''handshake''"
    | "command_of E j \<in> {''broadcast'', ''wait'', ''devices''}"
    | "command_of E j \<notin> {''join'', ''leave'', ''send'', ''broadcast'', ''sync'', ''wait'', ''devices'', ''handshake''}"
    by blast
  then show ?thesis
  proof cases
    case 1
    then have run: "dime_client_join E c j s = (0, s')" using d by simp
    then have "\<exists>arr. e_unpack_o E j ''name'' = Inr arr" by (auto simp: dime_client_join_def split: sum.splits)
    then show ?thesis using dime_client_join_ok [OF h run] 1 by (auto simp: granted_def m)
  next
    case 2
    then have run: "dime_client_leave E c j s = (0, s')" using d by simp
    then have "\<exists>arr. e_unpack_o E j ''name'' = Inr arr" by (auto simp: dime_client_leave_def split: sum.splits)
    then show ?thesis using dime_client_leave_ok [OF h run] 2 by (auto simp: granted_def m)
  next
    case 3
    then have "dime_client_send E c j bin s = (0, s')" using d by simp
    from dime_client_send_ok [OF h assms(4,5) this refl] show ?thesis using 3 by (auto simp: granted_def m)
  next
    case 4
    then have "dime_client_sync E c j s = (0, s')" using d by simp
    then show ?thesis using 4 by (cases "e_unpack_I E j ''n''") (simp_all add: granted_def dime_client_sync_def)
  next
    case 5
    then have "dime_client_handshake E c j s = (0, s')" using d by simp
    from dime_client_handshake_ok [OF h this] show ?thesis using 5 by (auto simp: granted_def)
  next
    case 6
    then show ?thesis by (auto simp: granted_def)
  next
    case 7
    then show ?thesis using d by auto
  qed
qed

text \<open>And with enough resources all of them do.\<close>

lemma dispatch_plenty:
  assumes E: "plenty E c j s" and inv: "srv_inv s" and c: "h_clnts s c \<noteq> None" and refs: "refs_leak X s"
    and bin: "length bin \<le> ALLOC_MAX" and run: "dispatch E c j bin s = (rc, s')" and ok: "granted E c j (relay_of s)"
  shows "rc = 0"
proof -
  have E': "ample E" "\<forall>t. e_array E t \<noteq> None" "\<forall>t n. e_string E t n \<noteq> None" "\<forall>t a x. e_append E t a x \<noteq> None"
    "\<not> h_tlsctx s" "\<forall>d \<in> dom (h_clnts s). roomy s d" "table_live (h_name2clnt s)"
    "t_len (h_name2clnt s) + length (requested E j) \<le> 2 ^ 40"
    "sum_list (map (\<lambda>m. 10 + length (wire (payload s m))) (queue_of s c)) \<le> 2 ^ 44"
    using E unfolding plenty_def by blast+
  have room: "sent_len s c \<le> 2 ^ 44" and a: "alive c s" using E'(6) c inv by (auto simp: roomy_def alive_def)
  have cmd: "(case e_unpack_s E j ''command'' of Inl msg \<Rightarrow> '''' | Inr cmd \<Rightarrow> cmd) = command_of E j"
    by (simp add: command_of_def)
  note d = run [unfolded dispatch_def Let_def cmd]
  have m: "r_members (relay_of s) = membership s" by (simp add: relay_of_def)
  consider "command_of E j = ''join''" | "command_of E j = ''leave''" | "command_of E j = ''send''"
    | "command_of E j = ''broadcast''" | "command_of E j = ''sync''" | "command_of E j = ''wait''"
    | "command_of E j = ''devices''" | "command_of E j = ''handshake''"
    using ok by (auto simp: granted_def Let_def split: if_splits)
  then show ?thesis
  proof cases
    case 1
    then obtain arr names where n: "e_unpack_o E j ''name'' = Inr arr" "requested E j = map Some names" "distinct names"
      "{c} \<times> set names \<inter> membership s = {}"
      using ok by (auto simp: granted_def m)
    have few: "t_len (h_name2clnt s) + length names \<le> 2 ^ 40" using E'(8) n(2) by simp
    show ?thesis using join_succeeds [OF E'(1) a room n E'(7) few] d 1 by simp
  next
    case 2
    then obtain arr names where n: "e_unpack_o E j ''name'' = Inr arr" "requested E j = map Some names" "distinct names"
      "{c} \<times> set names \<subseteq> membership s"
      using ok by (auto simp: granted_def m)
    show ?thesis using leave_succeeds [OF E'(1) a room n] d 2 by simp
  next
    case 3
    then obtain name x where n: "e_unpack_s E j ''name'' = Inr name" "(x, name) \<in> membership s"
      using ok by (auto simp: granted_def m)
    have "h_clnts s y \<noteq> None" if "(y, name) \<in> membership s" for y
      using that srv_inv_parts(5) [OF inv, of y] by (auto simp: membership_def has_group_def)
    then have "\<forall>y. (y, name) \<in> membership s \<longrightarrow> roomy s y" using E'(6) by blast
    then show ?thesis using send_succeeds(1) [OF E'(1) a room bin refs n] d 3 by simp
  next
    case 4
    then show ?thesis using broadcast_succeeds [OF E'(1) a bin E'(6), of j] d by simp
  next
    case 5
    then obtain n where n: "e_unpack_I E j ''n'' = Some n" using ok by (auto simp: granted_def)
    have "sent_len s c + sum_list (map (\<lambda>m. 10 + length (wire (payload s m))) (queue_of s c)) \<le> 2 ^ 45"
      using room E'(9) by simp
    then show ?thesis using sync_sends [OF E'(1) inv c refs n, of rc s'] d 5 by simp
  next
    case 6
    then show ?thesis using wait_succeeds [OF E'(1) a room] d by simp
  next
    case 7
    then show ?thesis using devices_succeeds [OF E'(1-4) a room] d by simp
  next
    case 8
    then obtain str tls i where n: "e_unpack_sb E j ''serialization'' ''tls'' = Inr (str, tls)" "serialization_of str = Some i"
      using ok by (auto simp: granted_def)
    have room: "\<forall>d \<in> dom (h_clnts s). sent_len s d \<le> 2 ^ 44" using E'(6) by (simp add: roomy_def)
    show ?thesis using handshake_succeeds [OF E'(1) a room E'(5) n] d 8 by simp
  qed
qed

end
