(* ===== verification/Relay_Props.thy ===== *)
theory Relay_Props
  imports Relay Client_Props
begin

text \<open>
  The server is a relay: its commands refine the steps of the specification, and what one client sends
  another one receives.
\<close>

section \<open>Refinement\<close>

inductive_cases relay_stepE: "relay_step E c j bin ok all R R'"

lemma relay_send_ok:
  assumes "relay_step E c j bin True all R R'" and "command_of E j = ''send''" and "e_unpack_s E j ''name'' = Inr name"
  obtains p where "carries E j bin p" and "R' = post {d. (d, name) \<in> r_members R} p R"
  using assms(1)
proof (rule relay_stepE)
  fix name' D p
  assume "e_unpack_s E j ''name'' = Inr name'" and D: "True \<longrightarrow> D = {d. (d, name') \<in> r_members R}"
    and p: "carries E j bin p" and R': "R' = post D p R"
  then have "R' = post {d. (d, name) \<in> r_members R} p R" using assms(3) by simp
  with p show thesis by (rule that)
qed (use assms(2) in simp_all)

text \<open>
  C3. Refinement of the abstract relay.  When a message succeeds, or fails while none of its recipients
  waits, what the server does to groups, queues, messages and waiting clients is
  one step of the relay: \<^verbatim>\<open>join\<close> and \<^verbatim>\<open>leave\<close> change the groups of the sender only, \<^verbatim>\<open>send\<close> and
  \<^verbatim>\<open>broadcast\<close> append one message, which carries what was sent, to the inboxes of the recipients,
  \<^verbatim>\<open>sync\<close> takes the oldest messages from the own inbox, and nothing else changes; a command that
  succeeds has done all of it.  The counts of the messages stay exact.  Only requests that make sense
  (\<open>granted\<close>) succeed, and with enough resources (\<open>plenty\<close>) all of them do.  Excluded is the failure of
  a \<^verbatim>\<open>send\<close> or \<^verbatim>\<open>broadcast\<close> while one of its recipients waits, after which the counts are not exact:
  \<open>untold_recipient_dangles\<close>.
\<close>

theorem relay_refinement:
  assumes "env_ok E" and "json_arrays E" and "srv_inv s" and "h_clnts s c \<noteq> None" and "refs_ok s"
    and "length bin \<le> ALLOC_MAX" and "dispatch E c j bin s = (rc, s')"
    and "rc = 0 \<or> (\<forall>d \<in> recipients E c j s. \<not> waiting_of s d)"
  shows "srv_inv s' \<and> refs_ok s' \<and>
    relay_step E c j bin (rc = 0) (dom (h_clnts s)) (relay_of s) (relay_of s') \<and>
    (rc = 0 \<longrightarrow> granted E c j (relay_of s)) \<and> (plenty E c j s \<and> granted E c j (relay_of s) \<longrightarrow> rc = 0)"
  using dispatch_relayed [OF assms] dispatch_granted [OF assms(1,3-6)] dispatch_plenty [OF _ assms(3-7)] assms(7)
  by (auto simp: relayed_def)

text \<open>Client 0 sends one byte to the group.\<close>

definition greeting :: json where
  "greeting = JObj [(''command'', JStr ''send''), (''name'', JStr ''g'')]"

lemma greeting: "e_unpack_s demo_env greeting ''command'' = Inr ''send''" "e_unpack_s demo_env greeting ''name'' = Inr ''g''"
  by (simp_all add: greeting_def demo_env_def)

lemma greeting_sent:
  obtains s1 where "dime_client_send demo_env 0 greeting [9] demo = (0, s1)"
proof -
  have m: "(1, ''g'') \<in> membership demo" by (simp add: demo_srv_view)
  have "fst (dime_client_send demo_env 0 greeting [9] demo) = 0"
    by (rule send_succeeds [OF demo_env(4) _ _ _ demo(2) greeting(2) m])
      (use demo in \<open>auto simp: alive_def demo_srv_room demo_srv_view ALLOC_MAX_def\<close>)
  then show thesis using that by (metis prod.collapse)
qed

theorem relay_refinement_witness:
  "\<exists>s'. dispatch demo_env 0 greeting [9] demo = (0, s') \<and> refs_ok s' \<and> plenty demo_env 0 greeting demo \<and>
     granted demo_env 0 greeting (relay_of demo) \<and> r_inbox (relay_of s') 1 = [([123, 125], [7]), ([123, 125], [9])]"
proof -
  obtain rc s' where run: "dispatch demo_env 0 greeting [9] demo = (rc, s')" by fastforce
  have bin: "length [9 :: byte] \<le> ALLOC_MAX" by (simp add: ALLOC_MAX_def)
  have ok: "rc = 0 \<or> (\<forall>d \<in> recipients demo_env 0 greeting demo. \<not> waiting_of demo d)" by (simp add: demo_srv_view)
  note r = relay_refinement [OF demo_env(1,2) demo(1,3,2) bin run ok]
  have nm: "h_name2clnt demo = demo_names" "h_tlsctx demo = False" by (simp_all add: demo_srv_def)
  have "requested demo_env greeting = []" by (simp add: requested_def greeting_def demo_env_def)
  then have plenty: "plenty demo_env 0 greeting demo"
    unfolding plenty_def nm using demo_env(4) demo_names(3)
    by (auto simp: demo_srv_view demo_srv_room demo_names_len) (simp_all add: demo_env_def)
  have mem: "(1, ''g'') \<in> r_members (relay_of demo)" by (simp add: relay_of_def demo_srv_view)
  then have granted: "granted demo_env 0 greeting (relay_of demo)"
    by (auto simp: granted_def command_of_def greeting)
  with r plenty have rc: "rc = 0" by blast
  have "payload demo 3 = ([123, 125], [7])" by (simp add: payload_def demo_srv_def)
  then have old: "r_inbox (relay_of demo) 1 = [([123, 125], [7])]" "(1, ''g'') \<in> r_members (relay_of demo)"
    by (simp_all add: relay_of_def demo_srv_view)
  have cmd: "command_of demo_env greeting = ''send''" by (simp add: command_of_def greeting)
  have says: "fst p = [123, 125]" if "carries demo_env greeting bin p" for p bin
    using that by (simp add: carries_def demo_env_def)
  from r rc have "relay_step demo_env 0 greeting [9] True (dom (h_clnts demo)) (relay_of demo) (relay_of s')" by simp
  then obtain p where p: "carries demo_env greeting [9] p"
    "relay_of s' = post {d. (d, ''g'') \<in> r_members (relay_of demo)} p (relay_of demo)"
    by (rule relay_send_ok [OF _ cmd greeting(2)])
  have "p = ([123, 125], [9])" using p(1) says [OF p(1)] by (cases p) (simp add: carries_def)
  then have "r_inbox (relay_of s') 1 = [([123, 125], [7]), ([123, 125], [9])]"
    unfolding p(2) using old by (simp add: post_def)
  then show ?thesis using run r rc plenty granted by blast
qed

section \<open>From sender to recipient\<close>

text \<open>
  C4. End to end through the server: when a client sends to a group and then a member of the group
  synchronizes, both commands succeed, and the member's out-buffer gets what was in its inbox before,
  oldest first, then the JSON text and the binary data that were sent, unchanged, and then the reply;
  the inbox is empty afterwards.
\<close>

theorem send_then_sync:
  assumes "ample E" and "srv_inv s" and "refs_ok s" and "h_clnts s c \<noteq> None" and "sent_len s c \<le> 2 ^ 44"
    and "e_unpack_s E j ''name'' = Inr name" and "(d, name) \<in> membership s"
    and "\<forall>x. (x, name) \<in> membership s \<longrightarrow> roomy s x" and "length bin \<le> 2 ^ 40"
    and "dime_client_send E c j bin s = (rc, s1)"
    and "e_unpack_I E i ''n'' = Some n" and "n < 0"
    and "sum_list (map (\<lambda>p. 10 + length (wire p)) (r_inbox (relay_of s) d)) \<le> 2 ^ 43"
    and "dime_client_sync E d i s1 = (rc', s2)" and "k = sock_of s1 d"
  shows "rc = 0 \<and> rc' = 0 \<and> (\<exists>p. carries E j bin p \<and>
    sent_bytes (sock_of s2 d) = sent_bytes k @ concat (map (framed k) (r_inbox (relay_of s) d)) @
      framed k p @ framed k (STATUS_OK, [])) \<and> r_inbox (relay_of s2) d = []"
proof -
  have env: "env_ok E" by (rule ample_env [OF assms(1)])
  have bin: "length bin \<le> ALLOC_MAX" using assms(9) by (simp add: ALLOC_MAX_def)
  have "alive c s" using assms(2,4) by (simp add: alive_def)
  note go = send_succeeds [OF assms(1) this assms(5) bin assms(3,6-8)]
  then have rc: "rc = 0" and grown: "sent_len s1 d \<le> sent_len s d + 2 ^ 42" using assms(10) go(2) [of d] by simp_all
  let ?D = "{d. \<exists>name. e_unpack_s E j ''name'' = Inr name \<and> (d, name) \<in> membership s}"
  have D: "?D = {d. (d, name) \<in> membership s}" using assms(6) by simp
  have "send_result (\<lambda>_. 0) E ?D j bin c s rc s1"
    using dime_client_send_ok [OF env assms(2,4,3) bin assms(10) refl] by simp
  then have r: "srv_inv s1" "refs_ok s1" "delivered_to E ?D j bin s s1" "membership s1 = membership s"
    using rc by (simp_all add: send_result_def kept_def)
  obtain p where p: "carries E j bin p" "relay_of s1 = post ?D p (relay_of s)"
    using relay_delivered [OF assms(3) r(3,4)] by blast
  have "r_inbox (relay_of s1) d = r_inbox (relay_of s) d @ [p]"
    unfolding p(2) D using assms(7) by (simp add: post_def)
  then have inbox: "map (payload s1) (queue_of s1 d) = r_inbox (relay_of s) d @ [p]"
    by (simp add: relay_of_def)
  obtain t where "e_dumps E t j = Some (fst p)" "snd p = bin" using p(1) by (auto simp: carries_def)
  moreover have "\<exists>str. e_dumps E t j = Some str \<and> length str \<le> 2 ^ 40" using assms(1) unfolding ample_def by blast
  ultimately have "length (wire p) \<le> 12 + 2 ^ 40 + 2 ^ 40" using assms(9) length_wire [of p] by simp
  moreover have "sum_list (map (\<lambda>m. 10 + length (wire (payload s1 m))) (queue_of s1 d)) =
      sum_list (map (\<lambda>p. 10 + length (wire p)) (map (payload s1) (queue_of s1 d)))" by (simp add: comp_def)
  moreover have room: "roomy s d" using assms(7,8) by blast
  ultimately have sum: "sent_len s1 d + sum_list (map (\<lambda>m. 10 + length (wire (payload s1 m))) (queue_of s1 d)) \<le> 2 ^ 45"
    using assms(13) grown unfolding inbox by (simp add: roomy_def)
  have "length (queue_of s1 d) = length (queue_of s d) + 1"
    using arg_cong [OF inbox, of length] by (simp add: relay_of_def)
  then have len: "length (queue_of s1 d) \<le> 2 ^ 43" using room by (simp add: roomy_def)
  have "queue_of s1 d \<noteq> []" using inbox by auto
  then have d: "h_clnts s1 d \<noteq> None" by (cases "h_clnts s1 d") (simp_all add: queue_of_def)
  have all: "length (queue_of s1 d) \<le> sync_limit n" using len assms(12) by (simp add: sync_limit_def ssize_to_size_def)
  note f = sync_sends [OF assms(1) r(1) d r(2) assms(11) sum assms(14)]
  obtain k' where "took (\<lambda>_. 0) d k' s1 s2" "rc' = 0 \<longrightarrow> k' = min (sync_limit n) (length (queue_of s1 d))"
    using dime_client_sync_ok [OF env r(1) d r(2) assms(11,14)] by blast
  then have "queue_of s2 d = []" using f all by (simp add: took_def)
  then have empty: "r_inbox (relay_of s2) d = []" by (simp add: relay_of_def)
  have "map (framed k \<circ> payload s1) (queue_of s1 d) = map (framed k) (r_inbox (relay_of s) d) @ [framed k p]"
    unfolding map_map [symmetric] inbox by simp
  then have out: "sent_bytes (sock_of s2 d) = sent_bytes k @ concat (map (framed k) (r_inbox (relay_of s) d)) @
      framed k p @ framed k (STATUS_OK, [])"
    using f all assms(15) by simp
  show ?thesis
    by (intro conjI exI [of _ p]) (rule rc, rule conjunct1 [OF f], rule p(1), rule out, rule empty)
qed

theorem send_then_sync_witness:
  "\<exists>s1 s2. dime_client_send demo_env 0 greeting [9] demo = (0, s1) \<and>
     dime_client_sync demo_env 1 (JObj [(''n'', JInt (-1))]) s1 = (0, s2) \<and> r_inbox (relay_of s2) 1 = []"
proof -
  let ?i = "JObj [(''n'', JInt (-1))]"
  obtain s1 where s1: "dime_client_send demo_env 0 greeting [9] demo = (0, s1)" by (rule greeting_sent)
  obtain rc s2 where s2: "dime_client_sync demo_env 1 ?i s1 = (rc, s2)" by fastforce
  have n: "e_unpack_I demo_env ?i ''n'' = Some (-1)" by (simp add: demo_env_def)
  have m: "(1, ''g'') \<in> membership demo" by (simp add: demo_srv_view)
  have room: "sent_len demo 0 \<le> 2 ^ 44" "\<forall>x. (x, ''g'') \<in> membership demo \<longrightarrow> roomy demo x" "length [9 :: byte] \<le> 2 ^ 40"
    by (auto simp: demo_srv_room demo_srv_view)
  have "payload demo 3 = ([123, 125], [7])" by (simp add: payload_def demo_srv_def)
  then have sum: "sum_list (map (\<lambda>p. 10 + length (wire p)) (r_inbox (relay_of demo) 1)) \<le> 2 ^ 43"
    by (simp add: relay_of_def demo_srv_view)
  have "rc = 0 \<and> r_inbox (relay_of s2) 1 = []"
    using send_then_sync [OF demo_env(4) demo(1,2,3) room(1) greeting(2) m room(2,3) s1 n _ sum s2 refl] by simp
  then show ?thesis using s1 s2 by simp
qed

end
