(* ===== verification/Matlab_Def.thy ===== *)
theory Matlab_Def
  imports Admin_Def
begin

text \<open>
  The four functions in C through which the MATLAB client reaches the Unix socket of the server:
  \<^verbatim>\<open>client/matlab/sunconnect.c\<close>, \<^verbatim>\<open>sunsend.c\<close>, \<^verbatim>\<open>sunrecv.c\<close> and \<^verbatim>\<open>sunclose.c\<close>.  What the system calls
  answer, and the conversions of the MEX library, are parameters; \<^verbatim>\<open>mexErrMsgTxt\<close> ends the function.
\<close>

section \<open>Arrays and effects\<close>

text \<open>
  An argument: whether its class is \<^verbatim>\<open>mxINT64_CLASS\<close>, its dimensions, the number of bytes of an element,
  and its bytes, in the little-endian order of the machine.
\<close>

record mx_array =
  x_int64 :: bool
  x_rows :: size_t
  x_cols :: size_t
  x_elsz :: size_t
  x_data :: "byte list"

datatype 'a mex = Mex_Return 'a | Mex_Error string

datatype handler = SIG_DFL | SIG_IGN | Handler nat

text \<open>The handler of \<^verbatim>\<open>SIGPIPE\<close>, the bytes that have been sent, and the descriptors opened and closed.\<close>

record mex_state =
  m_sigpipe :: handler
  m_sent :: "byte list"
  m_fds :: "fd_event list"

text \<open>
  \<open>n_send k fd bs\<close> is the result of the \<open>k\<close>-th \<^verbatim>\<open>send\<close>; \<open>n_recv fd n\<close> is what \<^verbatim>\<open>recv\<close> with \<^verbatim>\<open>MSG_WAITALL\<close>
  stores, \<open>None\<close> when it fails; \<open>n_string\<close> is \<^verbatim>\<open>mxArrayToString\<close> and \<open>n_scalar\<close> the result of
  \<^verbatim>\<open>mxGetScalar\<close> as a size.
\<close>

record mex_env =
  n_errno :: string
  n_epipe :: string
  n_socket :: int
  n_connect :: "int \<Rightarrow> sock_addr \<Rightarrow> bool"
  n_send :: "nat \<Rightarrow> int \<Rightarrow> byte list \<Rightarrow> int"
  n_recv :: "int \<Rightarrow> size_t \<Rightarrow> byte list option"
  n_shutdown :: "int \<Rightarrow> bool"
  n_close :: "int \<Rightarrow> bool"
  n_string :: "mx_array \<Rightarrow> string option"
  n_scalar :: "mx_array \<Rightarrow> size_t"

text \<open>The test that an argument is one \<^verbatim>\<open>mxInt64\<close>, and its value as an \<^verbatim>\<open>int\<close>.\<close>

definition mx_is_fd :: "mx_array \<Rightarrow> bool" where
  "mx_is_fd x \<longleftrightarrow> x_int64 x \<and> x_rows x = 1 \<and> x_cols x = 1"

definition mx_fd :: "mx_array \<Rightarrow> int" where
  "mx_fd x = sint (word_of_nat (be_value (rev (take 8 (x_data x)))) :: 32 word)"

definition mx_bytes :: "mx_array \<Rightarrow> byte list" where
  "mx_bytes x = take (sz_mul (sz_mul (x_rows x) (x_cols x)) (x_elsz x)) (x_data x)"

section \<open>The functions\<close>

definition sunconnect :: "mex_env \<Rightarrow> mx_array list \<Rightarrow> mex_state \<Rightarrow> int mex \<times> mex_state" where
  "sunconnect N prhs s =
     (if length prhs \<noteq> 1 then (Mex_Error ''Wrong number of arguments'', s)
      else
        (case n_string N (prhs ! 0) of
           None \<Rightarrow> (Mex_Error ''Invalid argument'', s)
         | Some filename \<Rightarrow>
             (let fd = n_socket N
              in if fd < 0 then (Mex_Error (n_errno N), s)
                 else
                   (let s = s\<lparr>m_fds := m_fds s @ [Fd_Opened fd]\<rparr>
                    in if \<not> n_connect N fd (Addr_Unix (take (SUN_PATH_LEN - 1) filename)) then
                         (Mex_Error (n_errno N), s\<lparr>m_fds := m_fds s @ [Fd_Closed fd]\<rparr>)
                       else (Mex_Return fd, s)))))"

text \<open>The loop of \<^verbatim>\<open>sunsend\<close>, with the handler to restore; \<open>None\<close> when the fuel is used up.\<close>

fun sunsend_loop ::
  "nat \<Rightarrow> mex_env \<Rightarrow> int \<Rightarrow> handler \<Rightarrow> nat \<Rightarrow> byte list \<Rightarrow> mex_state \<Rightarrow> (unit mex \<times> mex_state) option" where
  "sunsend_loop fuel N fd old k [] s = Some (Mex_Return (), s\<lparr>m_sigpipe := old\<rparr>)"
| "sunsend_loop 0 N fd old k (b # bs) s = None"
| "sunsend_loop (Suc fuel) N fd old k (b # bs) s =
     (let m = n_send N k fd (b # bs)
      in if m < 0 then Some (Mex_Error (n_errno N), s\<lparr>m_sigpipe := old\<rparr>)
         else sunsend_loop fuel N fd old (Suc k) (drop (nat m) (b # bs))
                (s\<lparr>m_sent := m_sent s @ take (nat m) (b # bs)\<rparr>))"

definition sunsend :: "nat \<Rightarrow> mex_env \<Rightarrow> mx_array list \<Rightarrow> mex_state \<Rightarrow> (unit mex \<times> mex_state) option" where
  "sunsend fuel N prhs s =
     (if length prhs \<noteq> 2 then Some (Mex_Error ''Wrong number of arguments'', s)
      else if \<not> mx_is_fd (prhs ! 0) then Some (Mex_Error ''Invalid argument'', s)
      else sunsend_loop fuel N (mx_fd (prhs ! 0)) (m_sigpipe s) 0 (mx_bytes (prhs ! 1)) (s\<lparr>m_sigpipe := SIG_IGN\<rparr>))"

definition sunrecv :: "mex_env \<Rightarrow> mx_array list \<Rightarrow> mx_array mex" where
  "sunrecv N prhs =
     (if length prhs \<noteq> 2 then Mex_Error ''Wrong number of arguments''
      else if \<not> mx_is_fd (prhs ! 0) then Mex_Error ''Invalid argument''
      else
        (let n = n_scalar N (prhs ! 1)
         in case n_recv N (mx_fd (prhs ! 0)) n of
              None \<Rightarrow> Mex_Error (n_errno N)
            | Some bs \<Rightarrow>
                if length bs < n then Mex_Error (n_epipe N)
                else Mex_Return \<lparr>x_int64 = False, x_rows = 1, x_cols = n, x_elsz = 1, x_data = bs\<rparr>))"

definition sunclose :: "mex_env \<Rightarrow> mx_array list \<Rightarrow> mex_state \<Rightarrow> unit mex \<times> mex_state" where
  "sunclose N prhs s =
     (if length prhs \<noteq> 1 then (Mex_Error ''Wrong number of arguments'', s)
      else if \<not> mx_is_fd (prhs ! 0) then (Mex_Error ''Invalid argument'', s)
      else
        (let fd = mx_fd (prhs ! 0)
         in if \<not> n_shutdown N fd then (Mex_Error (n_errno N), s)
            else if \<not> n_close N fd then (Mex_Error (n_errno N), s)
            else (Mex_Return (), s\<lparr>m_fds := m_fds s @ [Fd_Closed fd]\<rparr>)))"

end
