(* ===== verification/Matlab_Props.thy ===== *)
theory Matlab_Props
  imports Matlab_Def Socket_Props
begin

text \<open>
  The MATLAB client's access to the socket: everything is sent or the first failure reported, and the
  signal handler is put back in any case; what it sends is what the server receives.
\<close>

section \<open>Sending\<close>

text \<open>What \<^verbatim>\<open>send\<close> on a blocking socket promises: it fails, or takes at least one byte.\<close>

definition sends :: "mex_env \<Rightarrow> bool" where
  "sends N \<longleftrightarrow> (\<forall>k fd bs. bs \<noteq> [] \<longrightarrow> n_send N k fd bs < 0 \<or> 0 < n_send N k fd bs \<and> n_send N k fd bs \<le> int (length bs))"

lemma sunsend_loop_ok:
  assumes N: "sends N"
  shows "length data \<le> fuel \<Longrightarrow>
    (\<exists>out rest r. data = out @ rest \<and>
      sunsend_loop fuel N fd old k data s = Some (r, s\<lparr>m_sigpipe := old, m_sent := m_sent s @ out\<rparr>) \<and>
      (r = Mex_Return () \<and> rest = [] \<or> r = Mex_Error (n_errno N) \<and> rest \<noteq> [] \<and> (\<exists>j. n_send N j fd rest < 0)))"
proof (induction fuel arbitrary: k data s)
  case 0
  then show ?case by simp
next
  case (Suc fuel)
  show ?case
  proof (cases data)
    case Nil
    then show ?thesis by simp
  next
    case (Cons b bs)
    define m where "m = n_send N k fd data"
    show ?thesis
    proof (cases "m < 0")
      case True
      then show ?thesis using Cons by (intro exI [of _ "[]"] exI [of _ data] exI [of _ "Mex_Error (n_errno N)"]) (auto simp: m_def)
    next
      case False
      then have m: "0 < m" using N Cons unfolding sends_def m_def by (metis linorder_less_linear list.distinct(1))
      let ?s = "s\<lparr>m_sent := m_sent s @ take (nat m) data\<rparr>"
      have turn: "sunsend_loop (Suc fuel) N fd old k data s = sunsend_loop fuel N fd old (Suc k) (drop (nat m) data) ?s"
        using False Cons by (simp add: m_def Let_def)
      have "length (drop (nat m) data) \<le> fuel" using Suc.prems m by simp
      from Suc.IH [OF this, of "Suc k" ?s] obtain out rest r where h: "drop (nat m) data = out @ rest"
        "sunsend_loop fuel N fd old (Suc k) (drop (nat m) data) ?s = Some (r, ?s\<lparr>m_sigpipe := old, m_sent := m_sent ?s @ out\<rparr>)"
        "r = Mex_Return () \<and> rest = [] \<or> r = Mex_Error (n_errno N) \<and> rest \<noteq> [] \<and> (\<exists>j. n_send N j fd rest < 0)" by blast
      have "data = (take (nat m) data @ out) @ rest" using h(1) by (metis append.assoc append_take_drop_id)
      then show ?thesis using turn h(2,3) by (intro exI [of _ "take (nat m) data @ out"] exI [of _ rest] exI [of _ r]) simp
    qed
  qed
qed

lemma sunsend_ok:
  assumes "sends N" and "mx_is_fd x" and "length (mx_bytes y) \<le> fuel"
  shows "\<exists>r out rest. sunsend fuel N [x, y] s = Some (r, s\<lparr>m_sent := m_sent s @ out\<rparr>) \<and> mx_bytes y = out @ rest \<and>
    (r = Mex_Return () \<and> rest = [] \<or>
     r = Mex_Error (n_errno N) \<and> rest \<noteq> [] \<and> (\<exists>k. n_send N k (mx_fd x) rest < 0))"
proof -
  let ?s = "s\<lparr>m_sigpipe := SIG_IGN\<rparr>"
  obtain out rest r where h: "mx_bytes y = out @ rest"
    "sunsend_loop fuel N (mx_fd x) (m_sigpipe s) 0 (mx_bytes y) ?s =
      Some (r, ?s\<lparr>m_sigpipe := m_sigpipe s, m_sent := m_sent ?s @ out\<rparr>)"
    "r = Mex_Return () \<and> rest = [] \<or> r = Mex_Error (n_errno N) \<and> rest \<noteq> [] \<and> (\<exists>j. n_send N j (mx_fd x) rest < 0)"
    using sunsend_loop_ok [OF assms(1,3), of "mx_fd x" "m_sigpipe s" 0 ?s] by blast
  have "?s\<lparr>m_sigpipe := m_sigpipe s, m_sent := m_sent ?s @ out\<rparr> = s\<lparr>m_sent := m_sent s @ out\<rparr>" by simp
  then have "sunsend fuel N [x, y] s = Some (r, s\<lparr>m_sent := m_sent s @ out\<rparr>)"
    using h(2) assms(2) by (simp add: sunsend_def)
  then show ?thesis using h(1,3) by blast
qed

text \<open>A socket that takes two bytes at a time, and an \<^verbatim>\<open>mxInt64\<close> with the value 4.\<close>

definition demo_mex :: mex_env where
  "demo_mex = \<lparr>n_errno = ''Broken pipe'', n_epipe = ''Broken pipe'', n_socket = 4, n_connect = \<lambda>_ _. True,
     n_send = \<lambda>k fd bs. min 2 (int (length bs)), n_recv = \<lambda>fd n. Some (replicate n 7), n_shutdown = \<lambda>_. False,
     n_close = \<lambda>_. True, n_string = \<lambda>_. Some ''/tmp/dime.sock'', n_scalar = \<lambda>_. 3\<rparr>"

definition mx_four :: mx_array where
  "mx_four = \<lparr>x_int64 = True, x_rows = 1, x_cols = 1, x_elsz = 8, x_data = [4, 0, 0, 0, 0, 0, 0, 0]\<rparr>"

section \<open>From the client to the server\<close>

text \<open>What the server receives in pieces.\<close>

definition receive_all :: "byte list list \<Rightarrow> dime_socket \<Rightarrow> dime_socket" where
  "receive_all cs b = fold (\<lambda>c b. snd (dime_socket_recvpartial '''' (\<lambda>_. True) (\<lambda>_. Some c) b)) cs b"

lemma receive_all_ok:
  assumes "sock_inv b" and "s_ws b = None" and "s_zlib b = None"
    and "2 * (length (recv_bytes b) + length (concat cs)) \<le> ALLOC_MAX"
  shows "sock_inv (receive_all cs b) \<and> s_ws (receive_all cs b) = None \<and>
    recv_bytes (receive_all cs b) = recv_bytes b @ concat cs"
  using assms
proof (induction cs arbitrary: b)
  case Nil
  then show ?case by (simp add: receive_all_def)
next
  case (Cons c cs)
  have room: "2 * (length (recv_bytes b) + length c) \<le> ALLOC_MAX" using Cons.prems(4) by simp
  obtain b' where b': "dime_socket_recvpartial '''' (\<lambda>_. True) (\<lambda>_. Some c) b = (int (length c), b')" "sock_inv b'"
    "recv_bytes b' = recv_bytes b @ c" "s_ws b' = None" "s_zlib b' = None"
    by (rule recvpartial_ok [OF Cons.prems(1-3) all_ok room])
  have "receive_all (c # cs) b = receive_all cs b'" using b'(1) by (simp add: receive_all_def)
  then show ?case using Cons.IH [OF b'(2,4,5)] b'(3) Cons.prems(4) by simp
qed

text \<open>
  C15. From MATLAB to the server.  \<^verbatim>\<open>sunsend\<close>, called with an array that holds any number of DiME messages,
  ends after at most one \<^verbatim>\<open>send\<close> for each byte, with the handler of \<^verbatim>\<open>SIGPIPE\<close> as before; either it
  reports the error of a \<^verbatim>\<open>send\<close> that failed after a beginning of the array, or everything was sent.  In
  the latter case the socket of the server, in whatever pieces it receives the bytes, pops exactly
  these messages, in order, and nothing is left over.
\<close>

theorem matlab_to_server:
  assumes "sends N" and "mx_is_fd x" and "mx_bytes y = concat (map wire ms)"
    and "\<forall>m \<in> set ms. wire_ok m \<and> json_loadb (fst m) = Inr (f (fst m))"
    and "length (mx_bytes y) \<le> fuel" and "m_sent s = []"
    and "sock_inv b" and "s_ws b = None" and "s_zlib b = None" and "recv_bytes b = []"
    and "2 * length (mx_bytes y) \<le> ALLOC_MAX"
  shows "\<exists>r s'. sunsend fuel N [x, y] s = Some (r, s') \<and> m_sigpipe s' = m_sigpipe s \<and> m_fds s' = m_fds s \<and>
    (r = Mex_Return () \<or>
     r = Mex_Error (n_errno N) \<and> (\<exists>rest k. mx_bytes y = m_sent s' @ rest \<and> n_send N k (mx_fd x) rest < 0)) \<and>
    (r = Mex_Return () \<longrightarrow> m_sent s' = mx_bytes y \<and>
      (\<forall>cs. concat cs = m_sent s' \<longrightarrow>
        (\<exists>b'. pop_messages json_loadb (length ms) (receive_all cs b) = (map (\<lambda>m. (f (fst m), snd m)) ms, b') \<and>
          dime_socket_recvlen b' = 0)))"
proof -
  obtain r out rest where h: "sunsend fuel N [x, y] s = Some (r, s\<lparr>m_sent := m_sent s @ out\<rparr>)" "mx_bytes y = out @ rest"
    "r = Mex_Return () \<and> rest = [] \<or> r = Mex_Error (n_errno N) \<and> rest \<noteq> [] \<and> (\<exists>k. n_send N k (mx_fd x) rest < 0)"
    using sunsend_ok [OF assms(1,2,5), of s] by (elim exE conjE) (rule that)
  have popped: "\<exists>b'. pop_messages json_loadb (length ms) (receive_all cs b) = (map (\<lambda>m. (f (fst m), snd m)) ms, b') \<and>
      dime_socket_recvlen b' = 0" if bytes: "concat cs = concat (map wire ms)" for cs
  proof -
    have room: "2 * (length (recv_bytes b) + length (concat cs)) \<le> ALLOC_MAX"
      using assms(11) unfolding assms(3,10) bytes by simp
    have b: "sock_inv (receive_all cs b)" "s_ws (receive_all cs b) = None"
      "recv_bytes (receive_all cs b) = concat (map wire ms) @ []"
      using receive_all_ok [OF assms(7-9) room] unfolding assms(10) bytes by simp_all
    obtain b' where "pop_messages json_loadb (length ms) (receive_all cs b) = (map (\<lambda>m. (f (fst m), snd m)) ms, b')"
      "recv_bytes b' = []"
      using pop_messages_bytes [OF b assms(4)] by blast
    then show ?thesis by (simp add: dime_socket_recvlen_def dime_ringbuffer_len_def rb_bytes_empty_iff)
  qed
  have "r = Mex_Return () \<Longrightarrow> out = concat (map wire ms)" using h(2,3) assms(3) by auto
  then show ?thesis using h popped assms(3,6) by (intro exI [of _ r] exI [of _ "s\<lparr>m_sent := m_sent s @ out\<rparr>"]) auto
qed

text \<open>The array holds the message with the JSON text \<^verbatim>\<open>{}\<close> and one byte; the server gets it in two pieces.\<close>

theorem matlab_to_server_witness:
  "\<exists>b'. pop_messages (\<lambda>bs. Inr (length bs)) 1 (receive_all [take 5 (wire ([0x7B, 0x7D], [9])), drop 5 (wire ([0x7B, 0x7D], [9]))] demo_sock) =
     ([(2, [9])], b')"
proof -
  let ?w = "wire ([0x7B, 0x7D], [9])" and ?s = "\<lparr>m_sigpipe = SIG_DFL, m_sent = [], m_fds = []\<rparr>"
  let ?y = "\<lparr>x_int64 = False, x_rows = 1, x_cols = 15, x_elsz = 1, x_data = ?w\<rparr>"
    and ?ms = "[([0x7B, 0x7D], [9])] :: (byte list \<times> byte list) list"
  have len: "length ?w = 15" by (simp add: length_wire)
  have n: "sends demo_mex" by (auto simp: sends_def demo_mex_def)
  have x: "mx_is_fd mx_four" by (simp add: mx_is_fd_def mx_four_def)
  have y: "mx_bytes ?y = concat (map wire ?ms)" using len by (simp add: mx_bytes_def sz_mul_def)
  have l: "length (mx_bytes ?y) \<le> 15" using y len by simp
  have ok: "\<forall>m \<in> set ?ms. wire_ok m \<and> (\<lambda>bs. Inr (length bs) :: string + nat) (fst m) = Inr (length (fst m))"
    by (simp add: wire_ok_def)
  have room: "2 * length (mx_bytes ?y) \<le> ALLOC_MAX" using l by (simp add: ALLOC_MAX_def)
  have nil: "m_sent ?s = []" by simp
  have never: "\<not> n_send demo_mex k fd bs < 0" for k fd bs by (simp add: demo_mex_def)
  obtain r s' where "sunsend 15 demo_mex [mx_four, ?y] ?s = Some (r, s')" and r: "r = Mex_Return () \<or> r = Mex_Error (n_errno demo_mex) \<and>
        (\<exists>rest k. mx_bytes ?y = m_sent s' @ rest \<and> n_send demo_mex k (mx_fd mx_four) rest < 0)"
    and pops: "r = Mex_Return () \<longrightarrow> m_sent s' = mx_bytes ?y \<and> (\<forall>cs. concat cs = m_sent s' \<longrightarrow>
      (\<exists>b'. pop_messages (\<lambda>bs. Inr (length bs)) (length ?ms) (receive_all cs demo_sock) =
        (map (\<lambda>m. (length (fst m), snd m)) ?ms, b') \<and> dime_socket_recvlen b' = 0))"
    using matlab_to_server [OF n x y ok l nil demo_sock(1,4,5,3) room] by (elim exE conjE) (rule that)
  have "r = Mex_Return ()" using r never by blast
  note p = mp [OF pops this]
  have cs: "concat [take 5 ?w, drop 5 ?w] = m_sent s'" using y p [THEN conjunct1] by simp
  obtain b' where "pop_messages (\<lambda>bs. Inr (length bs)) (length ?ms) (receive_all [take 5 ?w, drop 5 ?w] demo_sock) =
      (map (\<lambda>m. (length (fst m), snd m)) ?ms, b')"
    using p [THEN conjunct2, THEN spec, THEN mp, OF cs] by (elim exE conjE) (rule that)
  then show ?thesis by simp
qed

section \<open>Descriptors\<close>

text \<open>
  \<^verbatim>\<open>sunconnect\<close> leaves a descriptor open exactly when it returns it; \<^verbatim>\<open>sunclose\<close> leaves the
  descriptor open when \<^verbatim>\<open>shutdown\<close> fails, as it does when the server has closed the connection.
\<close>

lemma sunconnect_spec:
  assumes "sunconnect N prhs s = (r, s')"
  shows "(\<exists>fd. r = Mex_Return fd \<and> 0 \<le> fd \<and> m_fds s' = m_fds s @ [Fd_Opened fd]) \<or>
    (\<exists>msg. r = Mex_Error msg \<and> (s' = s \<or> (\<exists>fd. m_fds s' = m_fds s @ [Fd_Opened fd, Fd_Closed fd])))"
  using assms by (auto simp: sunconnect_def Let_def split: if_splits option.splits)

lemma sunclose_leak:
  assumes "mx_is_fd x" and "\<not> n_shutdown N (mx_fd x)"
  shows "sunclose N [x] s = (Mex_Error (n_errno N), s)"
  using assms by (simp add: sunclose_def Let_def)

text \<open>\<^verbatim>\<open>sunrecv\<close> gives exactly the number of bytes that was asked for, or fails.\<close>

lemma sunrecv_spec:
  assumes "\<forall>fd n bs. n_recv N fd n = Some bs \<longrightarrow> length bs \<le> n" and "n_scalar N (prhs ! 1) < 2 ^ 64"
    and "sunrecv N prhs = Mex_Return z"
  shows "mx_bytes z = x_data z \<and> length (x_data z) = n_scalar N (prhs ! 1)"
proof -
  obtain bs where bs: "n_recv N (mx_fd (prhs ! 0)) (n_scalar N (prhs ! 1)) = Some bs" "\<not> length bs < n_scalar N (prhs ! 1)"
    "z = \<lparr>x_int64 = False, x_rows = 1, x_cols = n_scalar N (prhs ! 1), x_elsz = 1, x_data = bs\<rparr>"
    using assms(3) by (auto simp: sunrecv_def Let_def split: if_splits option.splits)
  then have "length bs = n_scalar N (prhs ! 1)" using assms(1) by (simp add: le_antisym)
  then show ?thesis using bs(3) assms(2) by (simp add: mx_bytes_def sz_mul_def)
qed

end
