(* ===== verification/Network.thy ===== *)
theory Network
  imports Relay Server_Loop
begin

text \<open>
  The server as its clients see it, over whole runs: a network in which clients come and go and every
  message is the step of the relay for what it asks.  The turns of the select loop are shown to be runs of
  the network, as long as no \<^verbatim>\<open>send\<close> or \<^verbatim>\<open>broadcast\<close> fails while one of its recipients waits.
\<close>

section \<open>The network\<close>

definition forget :: "addr \<Rightarrow> relay \<Rightarrow> relay" where
  "forget c R = \<lparr>r_members = r_members R - {c} \<times> UNIV, r_inbox = (r_inbox R)(c := []),
     r_waiting = (r_waiting R)(c := False)\<rparr>"

text \<open>
  What happens to the network: a client connects; a complete message of a client arrives, there being plenty
  of resources or not, and is answered by success or not; or a client is gone.
\<close>

datatype 'j event =
    Connected addr
  | Message addr 'j "byte list" bool bool
  | Gone addr

text \<open>
  The connected clients, and the relay.  A client that connects starts with nothing.  The step of a
  message is that of its sender, its JSON value and its data; only a request that makes sense succeeds,
  and with plenty of resources it does.
\<close>

inductive net_step :: "'j env \<Rightarrow> 'j event \<Rightarrow> addr set \<times> relay \<Rightarrow> addr set \<times> relay \<Rightarrow> bool" for E :: "'j env" where
  connect: "\<lbrakk>c \<notin> A; R = forget c R\<rbrakk> \<Longrightarrow> net_step E (Connected c) (A, R) (insert c A, R)"
| message: "\<lbrakk>c \<in> A; relay_step E c j bin ok A R R'; ok \<longrightarrow> granted E c j R; enough \<and> granted E c j R \<longrightarrow> ok\<rbrakk> \<Longrightarrow>
    net_step E (Message c j bin enough ok) (A, R) (A, R')"
| disconnect: "c \<in> A \<Longrightarrow> net_step E (Gone c) (A, R) (A - {c}, forget c R)"

text \<open>The runs, with all that happens in them, in order.\<close>

inductive net_run :: "'j env \<Rightarrow> 'j event list \<Rightarrow> addr set \<times> relay \<Rightarrow> addr set \<times> relay \<Rightarrow> bool" for E :: "'j env" where
  none: "net_run E [] N N"
| step: "\<lbrakk>net_run E evs N N'; net_step E ev N' N''\<rbrakk> \<Longrightarrow> net_run E (evs @ [ev]) N N''"

inductive_cases net_run_NilE: "net_run E [] N N'"

lemma net_run_append:
  assumes "net_run E evs N N'" and "net_run E evs' N' N''"
  shows "net_run E (evs @ evs') N N''"
  using assms(2,1)
proof (induction rule: net_run.induct)
  case (none N)
  then show ?case by simp
next
  case (step evs' N1 N2 ev N3)
  then have "net_run E ((evs @ evs') @ [ev]) N N3" using net_run.step by blast
  then show ?case by simp
qed

lemma net_run_one: "net_step E ev N N' \<Longrightarrow> net_run E [ev] N N'"
  using net_run.step [OF net_run.none] by fastforce

definition quiet_net :: "addr set \<times> relay" where
  "quiet_net = ({}, \<lparr>r_members = {}, r_inbox = \<lambda>_. [], r_waiting = \<lambda>_. False\<rparr>)"

text \<open>A client that is no member, has no messages and does not wait is as good as forgotten.\<close>

lemma forget_eq:
  "R = forget c R \<longleftrightarrow> (\<forall>name. (c, name) \<notin> r_members R) \<and> r_inbox R c = [] \<and> \<not> r_waiting R c"
proof -
  have "R = forget c R \<longleftrightarrow> r_members R = r_members R - {c} \<times> UNIV \<and> r_inbox R = (r_inbox R)(c := []) \<and>
      r_waiting R = (r_waiting R)(c := False)"
    by (cases R) (simp add: forget_def)
  then show ?thesis by (auto simp: fun_eq_iff)
qed

section \<open>The network of a server\<close>

definition net_of :: "dime_server \<Rightarrow> addr set \<times> relay" where
  "net_of s = (dom (h_clnts s), relay_of s)"

definition counted :: "dime_server \<Rightarrow> bool" where
  "counted s \<longleftrightarrow> (\<exists>X. refs_leak X s)"

text \<open>The server goes from \<open>s\<close> to \<open>s'\<close>, and its clients see what \<open>evs\<close> says.\<close>

definition evolves :: "'j env \<Rightarrow> 'j event list \<Rightarrow> dime_server \<Rightarrow> dime_server \<Rightarrow> bool" where
  "evolves E evs s s' \<longleftrightarrow> (counted s \<longrightarrow> counted s' \<and> net_run E evs (net_of s) (net_of s'))"

lemma evolves_refl [simp]: "evolves E [] s s"
  by (simp add: evolves_def net_run.none)

lemma evolves_append: "evolves E evs s s' \<Longrightarrow> evolves E evs' s' s'' \<Longrightarrow> evolves E (evs @ evs') s s''"
  unfolding evolves_def by (blast intro: net_run_append)

lemma evolves_trans: "evolves E [] s s' \<Longrightarrow> evolves E evs s' s'' \<Longrightarrow> evolves E evs s s''"
  using evolves_append [of E "[]"] by simp

lemma evolves_then: "evolves E evs s s' \<Longrightarrow> evolves E [] s' s'' \<Longrightarrow> evolves E evs s s''"
  using evolves_append [of E evs s s' "[]"] by simp

lemma evolves_step: "(counted s \<Longrightarrow> counted s' \<and> net_step E ev (net_of s) (net_of s')) \<Longrightarrow> evolves E [ev] s s'"
  unfolding evolves_def by (blast intro: net_run_one)

text \<open>The event that a client has come or gone, if it has.\<close>

definition presence :: "addr \<Rightarrow> dime_server \<Rightarrow> dime_server \<Rightarrow> 'j event list" where
  "presence c s s' =
     (if h_clnts s c = None then (if h_clnts s' c = None then [] else [Connected c])
      else (if h_clnts s' c = None then [Gone c] else []))"

lemma presence_same [simp]: "presence c s s = []"
  by (simp add: presence_def)

lemma presence_small [simp]:
  "presence c s (fault s') = presence c s s'" "presence c s (tick s') = presence c s s'"
  "presence c s (s'\<lparr>h_err := e\<rparr>) = presence c s s'" "presence c s (s'\<lparr>h_next := n\<rparr>) = presence c s s'"
  "presence c (tick s) s' = presence c s s'" "presence c (s\<lparr>h_next := n\<rparr>) s' = presence c s s'"
  by (simp_all add: presence_def fault_def tick_def)

text \<open>Steps that the clients do not see.\<close>

lemma evolves_unseen:
  assumes "dom (h_clnts s') = dom (h_clnts s)" and "membership s' = membership s" and "queue_of s' = queue_of s"
    and "waiting_of s' = waiting_of s" and "h_msgs s' = h_msgs s"
  shows "evolves E [] s s'"
  using assms relay_same [OF assms(2-5)] by (simp add: evolves_def net_of_def counted_def refs_leak_def net_run.none)

lemma evolves_same: "same_but_socks s s' \<Longrightarrow> evolves E [] s s'"
  using same_view [of s s'] membership_same [of s s'] same_but_socks_None [of s s']
  by (intro evolves_unseen) (auto simp: dom_def)

lemma evolves_fault [simp]: "evolves E [] s (fault s)"
  by (rule evolves_unseen) (simp_all add: fault_def membership_def member_def group_name_def queue_of_def waiting_of_def fun_eq_iff)

lemma evolves_small [simp]:
  "evolves E [] s (tick s)" "evolves E [] s (err_copy msg s)" "evolves E [] s (s\<lparr>h_fd2clnt := t\<rparr>)"
  "evolves E [] s (s\<lparr>h_err := msg\<rparr>)" "evolves E [] s (s\<lparr>h_next := n\<rparr>)"
  by (auto intro: evolves_same)
    (rule evolves_unseen; simp add: membership_def member_def group_name_def queue_of_def waiting_of_def fun_eq_iff)+

lemma evolves_sock:
  assumes "h_clnts s c = Some cl" and "sock_inv (c_sock cl) \<Longrightarrow> sock_inv sock"
  shows "evolves E [] s (tick (set_clnt c (cl\<lparr>c_sock := sock\<rparr>) s))"
  using same_but_socks_trans [OF same_set_sock [OF assms(1)] same_tick] assms(2)
  by (intro evolves_same) (simp add: same_clnt_def)

section \<open>Messages\<close>

text \<open>
  No \<^verbatim>\<open>send\<close> or \<^verbatim>\<open>broadcast\<close> fails while one of its recipients waits, among the messages of a client that
  one call of the loop handles.
\<close>

fun told :: "nat \<Rightarrow> 'j env \<Rightarrow> addr \<Rightarrow> dime_server \<Rightarrow> bool" where
  "told 0 E c s = True"
| "told (Suc n) E c s =
     (case h_clnts s c of
        None \<Rightarrow> True
      | Some cl \<Rightarrow>
          (case dime_socket_pop (e_loadb E) (e_errno E (h_tick s)) (e_ok E (h_tick s)) (c_sock cl) of
             Some (Pop_Message siz j bin, sock) \<Rightarrow>
               (let s1 = tick (set_clnt c (cl\<lparr>c_sock := sock\<rparr>) s);
                    (rc, s2) = dispatch E c j bin s1
                in (rc = 0 \<or> (\<forall>d \<in> recipients E c j s1. \<not> waiting_of s1 d)) \<and> told n E c s2)
           | _ \<Rightarrow> True))"

text \<open>The messages themselves, with their outcome.\<close>

fun heard :: "nat \<Rightarrow> 'j env \<Rightarrow> addr \<Rightarrow> dime_server \<Rightarrow> 'j event list" where
  "heard 0 E c s = []"
| "heard (Suc n) E c s =
     (case h_clnts s c of
        None \<Rightarrow> []
      | Some cl \<Rightarrow>
          (case dime_socket_pop (e_loadb E) (e_errno E (h_tick s)) (e_ok E (h_tick s)) (c_sock cl) of
             Some (Pop_Message siz j bin, sock) \<Rightarrow>
               (let s1 = tick (set_clnt c (cl\<lparr>c_sock := sock\<rparr>) s);
                    (rc, s2) = dispatch E c j bin s1
                in Message c j bin (plenty E c j s1) (rc = 0) # heard n E c s2)
           | _ \<Rightarrow> []))"

lemma message_loop_evolves:
  assumes env: "env_ok E" "json_arrays E"
  shows "alive c s \<Longrightarrow> told n E c s \<Longrightarrow> message_loop n E c s = Some (go, s') \<Longrightarrow>
    evolves E (heard n E c s) s s'"
proof (induction n arbitrary: s)
  case 0
  then show ?case by simp
next
  case (Suc n)
  obtain cl where cl: "h_clnts s c = Some cl" using Suc.prems(1) by (auto simp: alive_def)
  have sock_cl: "sock_inv (c_sock cl)" using Suc.prems(1) srv_inv_parts(8) [OF _ cl] by (simp add: alive_def)
  obtain r sock where pop:
    "dime_socket_pop (e_loadb E) (e_errno E (h_tick s)) (e_ok E (h_tick s)) (c_sock cl) = Some (r, sock)"
    and s1: "alive c (tick (set_clnt c (cl\<lparr>c_sock := sock\<rparr>) s))"
    and msg: "\<And>siz j bin s'. r = Pop_Message siz j bin \<Longrightarrow>
      s' = snd (dispatch E c j bin (tick (set_clnt c (cl\<lparr>c_sock := sock\<rparr>) s))) \<Longrightarrow> alive c s' \<and> conns s' = conns s"
    and conns1: "conns (tick (set_clnt c (cl\<lparr>c_sock := sock\<rparr>) s)) = conns s"
    by (rule message_turn [OF env(1) Suc.prems(1) cl]) blast
  let ?s1 = "tick (set_clnt c (cl\<lparr>c_sock := sock\<rparr>) s)"
  have e1: "evolves E [] s ?s1" by (rule evolves_sock [OF cl]) (use pop_inv [OF _ pop] in blast)
  show ?case
  proof (cases r)
    case (Pop_Message siz j bin)
    obtain rc s2 where d: "dispatch E c j bin ?s1 = (rc, s2)" by fastforce
    have ok: "rc = 0 \<or> (\<forall>d \<in> recipients E c j ?s1. \<not> waiting_of ?s1 d)" and told: "told n E c s2"
      using Suc.prems(2) cl pop Pop_Message d by (simp_all add: Let_def)
    have rest: "message_loop n E c s2 = Some (go, s')" using Suc.prems(3) cl pop Pop_Message d by (simp add: Let_def)
    have bin: "length bin \<le> ALLOC_MAX" by (rule pop_bin_len [OF sock_cl pop [unfolded Pop_Message]])
    have s2: "alive c s2" "conns s2 = conns s" using msg [OF Pop_Message, of s2] d by simp_all
    have "h_clnts s2 x = None \<longleftrightarrow> h_clnts ?s1 x = None" for x
    proof -
      have "map_option c_fd (h_clnts s2 x) = map_option c_fd (h_clnts ?s1 x)"
        by (rule conns_fd) (simp only: s2(2) conns1)
      then show ?thesis by (metis option.map_disc_iff)
    qed
    then have all: "dom (h_clnts s2) = dom (h_clnts ?s1)" unfolding dom_def by (intro Collect_cong) (simp only:)
    have "counted s2 \<and> net_step E (Message c j bin (plenty E c j ?s1) (rc = 0)) (net_of ?s1) (net_of s2)" if "refs_leak X ?s1" for X
    proof -
      have inv: "srv_inv ?s1" and c: "h_clnts ?s1 c \<noteq> None" using s1 by (simp_all add: alive_def)
      have r: "relayed X E c j bin ?s1 (rc, s2)" using dispatch_relayed [OF env inv c that bin d ok] by blast
      have g: "granted E c j (relay_of ?s1)" if "rc = 0"
        using dispatch_granted [OF env(1) inv c \<open>refs_leak X ?s1\<close> bin] d that by simp
      have p: "rc = 0" if "plenty E c j ?s1" "granted E c j (relay_of ?s1)"
        by (rule dispatch_plenty [OF that(1) inv c \<open>refs_leak X ?s1\<close> bin d that(2)])
      have "net_step E (Message c j bin (plenty E c j ?s1) (rc = 0)) (dom (h_clnts ?s1), relay_of ?s1) (dom (h_clnts ?s1), relay_of s2)"
        by (rule net_step.message) (use c r g p in \<open>auto simp: relayed_def\<close>)
      then show ?thesis using r all by (auto simp: relayed_def counted_def net_of_def)
    qed
    then have one: "evolves E [Message c j bin (plenty E c j ?s1) (rc = 0)] ?s1 s2"
      by (intro evolves_step) (auto simp: counted_def)
    have "heard (Suc n) E c s = [Message c j bin (plenty E c j ?s1) (rc = 0)] @ heard n E c s2"
      using cl pop Pop_Message d by (simp add: Let_def)
    then show ?thesis using evolves_trans [OF e1 evolves_append [OF one Suc.IH [OF s2(1) told rest]]] by (simp only:)
  next
    case Pop_Incomplete
    then show ?thesis using Suc.prems(3) e1 cl pop by (simp add: Let_def)
  next
    case Pop_Error
    then show ?thesis using Suc.prems(3) evolves_trans [OF e1] cl pop by (auto simp: Let_def)
  next
    case Pop_Out_Of_Bounds
    then show ?thesis using Suc.prems(3) evolves_trans [OF e1] cl pop by (auto simp: Let_def)
  qed
qed

section \<open>Closing and accepting\<close>

lemma closed_counted:
  assumes "srv_inv s" and "h_clnts s c = Some cl" and "closed c cl s s'" and "refs_leak X s"
  shows "counted s'"
  using closed_leak [OF assms] by (auto simp: counted_def)

lemma closed_payload:
  assumes inv: "srv_inv s" and closed: "closed c cl s s'" and "counted s" and "counted s'" and m: "m \<in> set (queue_of s' d)"
  shows "payload s' m = payload s m"
proof -
  obtain X where "refs_leak X s'" using assms(4) by (auto simp: counted_def)
  moreover have "d \<in> holders (queue_of s') m" using m by (simp add: holders_def)
  ultimately obtain x where x: "h_msgs s' m = Some x"
    using refs_uptoD(2) [of X "{}" "queue_of s'" "h_msgs s'" m] by (cases "h_msgs s' m") (auto simp: refs_leak_def)
  moreover have "fewer_msgs (h_msgs s) (h_msgs s')" using closed by (simp add: closed_def)
  ultimately obtain y where "h_msgs s m = Some y" "m_jsondata x = m_jsondata y" "m_bindata x = m_bindata y"
    unfolding fewer_msgs_def by blast
  then show ?thesis using x by (simp add: payload_def)
qed

lemma evolves_closed:
  assumes inv: "srv_inv s" and cl: "h_clnts s c = Some cl" and closed: "closed c cl s s'"
  shows "evolves E [Gone c] s s'"
proof (rule evolves_step)
  assume s: "counted s"
  then have s': "counted s'" using closed_counted [OF inv cl closed] by (auto simp: counted_def)
  have clnts: "h_clnts s' = (h_clnts s)(c := None)" using closed by (simp add: closed_def)
  have q: "queue_of s' = (queue_of s)(c := [])" and w: "waiting_of s' = (waiting_of s)(c := False)"
    using clnts by (auto simp: queue_of_def waiting_of_def fun_eq_iff)
  have "map (payload s') (queue_of s' d) = (if d = c then [] else map (payload s) (queue_of s d))" for d
    using closed_payload [OF inv closed s s', of _ d] by (auto simp: q)
  then have "r_inbox (relay_of s') = r_inbox (forget c (relay_of s))"
    by (simp add: relay_of_def forget_def fun_eq_iff)
  then have "relay_of s' = forget c (relay_of s)"
    using closed w by (simp add: relay_of_def forget_def closed_def)
  moreover have "dom (h_clnts s') = dom (h_clnts s) - {c}" by (auto simp: clnts)
  ultimately have "net_step E (Gone c) (net_of s) (net_of s')"
    using net_step.disconnect [of c "dom (h_clnts s)" E "relay_of s"] cl by (auto simp: net_of_def)
  then show "counted s' \<and> net_step E (Gone c) (net_of s) (net_of s')" using s' by blast
qed

lemma drop_client_evolves:
  assumes "loop_inv E L" and cl: "h_clnts (l_srv L) c = Some cl"
  shows "evolves E [Gone c] (l_srv L) (l_srv (drop_client c L))" and "h_clnts (l_srv (drop_client c L)) c = None"
proof -
  have inv: "srv_inv (l_srv L)" using assms(1) by (rule loop_inv_inv)
  obtain s' where "drop_client c L =
      L\<lparr>l_srv := s', l_rfds := l_rfds L - {c_fd cl}, l_wfds := l_wfds L - {c_fd cl}\<rparr>"
    and "closed c cl (l_srv L) s'"
    by (rule drop_client_ok [OF inv cl])
  then show "evolves E [Gone c] (l_srv L) (l_srv (drop_client c L))" and "h_clnts (l_srv (drop_client c L)) c = None"
    using evolves_closed [OF inv cl] by (simp_all add: closed_def)
qed

text \<open>A client that is not there has nothing.\<close>

lemma nobody_forgotten:
  assumes "srv_inv s" and "h_clnts s c = None"
  shows "relay_of s = forget c (relay_of s)"
  using assms srv_inv_parts(5) [OF assms(1), of c]
  by (auto simp: forget_eq relay_of_def queue_of_def waiting_of_def membership_def has_group_def)

lemma register_client_evolves:
  assumes L: "loop_inv E L" and c: "h_clnts (l_srv L) c = None"
    and cl: "\<not> c_waiting cl" "dq_list (c_queue cl) = []" "c_fd cl \<notin> open_fds L"
  shows "evolves E (presence c (l_srv L) (l_srv (register_client E c cl L))) (l_srv L) (l_srv (register_client E c cl L))"
proof -
  let ?s = "l_srv L"
  have inv: "srv_inv ?s" by (rule loop_inv_inv [OF L])
  have watch: "evolves E (presence c ?s (l_srv (watch fd (L\<lparr>l_srv := u\<rparr>)))) ?s (l_srv (watch fd (L\<lparr>l_srv := u\<rparr>)))"
    if "evolves E (presence c ?s u) ?s u" for fd u
    using that evolves_then [OF that evolves_fault] by (simp add: watch_def fault_loop_def)
  have "\<nexists>d x. h_clnts ?s d = Some x \<and> c_fd x = c_fd cl" using cl(3) by (auto simp: open_fds_def)
  then have none: "table_map (h_fd2clnt ?s) (c_fd cl) = None"
    using srv_inv_parts(3) [OF inv, of "c_fd cl"] by (metis not_None_eq)
  show ?thesis
  proof (rule insert_client_cases [OF inv none, of "e_ok E (h_tick ?s)" c])
    assume t: "dime_table_insert (e_ok E (h_tick ?s)) (h_fd2clnt ?s) (c_fd cl) c = Some (-1, h_fd2clnt ?s)"
    have "evolves E (presence c ?s (tick (err_copy msg ?s))) ?s (tick (err_copy msg ?s))" for msg
      using evolves_trans [of E ?s "err_copy msg ?s" "[]" "tick (err_copy msg ?s)"]
      by (simp add: presence_def c err_copy_def)
    then show ?thesis using t watch by (simp add: register_client_def Let_def)
  next
    fix t
    assume t: "dime_table_insert (e_ok E (h_tick ?s)) (h_fd2clnt ?s) (c_fd cl) c = Some (0, t)"
    let ?u = "tick (set_clnt c cl (?s\<lparr>h_fd2clnt := t\<rparr>))"
    have v: "queue_of ?u = queue_of ?s" "waiting_of ?u = waiting_of ?s" "membership ?u = membership ?s" "h_msgs ?u = h_msgs ?s"
      using c cl(1,2) by (auto simp: queue_of_def waiting_of_def membership_def member_def group_name_def fun_eq_iff)
    have "net_of ?u = (insert c (dom (h_clnts ?s)), relay_of ?s)"
      using relay_same [OF v(3,1,2,4)] by (simp add: net_of_def)
    then have "net_step E (Connected c) (net_of ?s) (net_of ?u)"
      using net_step.connect [of c "dom (h_clnts ?s)" "relay_of ?s" E] nobody_forgotten [OF inv c] c
      by (simp add: net_of_def domIff)
    then have "evolves E [Connected c] ?s ?u" using v by (intro evolves_step) (auto simp: counted_def refs_leak_def)
    then have "evolves E (presence c ?s ?u) ?s ?u" by (simp add: presence_def c)
    then show ?thesis using t watch by (simp add: register_client_def Let_def)
  qed
qed

lemma accept_client_evolves:
  assumes L: "loop_inv E L" and a: "answers_ok a L"
  shows "evolves E (presence (h_next (l_srv L)) (l_srv L) (l_srv (snd (snd (accept_client E a protocol L)))))
    (l_srv L) (l_srv (snd (snd (accept_client E a protocol L))))"
proof -
  let ?s = "tick (l_srv L)" and ?t = "h_tick (l_srv L)"
  let ?L = "L\<lparr>l_srv := ?s\<lparr>h_next := Suc (h_next ?s)\<rparr>\<rparr>"
  have clear: "evolves E [] (l_srv L) (?s\<lparr>h_err := ''''\<rparr>)" by (rule evolves_trans [of _ _ ?s]) simp_all
  have step: "evolves E [] (l_srv L) (l_srv ?L)" by (rule evolves_trans [of _ _ ?s]) simp_all
  have inv: "srv_inv ?s" using loop_inv_inv [OF L] by simp
  have L': "loop_inv E ?L" by (rule loop_inv_srv [OF L srv_inv_next [OF inv]]) (simp add: conns_def tick_def)
  let ?ev = "\<lambda>cl. presence (h_next (l_srv L)) (l_srv L) (l_srv (register_client E (h_next (l_srv L)) cl ?L))"
  have reg: "evolves E (?ev (cl\<lparr>c_sock := sock\<rparr>)) (l_srv L) (l_srv (register_client E (h_next (l_srv L)) (cl\<lparr>c_sock := sock\<rparr>) ?L))"
    if init: "dime_client_init (\<lambda>i. e_ok E ?t (Suc i)) (a_accept a) (a_stack a) (a_peer a) = Client_Ready cl" and "\<not> a_accept a < 0"
    for cl sock
  proof -
    note i = dime_client_init_ok [OF init]
    have new: "h_clnts (l_srv ?L) (h_next (l_srv L)) = None" using srv_inv_parts(11) [OF inv] by simp
    have free: "\<not> c_waiting (cl\<lparr>c_sock := sock\<rparr>)" "dq_list (c_queue (cl\<lparr>c_sock := sock\<rparr>)) = []" using i by simp_all
    have fd: "c_fd (cl\<lparr>c_sock := sock\<rparr>) \<notin> open_fds ?L" using i a that(2) by (simp add: answers_ok_def open_fds_def)
    show ?thesis using evolves_trans [OF step register_client_evolves [OF L' new free fd]] by simp
  qed
  have same: "cl\<lparr>c_sock := c_sock cl\<rparr> = cl" for cl :: dime_client by simp
  have plain: "evolves E (?ev cl) (l_srv L) (l_srv (register_client E (h_next (l_srv L)) cl ?L))"
    if "dime_client_init (\<lambda>i. e_ok E ?t (Suc i)) (a_accept a) (a_stack a) (a_peer a) = Client_Ready cl" "\<not> a_accept a < 0" for cl
    using reg [OF that, of "c_sock cl"] by (simp only: same)
  show ?thesis
    using clear step reg plain evolves_trans [OF clear evolves_fault] evolves_trans [OF step evolves_fault]
    by (auto simp: accept_client_def fault_loop_def Let_def split: client_init.split ws_outcome.split)
qed

section \<open>Receiving and sending\<close>

text \<open>The messages that arrive with one call of \<^verbatim>\<open>recv\<close>.\<close>

definition told_input :: "'j env \<Rightarrow> answers \<Rightarrow> addr \<Rightarrow> nat \<Rightarrow> dime_server \<Rightarrow> bool" where
  "told_input E a c fuel s =
     (case h_clnts s c of
        None \<Rightarrow> True
      | Some cl \<Rightarrow>
          (let (n, sock) = dime_socket_recvpartial (e_errno E (h_tick s)) (e_ok E (h_tick s)) (a_recv a) (c_sock cl)
           in n \<le> 0 \<or> told fuel E c (tick (set_clnt c (cl\<lparr>c_sock := sock\<rparr>) s))))"

definition told_fd :: "'j env \<Rightarrow> answers \<Rightarrow> nat \<Rightarrow> int \<Rightarrow> dime_loop \<Rightarrow> bool" where
  "told_fd E a fuel i L \<longleftrightarrow> (a_readable a \<longrightarrow>
     (case find_client i L of
        Some (Some c, L1) \<Rightarrow> told_input E a c fuel (l_srv L1)
      | _ \<Rightarrow> True))"

text \<open>What the clients see of it: no bytes mean that the client is gone.\<close>

definition input_events :: "'j env \<Rightarrow> answers \<Rightarrow> addr \<Rightarrow> nat \<Rightarrow> dime_server \<Rightarrow> 'j event list" where
  "input_events E a c fuel s =
     (case h_clnts s c of
        None \<Rightarrow> []
      | Some cl \<Rightarrow>
          (let (n, sock) = dime_socket_recvpartial (e_errno E (h_tick s)) (e_ok E (h_tick s)) (a_recv a) (c_sock cl)
           in if n \<le> 0 then [Gone c] else heard fuel E c (tick (set_clnt c (cl\<lparr>c_sock := sock\<rparr>) s))))"

lemma serve_input_evolves:
  assumes env: "env_ok E" "json_arrays E" and L: "loop_inv E L" and cl: "h_clnts (l_srv L) c = Some cl"
    and recv: "\<And>bs. a_recv a RECVBUFLEN = Some bs \<Longrightarrow> length bs \<le> RECVBUFLEN"
    and run: "serve_input E a c fuel L = Some (here, go, L')" and told: "told_input E a c fuel (l_srv L)"
  shows "evolves E (input_events E a c fuel (l_srv L)) (l_srv L) (l_srv L')"
proof -
  let ?s = "l_srv L"
  obtain n sock where r: "dime_socket_recvpartial (e_errno E (h_tick ?s)) (e_ok E (h_tick ?s)) (a_recv a) (c_sock cl) = (n, sock)"
    by fastforce
  have sock: "sock_inv sock"
    using recvpartial_inv [OF srv_inv_parts(8) [OF loop_inv_inv [OF L] cl] recv] r by (metis snd_conv)
  let ?u = "tick (set_clnt c (cl\<lparr>c_sock := sock\<rparr>) ?s)"
  have e: "evolves E [] ?s ?u" by (rule evolves_sock [OF cl sock])
  note u = loop_inv_sock [OF L cl sock]
  show ?thesis
  proof (cases "n \<le> 0")
    case True
    have "evolves E [Gone c] ?u (l_srv (drop_client c (L\<lparr>l_srv := ?u\<rparr>)))"
      using drop_client_evolves(1) [OF u(1), of c "cl\<lparr>c_sock := sock\<rparr>"] by simp
    then show ?thesis using run cl r True evolves_trans [OF e] by (auto simp: serve_input_def input_events_def Let_def)
  next
    case False
    then obtain s' where s': "message_loop fuel E c ?u = Some (go, s')" "L' = L\<lparr>l_srv := s'\<rparr>"
      using run cl r by (auto simp: serve_input_def Let_def)
    have "told fuel E c ?u" using told cl r False by (simp add: told_input_def)
    then have "evolves E (heard fuel E c ?u) ?u s'" by (rule message_loop_evolves [OF env u(2) _ s'(1)])
    then show ?thesis using evolves_trans [OF e] s'(2) cl r False by (simp add: input_events_def)
  qed
qed

definition output_events :: "'j env \<Rightarrow> answers \<Rightarrow> addr \<Rightarrow> dime_server \<Rightarrow> 'j event list" where
  "output_events E a c s =
     (case h_clnts s c of
        None \<Rightarrow> []
      | Some cl \<Rightarrow>
          (if fst (dime_socket_sendpartial (e_errno E (h_tick s)) (e_ok E (h_tick s) 0) (a_send a) (c_sock cl)) < 0
           then [Gone c] else []))"

definition write_events :: "'j env \<Rightarrow> answers \<Rightarrow> int \<Rightarrow> addr option \<Rightarrow> dime_loop \<Rightarrow> 'j event list" where
  "write_events E a i known L =
     (if \<not> a_writable a then []
      else
        (case known of
           Some c \<Rightarrow> output_events E a c (l_srv L)
         | None \<Rightarrow> (case find_client i L of Some (Some c, L') \<Rightarrow> output_events E a c (l_srv L') | _ \<Rightarrow> [])))"

lemma serve_output_evolves:
  assumes L: "loop_inv E L" and cl: "h_clnts (l_srv L) c = Some cl"
  shows "evolves E (output_events E a c (l_srv L)) (l_srv L) (l_srv (snd (serve_output E a c L)))"
proof -
  let ?s = "l_srv L"
  obtain n sock where r: "dime_socket_sendpartial (e_errno E (h_tick ?s)) (e_ok E (h_tick ?s) 0) (a_send a) (c_sock cl) = (n, sock)"
    by fastforce
  have sock: "sock_inv sock"
    using sendpartial_inv [OF srv_inv_parts(8) [OF loop_inv_inv [OF L] cl]] r by (metis snd_conv)
  let ?u = "tick (set_clnt c (cl\<lparr>c_sock := sock\<rparr>) ?s)"
  have e: "evolves E [] ?s ?u" by (rule evolves_sock [OF cl sock])
  have "evolves E [Gone c] ?u (l_srv (drop_client c (L\<lparr>l_srv := ?u\<rparr>)))"
    using drop_client_evolves(1) [OF loop_inv_sock(1) [OF L cl sock], of c "cl\<lparr>c_sock := sock\<rparr>"] by simp
  then show ?thesis using e evolves_trans [OF e] cl r by (simp add: serve_output_def output_events_def Let_def)
qed

lemma find_client_evolves: "find_client i L = Some (r, L') \<Longrightarrow> evolves E [] (l_srv L) (l_srv L')"
  by (auto simp: find_client_def)

lemma serve_write_evolves:
  assumes L: "loop_inv E L" and known: "\<And>c. known = Some c \<Longrightarrow> h_clnts (l_srv L) c \<noteq> None"
  shows "evolves E (write_events E a i known L) (l_srv L) (l_srv (snd (serve_write E a i known L)))"
proof (cases known)
  case (Some c)
  then show ?thesis using known serve_output_evolves [OF L, of c] by (auto simp: serve_write_def write_events_def)
next
  case None
  show ?thesis
  proof (rule find_client_cases [OF L, of i])
    assume "find_client i L = None"
    then show ?thesis using None by (simp add: serve_write_def write_events_def fault_loop_def)
  next
    fix L' assume f: "find_client i L = Some (None, L')"
    then show ?thesis using None find_client_evolves [OF f, of E] by (simp add: serve_write_def write_events_def)
  next
    fix c cl L' assume f: "find_client i L = Some (Some c, L')" "loop_inv E L'" "h_clnts (l_srv L') c = Some cl"
    then show ?thesis
      using None evolves_trans [OF find_client_evolves [OF f(1)] serve_output_evolves [OF f(2,3)]] find_client_evolves [OF f(1)]
      by (simp add: serve_write_def write_events_def)
  qed
qed

section \<open>A turn of the loop\<close>

text \<open>What the clients see of one turn, part by part as in \<open>serve_fd\<close>.\<close>

definition turn_events :: "'j env \<Rightarrow> answers \<Rightarrow> nat \<Rightarrow> int \<Rightarrow> dime_loop \<Rightarrow> 'j event list" where
  "turn_events E a fuel i L =
     (if a_readable a then
        (case find_client i L of
           None \<Rightarrow> []
         | Some (None, L1) \<Rightarrow>
             (case map_of (l_fds L1) i of
                None \<Rightarrow> []
              | Some protocol \<Rightarrow>
                  (case accept_client E a protocol L1 of
                     (on, go, L2) \<Rightarrow> presence (h_next (l_srv L1)) (l_srv L1) (l_srv L2) @
                       (if on then write_events E a i None L2 else [])))
         | Some (Some c, L1) \<Rightarrow>
             (case serve_input E a c fuel L1 of
                None \<Rightarrow> []
              | Some (here, go, L2) \<Rightarrow> input_events E a c fuel (l_srv L1) @
                  (if here then write_events E a i (Some c) L2 else [])))
      else write_events E a i None L)"

lemma serve_fd_evolves:
  assumes env: "env_ok E" "json_arrays E" and L: "loop_inv E L" and a: "answers_ok a L"
    and run: "serve_fd E a fuel i L = Some (go, L')" and told: "told_fd E a fuel i L"
  shows "evolves E (turn_events E a fuel i L) (l_srv L) (l_srv L')"
proof (cases "a_readable a")
  case False
  then show ?thesis using run serve_write_evolves [OF L, of None a i] by (auto simp: serve_fd_def turn_events_def prod_eq_iff)
next
  case True
  have wr: "evolves E (write_events E a i known L1) (l_srv L1) (l_srv L2)" if "serve_write E a i known L1 = (go, L2)" "loop_inv E L1"
    "\<And>c. known = Some c \<Longrightarrow> h_clnts (l_srv L1) c \<noteq> None" for known L1 L2
    using serve_write_evolves [OF that(2,3), of known a i] that(1) by (simp add: prod_eq_iff)
  show ?thesis
  proof (rule find_client_cases [OF L, of i])
    assume "find_client i L = None"
    then show ?thesis using True run by (auto simp: serve_fd_def turn_events_def fault_loop_def)
  next
    fix L1 assume f: "find_client i L = Some (None, L1)" "loop_inv E L1" "open_fds L1 = open_fds L"
    note e = find_client_evolves [OF f(1), of E]
    have a1: "answers_ok a L1" using a f(3) by (simp add: answers_ok_def)
    show ?thesis
    proof (cases "map_of (l_fds L1) i")
      case None
      then show ?thesis using True run f e by (simp add: serve_fd_def turn_events_def)
    next
      case (Some protocol)
      obtain more k L2 where acc: "accept_client E a protocol L1 = (more, k, L2)"
        by (cases "accept_client E a protocol L1")
      have L2: "loop_inv E L2" "evolves E (presence (h_next (l_srv L1)) (l_srv L1) (l_srv L2)) (l_srv L) (l_srv L2)"
        using accept_client_inv [OF f(2) a1, of protocol] evolves_trans [OF e accept_client_evolves [OF f(2) a1, of protocol]] acc
        by simp_all
      show ?thesis
        using run wr [of None L2 L'] L2 evolves_append [OF L2(2)] True f(1) Some acc
        by (cases more) (auto simp: serve_fd_def turn_events_def)
    qed
  next
    fix c cl L1 assume f: "find_client i L = Some (Some c, L1)" "loop_inv E L1" "h_clnts (l_srv L1) c = Some cl"
    note e = find_client_evolves [OF f(1), of E]
    obtain here k L2 where inp: "serve_input E a c fuel L1 = Some (here, k, L2)"
      using run True f(1) by (auto simp: serve_fd_def split: option.splits)
    have t: "told_input E a c fuel (l_srv L1)" using told True f(1) by (simp add: told_fd_def)
    have recv: "length bs \<le> RECVBUFLEN" if "a_recv a RECVBUFLEN = Some bs" for bs using a that by (simp add: answers_ok_def)
    have L2: "loop_inv E L2 \<and> (here \<longrightarrow> h_clnts (l_srv L2) c \<noteq> None)"
      by (rule serve_input_inv [OF env(1) f(2,3) recv inp])
    have e2: "evolves E (input_events E a c fuel (l_srv L1)) (l_srv L) (l_srv L2)"
      by (rule evolves_trans [OF e serve_input_evolves [OF env f(2,3) recv inp t]])
    show ?thesis
      using run wr [of "Some c" L2 L'] L2 e2 evolves_append [OF e2] True f(1) inp
      by (cases here) (auto simp: serve_fd_def turn_events_def)
  qed
qed

lemma refresh_one_evolves: "evolves E [] (l_srv L) (l_srv (refresh_one i L))"
proof (cases "find_client i L")
  case None
  then show ?thesis by (simp add: refresh_one_def fault_loop_def)
next
  case (Some p)
  obtain r L1 where f: "find_client i L = Some (r, L1)" using Some by (cases p) simp
  note e = find_client_evolves [OF f, of E]
  show ?thesis using e evolves_trans [OF e evolves_fault] f
    by (auto simp: refresh_one_def fault_loop_def split: option.split)
qed

lemma refresh_writers_evolves: "evolves E [] (l_srv L) (l_srv (refresh_writers L))"
proof -
  have "evolves E [] (l_srv L) (l_srv (fold refresh_one is L))" for "is"
    by (induction "is" arbitrary: L) (auto intro: evolves_trans [OF refresh_one_evolves])
  then show ?thesis by (simp add: refresh_writers_def)
qed

section \<open>Runs of the server\<close>

text \<open>
  The states that are reached while no \<^verbatim>\<open>send\<close> or \<^verbatim>\<open>broadcast\<close> fails with a recipient that waits, with all
  that has happened.
\<close>

inductive attended :: "'j env \<Rightarrow> 'j event list \<Rightarrow> dime_loop \<Rightarrow> bool" for E :: "'j env" where
  start: "\<lbrakk>dime_server_init ok = Some L; distinct (map fst fds); \<forall>fd \<in> fst ` set fds. 0 \<le> fd \<and> fd < 2 ^ 31;
    loop_start listens (L\<lparr>l_fds := fds\<rparr>) = (True, L0)\<rbrakk> \<Longrightarrow> attended E [] L0"
| serve: "\<lbrakk>attended E evs L; a_readable a \<longrightarrow> i \<in> l_rfds L; a_writable a \<longrightarrow> i \<in> l_wfds L; answers_ok a L;
    serve_fd E a fuel i L = Some (True, L'); told_fd E a fuel i L\<rbrakk> \<Longrightarrow>
    attended E (evs @ turn_events E a fuel i L) L'"
| refresh: "attended E evs L \<Longrightarrow> attended E evs (refresh_writers L)"

lemma attended_reachable: "attended E evs L \<Longrightarrow> reachable E L"
  by (induction rule: attended.induct) (blast intro: reachable.intros loop_step.intros)+

lemma start_quiet:
  assumes "dime_server_init ok = Some L"
  shows "net_of (l_srv (watch_all (L\<lparr>l_fds := fds\<rparr>))) = quiet_net" and "counted (l_srv (watch_all (L\<lparr>l_fds := fds\<rparr>)))"
proof -
  have f: "\<exists>b. l_srv (fold watch is L') = (l_srv L')\<lparr>h_fault := b\<rparr>" for "is" L'
  proof (induction "is" arbitrary: L')
    case Nil
    show ?case by (simp add: exI [of _ "h_fault (l_srv L')"])
  next
    case (Cons i "is")
    obtain b where "l_srv (fold watch is (watch i L')) = (l_srv (watch i L'))\<lparr>h_fault := b\<rparr>" using Cons by blast
    moreover obtain b' where "l_srv (watch i L') = (l_srv L')\<lparr>h_fault := b'\<rparr>"
    proof (cases "i < FD_SETSIZE")
      case True
      then show thesis using that [of "h_fault (l_srv L')"] by (simp add: watch_def)
    next
      case False
      then show thesis using that [of True] by (simp add: watch_def fault_loop_def fault_def)
    qed
    ultimately show ?case by (auto simp del: watch_fields)
  qed
  obtain b where b: "l_srv (watch_all (L\<lparr>l_fds := fds\<rparr>)) = (l_srv L)\<lparr>h_fault := b\<rparr>"
    using f [of "map fst fds" "L\<lparr>l_fds := fds, l_rfds := {}, l_wfds := {}, l_maxfd := -1\<rparr>"] by (auto simp: watch_all_def)
  have s: "h_clnts (l_srv L) = Map.empty" "h_groups (l_srv L) = Map.empty" "h_msgs (l_srv L) = Map.empty"
    using assms by (auto simp: dime_server_init_def split: option.splits if_splits)
  show "net_of (l_srv (watch_all (L\<lparr>l_fds := fds\<rparr>))) = quiet_net"
    by (simp add: b s net_of_def quiet_net_def relay_of_def membership_def member_def queue_of_def waiting_of_def fun_eq_iff)
  show "counted (l_srv (watch_all (L\<lparr>l_fds := fds\<rparr>)))"
    by (auto simp: b s counted_def refs_leak_def refs_upto_def holders_def queue_of_def intro: exI [of _ "\<lambda>_. 0"])
qed

lemma attended_run:
  assumes env: "env_ok E" "json_arrays E"
  shows "attended E evs L \<Longrightarrow> counted (l_srv L) \<and> net_run E evs quiet_net (net_of (l_srv L))"
proof (induction rule: attended.induct)
  case (start ok L fds ls L0)
  then show ?case using start_quiet [OF start(1), of fds] by (simp add: loop_start_go net_run.none)
next
  case (serve evs L a i fuel L')
  have "loop_inv E L" using reachable_loop_inv [OF env(1) attended_reachable [OF serve(1)]] .
  then have "evolves E (turn_events E a fuel i L) (l_srv L) (l_srv L')" by (rule serve_fd_evolves [OF env _ serve(4-6)])
  then show ?case using serve.IH net_run_append unfolding evolves_def by blast
next
  case (refresh evs L)
  have "evolves E [] (l_srv L) (l_srv (refresh_writers L))" by (rule refresh_writers_evolves)
  then show ?case
    using refresh.IH net_run_append [of E evs quiet_net "net_of (l_srv L)" "[]" "net_of (l_srv (refresh_writers L))"]
    by (simp add: evolves_def)
qed

end
