(* ===== verification/Network_Props.thy ===== *)
theory Network_Props
  imports Network Loop_Props
begin

text \<open>
  The whole server refines the network of the relay, and what that means: no message is ever lost from
  memory while a client has yet to fetch it, and only what a message for \<^verbatim>\<open>send\<close> or \<^verbatim>\<open>broadcast\<close> carries
  is delivered.
\<close>

section \<open>What holds in every run of the network\<close>

text \<open>What the messages for the two commands carry, among all that happens in a run.\<close>

definition sent_in :: "'j env \<Rightarrow> 'j event list \<Rightarrow> payload set" where
  "sent_in E evs = {p. \<exists>c j bin enough ok. Message c j bin enough ok \<in> set evs \<and>
     command_of E j \<in> {''send'', ''broadcast''} \<and> carries E j bin p}"

lemma relay_step_inbox:
  assumes "relay_step E c j bin ok A R R'" and "p \<in> set (r_inbox R' d)"
  shows "p \<in> set (r_inbox R d) \<or> command_of E j \<in> {''send'', ''broadcast''} \<and> carries E j bin p"
  using assms by cases (auto simp: post_def dest: in_set_dropD split: if_splits)

lemma net_step_inbox:
  assumes "net_step E ev N N'" and "p \<in> set (r_inbox (snd N') d)"
  shows "p \<in> set (r_inbox (snd N) d) \<or> p \<in> sent_in E [ev]"
  using assms
proof cases
  case (message c A j bin ok R R' enough)
  then show ?thesis using relay_step_inbox [OF message(5), of p d] assms(2) by (auto simp: sent_in_def)
qed (use assms(2) in \<open>auto simp: forget_def split: if_splits\<close>)

lemma net_run_inbox:
  "net_run E evs N N' \<Longrightarrow> p \<in> set (r_inbox (snd N') d) \<Longrightarrow> p \<in> set (r_inbox (snd N) d) \<or> p \<in> sent_in E evs"
proof (induction rule: net_run.induct)
  case (none N)
  then show ?case by simp
next
  case (step evs N N' ev N'')
  then have "p \<in> set (r_inbox (snd N) d) \<or> p \<in> sent_in E evs \<or> p \<in> sent_in E [ev]"
    using net_step_inbox [OF step(2,4)] step.IH by blast
  moreover have "sent_in E (evs @ [ev]) = sent_in E evs \<union> sent_in E [ev]"
    unfolding sent_in_def set_append by blast
  ultimately show ?case by blast
qed

text \<open>A client is there because it has connected.\<close>

lemma net_run_connected: "net_run E evs N N' \<Longrightarrow> c \<in> fst N' \<Longrightarrow> c \<in> fst N \<or> Connected c \<in> set evs"
proof (induction rule: net_run.induct)
  case (step evs N N' ev N'')
  have "c \<in> fst N' \<or> ev = Connected c" using step(2,4) by cases auto
  then show ?case using step.IH by auto
qed simp

section \<open>The server\<close>

lemma counted_held:
  assumes inv: "srv_inv s" and "counted s" and m: "m \<in> set (queue_of s c)"
  shows "\<exists>msg. h_msgs s m = Some msg \<and> card {d. m \<in> set (queue_of s d)} \<le> unat (m_refs msg)"
proof -
  obtain X where X: "refs_leak X s" using assms(2) by (auto simp: counted_def)
  have "c \<in> holders (queue_of s) m" using m by (simp add: holders_def)
  then show ?thesis
    using refs_uptoD(2) [OF X [unfolded refs_leak_def], of m] by (cases "h_msgs s m") (auto simp: holders_def)
qed

text \<open>
  C1. Refinement over whole runs.  From its start on, whatever clients connect, send and disconnect,
  and whatever allocations and system calls fail, all that has happened is a run of the network of the relay
  that ends in the state of the server: a client that connects starts with nothing; each message, as it was
  popped from the bytes of its sender, makes the step of the relay for its command and its data, and succeeds
  only if the request makes sense (\<open>granted\<close>), and always if it does and resources are plenty; and a client
  that disconnects is forgotten.  Every message in a queue is still in memory, with a count that is at least
  the number of queues that hold it, so that none is freed too early; and what it carries is the value
  and the data of a message for \<^verbatim>\<open>send\<close> or \<^verbatim>\<open>broadcast\<close> that has arrived in this run, so that no other
  input is ever delivered.  Excluded (\<open>attended\<close>) are runs in which a \<^verbatim>\<open>send\<close> or \<^verbatim>\<open>broadcast\<close> fails while one of
  its recipients waits: after that a queued message may be counted for too few, as \<open>untold_recipient_dangles\<close>
  shows.
\<close>

theorem server_refines_network:
  assumes "env_ok E" and "json_arrays E" and "attended E evs L" and "s = l_srv L"
  shows "net_run E evs quiet_net (dom (h_clnts s), relay_of s) \<and>
    (\<forall>c. \<forall>m \<in> set (queue_of s c). \<exists>msg. h_msgs s m = Some msg \<and>
       card {d. m \<in> set (queue_of s d)} \<le> unat (m_refs msg) \<and>
       (m_jsondata msg, m_bindata msg) \<in> sent_in E evs)"
proof -
  note run = attended_run [OF assms(1-3), folded assms(4)]
  have inv: "srv_inv s" using reachable_loop_inv [OF assms(1) attended_reachable [OF assms(3)]] assms(4) loop_inv_inv by blast
  have net: "net_run E evs quiet_net (dom (h_clnts s), relay_of s)" using run by (simp add: net_of_def)
  have "\<exists>msg. h_msgs s m = Some msg \<and> card {d. m \<in> set (queue_of s d)} \<le> unat (m_refs msg) \<and>
      (m_jsondata msg, m_bindata msg) \<in> sent_in E evs" if m: "m \<in> set (queue_of s c)" for c m
  proof -
    obtain msg where msg: "h_msgs s m = Some msg" "card {d. m \<in> set (queue_of s d)} \<le> unat (m_refs msg)"
      using counted_held [OF inv _ m] run by blast
    have "payload s m \<in> set (r_inbox (relay_of s) c)" using m by (simp add: relay_of_def)
    then have "payload s m \<in> sent_in E evs"
      using net_run_inbox [OF net, of "payload s m" c] by (simp add: quiet_net_def)
    then show ?thesis using msg by (simp add: payload_def)
  qed
  then show ?thesis using net by blast
qed

theorem server_refines_network_witness:
  "\<exists>evs L c. attended demo_env evs L \<and> dom (h_clnts (l_srv L)) = {c} \<and> Connected c \<in> set evs \<and>
     net_run demo_env evs quiet_net ({c}, relay_of (l_srv L))"
proof -
  obtain L c cl L1 where f: "find_client 4 first_loop = Some (None, L1)" "answers_ok accept_answers first_loop"
    and L: "serve_fd demo_env accept_answers 0 4 first_loop = Some (True, L)" "h_clnts (l_srv L) = [c \<mapsto> cl]"
    by (rule accepted_turn) blast
  have i: "dime_server_init (\<lambda>_. True) = Some (the (dime_server_init (\<lambda>_. True)))" using server_init_succeeds by auto
  have "attended demo_env [] first_loop" unfolding first_loop_def
    by (rule attended.start [OF i, of "[(4, DIME_TCP)]" "\<lambda>_. True"]) (simp_all add: loop_start_go)
  then have a: "attended demo_env ([] @ turn_events demo_env accept_answers 0 4 first_loop) L"
    by (rule attended.serve [OF _ _ _ f(2) L(1)])
      (use f(1) first_loop(3) in \<open>simp_all add: accept_answers_def told_fd_def\<close>)
  then obtain evs where a: "attended demo_env evs L" by blast
  then have run: "net_run demo_env evs quiet_net ({c}, relay_of (l_srv L))"
    using server_refines_network [OF demo_env(1,2) a refl] L(2) by simp
  then have "Connected c \<in> set evs" using net_run_connected [of demo_env evs quiet_net _ c] by (fastforce simp: quiet_net_def)
  then show ?thesis using a L(2) run by (intro exI [of _ evs] exI [of _ L] exI [of _ c]) simp
qed

end
