(* ===== verification/Memory.thy ===== *)
theory Memory
  imports Network Client_Success
begin

text \<open>
  No operation of the server follows a pointer to an object that is gone, over whole runs: what is
  needed of the two tables for this, that each keeps a free slot, and that every operation keeps it
  as long as allocations succeed.
\<close>

section \<open>What the commands leave alone\<close>

text \<open>The two tables and the next address, which only creating groups and messages changes.\<close>

definition naming :: "dime_server \<Rightarrow> (string, addr) dime_table \<times> (int, addr) dime_table \<times> addr" where
  "naming s = (h_name2clnt s, h_fd2clnt s, h_next s)"

lemma naming_steps [simp]:
  "naming (tick s) = naming s" "naming (fault s) = naming s" "naming (set_clnt c cl s) = naming s"
  "naming (set_group g gr s) = naming s" "naming (err_copy msg s) = naming s" "naming (err_cat p msg s) = naming s"
  "naming (s\<lparr>h_serialization := x\<rparr>) = naming s" "naming (s\<lparr>h_err := msg\<rparr>) = naming s"
  "naming (s\<lparr>h_msgs := M\<rparr>) = naming s" "naming (s\<lparr>h_clnts := C\<rparr>) = naming s" "naming (s\<lparr>h_groups := G\<rparr>) = naming s"
  by (simp_all add: naming_def tick_def fault_def set_clnt_def set_group_def err_copy_def err_cat_def Let_def)

lemma naming_push [simp]:
  "naming (snd (clnt_push E c j s)) = naming s" "naming (snd (clnt_push_str E c str bin s)) = naming s"
  by (simp_all add: clnt_push_def clnt_push_str_def Let_def split_beta split: option.split)

lemma naming_fail [simp]:
  "naming (fail_text E c msg s) = naming s" "naming (fail_errno E c s) = naming s" "naming (fail_cat E c p msg s) = naming s"
  by (simp_all add: fail_text_def fail_errno_def fail_cat_def respond_def split: option.split)

lemma naming_reply [simp]: "naming (snd (reply_ok E c s)) = naming s"
  by (simp add: reply_ok_def Let_def split_beta)

lemma naming_refs [simp]: "naming (add_refs d m s) = naming s" "naming (free_if_unused m s) = naming s"
  by (simp_all add: add_refs_def free_if_unused_def split: option.split)

lemma naming_notify [simp]: "naming (snd (notify E d s)) = naming s"
  by (simp add: notify_def Let_def split_beta split: option.split)

lemma naming_deliver [simp]: "naming (snd (deliver E c m d s)) = naming s"
  by (simp add: deliver_def Let_def split_beta split: option.split bool.split)

lemma naming_foreach:
  assumes "\<And>x s. naming (snd (f x s)) = naming s"
  shows "naming (snd (foreach f xs s)) = naming s"
  by (induction xs arbitrary: s) (simp_all add: split_beta assms split: bool.split)

lemma naming_sync_loop [simp]: "naming (snd (sync_loop E c n s)) = naming s"
  by (induction n arbitrary: s) (simp_all add: Let_def split_beta split: option.split)

lemma naming_leave [simp]: "naming (snd (dime_client_leave E c j s)) = naming s"
proof -
  have "naming (snd (leave_one E c v s)) = naming s" for v s
    by (simp add: leave_one_def Let_def split: option.split)
  note * = naming_foreach [OF this]
  have "naming (snd (foreach (leave_one E c) vs s)) = naming s" for vs s by (rule *)
  then show ?thesis by (simp add: dime_client_leave_def split_beta split: sum.split bool.split)
qed

lemma naming_sync [simp]: "naming (snd (dime_client_sync E c j s)) = naming s"
  by (simp add: dime_client_sync_def split_beta split: option.split bool.split)

lemma naming_wait [simp]: "naming (snd (dime_client_wait E c s)) = naming s"
  by (simp add: dime_client_wait_def split_beta split: option.split bool.split)

lemma naming_same: "same_but_socks s s' \<Longrightarrow> naming s' = naming s"
  by (simp add: same_but_socks_def naming_def)

text \<open>A message takes one address.\<close>

definition same_tables :: "dime_server \<Rightarrow> dime_server \<Rightarrow> bool" where
  "same_tables s s' \<longleftrightarrow> h_name2clnt s' = h_name2clnt s \<and> h_fd2clnt s' = h_fd2clnt s \<and> h_next s \<le> h_next s'"

lemma same_tables_naming: "naming s' = naming s \<Longrightarrow> same_tables s s'"
  by (simp add: naming_def same_tables_def)

lemma same_tables_trans [trans]: "same_tables s s' \<Longrightarrow> same_tables s' s'' \<Longrightarrow> same_tables s s''"
  by (simp add: same_tables_def)

lemma new_message_tables: "same_tables s (snd (new_message E j bin s))"
  by (simp add: new_message_def same_tables_def Let_def tick_def split: option.split)

lemma broadcast_tables: "same_tables s (snd (dime_client_broadcast E c j bin s))"
proof -
  have "naming (snd (foreach (deliver_other E c m) ds s)) = naming s" for m ds s
    by (rule naming_foreach) (simp add: deliver_other_def split: option.split)
  then have "naming (snd (dime_client_broadcast E c j bin s)) = naming (snd (new_message E j bin s))"
    by (simp add: dime_client_broadcast_def split_beta split: option.split bool.split)
  then show ?thesis by (rule same_tables_trans [OF new_message_tables same_tables_naming])
qed

section \<open>The table of the groups keeps a free slot\<close>

text \<open>There are no more groups than addresses have been given out.\<close>

lemma names_few:
  assumes inv: "srv_inv s"
  shows "t_len (h_name2clnt s) \<le> h_next s"
proof -
  let ?t = "h_name2clnt s"
  have g: "the (table_map ?t n) < h_next s \<and> group_name s (the (table_map ?t n)) = Some n" if n: "n \<in> dom (table_map ?t)" for n
  proof -
    obtain g where g: "table_map ?t n = Some g" using n by blast
    then have name: "group_name s g = Some n" using srv_inv_parts(4) [OF inv] by simp
    then have "\<not> h_next s \<le> g" using srv_inv_parts(11) [OF inv, of g] by (auto simp: group_name_def)
    then show ?thesis using g name by simp
  qed
  then have "inj_on (\<lambda>n. the (table_map ?t n)) (dom (table_map ?t))"
    by (intro inj_onI) (metis option.inject)
  then have "card (dom (table_map ?t)) \<le> card {..<h_next s}"
    by (rule card_inj_on_le) (use g in auto)
  then show ?thesis using t_len_card(1) [OF srv_inv_parts(2) [OF inv]] by simp
qed

definition MANY :: nat where
  "MANY = 2 ^ 40"

definition grown :: "dime_server \<Rightarrow> dime_server \<Rightarrow> bool" where
  "grown s s' \<longleftrightarrow> h_fd2clnt s' = h_fd2clnt s \<and> h_next s \<le> h_next s' \<and>
     (table_live (h_name2clnt s) \<and> h_next s' \<le> MANY \<longrightarrow> table_live (h_name2clnt s'))"

lemma grown_trans [trans]: "grown s s' \<Longrightarrow> grown s' s'' \<Longrightarrow> grown s s''"
  by (auto simp: grown_def)

lemma grown_tables: "same_tables s s' \<Longrightarrow> grown s s'"
  by (simp add: same_tables_def grown_def)

lemma grown_naming: "naming s' = naming s \<Longrightarrow> grown s s'"
  by (simp add: naming_def grown_def)

lemma grown_search: "table_live t = table_live (h_name2clnt s) \<Longrightarrow> grown s (s\<lparr>h_name2clnt := t\<rparr>)"
  by (simp add: grown_def)

lemma naming_join_group [simp]: "naming (snd (join_group E c g s)) = naming s"
  by (simp add: join_group_def Let_def split: option.split)

lemma new_group_grown:
  assumes ok: "\<And>t i. e_ok E t i" and inv: "srv_inv s" and new: "table_map (h_name2clnt s) name = None"
  shows "grown s (snd (new_group E name s))"
proof (cases "table_live (h_name2clnt s) \<and> h_next s \<le> MANY")
  case True
  then have "t_len (h_name2clnt s) \<le> 2 ^ 40" using names_few [OF inv] by (simp add: MANY_def)
  then obtain g s' where "new_group E name s = (Some g, s')" "table_live (h_name2clnt s')" "h_next s' = Suc (h_next s)"
    "h_fd2clnt s' = h_fd2clnt s"
    using new_group_succeeds [OF ok inv new] True by blast
  then show ?thesis by (simp add: grown_def)
next
  case False
  have "h_fd2clnt (snd (new_group E name s)) = h_fd2clnt s \<and> h_next s \<le> h_next (snd (new_group E name s))"
    by (simp add: new_group_def Let_def tick_def fault_def set_group_def split: option.split)
  then show ?thesis using False by (auto simp: grown_def)
qed

lemma join_one_grown:
  assumes ok: "\<And>t i. e_ok E t i" and inv: "srv_inv s"
  shows "grown s (snd (join_one E c v s))"
proof -
  have fail: "grown s (fail_text E c msg s)" "grown s (fault s)" "grown s (fail_cat E c p msg s)" for p msg
    by (simp_all add: grown_naming)
  have found: "grown s (snd (case dime_table_search (h_name2clnt s) name of
      None \<Rightarrow> (False, fault s)
    | Some (Some g, tbl) \<Rightarrow> join_group E c g (s\<lparr>h_name2clnt := tbl\<rparr>)
    | Some (None, tbl) \<Rightarrow>
        (case new_group E name (s\<lparr>h_name2clnt := tbl\<rparr>) of
           (None, s) \<Rightarrow> (False, fail_errno E c s)
         | (Some g, s) \<Rightarrow> join_group E c g s)))" for name
  proof (rule table_search_cases [OF srv_inv_parts(2) [OF inv], of name])
    assume "dime_table_search (h_name2clnt s) name = None"
    then show ?thesis by (simp add: fail)
  next
    fix t
    assume t: "dime_table_search (h_name2clnt s) name = Some (table_map (h_name2clnt s) name, t)"
      "table_inv t" "table_map t = table_map (h_name2clnt s)" "table_live t = table_live (h_name2clnt s)"
    let ?s = "s\<lparr>h_name2clnt := t\<rparr>"
    note e = grown_search [OF t(4)]
    show ?thesis
    proof (cases "table_map (h_name2clnt s) name")
      case (Some g)
      then show ?thesis using t(1) grown_trans [OF e grown_naming] by simp
    next
      case None
      obtain r s1 where n: "new_group E name ?s = (r, s1)" by fastforce
      have "grown ?s s1"
        using new_group_grown [OF ok srv_inv_search [OF inv t(2,3)], where name = name] None t(3) n by simp
      then have "grown s s1" by (rule grown_trans [OF e])
      then show ?thesis using t(1) None n grown_trans [OF _ grown_naming] by (simp split: option.split)
    qed
  qed
  show ?thesis using found by (simp add: join_one_def fail split: option.split)
qed

lemma join_grown:
  assumes env: "env_ok E" and ok: "\<And>t i. e_ok E t i" and s: "alive c s"
  shows "grown s (snd (dime_client_join E c j s))"
proof -
  have "alive c s \<Longrightarrow> grown s (snd (foreach (join_one E c) vs s))" for vs
  proof (induction vs arbitrary: s)
    case Nil
    then show ?case by (simp add: grown_def)
  next
    case (Cons v vs)
    have a: "srv_inv s" "h_clnts s c \<noteq> None" using Cons.prems by (simp_all add: alive_def)
    have one: "grown s (snd (join_one E c v s))" by (rule join_one_grown [OF ok a(1)])
    have "alive c (snd (join_one E c v s))"
      using join_one_turn [OF env a, of v] by (simp add: turn_def alive_def)
    then show ?case using grown_trans [OF one Cons.IH] one by (simp add: split_beta split: bool.split)
  qed
  from this [OF s] have f: "grown s (snd (foreach (join_one E c) vs s))" for vs .
  show ?thesis
    using f grown_trans [OF f grown_naming] by (simp add: dime_client_join_def split_beta grown_naming split: sum.split bool.split)
qed

lemma send_grown:
  assumes inv: "srv_inv s"
  shows "grown s (snd (dime_client_send E c j bin s))"
proof (cases "e_unpack_s E j ''name''")
  case (Inl msg)
  then show ?thesis by (simp add: dime_client_send_def grown_naming)
next
  case (Inr name)
  have loop: "naming (snd (foreach (deliver E c m) ds s)) = naming s" for m ds s by (rule naming_foreach) simp
  show ?thesis
  proof (rule table_search_cases [OF srv_inv_parts(2) [OF inv], of name])
    assume "dime_table_search (h_name2clnt s) name = None"
    then show ?thesis using Inr by (simp add: dime_client_send_def grown_naming)
  next
    fix t
    assume t: "dime_table_search (h_name2clnt s) name = Some (table_map (h_name2clnt s) name, t)"
      "table_live t = table_live (h_name2clnt s)"
    let ?s = "s\<lparr>h_name2clnt := t\<rparr>"
    note e = grown_search [OF t(2)]
    have "grown s (snd (case new_message E j bin ?s of
        (None, s) \<Rightarrow> (-1, fail_errno E c s)
      | (Some m, s) \<Rightarrow>
          (case foreach (deliver E c m) ds s of
             (False, s) \<Rightarrow> (-1, s)
           | (True, s) \<Rightarrow> if no_refs m s then (-1, fault s) else reply_ok E c s)))" for ds
      by (rule grown_trans [OF e grown_trans [OF grown_tables [OF new_message_tables [where E = E and j = j and bin = bin]] grown_naming]])
        (simp add: split_beta loop split: option.split bool.split)
    then show ?thesis using Inr t(1) grown_trans [OF e grown_naming]
      by (simp add: dime_client_send_def Let_def split: option.split)
  qed
qed

section \<open>Any message\<close>

lemma dispatch_grown:
  assumes env: "env_ok E" "json_arrays E" and ok: "\<And>t i. e_ok E t i" and s: "alive c s"
  shows "grown s (snd (dispatch E c j bin s))"
proof -
  have a: "srv_inv s" "h_clnts s c \<noteq> None" using s by (simp_all add: alive_def)
  have "naming (snd (dime_client_devices E c s)) = naming s"
    using dime_client_devices_ok [OF env a] by (metis naming_same prod.collapse)
  moreover have "naming (snd (dime_client_handshake E c j s)) = naming s"
  proof -
    obtain x where "same_but_socks (with_serialization x s) (snd (dime_client_handshake E c j s))"
      using dime_client_handshake_ok [OF env(1) a, of j] by (metis prod.collapse)
    then show ?thesis using naming_same by fastforce
  qed
  ultimately show ?thesis
    using join_grown [OF env(1) ok s, of j] send_grown [OF a(1), of E c j bin] grown_tables [OF broadcast_tables [of s E c j bin]]
    by (simp add: dispatch_def Let_def grown_naming)
qed

text \<open>The only fault of a command is the search of a table without a free slot.\<close>

lemma dispatch_safe:
  assumes env: "env_ok E" "json_arrays E" and s: "alive c s" and refs: "refs_leak X s" and bin: "length bin \<le> ALLOC_MAX"
  shows "safe_fault s (snd (dispatch E c j bin s))"
proof -
  have a: "srv_inv s" "h_clnts s c \<noteq> None" using s by (simp_all add: alive_def)
  have same: "safe_fault s s'" if "h_fault s' = h_fault s" for s' using that by (simp add: safe_fault_def)
  have join: "safe_fault s (snd (dime_client_join E c j s))"
    using dime_client_join_ok [OF env(1) a, of j] by (metis prod.collapse safe_fault_def)
  have leave: "h_fault (snd (dime_client_leave E c j s)) = h_fault s"
    using dime_client_leave_ok [OF env(1) a, of j] by (metis prod.collapse)
  have send: "safe_fault s (snd (dime_client_send E c j bin s))"
    using dime_client_send_ok [OF env(1) a refs bin, of j] by (metis prod.collapse)
  have cast: "h_fault (snd (dime_client_broadcast E c j bin s)) = h_fault s"
    using dime_client_broadcast_ok [OF env(1) a refs bin, of j] by (metis prod.collapse)
  have sync: "h_fault (snd (dime_client_sync E c j s)) = h_fault s"
  proof (cases "e_unpack_I E j ''n''")
    case None
    then show ?thesis by (simp add: dime_client_sync_def)
  next
    case (Some n)
    then show ?thesis using dime_client_sync_ok [OF env(1) a refs Some] by (metis prod.collapse took_def)
  qed
  have wait: "h_fault (snd (dime_client_wait E c s)) = h_fault s"
    using dime_client_wait_ok [OF env(1) a] by (metis prod.collapse)
  have devices: "h_fault (snd (dime_client_devices E c s)) = h_fault s"
    using dime_client_devices_ok [OF env a] by (metis prod.collapse same_but_socks_def)
  have "h_fault (snd (dime_client_handshake E c j s)) = h_fault s"
  proof -
    obtain x where "same_but_socks (with_serialization x s) (snd (dime_client_handshake E c j s))"
      using dime_client_handshake_ok [OF env(1) a, of j] by (metis prod.collapse)
    then show ?thesis by (simp add: same_but_socks_def)
  qed
  moreover have "h_fault (fail_text E c msg s) = h_fault s" for msg
    using fail_same(1) [OF env(1) a(2), of msg] by (simp add: same_but_socks_def)
  ultimately show ?thesis using join leave send cast sync wait devices same by (simp add: dispatch_def Let_def)
qed

end
