(* ===== verification/Memory_Run.thy ===== *)
theory Memory_Run
  imports Memory
begin

text \<open>
  The turns of the select loop keep the state healthy: references counted, both tables with a free
  slot, and no access to an object that is gone.
\<close>

section \<open>Healthy states\<close>

text \<open>The table of the groups can keep a free slot only while there are not too many of them.\<close>

definition healthy :: "dime_server \<Rightarrow> bool" where
  "healthy s \<longleftrightarrow> counted s \<and> table_live (h_fd2clnt s) \<and>
     (h_next s \<le> MANY \<longrightarrow> table_live (h_name2clnt s) \<and> \<not> h_fault s)"

definition sound :: "dime_server \<Rightarrow> dime_server \<Rightarrow> bool" where
  "sound s s' \<longleftrightarrow> h_next s \<le> h_next s' \<and> (healthy s \<longrightarrow> healthy s')"

lemma sound_refl [simp]: "sound s s"
  by (simp add: sound_def)

lemma sound_trans [trans]: "sound s s' \<Longrightarrow> sound s' s'' \<Longrightarrow> sound s s''"
  by (auto simp: sound_def)

lemma counted_same: "same_but_socks s s' \<Longrightarrow> counted s \<Longrightarrow> counted s'"
  using refs_same_socks by (auto simp: counted_def)

lemma counted_view: "queue_of s' = queue_of s \<Longrightarrow> h_msgs s' = h_msgs s \<Longrightarrow> counted s' = counted s"
  by (simp add: counted_def refs_leak_def)

lemma sound_view:
  assumes "queue_of s' = queue_of s" and "h_msgs s' = h_msgs s" and "table_live (h_fd2clnt s') = table_live (h_fd2clnt s)"
    and "h_name2clnt s' = h_name2clnt s" and "h_next s \<le> h_next s'" and "h_fault s' = h_fault s"
  shows "sound s s'"
  using assms counted_view [OF assms(1,2)] by (auto simp: sound_def healthy_def)

lemma sound_same:
  assumes same: "same_but_socks s s'"
  shows "sound s s'"
proof (rule sound_view [OF same_view(2) [OF same] same_view(4) [OF same]])
qed (use same in \<open>simp_all add: same_but_socks_def\<close>)

lemma sound_small [simp]: "sound s (tick s)" "sound s (err_copy msg s)"
  by (rule sound_same, simp)+

lemma sound_fields [simp]: "sound s (s\<lparr>h_err := msg\<rparr>)"
  by (rule sound_view) (simp_all add: queue_of_def fun_eq_iff)

lemma sound_sock:
  assumes "h_clnts s c = Some cl" and "sock_inv (c_sock cl) \<Longrightarrow> sock_inv sock"
  shows "sound s (tick (set_clnt c (cl\<lparr>c_sock := sock\<rparr>) s))"
  using same_but_socks_trans [OF same_set_sock [OF assms(1)] same_tick] assms(2)
  by (intro sound_same) (simp add: same_clnt_def)

lemma sound_grown:
  assumes g: "grown s s'" and "counted s \<Longrightarrow> counted s'" and "counted s \<Longrightarrow> safe_fault s s'"
  shows "sound s s'"
proof -
  have "healthy s'" if h: "healthy s"
    using h g assms(2,3) by (auto simp: healthy_def grown_def safe_fault_def)
  then show ?thesis using g by (simp add: sound_def grown_def)
qed

section \<open>Messages\<close>

lemma dispatch_sound:
  assumes env: "env_ok E" "json_arrays E" and ok: "\<And>t i. e_ok E t i" and s: "alive c s" and bin: "length bin \<le> ALLOC_MAX"
    and told: "fst (dispatch E c j bin s) = 0 \<or> (\<forall>d \<in> recipients E c j s. \<not> waiting_of s d)"
  shows "sound s (snd (dispatch E c j bin s))"
proof (rule sound_grown [OF dispatch_grown [OF env ok s]])
  assume "counted s"
  then obtain X where X: "refs_leak X s" by (auto simp: counted_def)
  have a: "srv_inv s" "h_clnts s c \<noteq> None" using s by (simp_all add: alive_def)
  have "relayed X E c j bin s (fst (dispatch E c j bin s), snd (dispatch E c j bin s))"
    by (rule dispatch_relayed [OF env a X bin _ told, THEN conjunct2]) simp
  then show "counted (snd (dispatch E c j bin s))" by (auto simp: relayed_def counted_def)
  show "safe_fault s (snd (dispatch E c j bin s))" by (rule dispatch_safe [OF env s X bin])
qed

lemma message_loop_sound:
  assumes env: "env_ok E" "json_arrays E" and ok: "\<And>t i. e_ok E t i"
  shows "alive c s \<Longrightarrow> told n E c s \<Longrightarrow> message_loop n E c s = Some (True, s') \<Longrightarrow> sound s s'"
proof (induction n arbitrary: s)
  case 0
  then show ?case by simp
next
  case (Suc n)
  obtain cl where cl: "h_clnts s c = Some cl" using Suc.prems(1) by (auto simp: alive_def)
  have sock_cl: "sock_inv (c_sock cl)" using Suc.prems(1) srv_inv_parts(8) [OF _ cl] by (simp add: alive_def)
  obtain r sock where pop:
    "dime_socket_pop (e_loadb E) (e_errno E (h_tick s)) (e_ok E (h_tick s)) (c_sock cl) = Some (r, sock)"
    and s1: "alive c (tick (set_clnt c (cl\<lparr>c_sock := sock\<rparr>) s))"
    and msg: "\<And>siz j bin s'. r = Pop_Message siz j bin \<Longrightarrow>
      s' = snd (dispatch E c j bin (tick (set_clnt c (cl\<lparr>c_sock := sock\<rparr>) s))) \<Longrightarrow> alive c s' \<and> conns s' = conns s"
    by (rule message_turn [OF env(1) Suc.prems(1) cl]) blast
  let ?s1 = "tick (set_clnt c (cl\<lparr>c_sock := sock\<rparr>) s)"
  have e1: "sound s ?s1" by (rule sound_sock [OF cl]) (use pop_inv [OF _ pop] in blast)
  show ?case
  proof (cases r)
    case (Pop_Message siz j bin)
    let ?s2 = "snd (dispatch E c j bin ?s1)"
    have t: "fst (dispatch E c j bin ?s1) = 0 \<or> (\<forall>d \<in> recipients E c j ?s1. \<not> waiting_of ?s1 d)" "told n E c ?s2"
      using Suc.prems(2) cl pop Pop_Message by (simp_all add: Let_def split_beta)
    have rest: "message_loop n E c ?s2 = Some (True, s')" using Suc.prems(3) cl pop Pop_Message by (simp add: Let_def)
    have bin: "length bin \<le> ALLOC_MAX" by (rule pop_bin_len [OF sock_cl pop [unfolded Pop_Message]])
    have "alive c ?s2" using msg [OF Pop_Message refl] by blast
    note IH = Suc.IH [OF this t(2) rest]
    show ?thesis by (rule sound_trans [OF e1 sound_trans [OF dispatch_sound [OF env ok s1 bin t(1)] IH]])
  qed (use Suc.prems(3) e1 cl pop in \<open>simp_all add: Let_def\<close>)
qed

section \<open>Closing and accepting\<close>

lemma closed_sound:
  assumes inv: "srv_inv s" and cl: "h_clnts s c = Some cl" and closed: "closed c cl s s'"
  shows "sound s s'"
proof -
  have "healthy s'" if h: "healthy s"
  proof -
    obtain X where X: "refs_leak X s" using h by (auto simp: healthy_def counted_def)
    have "counted s'" by (rule closed_counted [OF inv cl closed X])
    moreover have "h_fault s' = h_fault s" using closed X by (auto simp: closed_def)
    ultimately show ?thesis using h closed by (simp add: healthy_def closed_def)
  qed
  then show ?thesis using closed by (simp add: sound_def closed_def)
qed

lemma drop_client_sound:
  assumes "loop_inv E L" and cl: "h_clnts (l_srv L) c = Some cl"
  shows "sound (l_srv L) (l_srv (drop_client c L))"
proof -
  have inv: "srv_inv (l_srv L)" using assms(1) by (rule loop_inv_inv)
  obtain s' where "drop_client c L =
      L\<lparr>l_srv := s', l_rfds := l_rfds L - {c_fd cl}, l_wfds := l_wfds L - {c_fd cl}\<rparr>"
    and "closed c cl (l_srv L) s'"
    by (rule drop_client_ok [OF inv cl])
  then show ?thesis using closed_sound [OF inv cl] by simp
qed

lemma register_client_sound:
  assumes ok: "\<And>t i. e_ok E t i" and L: "loop_inv E L" and c: "h_clnts (l_srv L) c = None"
    and cl: "dq_list (c_queue cl) = []" "c_fd cl \<notin> open_fds L" "c_fd cl < FD_SETSIZE"
  shows "sound (l_srv L) (l_srv (register_client E c cl L))"
proof -
  let ?s = "l_srv L"
  have inv: "srv_inv ?s" by (rule loop_inv_inv [OF L])
  have "\<nexists>d x. h_clnts ?s d = Some x \<and> c_fd x = c_fd cl" using cl(2) by (auto simp: open_fds_def)
  then have none: "table_map (h_fd2clnt ?s) (c_fd cl) = None"
    using srv_inv_parts(3) [OF inv, of "c_fd cl"] by (metis not_None_eq)
  have few: "t_len (h_fd2clnt ?s) \<le> 2 ^ 40" using t_len_few [OF inv] by simp
  show ?thesis
  proof (cases "table_live (h_fd2clnt ?s)")
    case True
    obtain t where t: "dime_table_insert (e_ok E (h_tick ?s)) (h_fd2clnt ?s) (c_fd cl) c = Some (0, t)" "table_live t"
      by (rule insert_few_live [where ok = "e_ok E (h_tick ?s)" and v = c, OF srv_inv_parts(1) [OF inv] none True few ok])
    have "queue_of (tick (set_clnt c cl (?s\<lparr>h_fd2clnt := t\<rparr>))) = queue_of ?s"
      using c cl(1) by (auto simp: queue_of_def fun_eq_iff)
    then have "sound ?s (tick (set_clnt c cl (?s\<lparr>h_fd2clnt := t\<rparr>)))"
      by (rule sound_view) (use t(2) True in \<open>simp_all\<close>)
    then show ?thesis using t(1) cl(3) by (simp add: register_client_def watch_def Let_def)
  next
    case False
    have "h_next ?s \<le> h_next (l_srv (register_client E c cl L))"
      by (simp add: register_client_def watch_def fault_loop_def Let_def tick_def err_copy_def set_clnt_def fault_def split: option.split)
    then show ?thesis using False by (simp add: sound_def healthy_def)
  qed
qed

lemma accept_client_sound:
  assumes ok: "\<And>t i. e_ok E t i" and L: "loop_inv E L" and a: "answers_ok a L" "a_accept a < FD_SETSIZE"
    and run: "accept_client E a protocol L = (cont, True, L')"
  shows "sound (l_srv L) (l_srv L')"
proof -
  let ?s = "tick (l_srv L)" and ?t = "h_tick (l_srv L)"
  let ?L = "L\<lparr>l_srv := ?s\<lparr>h_next := Suc (h_next ?s)\<rparr>\<rparr>"
  have clear: "sound (l_srv L) (?s\<lparr>h_err := ''''\<rparr>)" by (rule sound_trans [of _ ?s]) simp_all
  have "sound ?s (l_srv ?L)" by (rule sound_view) (simp_all add: queue_of_def fun_eq_iff)
  then have step: "sound (l_srv L) (l_srv ?L)" by (rule sound_trans [OF sound_small(1)])
  have inv: "srv_inv ?s" using loop_inv_inv [OF L] by simp
  have L': "loop_inv E ?L" by (rule loop_inv_srv [OF L srv_inv_next [OF inv]]) (simp add: conns_def tick_def)
  have reg: "sound (l_srv L) (l_srv (register_client E (h_next ?s) (cl\<lparr>c_sock := sock\<rparr>) ?L))"
    if init: "dime_client_init (\<lambda>i. e_ok E ?t (Suc i)) (a_accept a) (a_stack a) (a_peer a) = Client_Ready cl" and "\<not> a_accept a < 0"
    for cl sock
  proof (rule sound_trans [OF step register_client_sound [OF ok L']])
    note i = dime_client_init_ok [OF init]
    show "h_clnts (l_srv ?L) (h_next ?s) = None" using srv_inv_parts(11) [OF inv] by simp
    show "dq_list (c_queue (cl\<lparr>c_sock := sock\<rparr>)) = []" using i by simp
    show "c_fd (cl\<lparr>c_sock := sock\<rparr>) \<notin> open_fds ?L" using i a that(2) by (simp add: answers_ok_def open_fds_def)
    show "c_fd (cl\<lparr>c_sock := sock\<rparr>) < FD_SETSIZE" using i a(2) by simp
  qed
  have same: "cl\<lparr>c_sock := c_sock cl\<rparr> = cl" for cl :: dime_client by simp
  have plain: "sound (l_srv L) (l_srv (register_client E (h_next ?s) cl ?L))"
    if "dime_client_init (\<lambda>i. e_ok E ?t (Suc i)) (a_accept a) (a_stack a) (a_peer a) = Client_Ready cl" "\<not> a_accept a < 0" for cl
    using reg [OF that, of "c_sock cl"] by (simp only: same)
  show ?thesis
    using clear step reg plain run
    by (auto simp: accept_client_def Let_def split: client_init.splits ws_outcome.splits if_splits)
qed

section \<open>Receiving and sending\<close>

lemma serve_input_sound:
  assumes env: "env_ok E" "json_arrays E" and ok: "\<And>t i. e_ok E t i" and L: "loop_inv E L" and cl: "h_clnts (l_srv L) c = Some cl"
    and recv: "\<And>bs. a_recv a RECVBUFLEN = Some bs \<Longrightarrow> length bs \<le> RECVBUFLEN"
    and run: "serve_input E a c fuel L = Some (here, True, L')" and told: "told_input E a c fuel (l_srv L)"
  shows "sound (l_srv L) (l_srv L')"
proof -
  let ?s = "l_srv L"
  obtain n sock where r: "dime_socket_recvpartial (e_errno E (h_tick ?s)) (e_ok E (h_tick ?s)) (a_recv a) (c_sock cl) = (n, sock)"
    by fastforce
  have sock: "sock_inv sock"
    using recvpartial_inv [OF srv_inv_parts(8) [OF loop_inv_inv [OF L] cl] recv] r by (metis snd_conv)
  let ?u = "tick (set_clnt c (cl\<lparr>c_sock := sock\<rparr>) ?s)"
  have e: "sound ?s ?u" by (rule sound_sock [OF cl sock])
  note u = loop_inv_sock [OF L cl sock]
  show ?thesis
  proof (cases "n \<le> 0")
    case True
    have "sound ?u (l_srv (drop_client c (L\<lparr>l_srv := ?u\<rparr>)))"
      using drop_client_sound [OF u(1), of c "cl\<lparr>c_sock := sock\<rparr>"] by simp
    then show ?thesis using run cl r True sound_trans [OF e] by (auto simp: serve_input_def Let_def)
  next
    case False
    then obtain s' where s': "message_loop fuel E c ?u = Some (True, s')" "L' = L\<lparr>l_srv := s'\<rparr>"
      using run cl r by (auto simp: serve_input_def Let_def)
    have "told fuel E c ?u" using told cl r False by (simp add: told_input_def)
    then have "sound ?u s'" by (rule message_loop_sound [OF env ok u(2) _ s'(1)])
    then show ?thesis using sound_trans [OF e] s'(2) by simp
  qed
qed

lemma serve_output_sound:
  assumes L: "loop_inv E L" and cl: "h_clnts (l_srv L) c = Some cl"
  shows "sound (l_srv L) (l_srv (snd (serve_output E a c L)))"
proof -
  let ?s = "l_srv L"
  obtain n sock where r: "dime_socket_sendpartial (e_errno E (h_tick ?s)) (e_ok E (h_tick ?s) 0) (a_send a) (c_sock cl) = (n, sock)"
    by fastforce
  have sock: "sock_inv sock"
    using sendpartial_inv [OF srv_inv_parts(8) [OF loop_inv_inv [OF L] cl]] r by (metis snd_conv)
  let ?u = "tick (set_clnt c (cl\<lparr>c_sock := sock\<rparr>) ?s)"
  have e: "sound ?s ?u" by (rule sound_sock [OF cl sock])
  have "sound ?u (l_srv (drop_client c (L\<lparr>l_srv := ?u\<rparr>)))"
    using drop_client_sound [OF loop_inv_sock(1) [OF L cl sock], of c "cl\<lparr>c_sock := sock\<rparr>"] by simp
  then show ?thesis using e sound_trans [OF e] cl r by (simp add: serve_output_def Let_def)
qed

lemma find_client_sound:
  assumes L: "loop_inv E L" and f: "find_client i L = Some (r, L')"
  shows "sound (l_srv L) (l_srv L')"
proof (rule table_search_cases [OF srv_inv_parts(1) [OF loop_inv_inv [OF L]], of i])
  fix t assume "dime_table_search (h_fd2clnt (l_srv L)) i = Some (table_map (h_fd2clnt (l_srv L)) i, t)"
    and live: "table_live t = table_live (h_fd2clnt (l_srv L))"
  then have "l_srv L' = (l_srv L)\<lparr>h_fd2clnt := t\<rparr>" using f by (auto simp: find_client_def)
  then show ?thesis using live by (intro sound_view) (simp_all add: queue_of_def fun_eq_iff)
qed (use f in \<open>simp add: find_client_def\<close>)

lemma serve_write_sound:
  assumes L: "loop_inv E L" and known: "\<And>c. known = Some c \<Longrightarrow> h_clnts (l_srv L) c \<noteq> None"
    and run: "serve_write E a i known L = (True, L')"
  shows "sound (l_srv L) (l_srv L')"
proof (cases known)
  case (Some c)
  then show ?thesis using known run serve_output_sound [OF L, of c _ a] by (auto simp: serve_write_def prod_eq_iff split: if_splits)
next
  case None
  show ?thesis
  proof (rule find_client_cases [OF L, of i])
    assume "find_client i L = None"
    then show ?thesis using None run by (simp add: serve_write_def split: if_splits)
  next
    fix L1 assume f: "find_client i L = Some (None, L1)"
    then show ?thesis using None run find_client_sound [OF L f] by (simp add: serve_write_def split: if_splits)
  next
    fix c cl L1 assume f: "find_client i L = Some (Some c, L1)" "loop_inv E L1" "h_clnts (l_srv L1) c = Some cl"
    show ?thesis
      using None run f(1) sound_trans [OF find_client_sound [OF L f(1)] serve_output_sound [OF f(2,3), of a]]
      by (auto simp: serve_write_def prod_eq_iff split: if_splits)
  qed
qed

section \<open>A turn of the loop\<close>

lemma serve_fd_sound:
  assumes env: "env_ok E" "json_arrays E" and ok: "\<And>t i. e_ok E t i" and L: "loop_inv E L"
    and a: "answers_ok a L" "a_accept a < FD_SETSIZE"
    and run: "serve_fd E a fuel i L = Some (True, L')" and told: "told_fd E a fuel i L"
  shows "sound (l_srv L) (l_srv L')"
proof (cases "a_readable a")
  case False
  then show ?thesis using run serve_write_sound [OF L, of None a i L'] by (simp add: serve_fd_def)
next
  case True
  show ?thesis
  proof (rule find_client_cases [OF L, of i])
    assume "find_client i L = None"
    then show ?thesis using True run by (simp add: serve_fd_def)
  next
    fix L1 assume f: "find_client i L = Some (None, L1)" "loop_inv E L1" "open_fds L1 = open_fds L"
    note e = find_client_sound [OF L f(1)]
    have a1: "answers_ok a L1" using a f(3) by (simp add: answers_ok_def)
    show ?thesis
    proof (cases "map_of (l_fds L1) i")
      case None
      then show ?thesis using True run f e by (simp add: serve_fd_def)
    next
      case (Some protocol)
      obtain m k L2 where acc: "accept_client E a protocol L1 = (m, k, L2)"
        by (cases "accept_client E a protocol L1")
      have inv: "loop_inv E L2" using accept_client_inv [OF f(2) a1, of protocol] acc by simp
      show ?thesis
      proof (cases m)
        case False
        then have r: "accept_client E a protocol L1 = (False, True, L')"
          using run True f(1) Some acc by (simp add: serve_fd_def)
        show ?thesis by (rule sound_trans [OF e accept_client_sound [OF ok f(2) a1 a(2) r]])
      next
        case True
        have k: "k" using acc True by (auto simp: accept_client_def Let_def split: if_splits client_init.splits ws_outcome.splits)
        have r: "accept_client E a protocol L1 = (True, True, L2)" using acc True k by simp
        have "serve_write E a i None L2 = (True, L')"
          using run \<open>a_readable a\<close> f(1) Some acc True by (simp add: serve_fd_def)
        then have "sound (l_srv L2) (l_srv L')" by (rule serve_write_sound [OF inv, rotated]) simp
        then show ?thesis using sound_trans [OF sound_trans [OF e accept_client_sound [OF ok f(2) a1 a(2) r]]] by blast
      qed
    qed
  next
    fix c cl L1 assume f: "find_client i L = Some (Some c, L1)" "loop_inv E L1" "h_clnts (l_srv L1) c = Some cl"
    note e = find_client_sound [OF L f(1)]
    obtain here k L2 where inp: "serve_input E a c fuel L1 = Some (here, k, L2)"
      using run True f(1) by (auto simp: serve_fd_def split: option.splits)
    have t: "told_input E a c fuel (l_srv L1)" using told True f(1) by (simp add: told_fd_def)
    have recv: "length bs \<le> RECVBUFLEN" if "a_recv a RECVBUFLEN = Some bs" for bs using a that by (simp add: answers_ok_def)
    have L2: "loop_inv E L2 \<and> (here \<longrightarrow> h_clnts (l_srv L2) c \<noteq> None)"
      by (rule serve_input_inv [OF env(1) f(2,3) recv inp])
    have k: "k" if here using inp that f(3) by (auto simp: serve_input_def Let_def split: if_splits prod.splits)
    show ?thesis
    proof (cases here)
      case False
      then have "serve_input E a c fuel L1 = Some (False, True, L')" using inp run True f(1) by (simp add: serve_fd_def)
      from serve_input_sound [OF env ok f(2,3) recv this t] show ?thesis by (rule sound_trans [OF e])
    next
      case True
      have i: "serve_input E a c fuel L1 = Some (True, True, L2)" using inp True k by simp
      have "serve_write E a i (Some c) L2 = (True, L')"
        using inp run \<open>a_readable a\<close> True f(1) by (simp add: serve_fd_def)
      then have w: "sound (l_srv L2) (l_srv L')" by (rule serve_write_sound [rotated 2]) (use L2 True in auto)
      show ?thesis by (rule sound_trans [OF sound_trans [OF e serve_input_sound [OF env ok f(2,3) recv i t]] w])
    qed
  qed
qed

lemma refresh_one_sound:
  assumes L: "loop_inv E L"
  shows "sound (l_srv L) (l_srv (refresh_one i L))"
proof (cases "i \<in> l_rfds L \<and> find_client i L \<noteq> None")
  case True
  obtain r L1 where f: "find_client i L = Some (r, L1)" using True by auto
  have c: "h_clnts (l_srv L1) c \<noteq> None" if "r = Some c" for c
    by (rule find_client_cases [OF L, of i]) (use f that in auto)
  show ?thesis
    using find_client_sound [OF L f] f c True by (auto simp: refresh_one_def split: option.splits)
next
  case False
  have "\<not> healthy (l_srv L)" if "find_client i L = None"
    by (rule table_search_cases [OF srv_inv_parts(1) [OF loop_inv_inv [OF L]], of i])
      (use that in \<open>auto simp: find_client_def healthy_def\<close>)
  then show ?thesis using False by (auto simp: refresh_one_def sound_def fault_loop_def fault_def split: option.split)
qed

lemma refresh_writers_sound:
  assumes L: "loop_inv E L"
  shows "sound (l_srv L) (l_srv (refresh_writers L))"
proof -
  have "loop_inv E L \<Longrightarrow> sound (l_srv L) (l_srv (fold refresh_one is L))" for "is"
  proof (induction "is" arbitrary: L)
    case (Cons i "is")
    have "loop_inv E (refresh_one i L)" by (rule refresh_one_inv [OF Cons.prems])
    then show ?case using sound_trans [OF refresh_one_sound [OF Cons.prems] Cons.IH] by simp
  qed simp
  then show ?thesis using L by (simp add: refresh_writers_def)
qed

section \<open>Runs of the server\<close>

text \<open>The states of \<open>attended\<close> that are reached with descriptors that fit in the sets of \<^verbatim>\<open>select\<close>.\<close>

inductive steady :: "'j env \<Rightarrow> dime_loop \<Rightarrow> bool" for E :: "'j env" where
  start: "\<lbrakk>dime_server_init ok = Some L; distinct (map fst fds); \<forall>fd \<in> fst ` set fds. 0 \<le> fd \<and> fd < FD_SETSIZE;
    loop_start listens (L\<lparr>l_fds := fds\<rparr>) = (True, L0)\<rbrakk> \<Longrightarrow> steady E L0"
| serve: "\<lbrakk>steady E L; a_readable a \<longrightarrow> i \<in> l_rfds L; a_writable a \<longrightarrow> i \<in> l_wfds L; answers_ok a L;
    a_accept a < FD_SETSIZE; serve_fd E a fuel i L = Some (True, L'); told_fd E a fuel i L\<rbrakk> \<Longrightarrow> steady E L'"
| refresh: "steady E L \<Longrightarrow> steady E (refresh_writers L)"

lemma steady_attended: "steady E L \<Longrightarrow> \<exists>evs. attended E evs L"
proof (induction rule: steady.induct)
  case (start ok L fds ls L0)
  then have "\<forall>fd \<in> fst ` set fds. 0 \<le> fd \<and> fd < 2 ^ 31" by (auto simp: FD_SETSIZE_def)
  then show ?case using attended.start [OF start(1,2) _ start(4)] by blast
qed (blast intro: attended.intros)+

lemma steady_reachable: "steady E L \<Longrightarrow> reachable E L"
  using steady_attended attended_reachable by blast

lemma start_healthy:
  assumes i: "dime_server_init ok = Some L" and fds: "\<forall>fd \<in> fst ` set fds. fd < FD_SETSIZE"
  shows "healthy (l_srv (watch_all (L\<lparr>l_fds := fds\<rparr>)))"
proof -
  have f: "\<forall>fd \<in> set is. fd < FD_SETSIZE \<Longrightarrow> l_srv (fold watch is L') = l_srv L'" for "is" L'
    by (induction "is" arbitrary: L') (simp_all add: watch_def)
  have srv: "l_srv (watch_all (L\<lparr>l_fds := fds\<rparr>)) = l_srv L" using f [of "map fst fds"] fds by (simp add: watch_all_def)
  have "counted (l_srv L)" using start_quiet(2) [OF i, of fds] srv by simp
  moreover obtain t u where t: "dime_table_init (ok 0) cmp_fd hash_fd = Some t" "dime_table_init (ok 1) cmp_name hash_name = Some u"
    and L: "h_fd2clnt (l_srv L) = t" "h_name2clnt (l_srv L) = u" "\<not> h_fault (l_srv L)"
    using i by (auto simp: dime_server_init_def split: option.splits if_splits)
  have "table_live t" by (rule dime_table_init_ok(2) [OF _ t(1)]) (simp add: cmp_fd_eq)
  moreover have "table_live u" by (rule dime_table_init_ok(2) [OF _ t(2)]) (simp add: cmp_name_eq)
  ultimately show ?thesis by (simp add: srv healthy_def L)
qed

lemma steady_healthy:
  assumes env: "env_ok E" "json_arrays E" and ok: "\<And>t i. e_ok E t i"
  shows "steady E L \<Longrightarrow> healthy (l_srv L)"
proof (induction rule: steady.induct)
  case (start ok L fds ls L0)
  then have "healthy (l_srv (watch_all (L\<lparr>l_fds := fds\<rparr>)))" by (intro start_healthy) auto
  then show ?case using start(4) by (simp add: loop_start_go)
next
  case (serve L a i fuel L')
  have "loop_inv E L" using reachable_loop_inv [OF env(1) steady_reachable [OF serve(1)]] .
  then show ?case using serve_fd_sound [OF env ok _ serve(4-7)] serve.IH by (simp add: sound_def)
next
  case (refresh L)
  have "loop_inv E L" using reachable_loop_inv [OF env(1) steady_reachable [OF refresh(1)]] .
  then show ?case using refresh_writers_sound refresh.IH by (auto simp: sound_def)
qed

end
