(* ===== verification/Memory_Props.thy ===== *)
theory Memory_Props
  imports Memory_Run Network_Props
begin

text \<open>
  The heap of the server is well-typed in every run: every pointer that it stores leads to an object
  of its kind that is still there, and no operation has followed any other.
\<close>

text \<open>
  C2. Memory safety and well-typed pointers.  As long as the loop runs, when allocations succeed,
  descriptors fit in the sets of \<^verbatim>\<open>select\<close>, no \<^verbatim>\<open>send\<close> or \<^verbatim>\<open>broadcast\<close> fails while one of its recipients
  waits, and at most \<open>2 ^ 40\<close> objects have been created, no object that was freed has been accessed, no
  null pointer followed, no set of descriptors overrun, and no search made that never ends.  Every pointer in the tables, in the
  groups of a client, in the members of a group and in the queues leads to an object of that kind that is
  still in memory, every group is found under its name and every client under its descriptor, and both
  tables have a free slot, so that the next search ends too.  (The text of the last error has a flag of its
  own, \<open>h_overrun\<close>; the messages of \<open>socket_pop_out_of_bounds_iff\<close> and the addresses of
  \<open>client_addr_spec\<close> that are read out of bounds end the loop in the model.)
\<close>

theorem server_memory_safe:
  assumes "env_ok E" and "json_arrays E" and "\<And>t i. e_ok E t i" and "steady E L" and "s = l_srv L"
    and "h_next s \<le> 2 ^ 40"
  shows "\<not> h_fault s \<and> table_live (h_fd2clnt s) \<and> table_live (h_name2clnt s) \<and>
    (\<forall>c \<in> ran (table_map (h_fd2clnt s)). h_clnts s c \<noteq> None) \<and>
    (\<forall>g \<in> ran (table_map (h_name2clnt s)). h_groups s g \<noteq> None) \<and>
    (\<forall>c cl. h_clnts s c = Some cl \<longrightarrow>
       table_map (h_fd2clnt s) (c_fd cl) = Some c \<and> (\<forall>g \<in> set (c_groups cl). h_groups s g \<noteq> None) \<and>
       (\<forall>m \<in> set (queue_of s c). h_msgs s m \<noteq> None)) \<and>
    (\<forall>g gr. h_groups s g = Some gr \<longrightarrow>
       table_map (h_name2clnt s) (g_name gr) = Some g \<and> (\<forall>c \<in> set (g_clnts gr). h_clnts s c \<noteq> None))"
proof (intro conjI)
  have h: "healthy s" using steady_healthy [OF assms(1-4)] assms(5) by simp
  then show "\<not> h_fault s" "table_live (h_fd2clnt s)" "table_live (h_name2clnt s)"
    using assms(6) by (simp_all add: healthy_def MANY_def)
  have inv: "srv_inv s"
    using reachable_loop_inv [OF assms(1) steady_reachable [OF assms(4)]] assms(5) loop_inv_inv by blast
  obtain X where X: "refs_leak X s" using h by (auto simp: healthy_def counted_def)
  show "\<forall>c \<in> ran (table_map (h_fd2clnt s)). h_clnts s c \<noteq> None"
    using srv_inv_parts(3) [OF inv] by (auto simp: ran_def)
  show "\<forall>g \<in> ran (table_map (h_name2clnt s)). h_groups s g \<noteq> None"
    using srv_inv_parts(4) [OF inv] by (auto simp: ran_def group_name_def)
  have groups: "h_groups s g \<noteq> None" if "h_clnts s c = Some cl" "g \<in> set (c_groups cl)" for c cl g
    by (rule client_groups_exist [OF inv that]) simp
  show "\<forall>c cl. h_clnts s c = Some cl \<longrightarrow>
      table_map (h_fd2clnt s) (c_fd cl) = Some c \<and> (\<forall>g \<in> set (c_groups cl). h_groups s g \<noteq> None) \<and>
      (\<forall>m \<in> set (queue_of s c). h_msgs s m \<noteq> None)"
    using srv_inv_parts(3) [OF inv] groups queued_exists [OF X] by blast
  show "\<forall>g gr. h_groups s g = Some gr \<longrightarrow>
      table_map (h_name2clnt s) (g_name gr) = Some g \<and> (\<forall>c \<in> set (g_clnts gr). h_clnts s c \<noteq> None)"
  proof (intro allI impI conjI ballI)
    fix g gr assume g: "h_groups s g = Some gr"
    then show "table_map (h_name2clnt s) (g_name gr) = Some g" using srv_inv_parts(4) [OF inv] by (simp add: group_name_def)
    fix c assume "c \<in> set (g_clnts gr)"
    then have "has_group s c g" using srv_inv_parts(5) [OF inv, of c g] g by (simp add: member_def)
    then show "h_clnts s c \<noteq> None" by (auto simp: has_group_def)
  qed
qed

text \<open>The server that has just accepted its first client.\<close>

theorem server_memory_safe_witness:
  "\<exists>L c cl. steady demo_env L \<and> h_clnts (l_srv L) = [c \<mapsto> cl] \<and> table_map (h_fd2clnt (l_srv L)) 5 = Some c \<and>
     \<not> h_fault (l_srv L)"
proof -
  obtain L c cl L1 where f: "find_client 4 first_loop = Some (None, L1)" "answers_ok accept_answers first_loop"
    and L: "serve_fd demo_env accept_answers 0 4 first_loop = Some (True, L)" "h_clnts (l_srv L) = [c \<mapsto> cl]" "c_fd cl = 5"
      "h_next (l_srv L) = 1"
    by (rule accepted_turn)
  have i: "dime_server_init (\<lambda>_. True) = Some (the (dime_server_init (\<lambda>_. True)))" using server_init_succeeds by auto
  have "steady demo_env first_loop" unfolding first_loop_def
    by (rule steady.start [OF i, of "[(4, DIME_TCP)]" "\<lambda>_. True"]) (simp_all add: FD_SETSIZE_def loop_start_go)
  then have a: "steady demo_env L"
    by (rule steady.serve [OF _ _ _ f(2) _ L(1)])
      (use f(1) first_loop(3) in \<open>simp_all add: accept_answers_def told_fd_def FD_SETSIZE_def\<close>)
  have "h_next (l_srv L) \<le> 2 ^ 40" using L(4) by simp
  note m = server_memory_safe [OF demo_env(1-3) a refl this]
  have "h_clnts (l_srv L) c = Some cl" using L(2) by simp
  then have "table_map (h_fd2clnt (l_srv L)) 5 = Some c" using m L(3) by metis
  then show ?thesis using m a L(2) by (intro exI [of _ L] exI [of _ c] exI [of _ cl]) (simp only: simp_thms)
qed

end
