(* ===== verification/Log_Def.thy ===== *)
theory Log_Def
  imports Addr_Def
begin

text \<open>
  \<^verbatim>\<open>server/log.c\<close>: a line of the log.  The time is what \<^verbatim>\<open>localtime\<close> gives, null when the year does
  not fit; the message is what the format and its arguments print.
\<close>

section \<open>The time\<close>

text \<open>The fields of \<^verbatim>\<open>struct tm\<close> that are printed; \<open>tm_year\<close> counts from 1900, \<open>tm_gmtoff\<close> is in seconds.\<close>

record tm =
  tm_wday :: nat
  tm_mday :: nat
  tm_mon :: nat
  tm_year :: int
  tm_hour :: nat
  tm_min :: nat
  tm_sec :: nat
  tm_gmtoff :: int

definition DAYS :: "string list" where
  "DAYS = [''Sun'', ''Mon'', ''Tue'', ''Wed'', ''Thu'', ''Fri'', ''Sat'']"

definition MONTHS :: "string list" where
  "MONTHS = [''Jan'', ''Feb'', ''Mar'', ''Apr'', ''May'', ''Jun'', ''Jul'', ''Aug'', ''Sep'', ''Oct'', ''Nov'', ''Dec'']"

definition two_digits :: "nat \<Rightarrow> byte list" where
  "two_digits n = (if n < 10 then 48 # dec_nat n else dec_nat n)"

text \<open>The conversions \<^verbatim>\<open>%a\<close> and \<^verbatim>\<open>%b\<close> in the C locale, and \<^verbatim>\<open>%z\<close>.\<close>

definition name_of :: "string list \<Rightarrow> nat \<Rightarrow> byte list" where
  "name_of names i = (if i < length names then str_bytes (names ! i) else [63])"

definition zone_text :: "int \<Rightarrow> byte list" where
  "zone_text off =
     (let m = nat (\<bar>off\<bar> div 60)
      in (if off < 0 then 45 else 43) # two_digits (m div 60) @ two_digits (m mod 60))"

text \<open>The format \<^verbatim>\<open>"%a, %d %b %Y %T %z"\<close>.\<close>

definition time_text :: "tm \<Rightarrow> byte list" where
  "time_text t =
     name_of DAYS (tm_wday t) @ [44, 32] @ two_digits (tm_mday t) @ [32] @ name_of MONTHS (tm_mon t) @ [32] @
     dec_int (tm_year t + 1900) @ [32] @
     two_digits (tm_hour t) @ [58] @ two_digits (tm_min t) @ [58] @ two_digits (tm_sec t) @ [32] @
     zone_text (tm_gmtoff t)"

text \<open>
  \<^verbatim>\<open>strftime\<close> into a buffer of \<open>siz\<close> bytes; \<open>None\<close> when the text and its NUL do not fit, which leaves
  the buffer in an unspecified state.
\<close>

definition strftime :: "nat \<Rightarrow> tm \<Rightarrow> byte list option" where
  "strftime siz t = (if length (time_text t) < siz then Some (time_text t) else None)"

section \<open>A line\<close>

text \<open>\<open>None\<close> when the code prints an array that nothing has been written to, or follows a null pointer.\<close>

definition dime_print :: "byte list \<Rightarrow> tm option \<Rightarrow> byte list \<Rightarrow> byte list option" where
  "dime_print typestr time msg =
     (case time of
        None \<Rightarrow> None
      | Some t \<Rightarrow>
          (case strftime 32 t of
             None \<Rightarrow> None
           | Some timestr \<Rightarrow>
               (let outstr = snprintf 161 msg
                in Some ([91] @ typestr @ [32] @ timestr @ [93, 32] @ outstr @ [10]))))"

text \<open>The type of a line in a colour of the terminal.\<close>

definition coloured :: "byte \<Rightarrow> string \<Rightarrow> byte list" where
  "coloured digit name = [27, 91, 51, digit, 109] @ str_bytes name @ [27, 91, 48, 109]"

definition dime_info :: "tm option \<Rightarrow> byte list \<Rightarrow> byte list option" where
  "dime_info = dime_print (coloured 52 ''INFO'')"

definition dime_warn :: "tm option \<Rightarrow> byte list \<Rightarrow> byte list option" where
  "dime_warn = dime_print (coloured 51 ''WARN'')"

definition dime_err :: "tm option \<Rightarrow> byte list \<Rightarrow> byte list option" where
  "dime_err = dime_print (coloured 49 ''ERR '')"

end
