(* ===== verification/Log_Props.thy ===== *)
theory Log_Props
  imports Log_Def Addr_Props
begin

text \<open>
  A line of the log is complete for every time in the years from 1000 to 9999, whose text fills its
  array exactly, and the array is too small from the year 10000 on.
\<close>

definition valid_tm :: "tm \<Rightarrow> bool" where
  "valid_tm t \<longleftrightarrow> tm_wday t < 7 \<and> tm_mday t < 32 \<and> tm_mon t < 12 \<and> tm_hour t < 24 \<and> tm_min t < 60 \<and>
     tm_sec t \<le> 60 \<and> \<bar>tm_gmtoff t\<bar> < 24 * 60 * 60"

lemma length_two_digits: "n < 100 \<Longrightarrow> length (two_digits n) = 2"
proof -
  assume "n < 100"
  then have "n div 10 < 10" by simp
  then show ?thesis by (simp add: two_digits_def dec_nat.simps [of n] dec_nat.simps [of "n div 10"])
qed

lemma length_names:
  "i < 7 \<Longrightarrow> length (name_of DAYS i) = 3" "i < 12 \<Longrightarrow> length (name_of MONTHS i) = 3"
proof -
  have "\<forall>s \<in> set DAYS. length s = 3" "\<forall>s \<in> set MONTHS. length s = 3" by (simp_all add: DAYS_def MONTHS_def)
  moreover have "length DAYS = 7" "length MONTHS = 12" by (simp_all add: DAYS_def MONTHS_def)
  ultimately show "i < 7 \<Longrightarrow> length (name_of DAYS i) = 3" "i < 12 \<Longrightarrow> length (name_of MONTHS i) = 3"
    by (simp_all add: name_of_def str_bytes_def)
qed

lemma length_dec_nat_ge: "10 ^ k \<le> n \<Longrightarrow> k < length (dec_nat n)"
proof (induction n arbitrary: k rule: dec_nat.induct)
  case (1 n)
  show ?case
  proof (cases k)
    case 0
    then show ?thesis by (simp add: dec_nat.simps [of n])
  next
    case (Suc j)
    then have n: "10 * 10 ^ j \<le> n" using 1(2) by simp
    have "1 \<le> (10 :: nat) ^ j" by simp
    then have "10 * 1 \<le> n" using n by (meson le_trans mult_le_mono2)
    then have big: "\<not> n < 10" "10 ^ j \<le> n div 10" using n by (auto simp: less_eq_div_iff_mult_less_eq mult.commute)
    then show ?thesis using 1(1) [OF big] Suc by (simp add: dec_nat.simps [of n])
  qed
qed

lemma length_zone: "\<bar>off\<bar> < 24 * 60 * 60 \<Longrightarrow> length (zone_text off) = 5"
proof -
  assume "\<bar>off\<bar> < 24 * 60 * 60"
  then have "nat (\<bar>off\<bar> div 60) div 60 < 100" by auto
  moreover have "nat (\<bar>off\<bar> div 60) mod 60 < 100" by (rule less_trans [of _ 60]) simp_all
  ultimately show ?thesis by (simp add: zone_text_def Let_def length_two_digits)
qed

lemma length_time_text:
  assumes "valid_tm t"
  shows "length (time_text t) = 27 + length (dec_int (tm_year t + 1900))"
  using assms length_names [of "tm_wday t"] length_names [of "tm_mon t"] length_zone [of "tm_gmtoff t"]
    length_two_digits [of "tm_mday t"] length_two_digits [of "tm_hour t"] length_two_digits [of "tm_min t"]
    length_two_digits [of "tm_sec t"]
  by (simp add: time_text_def valid_tm_def)

text \<open>
  \<^verbatim>\<open>dime_info\<close> and the like print one line: the type, the time, and the first 160 bytes of the
  message.  The text of a time in the years from 1000 to 9999 with its NUL fills the array \<^verbatim>\<open>timestr\<close>
  exactly; from the year 10000 on it does not fit, and what is printed is unspecified.
\<close>

theorem log_line:
  assumes "valid_tm t"
  shows "(1000 \<le> tm_year t + 1900 \<and> tm_year t + 1900 < 10000 \<longrightarrow>
      length (time_text t) = 31 \<and>
      dime_print typestr (Some t) msg = Some ([91] @ typestr @ [32] @ time_text t @ [93, 32] @ take 160 msg @ [10])) \<and>
    (10000 \<le> tm_year t + 1900 \<longrightarrow> dime_print typestr (Some t) msg = None)"
proof (intro conjI impI)
  assume y: "1000 \<le> tm_year t + 1900 \<and> tm_year t + 1900 < 10000"
  have "length (dec_nat (nat (tm_year t + 1900))) \<le> 4" using y by (intro length_dec_nat) auto
  moreover have "3 < length (dec_nat (nat (tm_year t + 1900)))" using y by (intro length_dec_nat_ge) auto
  ultimately show "length (time_text t) = 31"
    using length_time_text [OF assms] y by (simp add: dec_int_def)
  then show "dime_print typestr (Some t) msg = Some ([91] @ typestr @ [32] @ time_text t @ [93, 32] @ take 160 msg @ [10])"
    by (simp add: dime_print_def strftime_def snprintf_def)
next
  assume y: "10000 \<le> tm_year t + 1900"
  have "4 < length (dec_nat (nat (tm_year t + 1900)))" using y by (intro length_dec_nat_ge) auto
  then show "dime_print typestr (Some t) msg = None"
    using length_time_text [OF assms] y by (simp add: dime_print_def strftime_def dec_int_def)
qed

theorem log_line_witness:
  "dime_print [] (Some \<lparr>tm_wday = 4, tm_mday = 7, tm_mon = 2, tm_year = 124, tm_hour = 9, tm_min = 5, tm_sec = 0, tm_gmtoff = -18000\<rparr>)
     (str_bytes ''up'') = Some (str_bytes ''[ Thu, 07 Mar 2024 09:05:00 -0500] up'' @ [10])"
proof -
  let ?t = "\<lparr>tm_wday = 4, tm_mday = 7, tm_mon = 2, tm_year = 124, tm_hour = 9, tm_min = 5, tm_sec = 0, tm_gmtoff = -18000\<rparr>"
  have "valid_tm ?t" by (simp add: valid_tm_def)
  moreover have "time_text ?t = str_bytes ''Thu, 07 Mar 2024 09:05:00 -0500''"
    by (simp add: time_text_def name_of_def DAYS_def MONTHS_def two_digits_def zone_text_def dec_int_def dec_nat.simps str_bytes_def)
  ultimately show ?thesis
    using log_line [of ?t "[]" "str_bytes ''up''"] by (simp add: str_bytes_def)
qed

end
