(* ===== verification/Spec2Isabelle.thy ===== *)
theory Spec2Isabelle
  imports Deque Ringbuffer Table_Map Socket_Props Message_Sync Message_Bcast Client_Life Server_Props Loop_Props
    Websocket_Props Admin_Props Main_Props Ev_Props Relay_Props Matlab_Props
    Network_Props Memory_Props Log_Props
begin

text \<open>
  Verification development of the DiME message server, \<^verbatim>\<open>src/server/\<close>: a C program that relays
  messages, each a JSON value with binary data, between the clients that have joined groups by name.

  \<^bold>\<open>The program.\<close>  \<^verbatim>\<open>main.c\<close> reads the endpoints from the command line, lets \<^verbatim>\<open>server.c\<close> open a listening
  socket for each of them, and enters the event loop.  The loop accepts connections, receives bytes
  into the in-buffer of a socket (\<^verbatim>\<open>socket.c\<close>, on top of the byte ring of \<^verbatim>\<open>ringbuffer.c\<close>), takes
  complete messages off it, hands each to the command that it names (\<^verbatim>\<open>client.c\<close>), and sends what the
  commands have put into out-buffers.  Two hash tables (\<^verbatim>\<open>table.c\<close>) find a client by its descriptor and
  a group by its name; a message that is sent to a group waits in the queue (\<^verbatim>\<open>deque.c\<close>) of every
  member, with a count of the queues it is in, until the member asks for it with \<^verbatim>\<open>sync\<close>.

  \<^bold>\<open>The theories\<close>, from the bottom up; those called \<open>_Def\<close> translate the code.

  \<^item> \<open>Dime_Prelude\<close>: \<^verbatim>\<open>size_t\<close> with its wrap-around, allocation, circular arrays.  \<open>Interfaces\<close>: the
    locales \<open>message_queue\<close>, \<open>byte_stream\<close> and \<open>finite_table\<close>, which say what the components above rely on.
  \<^item> \<open>Deque\<close> (\<^verbatim>\<open>deque.c\<close>) and \<open>Ringbuffer\<close> (\<^verbatim>\<open>ringbuffer.c\<close>): every operation, refined to lists; they
    interpret \<open>message_queue\<close> and \<open>byte_stream\<close>.
  \<^item> \<open>Table_Def\<close> (\<^verbatim>\<open>table.c\<close>), on the probe sequence of \<open>Probing\<close>; \<open>Table\<close> has the invariant and the finite
    map it stands for, \<open>Table_Rehash\<close> and \<open>Table_Reloc\<close> the recursive rehash in place, \<open>Table_Ops\<close>,
    \<open>Table_Insert\<close> and \<open>Table_Map\<close> the operations, the interpretation of \<open>finite_table\<close> and the properties.
  \<^item> \<open>Socket_Def\<close> (\<^verbatim>\<open>socket.c\<close> without the upgrade): \<open>Socket\<close>, \<open>Socket_Stream\<close>, \<open>Socket_Wire\<close> and
    \<open>Socket_Props\<close> prove that whole conversations survive any cutting into pieces, that popping ends on
    every input, and exactly when the parser leaves its block.
  \<^item> \<open>Tls_Def\<close> (\<^verbatim>\<open>dime_socket_init_tls\<close>, with a loop that may not end as a partial function) and \<open>Tls_Props\<close>:
    it ends when every \<^verbatim>\<open>send\<close> fails or progresses, and when TLS is on afterwards.
  \<^item> \<open>Websocket_Def\<close> (\<^verbatim>\<open>dime_socket_init_ws\<close>) and \<open>Websocket_Props\<close>: which upgrade requests
    are accepted, and that the answer is that of RFC 6455; the code compares names and values with regard to
    case, which the RFC does not.
  \<^item> \<open>Addr_Def\<close> (the printed address of a client, \<^verbatim>\<open>clnt->addr\<close>, with the \<^verbatim>\<open>inet_ntop\<close> and \<^verbatim>\<open>snprintf\<close> that it
    rests on) and \<open>Addr_Props\<close>: which addresses fit.  \<open>Log_Def\<close> and \<open>Log_Props\<close>: the lines of \<^verbatim>\<open>log.c\<close>.
  \<^item> \<open>Client_Def\<close> (the state of the server, \<^verbatim>\<open>join\<close>, \<^verbatim>\<open>leave\<close>) and \<open>Message_Def\<close> (\<^verbatim>\<open>send\<close>, \<^verbatim>\<open>broadcast\<close>,
    \<^verbatim>\<open>sync\<close>, \<^verbatim>\<open>wait\<close>, \<^verbatim>\<open>devices\<close>, \<^verbatim>\<open>handshake\<close>, \<^verbatim>\<open>dime_client_init\<close>, \<^verbatim>\<open>dime_client_destroy\<close>).  \<open>Client_Inv\<close>
    has the invariant \<open>srv_inv\<close> of the stores, \<open>Message_Refs\<close> the invariants \<open>refs_leak\<close> and \<open>refs_ok\<close> of the counts;
    \<open>Client_Group\<close>, \<open>Message_Send\<close>, \<open>Message_Bcast\<close>, \<open>Message_Sync\<close>, \<open>Client_Life\<close>, \<open>Client_Close\<close>,
    \<open>Client_Success\<close> and \<open>Command_Inv\<close> the lemmas on every path, \<open>Message_Told\<close> what a \<^verbatim>\<open>send\<close> or \<^verbatim>\<open>broadcast\<close>
    pushes on which socket; \<open>Client_Props\<close> the properties.
  \<^item> \<open>Relay\<close> is the specification of all commands: a relay with members, inboxes and waiting clients, and
    one step for each message; \<open>granted\<close> says which requests make sense, \<open>plenty\<close> when there are resources for
    any.  \<open>Relay_Props\<close> shows that the server refines it.  \<open>Observation\<close> is the
    locale of the views of the state that joining and leaving do not change; it is interpreted for the
    input side of the clients, for their mailboxes and for the messages.
  \<^item> \<open>Network\<close> adds to the relay that clients connect and disconnect, as a transition system with labels:
    \<open>turn_events\<close> lists what happens in a turn of the select loop, read off the bytes received, and the turn is
    the run of the network with these labels; \<open>Network_Props\<close> has the refinement for whole runs, from the
    start on.
  \<^item> \<open>Memory\<close>, \<open>Memory_Run\<close> and \<open>Memory_Props\<close>: every pointer of the server is valid in such a run, and both
    tables keep a free slot, so that no search hangs.
  \<^item> \<open>Server_Def\<close> (\<^verbatim>\<open>server.c\<close>: \<^verbatim>\<open>dime_server_init\<close> and the select loop): \<open>Server_Inv\<close>, \<open>Server_Close\<close> and
    \<open>Server_Loop\<close> show what each turn keeps; \<open>Server_Demo\<close> is a concrete server for the witnesses;
    \<open>Server_Props\<close> and \<open>Loop_Props\<close> have the properties.
  \<^item> \<open>Admin_Def\<close> and \<open>Admin_Props\<close>: \<^verbatim>\<open>dime_server_add\<close> and \<^verbatim>\<open>dime_server_destroy\<close>.  \<open>Main_Def\<close> and
    \<open>Main_Props\<close>: \<^verbatim>\<open>main.c\<close>.  \<open>Ev_Def\<close> and \<open>Ev_Props\<close>: the callbacks of the build with libev.  Both builds
    share the model of the socket, whose push starts the write watcher when the socket has a loop
    (\<open>s_loop\<close>, \<open>s_wwatcher\<close>); in the build with \<^verbatim>\<open>select\<close> none has.
  \<^item> \<open>Matlab_Def\<close> and \<open>Matlab_Props\<close>: the functions in C of the MATLAB client, \<^verbatim>\<open>src/client/matlab\<close>.

  \<^bold>\<open>State.\<close>  A C struct is a record with the fields of the struct, an array with its used length is the
  list of its used elements and the capacity, a ring is its block of cells with the two indices.  Objects
  that are shared (clients, groups, messages) live in stores \<open>h_clnts\<close>, \<open>h_groups\<close>, \<open>h_msgs\<close>
  from addresses to records; freeing one removes it, and following a pointer to a removed one sets
  \<open>h_fault\<close>.  The theorems say where \<open>h_fault\<close> stays unset; \<open>server_memory_safe\<close> says it for
  whole runs.  Reading outside of a block is a result of
  its own (\<open>Pop_Out_Of_Bounds\<close>, \<open>Overrun\<close>).

  \<^bold>\<open>The environment.\<close>  What the program calls but does not define is a parameter: the allocator and
  jansson (\<open>env\<close>, whose answers depend on the time \<open>h_tick\<close> of the call, so that they may differ from
  call to call), \<^verbatim>\<open>recv\<close>, \<^verbatim>\<open>send\<close>, \<^verbatim>\<open>accept\<close> with the address of
  the peer, \<^verbatim>\<open>select\<close>, and what an array on the stack holds at first (\<open>answers\<close>), the HTTP side
  with SHA-1 and Base64 (\<open>ws_env\<close>), \<^verbatim>\<open>socket\<close>, \<^verbatim>\<open>setsockopt\<close> and \<^verbatim>\<open>bind\<close> (\<open>add_env\<close>).  The hypotheses on
  them (\<open>env_ok\<close>, \<open>json_arrays\<close>, \<open>answers_ok\<close>) are what their documentation promises; \<open>ample\<close> and the
  bounds by \<open>ALLOC_MAX\<close>, \<open>2 ^ 47\<close> bytes, are the hypotheses of the theorems that a command succeeds.

  \<^bold>\<open>Loops.\<close>  A loop over a list is structural recursion.  The loops that the data do not bound have fuel,
  and \<open>None\<close> when it is used up: the probing loops and the rehash of the table, for which the fuel in
  the definitions is proved enough on every table with a free slot; \<open>dime_socket_unwrap\<close>, one turn per
  byte at most; \<open>message_loop\<close>, one turn per twelve bytes received, and more fuel gives the same result.
  Three loops really need not end, and that is proved for every fuel: the search of an absent key in a
  table without a free slot, the reading of an HTTP header from a peer that has gone, and the
  libev callback after a malformed message.

  \<^bold>\<open>Invariants across components.\<close>  \<open>loop_inv\<close> holds in every reachable state of the select loop and \<open>ev_inv\<close>
  in every one of the libev build, whatever clients send, whatever the system answers and whichever
  allocations fail: the tables, the clients and the groups agree, and sockets and queues are
  well-formed.  \<open>refs_ok\<close>, that the count of a message is the number of queues that hold it, is kept by
  every command except when telling a waiting recipient fails; the theorem \<open>untold_recipient_dangles\<close>
  shows what happens then.  A client that disconnects with a full queue leaves counts behind that nobody
  takes back.  \<open>refs_leak X\<close> allows for these, the count of a message being the number of its queues and of
  its lost references \<open>X\<close>; \<open>refs_ok\<close> is the case without any.  For some \<open>X\<close> it holds after every run
  of \<open>attended\<close>, in which no
  \<^verbatim>\<open>send\<close> or \<^verbatim>\<open>broadcast\<close> fails while one of its recipients waits.

  \<^bold>\<open>Not modelled.\<close>
  \<^item> The calls of the log: they change no state, and the formats are those of the program.
  \<^item> OpenSSL: its answers are parameters of \<open>dime_socket_init_tls\<close>.  The code that would create a context is
    commented out, so \<open>h_tlsctx\<close> is never set, which is part of \<open>srv_inv\<close>; the freed or leaked contexts
    of failed handshakes are not in the state.
  \<^item> zlib: no code enables it; the flag of the socket is there.
  \<^item> The poll loop inside of \<^verbatim>\<open>#if 0\<close>, the branches for Windows, the handlers of signals and of
    \<^verbatim>\<open>exit\<close> in \<^verbatim>\<open>main.c\<close>.
  \<^item> libev itself: of its watchers the model has which are started.
  \<^item> The functions that only release memory: \<^verbatim>\<open>dime_deque_destroy\<close>, \<^verbatim>\<open>dime_ringbuffer_destroy\<close>,
    \<^verbatim>\<open>dime_table_destroy\<close> and \<^verbatim>\<open>dime_socket_destroy\<close>.
  \<^item> The clients in other languages (MATLAB code, Python, JavaScript) under \<^verbatim>\<open>src/client\<close>, and the garbage
    that \<^verbatim>\<open>malloc\<close> leaves in cells that are never read.
\<close>

end
